(* ===== verification/Prelude.thy ===== *)
theory Prelude
  imports Main "HOL-Library.Word" "HOL-Library.Monad_Syntax"
begin

text \<open>
  Shared material of the development: machine integers of the C sources, C division, a typed
  C heap with \<open>malloc\<close> and \<open>free\<close>, and the generic lemmas on bits, lists and heaps that
  the component theories use.

  \<^item> \<open>uint64_t\<close> is \<open>64 word\<close>, \<open>uint32_t\<close> is \<open>32 word\<close>; a C \<open>int\<close> on which the code does
    no overflowing arithmetic is an \<open>int\<close> with its range written as \<open>c_int\<close>.
  \<^item> A pointer is a \<open>nat\<close>; \<open>NULL\<close> is \<open>0\<close>. A heap of structs of one type is a partial map
    from addresses to structs, so reading through \<open>NULL\<close> or a freed pointer is \<open>None\<close>:
    a function of type \<open>\<dots> \<Rightarrow> \<dots> option\<close> that returns \<open>Some\<close> has made no invalid access.
  \<^item> \<open>malloc\<close> is left to a policy stored in the heap (\<open>policy\<close>), which may depend on what is
    allocated, may reuse freed addresses and may return \<open>NULL\<close>; the bytes of a fresh block are
    unspecified (\<open>junk\<close>). \<open>heap_ok\<close> is the contract of the C standard.
\<close>

unbundle bit_operations_syntax

named_theorems heap_simps \<open>reading and writing cells of a C heap\<close>
named_theorems bit_simps \<open>single bits of flag words\<close>

type_synonym u64 = "64 word"
type_synonym u32 = "32 word"
type_synonym addr = nat

abbreviation (input) NULL :: addr where "NULL \<equiv> 0"

subsection \<open>C integers\<close>

definition INT_MIN :: int where "INT_MIN = - (2 ^ 31)"
definition INT_MAX :: int where "INT_MAX = 2 ^ 31 - 1"

definition c_int :: "int \<Rightarrow> bool" where
  "c_int x \<longleftrightarrow> INT_MIN \<le> x \<and> x \<le> INT_MAX"

text \<open>C division truncates towards zero.\<close>

definition c_div :: "int \<Rightarrow> int \<Rightarrow> int" where
  "c_div a b = sgn a * sgn b * (\<bar>a\<bar> div \<bar>b\<bar>)"

definition c_mod :: "int \<Rightarrow> int \<Rightarrow> int" where
  "c_mod a b = a - b * c_div a b"

lemma c_div_nonneg [simp]: "0 \<le> a \<Longrightarrow> 0 < b \<Longrightarrow> c_div a b = a div b"
  by (cases "a = 0") (auto simp: c_div_def sgn_if)

lemma c_mod_nonneg [simp]: "0 \<le> a \<Longrightarrow> 0 < b \<Longrightarrow> c_mod a b = a mod b"
  by (simp add: c_mod_def minus_mult_div_eq_mod)

subsection \<open>A typed C heap\<close>

record 'n heap =
  cells :: "addr \<rightharpoonup> 'n"
  policy :: "(addr \<rightharpoonup> 'n) \<Rightarrow> addr"
  junk :: "addr \<Rightarrow> 'n"

definition heap_ok :: "'n heap \<Rightarrow> bool" where
  "heap_ok h \<longleftrightarrow> cells h NULL = None \<and>
     (\<forall>c. policy h c = NULL \<or> c (policy h c) = None)"

definition load :: "'n heap \<Rightarrow> addr \<Rightarrow> 'n option" where
  "load h p = (if p = NULL then None else cells h p)"

definition store :: "'n heap \<Rightarrow> addr \<Rightarrow> 'n \<Rightarrow> 'n heap option" where
  "store h p x = (if load h p = None then None else Some (h\<lparr>cells := (cells h)(p \<mapsto> x)\<rparr>))"

text \<open>\<open>p->field = e\<close>: read the struct, write it back with one field changed.\<close>

definition modify :: "'n heap \<Rightarrow> addr \<Rightarrow> ('n \<Rightarrow> 'n) \<Rightarrow> 'n heap option" where
  "modify h p f = do { x \<leftarrow> load h p; store h p (f x) }"

definition malloc :: "'n heap \<Rightarrow> addr \<times> 'n heap" where
  "malloc h = (let a = policy h (cells h) in
     if a = NULL then (NULL, h) else (a, h\<lparr>cells := (cells h)(a \<mapsto> junk h a)\<rparr>))"

text \<open>\<open>free(NULL)\<close> does nothing; freeing an address that is not allocated is undefined.\<close>

definition free :: "'n heap \<Rightarrow> addr \<Rightarrow> 'n heap option" where
  "free h p = (if p = NULL then Some h
     else if cells h p = None then None
     else Some (h\<lparr>cells := (cells h)(p := None)\<rparr>))"

text \<open>The effect of a write and of a release on the cells.\<close>

definition upd :: "'n heap \<Rightarrow> addr \<Rightarrow> 'n \<Rightarrow> 'n heap" where
  "upd h p x = h\<lparr>cells := (cells h)(p \<mapsto> x)\<rparr>"

definition del :: "'n heap \<Rightarrow> addr \<Rightarrow> 'n heap" where
  "del h p = h\<lparr>cells := (cells h)(p := None)\<rparr>"

lemma load_NULL [simp]: "load h NULL = None"
  by (simp add: load_def)

lemma load_Some_NULL [dest]: "load h p = Some x \<Longrightarrow> p \<noteq> NULL"
  by (cases "p = NULL") (simp_all add: load_def)

lemma load_cells: "heap_ok h \<Longrightarrow> load h p = cells h p"
  by (simp add: heap_ok_def load_def)

lemma load_upd [heap_simps]: "load (upd h p x) q = (if q = p \<and> p \<noteq> NULL then Some x else load h q)"
  by (auto simp: load_def upd_def)

lemma load_del [heap_simps]: "load (del h p) q = (if q = p then None else load h q)"
  by (auto simp: load_def del_def)

lemma upd_upd [heap_simps]: "upd (upd h p x) p y = upd h p y"
  by (simp add: upd_def)

lemma dom_cells [heap_simps]:
  "dom (cells (upd h p x)) = insert p (dom (cells h))" "dom (cells (del h p)) = dom (cells h) - {p}"
  by (auto simp: upd_def del_def)

lemma store_eq [heap_simps]: "store h p x = (case load h p of None \<Rightarrow> None | Some _ \<Rightarrow> Some (upd h p x))"
  by (auto simp: store_def upd_def split: option.splits)

lemma modify_eq [heap_simps]:
  "modify h p f = (case load h p of None \<Rightarrow> None | Some x \<Rightarrow> Some (upd h p (f x)))"
  by (auto simp: modify_def store_eq split: option.splits)

lemma free_eq [heap_simps]: "load h p = Some x \<Longrightarrow> free h p = Some (del h p)"
  by (auto simp: free_def load_def del_def split: if_splits)

lemma heap_ok_upd [simp]: "heap_ok h \<Longrightarrow> p \<noteq> NULL \<Longrightarrow> heap_ok (upd h p x)"
  by (simp add: heap_ok_def upd_def)

lemma heap_ok_del [simp]: "heap_ok h \<Longrightarrow> heap_ok (del h p)"
  by (simp add: heap_ok_def del_def)

lemma policy_upd [simp]: "policy (upd h p x) = policy h" "policy (del h p) = policy h"
  by (simp_all add: upd_def del_def)

text \<open>What \<open>malloc\<close> may do: fail, or return a block that was not allocated.\<close>

lemma malloc_cases:
  assumes "heap_ok h" and "malloc h = (a, h')"
  obtains (fail) "a = NULL" "h' = h"
    | (fresh) "a \<noteq> NULL" "load h a = None" "h' = upd h a (junk h a)"
proof (cases "a = NULL")
  case False
  moreover have "a = policy h (cells h)" using assms(2) by (auto simp: malloc_def Let_def split: if_splits)
  ultimately have "cells h a = None" using assms(1) False unfolding heap_ok_def by metis
  with False assms(2) show ?thesis
    by (intro fresh) (auto simp: malloc_def Let_def load_def upd_def split: if_splits)
qed (use assms fail in \<open>auto simp: malloc_def Let_def split: if_splits\<close>)

definition malloc_succeeds :: "'n heap \<Rightarrow> bool" where
  "malloc_succeeds h \<longleftrightarrow> policy h (cells h) \<noteq> NULL"

lemma malloc_succeedsD: "malloc_succeeds h \<Longrightarrow> malloc h = (a, h') \<Longrightarrow> a \<noteq> NULL"
  by (auto simp: malloc_succeeds_def malloc_def Let_def split: if_splits)

text \<open>A first-fit policy on a memory of \<open>n\<close> blocks, used to run the model.\<close>

definition first_fit :: "nat \<Rightarrow> (addr \<rightharpoonup> 'n) \<Rightarrow> addr" where
  "first_fit n c = (case find (\<lambda>a. c a = None) [1..<Suc n] of None \<Rightarrow> NULL | Some a \<Rightarrow> a)"

lemma first_fit_ok: "first_fit n c = NULL \<or> c (first_fit n c) = None"
  by (auto simp: first_fit_def find_Some_iff split: option.splits)

text \<open>A memory in which \<open>malloc\<close> succeeds as long as fewer than \<open>n\<close> blocks are allocated.\<close>

definition capacity :: "'n heap \<Rightarrow> nat \<Rightarrow> bool" where
  "capacity h n \<longleftrightarrow> (\<forall>c. finite (dom c) \<and> card (dom c) < n \<longrightarrow> policy h c \<noteq> NULL)"

lemma capacity_malloc:
  "capacity h n \<Longrightarrow> finite (dom (cells h)) \<Longrightarrow> card (dom (cells h)) < n \<Longrightarrow> malloc_succeeds h"
  by (simp add: capacity_def malloc_succeeds_def)

lemma capacity_upd [simp]: "capacity (upd h p x) n = capacity h n" "capacity (del h p) n = capacity h n"
  by (simp_all add: capacity_def)

lemma first_fit_capacity: "policy h = first_fit n \<Longrightarrow> capacity h n"
  unfolding capacity_def
proof (intro allI impI)
  fix c :: "addr \<rightharpoonup> 'a" assume h: "policy h = first_fit n" and c: "finite (dom c) \<and> card (dom c) < n"
  have "{1..<Suc n} \<subseteq> dom c" if "first_fit n c = NULL"
  proof (cases "find (\<lambda>a. c a = None) [1..<Suc n]")
    case None
    then have "\<not> (\<exists>a. a \<in> set [1..<Suc n] \<and> c a = None)" unfolding find_None_iff .
    then show ?thesis by (auto simp del: upt_Suc)
  next
    case (Some a)
    then have "a \<in> set [1..<Suc n]" by (auto simp: find_Some_iff simp del: upt_Suc)
    with Some that show ?thesis by (simp add: first_fit_def)
  qed
  with c h card_mono [of "dom c" "{1..<Suc n}"] show "policy h c \<noteq> NULL" by auto
qed

subsection \<open>Arithmetic\<close>

lemma div_mod_block:
  assumes "i < (n::nat)"
  shows "(a * n + i) div n = a" and "(a * n + i) mod n = i"
  using assms by simp_all

end
