(* ===== verification/Ffwd_Layout.thy ===== *)
theory Ffwd_Layout
  imports Prelude
begin

text \<open>
  The set-up half of \<open>libffwd/libffwd.c\<close>: reading the machine topology
  (\<open>initialize_core_ordering\<close>), starting the servers (\<open>launch_servers\<close>), placing each
  client thread on a core and giving it a request slot and a response slot
  (\<open>ffwd_thread_create\<close>, \<open>ffwd_bind_main_thread\<close>), and \<open>ffwd_shutdown\<close>.

  The globals of the C file are the record \<open>ffwd_globals\<close>. A run of a function ends in \<open>Inr\<close>
  with the new globals, in \<open>Inl (Exit n)\<close> where the code calls \<open>exit(n)\<close>, or in \<open>Inl Undef\<close>
  where it indexes an array out of range, divides by zero, shifts by a negative amount or
  uses an uninitialised value. What libnuma, the shell commands behind \<open>popen\<close> and
  \<open>mprotect\<close> return are arguments.
\<close>

subsection \<open>Runs that stop early\<close>

datatype stop = Exit int | Undef

definition cbind :: "stop + 'a \<Rightarrow> ('a \<Rightarrow> stop + 'b) \<Rightarrow> stop + 'b" where
  "cbind m f = (case m of Inl e \<Rightarrow> Inl e | Inr x \<Rightarrow> f x)"

definition undef_unless :: "bool \<Rightarrow> stop + unit" where
  "undef_unless b = (if b then Inr () else Inl Undef)"

definition need :: "'a option \<Rightarrow> stop + 'a" where
  "need x = (case x of None \<Rightarrow> Inl Undef | Some v \<Rightarrow> Inr v)"

lemma cbind_Inr [simp]: "cbind (Inr x) f = f x"
  and cbind_Inl [simp]: "cbind (Inl e) f = Inl e"
  by (simp_all add: cbind_def)

lemma cbind_eq_Inr: "cbind m f = Inr y \<longleftrightarrow> (\<exists>x. m = Inr x \<and> f x = Inr y)"
  by (cases m) (auto simp: cbind_def)

lemma undef_unless_eq [simp]: "undef_unless b = Inr u \<longleftrightarrow> b"
  by (simp add: undef_unless_def)

lemma undef_unless_True [simp]: "undef_unless True = Inr ()"
  and undef_unless_False [simp]: "undef_unless False = Inl Undef"
  by (simp_all add: undef_unless_def)

lemma need_simps [simp]: "need (Some v) = Inr v" "need None = Inl Undef"
  by (simp_all add: need_def)

lemma need_eq_Inr [simp]: "need x = Inr v \<longleftrightarrow> x = Some v"
  by (cases x) (auto simp: need_def)

text \<open>\<open>a[i]\<close> with a C \<open>int\<close> index, and \<open>a[i] = v\<close>.\<close>

definition index :: "'a list \<Rightarrow> int \<Rightarrow> 'a option" where
  "index xs i = (if 0 \<le> i \<and> i < int (length xs) then Some (xs ! nat i) else None)"

definition update :: "'a list \<Rightarrow> int \<Rightarrow> 'a \<Rightarrow> 'a list option" where
  "update xs i v = (if 0 \<le> i \<and> i < int (length xs) then Some (xs[nat i := v]) else None)"

lemma index_int [simp]: "index xs (int k) = (if k < length xs then Some (xs ! k) else None)"
  by (simp add: index_def)

subsection \<open>Constants and structures (ffwd.h)\<close>

definition MAX_SOCK :: int where "MAX_SOCK = 4"
definition MAX_NUM_OF_SERVERS :: nat where "MAX_NUM_OF_SERVERS = 4"
definition INDEX_DIFF :: int where "INDEX_DIFF = 2"

text \<open>\<open>NCLIENTS\<close> is fixed at compile time: 7 with \<open>-DT64\<close>, else 15 (macro.h).\<close>

definition NCLIENTS :: "bool \<Rightarrow> nat" where
  "NCLIENTS t64 = (if t64 then 7 else 15)"

record server_args =
  server_core :: int
  arg_chip0 :: addr
  arg_chip1 :: addr
  arg_chip2 :: addr
  arg_chip3 :: addr
  server_response :: "addr list"

text \<open>
  A client context. \<open>request[i]\<close> points into the request page of chip \<open>my_chip\<close> of server
  \<open>i\<close>: it is kept as the base address of that page and the slot number. \<open>server_response[i]\<close>
  is the address of one response block.
\<close>

record ffwd_context =
  ctx_id :: int
  dead :: int
  id_in_chip :: int
  mask :: u64
  ctx_request :: "(addr \<times> int) list"
  ctx_response :: "addr list"
  local_client_flag :: "u64 list"

record ffwd_globals =
  num_of_server_launched :: int
  server_response_set :: "addr list list"
  server_arg :: "server_args option list"
  chip0 :: "addr list"
  chip1 :: "addr list"
  chip2 :: "addr list"
  chip3 :: "addr list"
  active_threads_per_socket :: int
  global_id :: int
  num_sockets :: int
  cores_per_socket :: int
  num_threads :: int
  platform :: "string option"
  cores :: "int option list list"
  finished :: int
  allocs :: nat

definition ffwd_globals0 :: ffwd_globals where
  "ffwd_globals0 = \<lparr> num_of_server_launched = 0, server_response_set = replicate 4 [],
     server_arg = replicate 4 None,
     chip0 = replicate 4 NULL, chip1 = replicate 4 NULL,
     chip2 = replicate 4 NULL, chip3 = replicate 4 NULL,
     active_threads_per_socket = 0, global_id = 0, num_sockets = 0, cores_per_socket = 0,
     num_threads = 0, platform = None, cores = [], finished = 0, allocs = 0 \<rparr>"

subsection \<open>Reading text: fgets, strtok_r, atoi\<close>

text \<open>One \<open>fgets\<close>: at most \<open>n\<close> characters, up to and including a newline.\<close>

fun fgets_take :: "nat \<Rightarrow> string \<Rightarrow> string \<times> string" where
  "fgets_take n [] = ([], [])"
| "fgets_take n (c # cs) =
     (if n = 0 then ([], c # cs)
      else if c = CHR 0x0A then ([c], cs)
      else (let (a, b) = fgets_take (n - 1) cs in (c # a, b)))"

lemma fgets_take_append: "fgets_take n s = (a, b) \<Longrightarrow> s = a @ b"
  by (induction n s arbitrary: a rule: fgets_take.induct) (auto split: if_splits prod.splits)

lemma fgets_take_shorter:
  assumes "s \<noteq> []" and "0 < n"
  shows "length (snd (fgets_take n s)) < length s"
proof -
  obtain a b where ab: "fgets_take n s = (a, b)" by fastforce
  have "a \<noteq> []" using assms ab by (cases s) (auto split: if_splits prod.splits)
  with fgets_take_append [OF ab] ab show ?thesis by simp
qed

text \<open>The loop \<open>while (fgets(text, 1024, file))\<close>: the buffers it sees, in order.\<close>

function fgets_lines :: "string \<Rightarrow> string list" where
  "fgets_lines s = (if s = [] then []
     else (case fgets_take 1023 s of (a, b) \<Rightarrow> a # fgets_lines b))"
  by pat_completeness auto
termination
  using fgets_take_shorter [of _ 1023]
  by (relation "measure length") (auto, metis snd_conv zero_less_numeral)

declare fgets_lines.simps [simp del]

text \<open>The tokens successive calls of \<open>strtok_r\<close> with a one-character delimiter return.\<close>

function strtok_all :: "char \<Rightarrow> string \<Rightarrow> string list" where
  "strtok_all d s = (case dropWhile (\<lambda>c. c = d) s of [] \<Rightarrow> []
     | t # ts \<Rightarrow> (t # takeWhile (\<lambda>c. c \<noteq> d) ts) # strtok_all d (dropWhile (\<lambda>c. c \<noteq> d) ts))"
  by pat_completeness auto
termination
proof (relation "measure (\<lambda>(d, s). length s)", simp)
  fix d :: char and s t ts
  assume eq: "dropWhile (\<lambda>c. c = d) s = t # ts"
  have "length (dropWhile (\<lambda>c. c \<noteq> d) ts) \<le> length ts" by (rule length_dropWhile_le)
  moreover have "length (dropWhile (\<lambda>c. c = d) s) \<le> length s" by (rule length_dropWhile_le)
  ultimately show "((d, dropWhile (\<lambda>c. c \<noteq> d) ts), d, s) \<in> measure (\<lambda>(d, s). length s)"
    using eq by simp
qed

declare strtok_all.simps [simp del]

definition is_space :: "char \<Rightarrow> bool" where
  "is_space c \<longleftrightarrow> c \<in> set [CHR '' '', CHR 0x09, CHR 0x0A, CHR 0x0B, CHR 0x0C, CHR 0x0D]"

definition is_digit :: "char \<Rightarrow> bool" where
  "is_digit c \<longleftrightarrow> 48 \<le> (of_char c :: nat) \<and> (of_char c :: nat) \<le> 57"

fun digits_value :: "int \<Rightarrow> string \<Rightarrow> int" where
  "digits_value acc [] = acc"
| "digits_value acc (c # cs) =
     (if is_digit c then digits_value (10 * acc + (of_char c - 48)) cs else acc)"

definition atoi :: "string \<Rightarrow> int" where
  "atoi s = (case dropWhile is_space s of
      [] \<Rightarrow> 0
    | c # cs \<Rightarrow> if c = CHR ''-'' then - digits_value 0 cs
                else if c = CHR ''+'' then digits_value 0 cs
                else digits_value 0 (c # cs))"

subsection \<open>initialize_core_ordering and ffwd_init\<close>

text \<open>
  The first pass over the output of \<open>READ_SPEC\<close> counts lines and tokens; each line is one run
  of consecutive CPU numbers of a NUMA node.
\<close>

fun count_cores :: "string list \<Rightarrow> int \<Rightarrow> int \<Rightarrow> int \<times> int" where
  "count_cores [] total_sockets all_threads = (total_sockets, all_threads)"
| "count_cores (text # rest) total_sockets all_threads =
     count_cores rest (total_sockets + 1) (all_threads + int (length (strtok_all CHR '' '' text)))"

fun find_platform :: "string list \<Rightarrow> string option \<Rightarrow> stop + string option" where
  "find_platform [] plat = Inr plat"
| "find_platform (text # rest) plat =
     (case strtok_all (CHR 0x0A) text of
        [] \<Rightarrow> Inl Undef
      | p # _ \<Rightarrow>
          if p = ''Xeon'' then find_platform rest (Some ''Xeon'')
          else if p = ''Opteron'' then find_platform rest (Some ''Opteron'')
          else Inl (Exit (-1)))"

text \<open>One row of \<open>cores\<close>: \<open>cores[socket_counter][i] = atoi(p)\<close> for each token.\<close>

fun read_row :: "string list \<Rightarrow> int \<Rightarrow> int option list \<Rightarrow> stop + int option list" where
  "read_row [] i row = Inr row"
| "read_row (p # ps) i row =
     cbind (need (update row i (Some (atoi p)))) (\<lambda>row'. read_row ps (i + 1) row')"

fun read_cores :: "string list \<Rightarrow> int \<Rightarrow> int option list list \<Rightarrow> stop + int option list list" where
  "read_cores [] socket_counter cs = Inr cs"
| "read_cores (text # rest) socket_counter cs =
     (let ps = strtok_all CHR '' '' text in
      cbind (if ps = [] then Inr cs
             else cbind (need (index cs socket_counter)) (\<lambda>row.
                  cbind (read_row ps 0 row) (\<lambda>row'.
                  need (update cs socket_counter row'))))
        (\<lambda>cs'. read_cores rest (socket_counter + 1) cs'))"

definition initialize_core_ordering ::
  "(nat \<Rightarrow> string option) \<Rightarrow> ffwd_globals \<Rightarrow> stop + ffwd_globals" where
  "initialize_core_ordering popen g =
     cbind (need (popen 0)) (\<lambda>spec.
     let (total_sockets, all_threads) = count_cores (fgets_lines spec) 0 0 in
     cbind (need (popen 1)) (\<lambda>plat_out.
     cbind (find_platform (fgets_lines plat_out) (platform g)) (\<lambda>plat.
     cbind (undef_unless (total_sockets \<noteq> 0)) (\<lambda>_.
     let cps = c_div all_threads total_sockets;
         nsock = c_div total_sockets 2 in
     cbind (undef_unless (nsock \<noteq> 0)) (\<lambda>_.
     let active = c_div all_threads nsock;
         cores0 = replicate (nat total_sockets) (replicate (nat active) None) in
     cbind (need (popen 2)) (\<lambda>spec2.
     cbind (read_cores (fgets_lines spec2) 0 cores0) (\<lambda>cs.
     cbind (undef_unless (cps \<noteq> 0 \<and> plat \<noteq> None)) (\<lambda>_.
     Inr (g\<lparr> platform := plat, cores_per_socket := cps, num_sockets := nsock, cores := cs,
             num_threads := all_threads,
             active_threads_per_socket := active - c_div active cps \<rparr>)))))))))"

definition ffwd_init ::
  "int \<Rightarrow> (nat \<Rightarrow> string option) \<Rightarrow> ffwd_globals \<Rightarrow> stop + ffwd_globals" where
  "ffwd_init numa_available popen g =
     (if numa_available < 0 then Inl (Exit 1) else initialize_core_ordering popen g)"

subsection \<open>launch_servers\<close>

text \<open>
  \<open>numa k\<close> is the address the \<open>k\<close>-th call of \<open>numa_alloc_onnode\<close> returned; \<open>allocs\<close> counts
  the calls. \<open>mprotect p\<close> is the value \<open>mprotect\<close> returns for the page at \<open>p\<close>.
\<close>

definition launch_one ::
  "(nat \<Rightarrow> addr) \<Rightarrow> (addr \<Rightarrow> int) \<Rightarrow> int \<Rightarrow> ffwd_globals \<Rightarrow> stop + ffwd_globals" where
  "launch_one numa mprotect s g =
     cbind (need (platform g)) (\<lambda>plat.
     cbind (undef_unless (cores_per_socket g \<noteq> 0)) (\<lambda>_.
     let cps = cores_per_socket g;
         core = (if plat = ''Opteron'' then cps * 2 * s else cps * s);
         a = allocs g;
         resp = map (\<lambda>i. numa (a + 1 + i)) [0..<nat (MAX_SOCK * 4)];
         c0 = numa (a + 17); c1 = numa (a + 18); c2 = numa (a + 19); c3 = numa (a + 20) in
     cbind (need (update (server_response_set g) s resp)) (\<lambda>sets.
     cbind (need (update (chip0 g) s c0)) (\<lambda>ch0.
     cbind (need (update (chip1 g) s c1)) (\<lambda>ch1.
     cbind (need (update (chip2 g) s c2)) (\<lambda>ch2.
     cbind (need (update (chip3 g) s c3)) (\<lambda>ch3.
     if mprotect c0 \<noteq> 0 \<or> mprotect c1 \<noteq> 0 \<or> mprotect c2 \<noteq> 0 \<or> mprotect c3 \<noteq> 0
     then Inl (Exit 1)
     else cbind (need (update (server_arg g) s
            (Some \<lparr> server_core = core, arg_chip0 = c0, arg_chip1 = c1, arg_chip2 = c2,
                    arg_chip3 = c3, server_response = resp \<rparr>))) (\<lambda>args.
     Inr (g\<lparr> server_response_set := sets, chip0 := ch0, chip1 := ch1, chip2 := ch2, chip3 := ch3,
             server_arg := args, allocs := a + 22 \<rparr>)))))))))"

fun launch_loop ::
  "(nat \<Rightarrow> addr) \<Rightarrow> (addr \<Rightarrow> int) \<Rightarrow> nat \<Rightarrow> nat \<Rightarrow> ffwd_globals \<Rightarrow> stop + ffwd_globals" where
  "launch_loop numa mprotect s 0 g = Inr g"
| "launch_loop numa mprotect s (Suc n) g =
     cbind (launch_one numa mprotect (int s) g) (\<lambda>g'. launch_loop numa mprotect (Suc s) n g')"

definition launch_servers ::
  "(nat \<Rightarrow> addr) \<Rightarrow> (addr \<Rightarrow> int) \<Rightarrow> int \<Rightarrow> ffwd_globals \<Rightarrow> stop + ffwd_globals" where
  "launch_servers numa mprotect num_of_servers g =
     cbind (launch_loop numa mprotect 0 (nat num_of_servers) g)
       (\<lambda>g'. Inr (g'\<lparr> num_of_server_launched := num_of_servers \<rparr>))"

subsection \<open>ffwd_thread_create and ffwd_bind_main_thread\<close>

text \<open>The core of every socket that runs a server is skipped.\<close>

definition next_global_id :: "int \<Rightarrow> int \<Rightarrow> int" where
  "next_global_id cps g =
     (if g = cps - 1 \<or> g = cps * 2 - 1 \<or> g = cps * 3 - 1 \<or> g = cps * 4 - 1 \<or> g = cps * 5 - 1
         \<or> g = cps * 6 - 1 \<or> g = cps * 7 - 1
      then g + 1 + 1 else g + 1)"

text \<open>With \<open>-DSTC\<close> the rows of \<open>cores\<close> are filled in order, otherwise the even ones first.\<close>

definition core_row :: "bool \<Rightarrow> int \<Rightarrow> int \<Rightarrow> int \<Rightarrow> int" where
  "core_row stc cps nsock g =
     (if stc then c_div g cps
      else c_div g cps * 2 + (1 - nsock * 2) * c_div (c_div g cps) nsock)"

definition core_id :: "bool \<Rightarrow> ffwd_globals \<Rightarrow> stop + int" where
  "core_id stc g =
     cbind (undef_unless (cores_per_socket g \<noteq> 0 \<and> (stc \<or> num_sockets g \<noteq> 0))) (\<lambda>_.
     cbind (need (index (cores g)
       (core_row stc (cores_per_socket g) (num_sockets g) (global_id g)))) (\<lambda>row.
     cbind (need (index row (c_mod (global_id g) (cores_per_socket g)))) (\<lambda>c. need c)))"

definition chip_and_slot :: "string \<Rightarrow> int \<Rightarrow> int \<Rightarrow> int \<times> int" where
  "chip_and_slot plat cps i =
     (if plat = ''Xeon'' then
        (c_div i cps - c_div i (cps * MAX_SOCK) * MAX_SOCK,
         c_mod i cps * 2 + c_div i (cps * MAX_SOCK) - INDEX_DIFF)
      else if plat = ''Opteron'' then
        (let my_chip = c_div i (cps * 2) in
         (my_chip, c_mod i cps * 2 + c_div i (cps * (my_chip * 2 + 1)) - INDEX_DIFF))
      else (0, 0))"

text \<open>The base addresses \<open>chipX[i]\<close> of the request pages, for the servers launched.\<close>

definition chip_pages :: "ffwd_globals \<Rightarrow> int \<Rightarrow> addr list option" where
  "chip_pages g my_chip =
     (if my_chip = 0 then Some (chip0 g) else if my_chip = 1 then Some (chip1 g)
      else if my_chip = 2 then Some (chip2 g) else if my_chip = 3 then Some (chip3 g) else None)"

definition bind_context :: "bool \<Rightarrow> bool \<Rightarrow> ffwd_globals \<Rightarrow> stop + (ffwd_context \<times> ffwd_globals)" where
  "bind_context t64 stc g0 =
     (let g = g0\<lparr> global_id := next_global_id (cores_per_socket g0) (global_id g0) \<rparr>;
          n = nat (num_of_server_launched g) in
      cbind (core_id stc g) (\<lambda>i.
      cbind (need (platform g)) (\<lambda>plat.
      let (my_chip, slot) = chip_and_slot plat (cores_per_socket g) i;
          r = my_chip * MAX_SOCK + c_div slot (int (NCLIENTS t64)) in
      cbind (undef_unless (0 \<le> slot \<and> slot < 64)) (\<lambda>_.
      cbind (undef_unless (n \<le> MAX_NUM_OF_SERVERS)) (\<lambda>_.
      cbind (if n = 0 then Inr [] else need (chip_pages g my_chip)) (\<lambda>pages.
      cbind (if n = 0 then Inr []
             else need (those (map (\<lambda>set. index set r) (take n (server_response_set g))))) (\<lambda>resp.
      Inr (\<lparr> ctx_id = i, dead = 0, id_in_chip = slot, mask = push_bit (nat slot) 1,
             ctx_request = map (\<lambda>page. (page, slot)) (take n pages),
             ctx_response = resp, local_client_flag = replicate n 0 \<rparr>, g))))))))"

text \<open>
  \<open>ffwd_thread_create\<close> starts the thread with the context and the function to run;
  \<open>ffwd_bind_main_thread\<close> installs the context in the calling thread. Both compute the
  context in the same way.
\<close>

definition ffwd_thread_create ::
  "bool \<Rightarrow> bool \<Rightarrow> 'fn \<Rightarrow> 'val \<Rightarrow> ffwd_globals \<Rightarrow> stop + ((ffwd_context \<times> 'fn \<times> 'val) \<times> ffwd_globals)" where
  "ffwd_thread_create t64 stc func value g =
     cbind (bind_context t64 stc g) (\<lambda>(context, g'). Inr ((context, func, value), g'))"

definition ffwd_bind_main_thread ::
  "bool \<Rightarrow> bool \<Rightarrow> ffwd_globals \<Rightarrow> stop + (ffwd_context \<times> ffwd_globals)" where
  "ffwd_bind_main_thread t64 stc g = bind_context t64 stc g"

subsection \<open>ffwd_shutdown\<close>

text \<open>
  The pointers handed to \<open>numa_free\<close> are returned in call order (response sets and argument
  blocks are identified by their contents). The index is \<open>num_of_server_launched\<close> in every
  iteration, as in the source.
\<close>

record freed =
  freed_chips :: "addr list"
  freed_sets :: "addr list list"
  freed_args :: "server_args option list"

fun shutdown_loop :: "nat \<Rightarrow> ffwd_globals \<Rightarrow> freed \<Rightarrow> stop + freed" where
  "shutdown_loop 0 g f = Inr f"
| "shutdown_loop (Suc n) g f =
     (let k = num_of_server_launched g in
      cbind (need (index (chip0 g) k)) (\<lambda>c0.
      cbind (need (index (chip1 g) k)) (\<lambda>c1.
      cbind (need (index (chip2 g) k)) (\<lambda>c2.
      cbind (need (index (chip3 g) k)) (\<lambda>c3.
      cbind (need (index (server_response_set g) k)) (\<lambda>rs.
      cbind (need (index (server_arg g) k)) (\<lambda>sa.
      shutdown_loop n g (f\<lparr> freed_chips := freed_chips f @ [c0, c1, c2, c3],
        freed_sets := freed_sets f @ [rs], freed_args := freed_args f @ [sa] \<rparr>))))))))"

definition ffwd_shutdown :: "ffwd_globals \<Rightarrow> stop + (freed \<times> ffwd_globals)" where
  "ffwd_shutdown g =
     (let g' = g\<lparr> finished := 1 \<rparr> in
      cbind (shutdown_loop (nat (num_of_server_launched g')) g'
              \<lparr> freed_chips = [], freed_sets = [], freed_args = [] \<rparr>)
        (\<lambda>f. Inr (f, g')))"

subsection \<open>Machines of four sockets\<close>

text \<open>
  The machines of the repository: four sockets of \<open>m + 1\<close> physical cores. On a Xeon every
  NUMA node lists its cores and then their hyper-threads (rows \<open>2 * node\<close> and
  \<open>2 * node + 1\<close>), numbered socket by socket and then again for the second threads; on an
  Opteron a socket is two NUMA nodes and the numbers are consecutive.
\<close>

definition cpu_number :: "string \<Rightarrow> nat \<Rightarrow> nat \<Rightarrow> nat \<Rightarrow> nat" where
  "cpu_number plat m r i =
     (if plat = ''Xeon'' then (r div 2 + 4 * (r mod 2)) * (m + 1) + i else r * (m + 1) + i)"

definition four_sockets :: "string \<Rightarrow> nat \<Rightarrow> ffwd_globals \<Rightarrow> bool" where
  "four_sockets plat m g \<longleftrightarrow>
     plat \<in> {''Xeon'', ''Opteron''} \<and> 0 < m \<and> 2 * m \<le> 64 \<and>
     platform g = Some plat \<and> cores_per_socket g = int (m + 1) \<and> num_sockets g = 4 \<and>
     length (cores g) = 8 \<and>
     (\<forall>r < 8. m + 1 \<le> length (cores g ! r) \<and>
        (\<forall>i \<le> m. cores g ! r ! i = Some (int (cpu_number plat m r i))))"

text \<open>The globals the servers leave behind: \<open>n\<close> servers, each with four pages and 16 responses.\<close>

definition servers_ready :: "nat \<Rightarrow> ffwd_globals \<Rightarrow> bool" where
  "servers_ready n g \<longleftrightarrow> n \<le> MAX_NUM_OF_SERVERS \<and> num_of_server_launched g = int n \<and>
     length (chip0 g) = 4 \<and> length (chip1 g) = 4 \<and> length (chip2 g) = 4 \<and> length (chip3 g) = 4 \<and>
     length (server_response_set g) = 4 \<and> (\<forall>s < n. length (server_response_set g ! s) = 16)"

text \<open>Where the \<open>j\<close>-th client (from 0) goes: its socket and its slot there.\<close>

definition client_place :: "bool \<Rightarrow> nat \<Rightarrow> nat \<Rightarrow> nat \<times> nat" where
  "client_place stc m j =
     (let q = j div m; i = j mod m in
      if stc then (q div 2, 2 * i + q mod 2) else (q mod 4, 2 * i + q div 4))"

definition nth_global_id :: "nat \<Rightarrow> nat \<Rightarrow> int" where
  "nth_global_id m j = (if j = 0 then 0
     else int ((j - 1) div m * (m + 1) + (j - 1) mod m + 1))"

text \<open>The loop \<open>for (i = 0; i < num_of_threads; i++) ffwd_thread_create(...)\<close> of a benchmark.\<close>

fun create_threads :: "bool \<Rightarrow> bool \<Rightarrow> 'fn \<Rightarrow> (nat \<Rightarrow> 'val) \<Rightarrow> nat \<Rightarrow> nat \<Rightarrow> ffwd_globals \<Rightarrow>
    stop + ((ffwd_context \<times> 'fn \<times> 'val) list \<times> ffwd_globals)" where
  "create_threads t64 stc func th_data i 0 g = Inr ([], g)"
| "create_threads t64 stc func th_data i (Suc n) g =
     cbind (ffwd_thread_create t64 stc func (th_data i) g) (\<lambda>(t, g').
     cbind (create_threads t64 stc func th_data (Suc i) n g') (\<lambda>(ts, g''). Inr (t # ts, g'')))"

lemma less_8_cases: "q < (8::nat) \<Longrightarrow> q \<in> {0, 1, 2, 3, 4, 5, 6, 7}"
  by auto

lemma div_mult_lt: "j < 8 * m \<Longrightarrow> j div m < (8::nat)"
  by (simp add: less_mult_imp_div_less mult.commute)

lemma next_global_id_nth:
  assumes "0 < m" and "j < 8 * m"
  shows "next_global_id (int (m + 1)) (nth_global_id m j) = nth_global_id m (Suc j)"
proof (cases j)
  case 0
  then show ?thesis using assms by (auto simp: next_global_id_def nth_global_id_def)
next
  case (Suc k)
  define q i where "q = k div m" and "i = k mod m"
  have k: "k = q * m + i" and i: "i < m" using assms by (simp_all add: q_def i_def)
  have q: "q < 8" using assms Suc unfolding q_def by (intro div_mult_lt) simp
  show ?thesis
  proof (cases "Suc i = m")
    case True
    have j: "j = Suc q * m" using Suc k True by simp
    have "Suc q < 8" using assms(2) unfolding j by (simp only: mult_less_cancel2)
    then have "q < 7" by simp
    have dm: "j div m = Suc q" "j mod m = 0" using j assms by simp_all
    from \<open>q < 7\<close> have "q \<in> {0, 1, 2, 3, 4, 5, 6}" by auto
    then show ?thesis using True Suc i dm
      unfolding next_global_id_def nth_global_id_def q_def [symmetric] i_def [symmetric]
      by (auto simp: q_def [symmetric] i_def [symmetric] algebra_simps)
  next
    case False
    with i have i': "Suc i < m" by simp
    have j: "j = q * m + Suc i" using Suc k by simp
    have dm: "j div m = q" "j mod m = Suc i" unfolding j by (rule div_mod_block [OF i'])+
    from less_8_cases [OF q] show ?thesis using i' Suc dm
      unfolding next_global_id_def nth_global_id_def
      by (auto simp: q_def [symmetric] i_def [symmetric] algebra_simps)
  qed
qed

lemma nth_global_id_div_mod:
  assumes "0 < m"
  shows "nth_global_id m (Suc j) div int (m + 1) = int (j div m)"
    and "nth_global_id m (Suc j) mod int (m + 1) = int (j mod m) + 1"
proof -
  define q i where "q = j div m" and "i = j mod m"
  have i: "Suc i < m + 1" using assms by (simp add: i_def)
  have e: "nth_global_id m (Suc j) = int (q * (m + 1) + Suc i)"
    by (simp add: nth_global_id_def q_def i_def)
  note d = div_mod_block [OF i, of q]
  show "nth_global_id m (Suc j) div int (m + 1) = int (j div m)"
    by (metis e d(1) q_def zdiv_int)
  show "nth_global_id m (Suc j) mod int (m + 1) = int (j mod m) + 1"
    by (metis e d(2) i_def zmod_int of_nat_Suc add.commute)
qed

lemma nth_global_id_nonneg: "0 \<le> nth_global_id m j"
  by (simp add: nth_global_id_def)

text \<open>Row of \<open>cores\<close> used for the \<open>j\<close>-th client.\<close>

definition client_row :: "bool \<Rightarrow> nat \<Rightarrow> nat" where
  "client_row stc q = (if stc then q else 2 * (q mod 4) + q div 4)"

lemma core_row_nth:
  assumes "0 < m" and "j < 8 * m"
  shows "core_row stc (int (m + 1)) 4 (nth_global_id m (Suc j)) = int (client_row stc (j div m))"
proof -
  have "c_div (nth_global_id m (Suc j)) (int (m + 1)) = int (j div m)"
    using nth_global_id_div_mod(1) [OF assms(1)] by (simp add: nth_global_id_nonneg)
  then show ?thesis
    using less_8_cases [OF div_mult_lt [OF assms(2)]]
    unfolding core_row_def client_row_def by auto
qed

lemma client_row_less: "q < 8 \<Longrightarrow> client_row stc q < 8"
  by (auto simp: client_row_def)

lemma client_row_inverse:
  "q < 8 \<Longrightarrow> (if stc then client_row stc q
     else client_row stc q div 2 + 4 * (client_row stc q mod 2)) = q"
  by (drule less_8_cases) (auto simp: client_row_def)

lemma core_id_nth:
  assumes g: "four_sockets plat m g" and j: "j < 8 * m"
    and gid: "global_id g = nth_global_id m (Suc j)"
  shows "core_id stc g = Inr (int (cpu_number plat m (client_row stc (j div m)) (Suc (j mod m))))"
proof -
  have m: "0 < m" using g by (simp add: four_sockets_def)
  define r where "r = client_row stc (j div m)"
  have r: "r < 8" unfolding r_def by (intro client_row_less div_mult_lt j)
  have i: "Suc (j mod m) \<le> m" using m by (simp add: Suc_leI)
  have row: "core_row stc (cores_per_socket g) (num_sockets g) (global_id g) = int r"
    using core_row_nth [OF m j] g gid by (simp add: four_sockets_def r_def)
  have col: "c_mod (global_id g) (cores_per_socket g) = int (Suc (j mod m))"
    using nth_global_id_div_mod(2) [OF m] g gid
    by (simp add: four_sockets_def nth_global_id_nonneg)
  have "m + 1 \<le> length (cores g ! r)" and
    "cores g ! r ! Suc (j mod m) = Some (int (cpu_number plat m r (Suc (j mod m))))"
    using g r i by (auto simp: four_sockets_def)
  then show ?thesis
    using g r i unfolding core_id_def row col r_def [symmetric] index_int
    by (auto simp: four_sockets_def intro: Suc_le_lessD le_trans)
qed

text \<open>The chip and slot the code computes from a CPU number.\<close>

lemma c_div_nat: "0 < n \<Longrightarrow> c_div (int a) (int n) = int (a div n)"
  and c_mod_nat: "0 < n \<Longrightarrow> c_mod (int a) (int n) = int (a mod n)"
  by (simp_all add: zdiv_int zmod_int)

lemma chip_and_slot_cpu:
  assumes "plat \<in> {''Xeon'', ''Opteron''}" and "r < 8" and "1 \<le> i" and "i \<le> m"
  shows "chip_and_slot plat (int (m + 1)) (int (cpu_number plat m r i))
           = (int (r div 2), int (2 * (i - 1) + r mod 2))"
proof -
  have i: "i < m + 1" using assms by simp
  note D = div_mod_block [OF i]
  have D2: "(a * (m + 1) + i) div ((m + 1) * k) = a div k" for a k
    by (simp only: div_mult2_eq D(1))
  have d1: "c_div (int (a * (m + 1) + i)) (int (m + 1)) = int a" for a
    by (subst c_div_nat) (simp, simp only: D)
  have d2: "c_div (int (a * (m + 1) + i)) (int ((m + 1) * k)) = int (a div k)" if "0 < k" for a k
    by (subst c_div_nat) (simp add: that, simp only: D2)
  have d3: "c_mod (int (a * (m + 1) + i)) (int (m + 1)) = int i" for a
    by (subst c_mod_nat) (simp, simp only: D)
  show ?thesis
  proof (cases "plat = ''Xeon''")
    case True
    define a where "a = r div 2 + 4 * (r mod 2)"
    have a: "a mod 4 = r div 2" "a div 4 = r mod 2"
      using less_8_cases [OF assms(2)] unfolding a_def by auto
    have n: "cpu_number plat m r i = a * (m + 1) + i" using True by (simp add: cpu_number_def a_def)
    have c: "int (m + 1) * MAX_SOCK = int ((m + 1) * 4)" by (simp add: MAX_SOCK_def)
    have "chip_and_slot plat (int (m + 1)) (int (cpu_number plat m r i))
        = (int a - int (a div 4) * 4, int i * 2 + int (a div 4) - 2)"
      using True unfolding chip_and_slot_def c n d1 d3 d2 [OF zero_less_numeral]
      by (simp add: MAX_SOCK_def INDEX_DIFF_def)
    also have "\<dots> = (int (a mod 4), int (2 * (i - 1) + a div 4))"
      using assms(3) by (simp add: of_nat_diff) presburger
    finally show ?thesis by (simp only: a)
  next
    case False
    then have n: "cpu_number plat m r i = r * (m + 1) + i" by (simp add: cpu_number_def)
    have c: "int (m + 1) * 2 = int ((m + 1) * 2)"
      "int (m + 1) * (int (r div 2) * 2 + 1) = int ((m + 1) * (r div 2 * 2 + 1))"
      by (simp_all add: algebra_simps)
    have "r div (r div 2 * 2 + 1) = r mod 2" using less_8_cases [OF assms(2)] by auto
    moreover have "chip_and_slot plat (int (m + 1)) (int (cpu_number plat m r i))
        = (int (r div 2), int i * 2 + int (r div (r div 2 * 2 + 1)) - 2)"
      using False assms(1) d2 [of "r div 2 * 2 + 1"]
      unfolding chip_and_slot_def Let_def n c(1) d2 [OF zero_less_numeral] c(2) d3
      by (simp add: INDEX_DIFF_def)
    ultimately show ?thesis using assms(3) by (simp add: of_nat_diff)
  qed
qed

subsection \<open>Every client gets a slot of its own\<close>

lemma client_place_row:
  assumes "0 < m" and "j < 8 * m"
  shows "client_place stc m j =
    (client_row stc (j div m) div 2, 2 * (j mod m) + client_row stc (j div m) mod 2)"
  using less_8_cases [OF div_mult_lt [OF assms(2)]]
  by (auto simp: client_place_def client_row_def Let_def)

lemma client_place_bounds:
  assumes "0 < m" and "j < 8 * m"
  shows "fst (client_place stc m j) < 4" and "snd (client_place stc m j) < 2 * m"
proof -
  have "client_row stc (j div m) < 8" by (intro client_row_less div_mult_lt assms)
  moreover have "j mod m < m" using assms by simp
  ultimately show "fst (client_place stc m j) < 4" and "snd (client_place stc m j) < 2 * m"
    by (auto simp: client_place_row [OF assms])
qed

lemma pair_parity_inj:
  "2 * a + b mod 2 = 2 * c + d mod 2 \<Longrightarrow> a = c \<and> b mod 2 = (d mod 2 :: nat)"
  by presburger

lemma client_place_inj:
  assumes "0 < m"
  shows "inj_on (client_place stc m) {..< 8 * m}"
proof (rule inj_onI)
  fix j k
  assume jk: "j \<in> {..< 8 * m}" "k \<in> {..< 8 * m}" and eq: "client_place stc m j = client_place stc m k"
  let ?r = "\<lambda>j. client_row stc (j div m)"
  have e: "?r j div 2 = ?r k div 2" "2 * (j mod m) + ?r j mod 2 = 2 * (k mod m) + ?r k mod 2"
    using eq jk assms by (simp_all add: client_place_row)
  from pair_parity_inj [OF e(2)] have i: "j mod m = k mod m" and "?r j mod 2 = ?r k mod 2" by auto
  then have r: "?r j = ?r k" using e(1) by (metis div_mult_mod_eq)
  have inj: "client_row stc p = client_row stc q \<Longrightarrow> p = q" if "p < 8" "q < 8" for p q
    using that by (metis client_row_inverse)
  from r have "j div m = k div m" by (rule inj [rotated 2]) (use jk in \<open>auto intro: div_mult_lt\<close>)
  with i show "j = k" by (metis div_mult_mod_eq)
qed

lemma index_take_those:
  "(\<And>x. x \<in> set xs \<Longrightarrow> r < length x) \<Longrightarrow>
     those (map (\<lambda>x. index x (int r)) xs) = Some (map (\<lambda>x. x ! r) xs)"
  by (induction xs) simp_all

text \<open>The context the \<open>j\<close>-th call computes.\<close>

definition nth_context :: "bool \<Rightarrow> bool \<Rightarrow> string \<Rightarrow> nat \<Rightarrow> nat \<Rightarrow> nat \<Rightarrow> ffwd_globals \<Rightarrow> ffwd_context" where
  "nth_context t64 stc plat m n j g =
     (let (chip, slot) = client_place stc m j;
          page = the (chip_pages g (int chip));
          r = 4 * chip + slot div NCLIENTS t64 in
      \<lparr> ctx_id = int (cpu_number plat m (client_row stc (j div m)) (Suc (j mod m))), dead = 0,
        id_in_chip = int slot, mask = push_bit slot 1,
        ctx_request = map (\<lambda>p. (p, int slot)) (take n page),
        ctx_response = map (\<lambda>set. set ! r) (take n (server_response_set g)),
        local_client_flag = replicate n 0 \<rparr>)"

lemma bind_context_nth:
  assumes g: "four_sockets plat m g" "servers_ready n g" and j: "j < 8 * m"
    and N: "NCLIENTS t64 = m" and gid: "global_id g = nth_global_id m j"
  shows "bind_context t64 stc g =
    Inr (nth_context t64 stc plat m n j g, g\<lparr>global_id := nth_global_id m (Suc j)\<rparr>)"
proof -
  let ?g = "g\<lparr>global_id := nth_global_id m (Suc j)\<rparr>"
  let ?row = "client_row stc (j div m)" and ?i = "Suc (j mod m)"
  have m: "0 < m" "2 * m \<le> 64" and plat: "plat \<in> {''Xeon'', ''Opteron''}"
    and cps: "cores_per_socket g = int (m + 1)" and pl: "platform g = Some plat"
    using g(1) by (auto simp: four_sockets_def)
  obtain chip slot where p: "client_place stc m j = (chip, slot)" by fastforce
  have b: "chip < 4" "slot < 2 * m" using client_place_bounds [OF m(1) j, of stc] p by auto
  have nxt: "next_global_id (cores_per_socket g) (global_id g) = nth_global_id m (Suc j)"
    using next_global_id_nth [OF m(1) j] gid cps by simp
  have "four_sockets plat m ?g" using g(1) by (simp add: four_sockets_def)
  then have core: "core_id stc ?g = Inr (int (cpu_number plat m ?row ?i))"
    by (rule core_id_nth) (use j in simp_all)
  have cs: "chip_and_slot plat (int (m + 1)) (int (cpu_number plat m ?row ?i)) = (int chip, int slot)"
    using chip_and_slot_cpu [OF plat client_row_less [OF div_mult_lt [OF j]], where i = ?i and stc1 = stc] p m
    by (simp add: client_place_row [OF m(1) j] Suc_leI)
  have r: "int chip * MAX_SOCK + int slot div int m = int (4 * chip + slot div m)"
    using m N by (simp add: MAX_SOCK_def zdiv_int)
  have r16: "4 * chip + slot div m < 16"
    using b less_mult_imp_div_less [of slot 2 m] by linarith
  have n: "nat (num_of_server_launched g) = n" "n \<le> MAX_NUM_OF_SERVERS"
    using g(2) by (simp_all add: servers_ready_def)
  have sets: "those (map (\<lambda>x. index x (int (4 * chip + slot div m))) (take n (server_response_set g)))
      = Some (map (\<lambda>x. x ! (4 * chip + slot div m)) (take n (server_response_set g)))"
    by (rule index_take_those)
       (use g(2) r16 in \<open>auto simp: servers_ready_def in_set_conv_nth\<close>)
  have pages: "chip_pages ?g (int chip) = Some (the (chip_pages g (int chip)))"
    using b by (auto simp: chip_pages_def)
  show ?thesis
    unfolding bind_context_def Let_def nxt
    using core cs b m n pl cps
    by (simp add: r sets pages nth_context_def p N del: index_int of_nat_add of_nat_mult)
qed

lemma four_sockets_global_id [simp]:
  "four_sockets plat m (g\<lparr>global_id := k\<rparr>) = four_sockets plat m g"
  "servers_ready n (g\<lparr>global_id := k\<rparr>) = servers_ready n g"
  "nth_context t64 stc plat m n j (g\<lparr>global_id := k\<rparr>) = nth_context t64 stc plat m n j g"
  by (auto simp: four_sockets_def servers_ready_def nth_context_def chip_pages_def split: prod.splits)

lemma create_threads_nth:
  assumes g: "four_sockets plat m g" "servers_ready n g" and k: "j + k \<le> 8 * m"
    and N: "NCLIENTS t64 = m" and gid: "global_id g = nth_global_id m j"
  shows "create_threads t64 stc func th_data i k g =
    Inr (map (\<lambda>l. (nth_context t64 stc plat m n (j + l) g, func, th_data (i + l))) [0..<k],
         g\<lparr>global_id := nth_global_id m (j + k)\<rparr>)"
  using g k gid
proof (induction k arbitrary: i j g)
  case 0
  then show ?case by simp
next
  case (Suc k)
  let ?g = "g\<lparr>global_id := nth_global_id m (Suc j)\<rparr>"
  have one: "bind_context t64 stc g = Inr (nth_context t64 stc plat m n j g, ?g)"
    by (rule bind_context_nth) (use Suc.prems N in auto)
  have "create_threads t64 stc func th_data (Suc i) k ?g =
      Inr (map (\<lambda>l. (nth_context t64 stc plat m n (Suc j + l) ?g, func, th_data (Suc i + l))) [0..<k],
           ?g\<lparr>global_id := nth_global_id m (Suc j + k)\<rparr>)"
    by (rule Suc.IH) (use Suc.prems in auto)
  then show ?case
    by (simp add: ffwd_thread_create_def one map_upt_Suc del: upt_Suc)
qed


text \<open>The Xeon of the README with 64 hardware threads (eight rows of eight) and no server.\<close>

definition xeon64 :: ffwd_globals where
  "xeon64 = ffwd_globals0\<lparr> platform := Some ''Xeon'', cores_per_socket := 8, num_sockets := 4,
     num_threads := 64, active_threads_per_socket := 14,
     cores := map (\<lambda>r. map (\<lambda>i. Some (int (cpu_number ''Xeon'' 7 r i))) [0..<8] @ replicate 8 None) [0..<8] \<rparr>"

lemma xeon64_ok: "four_sockets ''Xeon'' 7 xeon64" "servers_ready 0 xeon64"
  by (auto simp: four_sockets_def xeon64_def nth_append servers_ready_def ffwd_globals0_def)


subsection \<open>Launching and shutting down\<close>

text \<open>Addresses of the blocks of server \<open>s\<close> when the servers start with \<open>a\<close> earlier allocations.\<close>

definition launched_to :: "(nat \<Rightarrow> addr) \<Rightarrow> nat \<Rightarrow> nat \<Rightarrow> ffwd_globals \<Rightarrow> bool" where
  "launched_to numa a s g \<longleftrightarrow> length (chip0 g) = 4 \<and> length (chip1 g) = 4 \<and> length (chip2 g) = 4 \<and>
     length (chip3 g) = 4 \<and> length (server_response_set g) = 4 \<and> length (server_arg g) = 4 \<and>
     allocs g = a + 22 * s \<and>
     (\<forall>t < s. chip0 g ! t = numa (a + 22 * t + 17) \<and> chip1 g ! t = numa (a + 22 * t + 18) \<and>
        chip2 g ! t = numa (a + 22 * t + 19) \<and> chip3 g ! t = numa (a + 22 * t + 20) \<and>
        server_response_set g ! t = map (\<lambda>i. numa (a + 22 * t + 1 + i)) [0..<16])"

lemma update_int [simp]: "update xs (int k) v = (if k < length xs then Some (xs[k := v]) else None)"
  by (simp add: update_def)

definition same_machine :: "ffwd_globals \<Rightarrow> ffwd_globals \<Rightarrow> bool" where
  "same_machine g g' \<longleftrightarrow> platform g' = platform g \<and> cores_per_socket g' = cores_per_socket g \<and>
     num_sockets g' = num_sockets g \<and> cores g' = cores g \<and> global_id g' = global_id g"

lemma launch_one_ok:
  assumes "launched_to numa a s g" and "s < 4" and "platform g \<noteq> None" and "cores_per_socket g \<noteq> 0"
    and "\<And>p. mprotect p = 0"
  shows "\<exists>g'. launch_one numa mprotect (int s) g = Inr g' \<and> launched_to numa a (Suc s) g' \<and>
    same_machine g g' \<and> (\<forall>t. s < t \<longrightarrow> chip0 g' ! t = chip0 g ! t \<and> chip1 g' ! t = chip1 g ! t \<and>
      chip2 g' ! t = chip2 g ! t \<and> chip3 g' ! t = chip3 g ! t)"
  using assms unfolding launch_one_def launched_to_def same_machine_def MAX_SOCK_def
  by (auto simp: Let_def nth_list_update less_Suc_eq simp del: upt_Suc)

lemma launch_loop_ok:
  assumes "launched_to numa a s g" and "s + n \<le> 4" and "platform g \<noteq> None" and "cores_per_socket g \<noteq> 0"
    and "\<And>p. mprotect p = 0"
  shows "\<exists>g'. launch_loop numa mprotect s n g = Inr g' \<and> launched_to numa a (s + n) g' \<and>
    same_machine g g' \<and> (\<forall>t. s + n \<le> t \<longrightarrow> chip0 g' ! t = chip0 g ! t \<and> chip1 g' ! t = chip1 g ! t \<and>
      chip2 g' ! t = chip2 g ! t \<and> chip3 g' ! t = chip3 g ! t)"
  using assms
proof (induction n arbitrary: s g)
  case 0
  then show ?case by (simp add: same_machine_def)
next
  case (Suc n)
  from Suc.prems obtain g1 where g1: "launch_one numa mprotect (int s) g = Inr g1"
    "launched_to numa a (Suc s) g1" "same_machine g g1"
    "\<And>t. s < t \<Longrightarrow> chip0 g1 ! t = chip0 g ! t \<and> chip1 g1 ! t = chip1 g ! t \<and>
      chip2 g1 ! t = chip2 g ! t \<and> chip3 g1 ! t = chip3 g ! t"
    using launch_one_ok [of numa a s g mprotect] by auto
  have "Suc s + n \<le> 4" "platform g1 \<noteq> None" "cores_per_socket g1 \<noteq> 0"
    using Suc.prems g1(3) by (simp_all add: same_machine_def)
  from Suc.IH [OF g1(2) this Suc.prems(5)] g1 show ?case
    by (auto simp: same_machine_def)
qed

text \<open>The request pages and response blocks of the servers \<open>0 \<dots> n - 1\<close>.\<close>

definition server_blocks :: "nat \<Rightarrow> ffwd_globals \<Rightarrow> addr list" where
  "server_blocks n g = concat (map (\<lambda>t. server_response_set g ! t @
     [chip0 g ! t, chip1 g ! t, chip2 g ! t, chip3 g ! t]) [0..<n])"

lemma distinct_concat_blocks:
  "(\<forall>t < n. set (f t) \<subseteq> {t * k + b ..< t * k + b + k} \<and> distinct (f t)) \<Longrightarrow>
    distinct (concat (map f [0..<n])) \<and> set (concat (map f [0..<n])) \<subseteq> {..< n * k + (b::nat)}"
proof (induction n)
  case (Suc n)
  then have IH: "distinct (concat (map f [0..<n]))" "set (concat (map f [0..<n])) \<subseteq> {..< n * k + b}"
    by auto
  have "set (f n) \<subseteq> {n * k + b ..< n * k + b + k}" "distinct (f n)" using Suc.prems by auto
  with IH show ?case by (auto simp: subset_iff) fastforce+
qed simp

lemma server_blocks_eq:
  assumes "launched_to numa a n g"
  shows "server_blocks n g = map numa (concat (map (\<lambda>t. [a + 22 * t + 1..<a + 22 * t + 21]) [0..<n]))"
proof -
  have "server_response_set g ! t @ [chip0 g ! t, chip1 g ! t, chip2 g ! t, chip3 g ! t]
      = map numa [a + 22 * t + 1..<a + 22 * t + 21]" if "t < n" for t
  proof -
    have "[a + 22 * t + 1..<a + 22 * t + 21] = map (\<lambda>i. a + 22 * t + 1 + i) [0..<20]"
      by (rule nth_equalityI) simp_all
    moreover have "[0..<20] = [0..<16] @ [16, 17, 18, 19::nat]" by code_simp
    ultimately show ?thesis using that assms
      by (simp add: launched_to_def ac_simps comp_def del: upt_rec_numeral)
  qed
  then have "map (\<lambda>t. server_response_set g ! t @ [chip0 g ! t, chip1 g ! t, chip2 g ! t, chip3 g ! t]) [0..<n]
      = map (\<lambda>t. map numa [a + 22 * t + 1..<a + 22 * t + 21]) [0..<n]" by simp
  then show ?thesis by (simp only: server_blocks_def map_concat map_map comp_def)
qed

lemma distinct_server_blocks:
  assumes "launched_to numa a n g" and "inj numa"
  shows "distinct (server_blocks n g)"
proof -
  have "distinct (concat (map (\<lambda>t. [a + 22 * t + 1..<a + 22 * t + 21]) [0..<n]))"
    using distinct_concat_blocks [of n "\<lambda>t. [a + 22 * t + 1..<a + 22 * t + 21]" 22 "a + 1"] by auto
  then show ?thesis
    unfolding server_blocks_eq [OF assms(1)] using assms(2) by (auto simp: distinct_map intro: inj_on_subset)
qed

text \<open>The globals before any server has been started.\<close>

definition not_launched :: "ffwd_globals \<Rightarrow> bool" where
  "not_launched g \<longleftrightarrow> platform g \<noteq> None \<and> cores_per_socket g \<noteq> 0 \<and> length (chip0 g) = 4 \<and>
     length (chip1 g) = 4 \<and> length (chip2 g) = 4 \<and> length (chip3 g) = 4 \<and>
     length (server_response_set g) = 4 \<and> length (server_arg g) = 4"


lemma not_launched_xeon64: "not_launched xeon64"
  by (simp add: not_launched_def xeon64_def ffwd_globals0_def)


text \<open>
  C31: \<open>ffwd_shutdown\<close> indexes the server tables with \<open>num_of_server_launched\<close> instead of the
  loop variable: after \<open>launch_servers(n)\<close> with \<open>1 \<le> n \<le> 3\<close> from a fresh start every pointer it
  hands to \<open>numa_free\<close> for a request page is NULL, so no page of a launched server is released;
  with four servers it reads past the end of the tables.
\<close>

theorem shutdown_frees_no_page:
  assumes "not_launched g" and "1 \<le> n" and "n \<le> 4" and "\<forall>p. mprotect p = 0"
    and "chip0 g = replicate 4 NULL" "chip1 g = replicate 4 NULL" "chip2 g = replicate 4 NULL"
        "chip3 g = replicate 4 NULL"
    and "launch_servers numa mprotect (int n) g = Inr g'"
  shows "if n = 4 then ffwd_shutdown g' = Inl Undef
         else \<exists>f g''. ffwd_shutdown g' = Inr (f, g'') \<and> finished g'' = 1 \<and> set (freed_chips f) = {NULL}"
proof -
  have "launched_to numa (allocs g) 0 g" using assms(1) by (simp add: launched_to_def not_launched_def)
  then obtain g1 where g1: "launch_loop numa mprotect 0 n g = Inr g1"
    "launched_to numa (allocs g) n g1"
    and rest: "\<And>t. n \<le> t \<Longrightarrow> chip0 g1 ! t = chip0 g ! t \<and> chip1 g1 ! t = chip1 g ! t \<and>
      chip2 g1 ! t = chip2 g ! t \<and> chip3 g1 ! t = chip3 g ! t"
    using launch_loop_ok [of numa "allocs g" 0 g n mprotect] assms(1-4) by (auto simp: not_launched_def)
  from g1(1) assms(9) have g': "g' = g1\<lparr>num_of_server_launched := int n\<rparr>"
    by (simp add: launch_servers_def)
  show ?thesis
  proof (cases "n = 4")
    case True
    then obtain k where k: "nat (num_of_server_launched g') = Suc k" "length (chip0 g') = 4"
        "num_of_server_launched g' = 4"
      using g1(2) g' by (auto simp: launched_to_def)
    have "shutdown_loop (Suc k) (g'\<lparr>finished := 1\<rparr>) f = Inl Undef" for f
      using k(2,3) by (simp add: Let_def index_def)
    with True k(1) show ?thesis by (simp add: ffwd_shutdown_def Let_def del: shutdown_loop.simps)
  next
    case False
    with assms have n: "n < 4" by simp
    define gf where "gf = g'\<lparr>finished := 1\<rparr>"
    have null: "chip0 gf ! n = NULL" "chip1 gf ! n = NULL" "chip2 gf ! n = NULL" "chip3 gf ! n = NULL"
      using rest [of n] n assms(5-8) by (simp_all add: gf_def g')
    have len: "length (chip0 gf) = 4" "length (chip1 gf) = 4" "length (chip2 gf) = 4"
      "length (chip3 gf) = 4" "length (server_response_set gf) = 4" "length (server_arg gf) = 4"
      "num_of_server_launched gf = int n"
      using g1(2) by (simp_all add: launched_to_def gf_def g')
    have loop: "\<exists>f'. shutdown_loop k gf f = Inr f' \<and>
        set (freed_chips f') = set (freed_chips f) \<union> (if k = 0 then {} else {NULL})" for k f
    proof (induction k arbitrary: f)
      case (Suc k)
      from Suc.IH [of "f\<lparr> freed_chips := freed_chips f @ [0, 0, 0, 0],
          freed_sets := freed_sets f @ [server_response_set gf ! n],
          freed_args := freed_args f @ [server_arg gf ! n] \<rparr>"]
      show ?case using n by (auto simp: null len Let_def split: if_splits)
    qed simp
    from loop [of n "\<lparr>freed_chips = [], freed_sets = [], freed_args = []\<rparr>"] obtain f' where
      f': "shutdown_loop n gf \<lparr>freed_chips = [], freed_sets = [], freed_args = []\<rparr> = Inr f'"
        "set (freed_chips f') = {NULL}"
      using assms(2) by auto
    have "ffwd_shutdown g' = Inr (f', gf)"
      using f'(1) len(7) by (simp add: ffwd_shutdown_def Let_def gf_def)
    then show ?thesis using False f'(2) by (auto simp: gf_def)
  qed
qed

theorem shutdown_frees_no_page_witness:
  "\<exists>g'. launch_servers Suc (\<lambda>p. 0) (int 2) xeon64 = Inr g' \<and>
     (\<exists>f g''. ffwd_shutdown g' = Inr (f, g'') \<and> set (freed_chips f) = {NULL})"
proof -
  obtain g' where g': "launch_servers Suc (\<lambda>p. 0) (int 2) xeon64 = Inr g'"
    by (simp add: launch_servers_def launch_one_def xeon64_def ffwd_globals0_def Let_def update_def
        numeral_2_eq_2 MAX_SOCK_def)
  show ?thesis
    using shutdown_frees_no_page [OF not_launched_xeon64 _ _ _ _ _ _ _ g'] g'
    by (auto simp: xeon64_def ffwd_globals0_def)
qed

end
