(* ===== verification/Ffwd_Protocol.thy ===== *)
theory Ffwd_Protocol
  imports Ffwd_Layout
begin

text \<open>
  The delegation protocol of \<open>libffwd\<close>: the server loop (\<open>server_func\<close> with the macros
  \<open>SERVER_CODE_IMP\<close> and \<open>REPEAT\<close>) and the client macro \<open>FFWD_EXEC\<close> with
  \<open>prepare_request\<close>, as an interleaving of single memory accesses.

  A server polls the request slots of the four sockets in eight blocks (two response lines per
  socket), executes the function of every request whose flag bit differs from the flag bit it
  has served, keeps the results in a local buffer and publishes a block's buffer, return values
  first and flag word last (\<open>memcpy\<close> in ascending order). A client writes its request, flips its
  flag bit, spins until the response line shows the same bit and reads its return value.

  \<open>call f argv d\<close> is the function behind a function pointer: client code, hence an argument of
  the model. \<open>None\<close> means that it has no defined result. The events of a run (\<open>Invoke\<close>,
  \<open>Exec\<close>, \<open>Return\<close>) are labels of the steps, not state of the program.
\<close>

subsection \<open>Shared memory and server state\<close>

record 'f request =
  flag :: u64
  argc :: u32
  fptr :: 'f
  argv :: "u64 list"

record response =
  return_values :: "u64 list"
  flags :: u64

text \<open>
  Program points of \<open>server_func\<close>: the loop test, polling slot \<open>k\<close> of block \<open>b\<close>, the
  \<open>call\<close> instruction for it, the test \<open>old ^ socket\<close> after a block, copying word \<open>i\<close> of the
  response line, and the assignment to \<open>old_client_flags\<close>.
\<close>

datatype server_pc = Head | Poll nat nat | Call nat nat | Test nat | Copy nat nat | Next nat | Stopped

record ('f, 'd) server =
  chips :: "nat \<Rightarrow> nat \<Rightarrow> 'f request"
  responses :: "nat \<Rightarrow> response"
  old_client_flags :: "nat \<Rightarrow> u64"
  socket_client_flags :: "nat \<Rightarrow> u64"
  local_return_values :: "nat \<Rightarrow> u64 list"
  spc :: server_pc
  sdata :: 'd

text \<open>Block \<open>b\<close> of the loop body: its socket, its response line, and the slot of its \<open>k\<close>-th client.\<close>

definition socket_of :: "nat \<Rightarrow> nat" where "socket_of b = b div 2"
definition line_of :: "nat \<Rightarrow> nat" where "line_of b = 4 * (b div 2) + b mod 2"
definition slot_of :: "bool \<Rightarrow> nat \<Rightarrow> nat \<Rightarrow> nat" where
  "slot_of t64 b k = (b mod 2) * NCLIENTS t64 + k"

datatype 'f event =
    Invoke nat nat 'f "u64 list"
  | Exec nat nat nat 'f "u64 list" u64
  | Return nat nat 'f "u64 list" u64

text \<open>\<open>SERVER_CODE_IMP\<close>: the test on the flag bit, and the call with its effects.\<close>

definition server_test :: "bool \<Rightarrow> nat \<Rightarrow> nat \<Rightarrow> ('f, 'd) server \<Rightarrow> bool" where
  "server_test t64 b k S \<longleftrightarrow>
     (old_client_flags S (socket_of b) XOR flag (chips S (socket_of b) (slot_of t64 b k)))
       AND push_bit (slot_of t64 b k) 1 \<noteq> 0"

definition server_call :: "bool \<Rightarrow> ('f \<Rightarrow> u64 list \<Rightarrow> 'd \<Rightarrow> (u64 \<times> 'd) option) \<Rightarrow> nat \<Rightarrow> nat \<Rightarrow>
    ('f, 'd) server \<Rightarrow> (u64 \<times> ('f, 'd) server) option" where
  "server_call t64 call b k S =
     (let s = socket_of b; j = slot_of t64 b k; r = chips S s j in
      case call (fptr r) (argv r) (sdata S) of None \<Rightarrow> None
      | Some (ret, d) \<Rightarrow> Some (ret, S\<lparr> sdata := d,
          local_return_values := (local_return_values S)(line_of b :=
            (local_return_values S (line_of b))[j mod NCLIENTS t64 := ret]),
          socket_client_flags := (socket_client_flags S)(s :=
            socket_client_flags S s XOR push_bit j 1) \<rparr>))"

text \<open>One step of the server thread. \<open>fin\<close> is the global \<open>finished[0]\<close>.\<close>

fun server_step :: "bool \<Rightarrow> ('f \<Rightarrow> u64 list \<Rightarrow> 'd \<Rightarrow> (u64 \<times> 'd) option) \<Rightarrow> int \<Rightarrow> server_pc \<Rightarrow>
    ('f, 'd) server \<Rightarrow> ((nat \<times> nat \<times> 'f \<times> u64 list \<times> u64) option \<times> ('f, 'd) server) option" where
  "server_step t64 call fin Head S =
     Some (None, S\<lparr> spc := (if fin \<noteq> 1 then Poll 0 0 else Stopped) \<rparr>)"
| "server_step t64 call fin (Poll b k) S =
     Some (None, S\<lparr> spc := (if k < NCLIENTS t64 then
         (if server_test t64 b k S then Call b k else Poll b (Suc k)) else Test b) \<rparr>)"
| "server_step t64 call fin (Call b k) S =
     (case server_call t64 call b k S of None \<Rightarrow> None
      | Some (ret, S') \<Rightarrow>
          (let r = chips S (socket_of b) (slot_of t64 b k) in
           Some (Some (socket_of b, slot_of t64 b k, fptr r, argv r, ret),
                 S'\<lparr> spc := Poll b (Suc k) \<rparr>)))"
| "server_step t64 call fin (Test b) S =
     (let s = socket_of b in
      if old_client_flags S s XOR socket_client_flags S s \<noteq> 0 then
        Some (None, S\<lparr> local_return_values := (local_return_values S)(line_of b :=
            (local_return_values S (line_of b))[NCLIENTS t64 := socket_client_flags S s]),
          spc := Copy b 0 \<rparr>)
      else Some (None, S\<lparr> spc := Next b \<rparr>))"
| "server_step t64 call fin (Copy b i) S =
     (let l = line_of b; v = local_return_values S l ! i; p = responses S l in
      if i < NCLIENTS t64 then
        Some (None, S\<lparr> responses := (responses S)(l := p\<lparr> return_values := (return_values p)[i := v] \<rparr>),
                       spc := Copy b (Suc i) \<rparr>)
      else
        Some (None, S\<lparr> responses := (responses S)(l := p\<lparr> flags := v \<rparr>), spc := Next b \<rparr>))"
| "server_step t64 call fin (Next b) S =
     Some (None, S\<lparr> old_client_flags := (old_client_flags S)(socket_of b :=
                      socket_client_flags S (socket_of b)),
                    spc := (if b = 7 then Head else Poll (Suc b) 0) \<rparr>)"
| "server_step t64 call fin Stopped S = None"

subsection \<open>Clients\<close>

text \<open>
  Program points of \<open>FFWD_EXEC(server_no, function, ret, \<dots>)\<close>, with its arguments; \<open>SetArgc\<close>
  and \<open>SetArgv\<close> are \<open>prepare_request\<close>.
\<close>

datatype 'f client_pc =
    Idle
  | SetFptr nat 'f "u64 list"
  | SetArgc nat 'f "u64 list"
  | SetArgv nat 'f "u64 list" nat
  | Toggle nat 'f "u64 list"
  | Post nat 'f "u64 list"
  | Spin nat 'f "u64 list"
  | Fetch nat 'f "u64 list"

record 'f client =
  chip :: nat
  slot :: nat
  cmask :: u64
  lflag :: "nat \<Rightarrow> u64"
  cpc :: "'f client_pc"

definition client_line :: "bool \<Rightarrow> 'f client \<Rightarrow> nat" where
  "client_line t64 C = 4 * chip C + slot C div NCLIENTS t64"

definition set_request :: "'f client \<Rightarrow> ('f request \<Rightarrow> 'f request) \<Rightarrow> ('f, 'd) server \<Rightarrow> ('f, 'd) server" where
  "set_request C change S = S\<lparr> chips := (chips S)(chip C := (chips S (chip C))(slot C :=
     change (chips S (chip C) (slot C)))) \<rparr>"

text \<open>One step of a client inside \<open>FFWD_EXEC\<close>, on its own state and the memory of its server.\<close>

fun client_step :: "bool \<Rightarrow> 'f client_pc \<Rightarrow> 'f client \<Rightarrow> ('f, 'd) server \<Rightarrow>
    (u64 option \<times> 'f client \<times> ('f, 'd) server) option" where
  "client_step t64 Idle C S = None"
| "client_step t64 (SetFptr v f args) C S =
     Some (None, C\<lparr> cpc := SetArgc v f args \<rparr>, set_request C (fptr_update (\<lambda>_. f)) S)"
| "client_step t64 (SetArgc v f args) C S =
     Some (None, C\<lparr> cpc := SetArgv v f args 0 \<rparr>,
           set_request C (argc_update (\<lambda>_. of_nat (length args))) S)"
| "client_step t64 (SetArgv v f args i) C S =
     (if i < length args then
        Some (None, C\<lparr> cpc := SetArgv v f args (Suc i) \<rparr>,
              set_request C (argv_update (\<lambda>a. a[i := args ! i])) S)
      else Some (None, C\<lparr> cpc := Toggle v f args \<rparr>, S))"
| "client_step t64 (Toggle v f args) C S =
     Some (None, C\<lparr> lflag := (lflag C)(v := lflag C v XOR cmask C), cpc := Post v f args \<rparr>, S)"
| "client_step t64 (Post v f args) C S =
     Some (None, C\<lparr> cpc := Spin v f args \<rparr>, set_request C (flag_update (\<lambda>_. lflag C v)) S)"
| "client_step t64 (Spin v f args) C S =
     (if (flags (responses S (client_line t64 C)) XOR lflag C v) AND cmask C \<noteq> 0
      then Some (None, C, S)
      else Some (None, C\<lparr> cpc := Fetch v f args \<rparr>, S))"
| "client_step t64 (Fetch v f args) C S =
     Some (Some (return_values (responses S (client_line t64 C)) ! (slot C mod NCLIENTS t64)),
           C\<lparr> cpc := Idle \<rparr>, S)"

fun pc_server :: "'f client_pc \<Rightarrow> nat" where
  "pc_server Idle = 0"
| "pc_server (SetFptr v f args) = v"
| "pc_server (SetArgc v f args) = v"
| "pc_server (SetArgv v f args i) = v"
| "pc_server (Toggle v f args) = v"
| "pc_server (Post v f args) = v"
| "pc_server (Spin v f args) = v"
| "pc_server (Fetch v f args) = v"

fun pc_call :: "'f client_pc \<Rightarrow> ('f \<times> u64 list) option" where
  "pc_call Idle = None"
| "pc_call (SetFptr v f args) = Some (f, args)"
| "pc_call (SetArgc v f args) = Some (f, args)"
| "pc_call (SetArgv v f args i) = Some (f, args)"
| "pc_call (Toggle v f args) = Some (f, args)"
| "pc_call (Post v f args) = Some (f, args)"
| "pc_call (Spin v f args) = Some (f, args)"
| "pc_call (Fetch v f args) = Some (f, args)"

subsection \<open>The system\<close>

record ('f, 'd) sys =
  servers :: "nat \<Rightarrow> ('f, 'd) server"
  clients :: "nat \<Rightarrow> 'f client"
  nservers :: nat
  nclients :: nat
  stop_flag :: int

inductive ffwd_step :: "bool \<Rightarrow> ('f \<Rightarrow> u64 list \<Rightarrow> 'd \<Rightarrow> (u64 \<times> 'd) option) \<Rightarrow>
    ('f, 'd) sys \<Rightarrow> 'f event option \<Rightarrow> ('f, 'd) sys \<Rightarrow> bool"
  for t64 call where
  server: "\<lbrakk> v < nservers \<sigma>; server_step t64 call (stop_flag \<sigma>) (spc (servers \<sigma> v)) (servers \<sigma> v) = Some (e, S') \<rbrakk> \<Longrightarrow>
     ffwd_step t64 call \<sigma> (map_option (\<lambda>(s, k, f, a, r). Exec v s k f a r) e)
       (\<sigma>\<lparr> servers := (servers \<sigma>)(v := S') \<rparr>)"
| invoke: "\<lbrakk> c < nclients \<sigma>; cpc (clients \<sigma> c) = Idle; v < nservers \<sigma>; length args \<le> 5 \<rbrakk> \<Longrightarrow>
     ffwd_step t64 call \<sigma> (Some (Invoke c v f args))
       (\<sigma>\<lparr> clients := (clients \<sigma>)(c := (clients \<sigma> c)\<lparr> cpc := SetFptr v f args \<rparr>) \<rparr>)"
| client: "\<lbrakk> c < nclients \<sigma>; v = pc_server (cpc (clients \<sigma> c));
     client_step t64 (cpc (clients \<sigma> c)) (clients \<sigma> c) (servers \<sigma> v) = Some (e, C', S');
     pc_call (cpc (clients \<sigma> c)) = Some (f, args) \<rbrakk> \<Longrightarrow>
     ffwd_step t64 call \<sigma> (map_option (Return c v f args) e)
       (\<sigma>\<lparr> servers := (servers \<sigma>)(v := S'), clients := (clients \<sigma>)(c := C') \<rparr>)"
| finish: "ffwd_step t64 call \<sigma> None (\<sigma>\<lparr> stop_flag := 1 \<rparr>)"

definition ev :: "'f event option \<Rightarrow> 'f event list" where
  "ev l = (case l of None \<Rightarrow> [] | Some e \<Rightarrow> [e])"

inductive ffwd_run :: "bool \<Rightarrow> ('f \<Rightarrow> u64 list \<Rightarrow> 'd \<Rightarrow> (u64 \<times> 'd) option) \<Rightarrow>
    ('f, 'd) sys \<Rightarrow> 'f event list \<Rightarrow> ('f, 'd) sys \<Rightarrow> bool"
  for t64 call \<sigma>0 where
  start: "ffwd_run t64 call \<sigma>0 [] \<sigma>0"
| step: "\<lbrakk> ffwd_run t64 call \<sigma>0 tr \<sigma>; ffwd_step t64 call \<sigma> l \<sigma>' \<rbrakk> \<Longrightarrow>
     ffwd_run t64 call \<sigma>0 (tr @ ev l) \<sigma>'"

text \<open>
  The state \<open>launch_servers\<close> and \<open>ffwd_thread_create\<close> leave: request pages with zero flags,
  response flags zero, server variables zero, every client with a slot of its own.
\<close>

definition initial :: "bool \<Rightarrow> ('f, 'd) sys \<Rightarrow> bool" where
  "initial t64 \<sigma> \<longleftrightarrow>
     (\<forall>v < nservers \<sigma>. spc (servers \<sigma> v) = Head \<and>
        (\<forall>s. old_client_flags (servers \<sigma> v) s = 0 \<and> socket_client_flags (servers \<sigma> v) s = 0) \<and>
        (\<forall>s k. flag (chips (servers \<sigma> v) s k) = 0 \<and> length (argv (chips (servers \<sigma> v) s k)) = 5) \<and>
        (\<forall>i. flags (responses (servers \<sigma> v) i) = 0 \<and>
             length (return_values (responses (servers \<sigma> v) i)) = NCLIENTS t64 \<and>
             length (local_return_values (servers \<sigma> v) i) = NCLIENTS t64 + 1)) \<and>
     (\<forall>c < nclients \<sigma>. cpc (clients \<sigma> c) = Idle \<and> (\<forall>v. lflag (clients \<sigma> c) v = 0) \<and>
        chip (clients \<sigma> c) < 4 \<and> slot (clients \<sigma> c) < 2 * NCLIENTS t64 \<and>
        cmask (clients \<sigma> c) = push_bit (slot (clients \<sigma> c)) 1) \<and>
     inj_on (\<lambda>c. (chip (clients \<sigma> c), slot (clients \<sigma> c))) {..< nclients \<sigma>}"

subsection \<open>Coordinates of a slot\<close>

lemma NCLIENTS_bounds [simp]: "0 < NCLIENTS t64" "NCLIENTS t64 \<le> 15" "NCLIENTS t64 \<noteq> 0"
  by (simp_all add: NCLIENTS_def)

definition block_of :: "bool \<Rightarrow> nat \<Rightarrow> nat \<Rightarrow> nat" where
  "block_of t64 s k = 2 * s + k div NCLIENTS t64"

definition pos_of :: "bool \<Rightarrow> nat \<Rightarrow> nat" where
  "pos_of t64 k = k mod NCLIENTS t64"

lemma slot_half:
  assumes "k < 2 * NCLIENTS t64"
  shows "k div NCLIENTS t64 < 2"
  using assms by (simp add: less_mult_imp_div_less)

lemma coords:
  assumes "s < 4" and "k < 2 * NCLIENTS t64"
  shows "block_of t64 s k < 8" and "socket_of (block_of t64 s k) = s"
    and "line_of (block_of t64 s k) = 4 * s + k div NCLIENTS t64"
    and "slot_of t64 (block_of t64 s k) (pos_of t64 k) = k" and "pos_of t64 k < NCLIENTS t64"
proof -
  define h where "h = k div NCLIENTS t64"
  have h: "h < 2" using slot_half [OF assms(2)] by (simp add: h_def)
  have "(2 * s + h) mod 2 = h" "(2 * s + h) div 2 = s" using h by presburger+
  with h assms(1) show "block_of t64 s k < 8" and "socket_of (block_of t64 s k) = s"
    and "line_of (block_of t64 s k) = 4 * s + k div NCLIENTS t64"
    and "slot_of t64 (block_of t64 s k) (pos_of t64 k) = k" and "pos_of t64 k < NCLIENTS t64"
    by (simp_all add: block_of_def socket_of_def line_of_def slot_of_def pos_of_def h_def [symmetric])
       (simp add: h_def)
qed

lemma coords_inv:
  assumes "b < 8" and "j < NCLIENTS t64"
  shows "socket_of b < 4" and "slot_of t64 b j < 2 * NCLIENTS t64"
    and "block_of t64 (socket_of b) (slot_of t64 b j) = b" and "pos_of t64 (slot_of t64 b j) = j"
proof -
  have m: "b mod 2 < 2" by simp
  have "b mod 2 * NCLIENTS t64 \<le> NCLIENTS t64" using m by (cases "b mod 2 = 0") auto
  then show "slot_of t64 b j < 2 * NCLIENTS t64" unfolding slot_of_def using assms(2) by linarith
  show "socket_of b < 4" and "block_of t64 (socket_of b) (slot_of t64 b j) = b" and "pos_of t64 (slot_of t64 b j) = j"
    using assms by (simp_all add: socket_of_def slot_of_def block_of_def pos_of_def div_mod_block)
qed

lemma line_of_inj [simp]: "line_of b = line_of b' \<longleftrightarrow> b = b'"
proof
  assume eq: "line_of b = line_of b'"
  have "line_of x div 4 = x div 2 \<and> line_of x mod 4 = x mod 2" for x
    using div_mod_block [of "x mod 2" 4 "x div 2"] by (simp add: line_of_def mult.commute)
  with eq have "b div 2 = b' div 2" "b mod 2 = b' mod 2" by metis+
  then show "b = b'" by (metis div_mult_mod_eq)
qed simp

lemma slot_small: "k < 2 * NCLIENTS t64 \<Longrightarrow> k < 64"
  using NCLIENTS_bounds(2) [of t64] by linarith

lemma slot_of_inj:
  "b < 8 \<Longrightarrow> b' < 8 \<Longrightarrow> j < NCLIENTS t64 \<Longrightarrow> j' < NCLIENTS t64 \<Longrightarrow>
   socket_of b = socket_of b' \<Longrightarrow> slot_of t64 b j = slot_of t64 b' j' \<Longrightarrow> b = b' \<and> j = j'"
  by (metis coords_inv(3,4))

subsection \<open>Single bits\<close>

lemma bit_push_one [bit_simps]: "m < 64 \<Longrightarrow> bit (2 ^ m :: u64) k \<longleftrightarrow> k = m"
  by (auto simp: bit_exp_iff)

lemma and_push_one [bit_simps]: "(x :: u64) AND 2 ^ m = 0 \<longleftrightarrow> \<not> bit x m"
  using bit_iff_and_push_bit_not_eq_0 [of x m] by simp

lemma xor_zero_iff [bit_simps]: "(x :: u64) XOR y = 0 \<longleftrightarrow> x = y"
  by (simp add: bit_eq_iff bit_xor_iff)

lemmas bit_flips = bit_simps bit_xor_iff

subsection \<open>The server invariant\<close>

abbreviation "posted S s k \<equiv> bit (flag (chips S s k)) k"
abbreviation "served S s k \<equiv> bit (socket_client_flags S s) k"
abbreviation "seen S s k \<equiv> bit (old_client_flags S s) k"
abbreviation "shown t64 S s k \<equiv> bit (flags (responses S (line_of (block_of t64 s k)))) k"
abbreviation "kept t64 S s k \<equiv> local_return_values S (line_of (block_of t64 s k)) ! pos_of t64 k"
abbreviation "answer t64 S s k \<equiv> return_values (responses S (line_of (block_of t64 s k))) ! pos_of t64 k"

fun past :: "server_pc \<Rightarrow> nat \<Rightarrow> nat \<Rightarrow> bool" where
  "past (Poll b' k) b j = (b' = b \<and> j < k)"
| "past (Call b' k) b j = (b' = b \<and> j < k)"
| "past (Test b') b j = (b' = b)"
| "past (Copy b' i) b j = (b' = b)"
| "past (Next b') b j = (b' = b)"
| "past pc b j = False"

definition slot_inv :: "bool \<Rightarrow> ('f, 'd) server \<Rightarrow> nat \<Rightarrow> nat \<Rightarrow> bool" where
  "slot_inv t64 S s k \<longleftrightarrow>
     (\<not> past (spc S) (block_of t64 s k) (pos_of t64 k) \<longrightarrow> seen S s k = served S s k) \<and>
     shown t64 S s k = (if spc S = Next (block_of t64 s k) then served S s k else seen S s k) \<and>
     (spc S = Call (block_of t64 s k) (pos_of t64 k) \<longrightarrow> seen S s k \<noteq> posted S s k) \<and>
     (\<forall>i. spc S = Copy (block_of t64 s k) i \<longrightarrow> pos_of t64 k < i \<longrightarrow> answer t64 S s k = kept t64 S s k)"

fun pc_ok :: "bool \<Rightarrow> server_pc \<Rightarrow> bool" where
  "pc_ok t64 (Poll b k) = (b < 8 \<and> k \<le> NCLIENTS t64)"
| "pc_ok t64 (Call b k) = (b < 8 \<and> k < NCLIENTS t64)"
| "pc_ok t64 (Test b) = (b < 8)"
| "pc_ok t64 (Copy b i) = (b < 8 \<and> i \<le> NCLIENTS t64)"
| "pc_ok t64 (Next b) = (b < 8)"
| "pc_ok t64 pc = True"

definition server_inv :: "bool \<Rightarrow> ('f, 'd) server \<Rightarrow> bool" where
  "server_inv t64 S \<longleftrightarrow> pc_ok t64 (spc S) \<and>
     (\<forall>i. length (return_values (responses S i)) = NCLIENTS t64 \<and>
          length (local_return_values S i) = NCLIENTS t64 + 1) \<and>
     (\<forall>b i. spc S = Copy b i \<longrightarrow>
        local_return_values S (line_of b) ! NCLIENTS t64 = socket_client_flags S (socket_of b)) \<and>
     (\<forall>s < 4. \<forall>k < 2 * NCLIENTS t64. slot_inv t64 S s k)"

text \<open>What a server step does to slot \<open>k\<close> of socket \<open>s\<close>: nothing, one call, or the publication
  of the result kept for it.\<close>

definition slot_called :: "bool \<Rightarrow> ('f, 'd) server \<Rightarrow> ('f, 'd) server \<Rightarrow> nat \<Rightarrow> nat \<Rightarrow>
    'f \<Rightarrow> u64 list \<Rightarrow> u64 \<Rightarrow> bool" where
  "slot_called t64 S S' s k f a r \<longleftrightarrow>
     f = fptr (chips S s k) \<and> a = argv (chips S s k) \<and> served S s k \<noteq> posted S s k \<and>
     shown t64 S s k = served S s k \<and> served S' s k = posted S s k \<and> shown t64 S' s k = shown t64 S s k \<and>
     kept t64 S' s k = r \<and> chips S' s k = chips S s k"

definition slot_kept :: "bool \<Rightarrow> ('f, 'd) server \<Rightarrow> ('f, 'd) server \<Rightarrow> nat \<Rightarrow> nat \<Rightarrow> bool" where
  "slot_kept t64 S S' s k \<longleftrightarrow>
     served S' s k = served S s k \<and> kept t64 S' s k = kept t64 S s k \<and> chips S' s k = chips S s k \<and>
     (shown t64 S' s k = shown t64 S s k \<and> answer t64 S' s k \<in> {answer t64 S s k, kept t64 S s k} \<or>
      shown t64 S' s k = served S s k \<and> answer t64 S' s k = kept t64 S s k)"


lemma bit_xor_zeroD: "(x :: u64) XOR y = 0 \<Longrightarrow> bit x k = bit y k"
  by (simp add: bit_simps)

lemma slot_invD:
  assumes "server_inv t64 S" "s < 4" "k < 2 * NCLIENTS t64"
  shows "slot_inv t64 S s k"
  using assms by (simp add: server_inv_def)


lemma slot_inv_move:
  assumes "slot_inv t64 S s k" and "\<And>b. spc S \<noteq> Next b"
    and "\<not> past pc (block_of t64 s k) (pos_of t64 k) \<Longrightarrow> \<not> past (spc S) (block_of t64 s k) (pos_of t64 k)"
    and "\<And>b. pc \<noteq> Next b" and "\<And>b i. pc \<noteq> Copy b i"
    and "pc = Call (block_of t64 s k) (pos_of t64 k) \<Longrightarrow> seen S s k \<noteq> posted S s k"
  shows "slot_inv t64 (S\<lparr>spc := pc\<rparr>) s k"
  using assms by (simp add: slot_inv_def)

lemma slot_kept_pc [simp]: "slot_kept t64 S (S\<lparr>spc := pc\<rparr>) s k"
  by (simp add: slot_kept_def)

lemma server_test_bits:
  assumes "b < 8" and "j < NCLIENTS t64"
  shows "server_test t64 b j S \<longleftrightarrow>
    seen S (socket_of b) (slot_of t64 b j) \<noteq> posted S (socket_of b) (slot_of t64 b j)"
  using coords_inv(2) [OF assms] by (auto simp: server_test_def bit_flips)

text \<open>The cases of a server step, each for one slot.\<close>

lemma step_poll:
  assumes inv: "server_inv t64 S" and s: "s < 4" and k: "k < 2 * NCLIENTS t64"
    and pc: "spc S = Poll b i" and st: "server_step t64 call fin (Poll b i) S = Some (e, S')"
  shows "e = None" "slot_inv t64 S' s k" "slot_kept t64 S S' s k"
proof -
  have b: "b < 8" "i \<le> NCLIENTS t64" using inv pc by (auto simp: server_inv_def)
  note c = coords [OF s k] and sl = slot_invD [OF inv s k]
  define pc' where "pc' = (if i < NCLIENTS t64 then
         (if server_test t64 b i S then Call b i else Poll b (Suc i)) else Test b)"
  from st have S': "S' = S\<lparr>spc := pc'\<rparr>" and "e = None" by (auto simp: pc'_def)
  show "e = None" by fact
  show "slot_kept t64 S S' s k" by (simp add: S')
  show "slot_inv t64 S' s k"
    unfolding S'
  proof (rule slot_inv_move [OF sl])
    show "seen S s k \<noteq> posted S s k" if "pc' = Call (block_of t64 s k) (pos_of t64 k)"
      using that server_test_bits [OF b(1), of i t64 S] c by (auto simp: pc'_def split: if_splits)
  qed (auto simp: pc pc'_def split: if_splits)
qed

lemma step_next:
  assumes inv: "server_inv t64 S" and s: "s < 4" and k: "k < 2 * NCLIENTS t64"
    and pc: "spc S = Next b" and st: "server_step t64 call fin (Next b) S = Some (e, S')"
  shows "e = None" "slot_inv t64 S' s k" "slot_kept t64 S S' s k"
proof -
  note c = coords [OF s k] and sl = slot_invD [OF inv s k]
  define pc' where "pc' = (if b = 7 then Head else Poll (Suc b) 0)"
  from st have S': "S' = S\<lparr> old_client_flags := (old_client_flags S)(socket_of b :=
                      socket_client_flags S (socket_of b)), spc := pc' \<rparr>" and "e = None"
    by (auto simp: pc'_def)
  show "e = None" by fact
  show "slot_kept t64 S S' s k" by (simp add: S' slot_kept_def)
  have np: "\<not> past pc' x y" "pc' \<noteq> Next x" "pc' \<noteq> Call x y" "pc' \<noteq> Copy x y" for x y
    by (auto simp: pc'_def)
  show "slot_inv t64 S' s k"
    using sl c(2) by (auto simp: S' slot_inv_def pc np)
qed

lemma step_test:
  assumes inv: "server_inv t64 S" and s: "s < 4" and k: "k < 2 * NCLIENTS t64"
    and pc: "spc S = Test b" and st: "server_step t64 call fin (Test b) S = Some (e, S')"
  shows "e = None" "slot_inv t64 S' s k" "slot_kept t64 S S' s k"
proof -
  note c = coords [OF s k] and sl = slot_invD [OF inv s k]
  have len: "length (local_return_values S i) = NCLIENTS t64 + 1" for i
    using inv by (simp add: server_inv_def)
  show "e = None" using st by (auto simp: Let_def split: if_splits)
  show "slot_kept t64 S S' s k"
    using st c(5) by (auto simp: Let_def slot_kept_def nth_list_update split: if_splits)
  show "slot_inv t64 S' s k"
  proof (cases "old_client_flags S (socket_of b) XOR socket_client_flags S (socket_of b) = 0")
    case True
    with st have S': "S' = S\<lparr>spc := Next b\<rparr>" by (simp add: Let_def)
    have "seen S s k = served S s k" if "block_of t64 s k = b"
      using bit_xor_zeroD [OF True, of k] c(2) that by simp
    with sl show ?thesis by (auto simp: S' slot_inv_def pc)
  next
    case False
    with st sl c(5) show ?thesis
      by (auto simp: Let_def slot_inv_def pc nth_list_update)
  qed
qed

lemma step_copy:
  assumes inv: "server_inv t64 S" and s: "s < 4" and k: "k < 2 * NCLIENTS t64"
    and pc: "spc S = Copy b i" and st: "server_step t64 call fin (Copy b i) S = Some (e, S')"
  shows "e = None" "slot_inv t64 S' s k" "slot_kept t64 S S' s k"
proof -
  note c = coords [OF s k] and sl = slot_invD [OF inv s k]
  have len: "length (return_values (responses S l)) = NCLIENTS t64" for l
    using inv by (simp add: server_inv_def)
  have i: "i \<le> NCLIENTS t64"
    and word: "local_return_values S (line_of b) ! NCLIENTS t64 = socket_client_flags S (socket_of b)"
    using inv pc by (auto simp: server_inv_def)
  show "e = None" using st by (auto simp: Let_def split: if_splits)
  show "slot_kept t64 S S' s k"
    using st c sl i word len
    by (auto simp: Let_def slot_kept_def slot_inv_def pc nth_list_update split: if_splits)
  show "slot_inv t64 S' s k"
    using st c sl i word len
    by (auto simp: Let_def slot_inv_def pc nth_list_update less_Suc_eq split: if_splits)
qed

lemma step_call:
  assumes inv: "server_inv t64 S" and s: "s < 4" and k: "k < 2 * NCLIENTS t64"
    and pc: "spc S = Call b i" and st: "server_step t64 call fin (Call b i) S = Some (e, S')"
  shows "\<exists>f a r. e = Some (socket_of b, slot_of t64 b i, f, a, r) \<and>
      (if socket_of b = s \<and> slot_of t64 b i = k then slot_called t64 S S' s k f a r
       else slot_kept t64 S S' s k)" "slot_inv t64 S' s k"
proof -
  note c = coords [OF s k] and sl = slot_invD [OF inv s k]
  have b: "b < 8" "i < NCLIENTS t64" using inv pc by (auto simp: server_inv_def)
  note d = coords_inv [OF b] and k64 = slot_small [OF coords_inv(2) [OF b]]
  have len: "length (local_return_values S l) = NCLIENTS t64 + 1" for l
    using inv by (simp add: server_inv_def)
  have j: "slot_of t64 b i mod NCLIENTS t64 = i" using d(4) by (simp add: pos_of_def)
  obtain r d where S': "S' = S\<lparr> sdata := d,
          local_return_values := (local_return_values S)(line_of b :=
            (local_return_values S (line_of b))[i := r]),
          socket_client_flags := (socket_client_flags S)(socket_of b :=
            socket_client_flags S (socket_of b) XOR push_bit (slot_of t64 b i) 1), spc := Poll b (Suc i) \<rparr>"
    and e: "e = Some (socket_of b, slot_of t64 b i, fptr (chips S (socket_of b) (slot_of t64 b i)),
       argv (chips S (socket_of b) (slot_of t64 b i)), r)"
    using st by (auto simp: server_call_def Let_def j split: option.splits)
  show "slot_inv t64 S' s k"
  proof (cases "socket_of b = s \<and> slot_of t64 b i = k")
    case True
    then show ?thesis using sl d by (auto simp: S' slot_inv_def pc)
  next
    case False
    then have "block_of t64 s k = b \<Longrightarrow> pos_of t64 k \<noteq> i" using c by auto
    then show ?thesis using sl False k64
      by (auto simp: S' slot_inv_def pc bit_flips less_Suc_eq)
  qed
  show "\<exists>f a r. e = Some (socket_of b, slot_of t64 b i, f, a, r) \<and>
      (if socket_of b = s \<and> slot_of t64 b i = k then slot_called t64 S S' s k f a r
       else slot_kept t64 S S' s k)"
  proof (cases "socket_of b = s \<and> slot_of t64 b i = k")
    case True
    then show ?thesis using sl d b k64 len
      by (auto simp: S' e slot_inv_def slot_called_def pc bit_flips)
  next
    case False
    then have "block_of t64 s k = b \<Longrightarrow> pos_of t64 k \<noteq> i" using c by auto
    then show ?thesis using False k64
      by (auto simp: S' e slot_kept_def bit_flips)
  qed
qed

lemma step_head:
  assumes inv: "server_inv t64 S" and s: "s < 4" and k: "k < 2 * NCLIENTS t64"
    and pc: "spc S = Head" and st: "server_step t64 call fin Head S = Some (e, S')"
  shows "e = None" "slot_inv t64 S' s k" "slot_kept t64 S S' s k"
  using st slot_invD [OF inv s k] by (auto simp: slot_inv_def pc split: if_splits)

lemma server_step_slot:
  assumes "server_inv t64 S" "server_step t64 call fin (spc S) S = Some (e, S')"
    and "s < 4" "k < 2 * NCLIENTS t64"
  shows "slot_inv t64 S' s k \<and>
    (case e of None \<Rightarrow> slot_kept t64 S S' s k
     | Some (s', k', f, a, r) \<Rightarrow>
         if s' = s \<and> k' = k then slot_called t64 S S' s k f a r else slot_kept t64 S S' s k)"
proof (cases "spc S")
  case (Call b i)
  then show ?thesis using step_call [OF assms(1,3,4), of b i call fin e S'] assms(2) by auto
next
  case Head
  then show ?thesis using step_head [OF assms(1,3,4), of call fin e S'] assms(2) by simp
next
  case (Poll b i)
  then show ?thesis using step_poll [OF assms(1,3,4), of b i call fin e S'] assms(2) by simp
next
  case (Test b)
  then show ?thesis using step_test [OF assms(1,3,4), of b call fin e S'] assms(2) by simp
next
  case (Copy b i)
  then show ?thesis using step_copy [OF assms(1,3,4), of b i call fin e S'] assms(2) by simp
next
  case (Next b)
  then show ?thesis using step_next [OF assms(1,3,4), of b call fin e S'] assms(2) by simp
next
  case Stopped
  with assms(2) show ?thesis by simp
qed


lemma server_step_chips:
  "server_step t64 call fin pc S = Some (e, S') \<Longrightarrow> chips S' = chips S"
  by (cases pc) (auto simp: server_call_def Let_def split: if_splits option.splits)

lemma server_step_inv:
  assumes inv: "server_inv t64 S" and st: "server_step t64 call fin (spc S) S = Some (e, S')"
  shows "server_inv t64 S'"
proof -
  have "slot_inv t64 S' s k" if "s < 4" "k < 2 * NCLIENTS t64" for s k
    using server_step_slot [OF inv st that] by simp
  moreover have "pc_ok t64 (spc S') \<and>
     (\<forall>i. length (return_values (responses S' i)) = NCLIENTS t64 \<and>
          length (local_return_values S' i) = NCLIENTS t64 + 1) \<and>
     (\<forall>b i. spc S' = Copy b i \<longrightarrow>
        local_return_values S' (line_of b) ! NCLIENTS t64 = socket_client_flags S' (socket_of b))"
    using inv st unfolding server_inv_def
    by (cases "spc S") (auto simp: server_call_def Let_def nth_list_update split: if_splits option.splits)
  ultimately show ?thesis by (simp add: server_inv_def)
qed

subsection \<open>What a client sees: one call at a time\<close>

text \<open>
  The view of one client: no call outstanding, a call made but not yet executed, a call
  executed with its result but not yet returned. \<open>track\<close> replays the events of a run for the
  client \<open>c\<close> that owns slot \<open>k\<close> of socket \<open>s\<close>; it is \<open>None\<close> as soon as an event is out of
  order: a request executed twice or before it was made, executed by another server, with
  another function or other arguments, or a return value that is not the one of that execution.
\<close>

datatype 'f view = Free | Called nat 'f "u64 list" | Done nat 'f "u64 list" u64

fun track1 :: "nat \<Rightarrow> nat \<Rightarrow> nat \<Rightarrow> 'f view \<Rightarrow> 'f event \<Rightarrow> 'f view option" where
  "track1 c s k w (Invoke c' v f args) =
     (if c' \<noteq> c then Some w else if w = Free then Some (Called v f args) else None)"
| "track1 c s k w (Exec v s' k' f a r) =
     (if s' \<noteq> s \<or> k' \<noteq> k then Some w
      else case w of
        Called v' f' args \<Rightarrow> if v' = v \<and> f' = f \<and> take (length args) a = args
                             then Some (Done v f args r) else None
      | _ \<Rightarrow> None)"
| "track1 c s k w (Return c' v f args r) =
     (if c' \<noteq> c then Some w else if w = Done v f args r then Some Free else None)"

fun track :: "nat \<Rightarrow> nat \<Rightarrow> nat \<Rightarrow> 'f view \<Rightarrow> 'f event list \<Rightarrow> 'f view option" where
  "track c s k w [] = Some w"
| "track c s k w (e # es) = (case track1 c s k w e of None \<Rightarrow> None | Some w' \<Rightarrow> track c s k w' es)"

lemma track_append:
  "track c s k w (es @ es') = (case track c s k w es of None \<Rightarrow> None | Some w' \<Rightarrow> track c s k w' es')"
  by (induction es arbitrary: w) (auto split: option.splits)

text \<open>The executions of server \<open>v\<close> in a run, and replaying them one after the other.\<close>

fun execs :: "nat \<Rightarrow> 'f event list \<Rightarrow> ('f \<times> u64 list \<times> u64) list" where
  "execs v [] = []"
| "execs v (Exec v' s k f a r # es) = (if v' = v then (f, a, r) # execs v es else execs v es)"
| "execs v (e # es) = execs v es"

fun replay :: "('f \<Rightarrow> u64 list \<Rightarrow> 'd \<Rightarrow> (u64 \<times> 'd) option) \<Rightarrow> 'd \<Rightarrow>
    ('f \<times> u64 list \<times> u64) list \<Rightarrow> 'd option" where
  "replay call d [] = Some d"
| "replay call d ((f, a, r) # es) =
     (case call f a d of None \<Rightarrow> None
      | Some (r', d') \<Rightarrow> if r' = r then replay call d' es else None)"

lemma execs_append: "execs v (es @ es') = execs v es @ execs v es'"
  by (induction v es rule: execs.induct) auto

lemma replay_append:
  "replay call d (es @ es') = (case replay call d es of None \<Rightarrow> None | Some d' \<Rightarrow> replay call d' es')"
  by (induction call d es rule: replay.induct) (auto split: option.splits)

definition quiet :: "bool \<Rightarrow> 'f client \<Rightarrow> ('f, 'd) server \<Rightarrow> nat \<Rightarrow> bool" where
  "quiet t64 C S v \<longleftrightarrow>
     bit (lflag C v) (slot C) = posted S (chip C) (slot C) \<and>
     served S (chip C) (slot C) = posted S (chip C) (slot C) \<and>
     shown t64 S (chip C) (slot C) = posted S (chip C) (slot C)"

definition filled :: "'f client \<Rightarrow> ('f, 'd) server \<Rightarrow> 'f \<Rightarrow> u64 list \<Rightarrow> nat \<Rightarrow> bool" where
  "filled C S f args i \<longleftrightarrow> fptr (chips S (chip C) (slot C)) = f \<and>
     take i (argv (chips S (chip C) (slot C))) = take i args"

definition waiting :: "bool \<Rightarrow> 'f client \<Rightarrow> ('f, 'd) server \<Rightarrow> nat \<Rightarrow> 'f \<Rightarrow> u64 list \<Rightarrow> 'f view \<Rightarrow> bool" where
  "waiting t64 C S v f args w \<longleftrightarrow>
     bit (lflag C v) (slot C) = posted S (chip C) (slot C) \<and>
     (w = Called v f args \<and> served S (chip C) (slot C) \<noteq> posted S (chip C) (slot C) \<and>
        shown t64 S (chip C) (slot C) \<noteq> posted S (chip C) (slot C) \<and> filled C S f args (length args) \<or>
      w = Done v f args (kept t64 S (chip C) (slot C)) \<and>
        served S (chip C) (slot C) = posted S (chip C) (slot C) \<and>
        (shown t64 S (chip C) (slot C) = posted S (chip C) (slot C) \<longrightarrow>
           answer t64 S (chip C) (slot C) = kept t64 S (chip C) (slot C)))"

fun client_ok :: "bool \<Rightarrow> nat \<Rightarrow> 'f client_pc \<Rightarrow> 'f client \<Rightarrow> (nat \<Rightarrow> ('f, 'd) server) \<Rightarrow> 'f view \<Rightarrow> bool" where
  "client_ok t64 n Idle C Ss w \<longleftrightarrow> w = Free \<and> (\<forall>u < n. quiet t64 C (Ss u) u)"
| "client_ok t64 n (SetFptr v f args) C Ss w \<longleftrightarrow> v < n \<and> length args \<le> 5 \<and> w = Called v f args \<and>
     (\<forall>u < n. quiet t64 C (Ss u) u)"
| "client_ok t64 n (SetArgc v f args) C Ss w \<longleftrightarrow> v < n \<and> length args \<le> 5 \<and> w = Called v f args \<and>
     (\<forall>u < n. quiet t64 C (Ss u) u) \<and> filled C (Ss v) f args 0"
| "client_ok t64 n (SetArgv v f args i) C Ss w \<longleftrightarrow> v < n \<and> length args \<le> 5 \<and> w = Called v f args \<and>
     (\<forall>u < n. quiet t64 C (Ss u) u) \<and> i \<le> length args \<and> filled C (Ss v) f args i"
| "client_ok t64 n (Toggle v f args) C Ss w \<longleftrightarrow> v < n \<and> length args \<le> 5 \<and> w = Called v f args \<and>
     (\<forall>u < n. quiet t64 C (Ss u) u) \<and> filled C (Ss v) f args (length args)"
| "client_ok t64 n (Post v f args) C Ss w \<longleftrightarrow> v < n \<and> length args \<le> 5 \<and> w = Called v f args \<and>
     (\<forall>u < n. u \<noteq> v \<longrightarrow> quiet t64 C (Ss u) u) \<and>
     bit (lflag C v) (slot C) \<noteq> posted (Ss v) (chip C) (slot C) \<and>
     served (Ss v) (chip C) (slot C) = posted (Ss v) (chip C) (slot C) \<and>
     shown t64 (Ss v) (chip C) (slot C) = posted (Ss v) (chip C) (slot C) \<and>
     filled C (Ss v) f args (length args)"
| "client_ok t64 n (Spin v f args) C Ss w \<longleftrightarrow> v < n \<and> length args \<le> 5 \<and>
     (\<forall>u < n. u \<noteq> v \<longrightarrow> quiet t64 C (Ss u) u) \<and> waiting t64 C (Ss v) v f args w"
| "client_ok t64 n (Fetch v f args) C Ss w \<longleftrightarrow> v < n \<and> length args \<le> 5 \<and>
     (\<forall>u < n. u \<noteq> v \<longrightarrow> quiet t64 C (Ss u) u) \<and> waiting t64 C (Ss v) v f args w \<and>
     shown t64 (Ss v) (chip C) (slot C) = posted (Ss v) (chip C) (slot C)"

text \<open>A server step, seen by a client.\<close>

lemma quiet_kept: "quiet t64 C S v \<Longrightarrow> slot_kept t64 S S' (chip C) (slot C) \<Longrightarrow> quiet t64 C S' v"
  by (auto simp: quiet_def slot_kept_def)

lemma waiting_kept:
  "waiting t64 C S v f args w \<Longrightarrow> slot_kept t64 S S' (chip C) (slot C) \<Longrightarrow> waiting t64 C S' v f args w"
  by (auto simp: waiting_def slot_kept_def filled_def)

lemma waiting_shown_kept:
  "waiting t64 C S v f args w \<Longrightarrow> shown t64 S (chip C) (slot C) = posted S (chip C) (slot C) \<Longrightarrow>
   slot_kept t64 S S' (chip C) (slot C) \<Longrightarrow> shown t64 S' (chip C) (slot C) = posted S' (chip C) (slot C)"
  by (auto simp: waiting_def slot_kept_def)

lemma quiet_not_called: "quiet t64 C S v \<Longrightarrow> \<not> slot_called t64 S S' (chip C) (slot C) f a r"
  by (auto simp: quiet_def slot_called_def)

lemma waiting_called:
  assumes "waiting t64 C S v f args w" and "slot_called t64 S S' (chip C) (slot C) f' a r"
  shows "w = Called v f args \<and> f' = f \<and> take (length args) a = args \<and>
    waiting t64 C S' v f args (Done v f args r)"
  using assms by (auto simp: waiting_def slot_called_def filled_def)

lemma client_ok_kept:
  assumes "client_ok t64 n pc C Ss w" and "slot_kept t64 (Ss v) S' (chip C) (slot C)"
  shows "client_ok t64 n pc C (Ss(v := S')) w"
proof (cases pc)
  case (Fetch u g args)
  with assms quiet_kept [OF _ assms(2)] waiting_kept [OF _ assms(2)]
    waiting_shown_kept [OF _ _ assms(2)] show ?thesis by auto
qed (use assms quiet_kept [OF _ assms(2)] waiting_kept [OF _ assms(2)] in
      \<open>auto simp: slot_kept_def filled_def\<close>)

lemma slot_calledD: "slot_called t64 S S' s k f a r \<Longrightarrow> served S s k \<noteq> posted S s k"
  by (simp add: slot_called_def)

lemma client_ok_called:
  assumes "client_ok t64 n pc C Ss w" and "v < n" and "slot_called t64 (Ss v) S' (chip C) (slot C) f a r"
  shows "\<exists>w'. track1 c (chip C) (slot C) w (Exec v (chip C) (slot C) f a r) = Some w' \<and>
    client_ok t64 n pc C (Ss(v := S')) w'"
proof -
  have nq: "\<not> quiet t64 C (Ss v) v"
    using quiet_not_called [of t64 C "Ss v" v S' f a r] assms(3) by blast
  show ?thesis
  proof (cases pc)
    case (Spin u g args)
    with assms nq have "u = v" by auto
    with Spin assms(1) waiting_called [OF _ assms(3), of v g args w] show ?thesis by auto
  next
    case (Fetch u g args)
    with assms nq have "u = v" by auto
    with Fetch assms(1) have "served (Ss v) (chip C) (slot C) = posted (Ss v) (chip C) (slot C)"
      by (auto simp: waiting_def)
    with slot_calledD [OF assms(3)] show ?thesis by simp
  next
    case (Post u g args)
    with assms nq have "u = v" by auto
    with Post assms(1) slot_calledD [OF assms(3)] show ?thesis by simp
  qed (use assms nq in auto)
qed


subsection \<open>The system invariant\<close>

definition owner :: "('f, 'd) sys \<Rightarrow> nat \<Rightarrow> nat \<Rightarrow> nat \<Rightarrow> bool" where
  "owner \<sigma> c s k \<longleftrightarrow> c < nclients \<sigma> \<and> chip (clients \<sigma> c) = s \<and> slot (clients \<sigma> c) = k"

definition placed :: "bool \<Rightarrow> ('f, 'd) sys \<Rightarrow> bool" where
  "placed t64 \<sigma> \<longleftrightarrow>
     (\<forall>c < nclients \<sigma>. chip (clients \<sigma> c) < 4 \<and> slot (clients \<sigma> c) < 2 * NCLIENTS t64 \<and>
        cmask (clients \<sigma> c) = push_bit (slot (clients \<sigma> c)) 1) \<and>
     inj_on (\<lambda>c. (chip (clients \<sigma> c), slot (clients \<sigma> c))) {..< nclients \<sigma>}"

definition client_inv :: "bool \<Rightarrow> ('f, 'd) sys \<Rightarrow> 'f event list \<Rightarrow> nat \<Rightarrow> bool" where
  "client_inv t64 \<sigma> tr c \<longleftrightarrow>
     (\<exists>w. track c (chip (clients \<sigma> c)) (slot (clients \<sigma> c)) Free tr = Some w \<and>
          client_ok t64 (nservers \<sigma>) (cpc (clients \<sigma> c)) (clients \<sigma> c) (servers \<sigma>) w)"

definition sys_inv :: "bool \<Rightarrow> ('f, 'd) sys \<Rightarrow> 'f event list \<Rightarrow> bool" where
  "sys_inv t64 \<sigma> tr \<longleftrightarrow> placed t64 \<sigma> \<and>
     (\<forall>v < nservers \<sigma>. server_inv t64 (servers \<sigma> v) \<and>
        (\<forall>s k. length (argv (chips (servers \<sigma> v) s k)) = 5) \<and>
        (\<forall>s < 4. \<forall>k < 2 * NCLIENTS t64. (\<nexists>c. owner \<sigma> c s k) \<longrightarrow>
           served (servers \<sigma> v) s k = posted (servers \<sigma> v) s k)) \<and>
     (\<forall>c < nclients \<sigma>. client_inv t64 \<sigma> tr c)"

lemma sys_inv_initial: "initial t64 \<sigma> \<Longrightarrow> sys_inv t64 \<sigma> []"
  by (auto simp: initial_def sys_inv_def placed_def server_inv_def slot_inv_def client_inv_def quiet_def)

lemma placed_same:
  assumes "nclients \<sigma>' = nclients \<sigma>" and "\<And>c. chip (clients \<sigma>' c) = chip (clients \<sigma> c)"
    and "\<And>c. slot (clients \<sigma>' c) = slot (clients \<sigma> c)" and "\<And>c. cmask (clients \<sigma>' c) = cmask (clients \<sigma> c)"
  shows "placed t64 \<sigma>' = placed t64 \<sigma>"
  unfolding placed_def assms ..

lemma owner_unique: "placed t64 \<sigma> \<Longrightarrow> owner \<sigma> c s k \<Longrightarrow> owner \<sigma> c' s k \<Longrightarrow> c = c'"
  by (auto simp: placed_def owner_def dest!: inj_onD)

lemma sys_inv_server:
  assumes inv: "sys_inv t64 \<sigma> tr" and v: "v < nservers \<sigma>"
    and st: "server_step t64 call fin (spc (servers \<sigma> v)) (servers \<sigma> v) = Some (e, S')"
  shows "sys_inv t64 (\<sigma>\<lparr> servers := (servers \<sigma>)(v := S') \<rparr>)
           (tr @ ev (map_option (\<lambda>(s, k, f, a, r). Exec v s k f a r) e))"
proof -
  let ?\<sigma> = "\<sigma>\<lparr> servers := (servers \<sigma>)(v := S') \<rparr>"
  let ?l = "ev (map_option (\<lambda>(s, k, f, a, r). Exec v s k f a r) e)"
  have sinv: "server_inv t64 (servers \<sigma> v)" and pl: "placed t64 \<sigma>"
    using inv v by (auto simp: sys_inv_def)
  note slotwise = server_step_slot [OF sinv st]
  have chips: "chips S' = chips (servers \<sigma> v)" by (rule server_step_chips [OF st])
  have "client_inv t64 ?\<sigma> (tr @ ?l) c" if c: "c < nclients \<sigma>" for c
  proof -
    let ?C = "clients \<sigma> c"
    have b: "chip ?C < 4" "slot ?C < 2 * NCLIENTS t64" using pl c by (auto simp: placed_def)
    from inv c obtain w where w: "track c (chip ?C) (slot ?C) Free tr = Some w"
      "client_ok t64 (nservers \<sigma>) (cpc ?C) ?C (servers \<sigma>) w"
      by (auto simp: sys_inv_def client_inv_def)
    show ?thesis
    proof (cases "\<exists>f a r. e = Some (chip ?C, slot ?C, f, a, r)")
      case True
      then obtain f a r where e: "e = Some (chip ?C, slot ?C, f, a, r)" by blast
      with slotwise [OF b] have "slot_called t64 (servers \<sigma> v) S' (chip ?C) (slot ?C) f a r" by simp
      from client_ok_called [OF w(2) v this, of c] show ?thesis
        using w(1) by (auto simp: client_inv_def track_append ev_def e)
    next
      case False
      with slotwise [OF b] have "slot_kept t64 (servers \<sigma> v) S' (chip ?C) (slot ?C)"
        by (auto split: option.splits if_splits)
      from client_ok_kept [OF w(2) this] have "client_ok t64 (nservers \<sigma>) (cpc ?C) ?C ((servers \<sigma>)(v := S')) w" .
      moreover have "track c (chip ?C) (slot ?C) w ?l = Some w"
        using False by (cases e) (auto simp: ev_def)
      ultimately show ?thesis using w(1) by (auto simp: client_inv_def track_append)
    qed
  qed
  moreover have "served S' s k = posted S' s k"
    if "s < 4" "k < 2 * NCLIENTS t64" "\<nexists>c. owner \<sigma> c s k" for s k
    using slotwise [OF that(1,2)] inv v that chips
    by (auto simp: sys_inv_def slot_called_def slot_kept_def split: option.splits if_splits)
  ultimately show ?thesis
    using inv pl server_step_inv [OF sinv st] chips
    by (auto simp: sys_inv_def placed_def owner_def)
qed


text \<open>A step of a client, seen by the server, by itself and by the other clients.\<close>

lemma set_request_simps [simp]:
  "old_client_flags (set_request C u S) = old_client_flags S"
  "socket_client_flags (set_request C u S) = socket_client_flags S"
  "responses (set_request C u S) = responses S"
  "local_return_values (set_request C u S) = local_return_values S"
  "spc (set_request C u S) = spc S" "sdata (set_request C u S) = sdata S"
  "chips (set_request C u S) (chip C) (slot C) = u (chips S (chip C) (slot C))"
  by (simp_all add: set_request_def)

lemma chips_set_request:
  "chips (set_request C u S) s k = (if s = chip C \<and> k = slot C then u (chips S s k) else chips S s k)"
  by (simp add: set_request_def)

lemma client_step_shape:
  "client_step t64 pc C S = Some (e, C', S') \<Longrightarrow> S' = S \<or> (\<exists>u. S' = set_request C u S \<and>
     (\<forall>r. length (argv (u r)) = length (argv r)) \<and>
     ((\<forall>r. flag (u r) = flag r) \<or> (\<exists>v f args. pc = Post v f args)))"
  by (cases pc) (auto split: if_splits)

lemma client_step_other:
  assumes "client_step t64 pc C S = Some (e, C', S')" and "s \<noteq> chip C \<or> k \<noteq> slot C"
  shows "slot_kept t64 S S' s k" "posted S' s k = posted S s k"
  using client_step_shape [OF assms(1)] assms(2) by (auto simp: slot_kept_def chips_set_request)

lemma slot_inv_set_request:
  assumes "slot_inv t64 S s k"
    and "posted (set_request C u S) s k = posted S s k \<or> spc S \<noteq> Call (block_of t64 s k) (pos_of t64 k)"
  shows "slot_inv t64 (set_request C u S) s k"
  using assms by (cases "spc S = Call (block_of t64 s k) (pos_of t64 k)") (auto simp: slot_inv_def)

lemma server_inv_set_request:
  assumes "server_inv t64 S"
    and "\<And>s k. s < 4 \<Longrightarrow> k < 2 * NCLIENTS t64 \<Longrightarrow>
      posted (set_request C u S) s k = posted S s k \<or> spc S \<noteq> Call (block_of t64 s k) (pos_of t64 k)"
  shows "server_inv t64 (set_request C u S)"
  using assms slot_inv_set_request [of t64 S _ _ C u] by (simp add: server_inv_def)

lemma client_step_server_inv:
  assumes inv: "server_inv t64 S" and ok: "client_ok t64 n pc C Ss w" and S: "S = Ss (pc_server pc)"
    and st: "client_step t64 pc C S = Some (e, C', S')"
    and b: "chip C < 4" "slot C < 2 * NCLIENTS t64"
  shows "server_inv t64 S'"
proof -
  from client_step_shape [OF st] consider "S' = S"
    | u where "S' = set_request C u S" "\<forall>r. flag (u r) = flag r"
    | u v f args where "S' = set_request C u S" "pc = Post v f args" by blast
  then show ?thesis
  proof cases
    case 2
    then show ?thesis using server_inv_set_request [OF inv, of C u] by (simp add: chips_set_request)
  next
    case 3
    have "slot_inv t64 S (chip C) (slot C)" by (rule slot_invD [OF inv b])
    moreover have "served S (chip C) (slot C) = posted S (chip C) (slot C)" using ok 3 S by simp
    ultimately have "spc S \<noteq> Call (block_of t64 (chip C) (slot C)) (pos_of t64 (slot C))"
      by (auto simp: slot_inv_def)
    with 3 server_inv_set_request [OF inv, of C u] show ?thesis by (auto simp: chips_set_request)
  qed (use inv in simp)
qed

lemma take_Suc_update:
  "i < length args \<Longrightarrow> i < length a \<Longrightarrow> take i a = take i args \<Longrightarrow>
   take (Suc i) (a[i := args ! i]) = take (Suc i) args"
  by (simp add: take_Suc_conv_app_nth)

lemma view_cpc [simp]:
  "quiet t64 (C\<lparr>cpc := pc\<rparr>) S v = quiet t64 C S v"
  "waiting t64 (C\<lparr>cpc := pc\<rparr>) S v f args w = waiting t64 C S v f args w"
  "filled (C\<lparr>cpc := pc\<rparr>) S f args i = filled C S f args i"
  by (simp_all add: quiet_def waiting_def filled_def)

lemma client_step_own:
  assumes ok: "client_ok t64 n (cpc C) C Ss w" and call: "pc_call (cpc C) = Some (f, args)"
    and v: "v = pc_server (cpc C)"
    and st: "client_step t64 (cpc C) C (Ss v) = Some (e, C', S')"
    and mask: "cmask C = push_bit (slot C) 1" "slot C < 2 * NCLIENTS t64" "chip C < 4"
    and argv: "length (argv (chips (Ss v) (chip C) (slot C))) = 5"
  shows "\<exists>w'. client_ok t64 n (cpc C') C' (Ss(v := S')) w' \<and>
    (case e of None \<Rightarrow> w' = w | Some r \<Rightarrow> w = Done v f args r \<and> w' = Free)"
proof -
  note m64 = slot_small [OF mask(2)]
  have line: "client_line t64 C = line_of (block_of t64 (chip C) (slot C))"
    by (simp add: client_line_def coords(3) [OF mask(3,2)])
  show ?thesis
  proof (cases "cpc C")
    case (SetArgv u g as i)
    then show ?thesis using ok call v st argv
      by (auto simp: quiet_def filled_def take_Suc_update split: if_splits)
  next
    case (Toggle u g as)
    then show ?thesis using ok call v st mask m64
      by (auto simp: quiet_def filled_def bit_flips)
  next
    case (Spin u g as)
    then have "waiting t64 C (Ss v) v f args w" using ok call v by simp
    then have "bit (lflag C v) (slot C) = posted (Ss v) (chip C) (slot C)" by (simp add: waiting_def)
    then show ?thesis using Spin ok call v st mask m64
      by (auto simp: line bit_flips split: if_splits)
  next
    case (Fetch u g as)
    then have "waiting t64 C (Ss v) v f args w"
      "shown t64 (Ss v) (chip C) (slot C) = posted (Ss v) (chip C) (slot C)"
      using ok call v by simp_all
    then have "w = Done v f args (answer t64 (Ss v) (chip C) (slot C)) \<and> quiet t64 C (Ss v) v"
      by (auto simp: waiting_def quiet_def)
    then show ?thesis using Fetch ok call v st by (auto simp: line pos_of_def)
  qed (use ok call v st in \<open>auto simp: quiet_def filled_def waiting_def\<close>)
qed


lemma client_step_static:
  "client_step t64 pc C S = Some (e, C', S') \<Longrightarrow> chip C' = chip C \<and> slot C' = slot C \<and> cmask C' = cmask C"
  by (cases pc) (auto split: if_splits)

lemma sys_inv_client:
  assumes inv: "sys_inv t64 \<sigma> tr" and c: "c < nclients \<sigma>" and v: "v = pc_server (cpc (clients \<sigma> c))"
    and st: "client_step t64 (cpc (clients \<sigma> c)) (clients \<sigma> c) (servers \<sigma> v) = Some (e, C', S')"
    and call: "pc_call (cpc (clients \<sigma> c)) = Some (f, args)"
  shows "sys_inv t64 (\<sigma>\<lparr> servers := (servers \<sigma>)(v := S'), clients := (clients \<sigma>)(c := C') \<rparr>)
           (tr @ ev (map_option (Return c v f args) e))"
proof -
  let ?C = "clients \<sigma> c" and ?S = "servers \<sigma> v"
  let ?\<sigma> = "\<sigma>\<lparr> servers := (servers \<sigma>)(v := S'), clients := (clients \<sigma>)(c := C') \<rparr>"
  let ?l = "ev (map_option (Return c v f args) e)"
  note static = client_step_static [OF st]
  have pl: "placed t64 \<sigma>" using inv by (simp add: sys_inv_def)
  have b: "chip ?C < 4" "slot ?C < 2 * NCLIENTS t64" "cmask ?C = push_bit (slot ?C) 1"
    using pl c by (auto simp: placed_def)
  from inv c obtain w where w: "track c (chip ?C) (slot ?C) Free tr = Some w"
    "client_ok t64 (nservers \<sigma>) (cpc ?C) ?C (servers \<sigma>) w"
    by (auto simp: sys_inv_def client_inv_def)
  have vn: "v < nservers \<sigma>" using w(2) call v by (cases "cpc ?C") auto
  have S: "server_inv t64 ?S" "\<And>s k. length (argv (chips ?S s k)) = 5"
    using inv vn by (auto simp: sys_inv_def)
  have S': "server_inv t64 S'"
    using client_step_server_inv [OF S(1) w(2) _ st b(1,2)] v by simp
  have len: "length (argv (chips S' s k)) = 5" for s k
    using client_step_shape [OF st] S(2) by (auto simp: chips_set_request)
  have own: "client_inv t64 ?\<sigma> (tr @ ?l) c"
    using client_step_own [OF w(2) call v st b(3,2,1) S(2)] w(1) static
    by (cases e) (auto simp: client_inv_def track_append ev_def)
  have other: "client_inv t64 ?\<sigma> (tr @ ?l) c'" if c': "c' < nclients \<sigma>" "c' \<noteq> c" for c'
  proof -
    let ?D = "clients \<sigma> c'"
    have "chip ?D \<noteq> chip ?C \<or> slot ?D \<noteq> slot ?C"
      using pl c c' by (auto simp: placed_def inj_on_def)
    then have "slot_kept t64 ?S S' (chip ?D) (slot ?D)" by (rule client_step_other(1) [OF st])
    moreover obtain w' where "track c' (chip ?D) (slot ?D) Free tr = Some w'"
      "client_ok t64 (nservers \<sigma>) (cpc ?D) ?D (servers \<sigma>) w'"
      using inv c' by (auto simp: sys_inv_def client_inv_def)
    ultimately show ?thesis using c' client_ok_kept [of t64 "nservers \<sigma>" "cpc ?D" ?D "servers \<sigma>" w' v S']
      by (cases e) (auto simp: client_inv_def track_append ev_def)
  qed
  have own_eq: "owner ?\<sigma> d s k = owner \<sigma> d s k" for d s k
    using static by (auto simp: owner_def)
  have un: "served S' s k = posted S' s k"
    if "s < 4" "k < 2 * NCLIENTS t64" "\<nexists>d. owner \<sigma> d s k" for s k
  proof -
    have "s \<noteq> chip ?C \<or> k \<noteq> slot ?C" using that(3) c by (auto simp: owner_def)
    from client_step_other [OF st this] show ?thesis
      using inv vn that by (auto simp: sys_inv_def slot_kept_def)
  qed
  have "placed t64 ?\<sigma>"
    using pl static placed_same [of ?\<sigma> \<sigma> t64] by simp
  moreover have "\<forall>u < nservers \<sigma>. server_inv t64 (servers ?\<sigma> u) \<and>
        (\<forall>s k. length (argv (chips (servers ?\<sigma> u) s k)) = 5) \<and>
        (\<forall>s < 4. \<forall>k < 2 * NCLIENTS t64. (\<nexists>d. owner ?\<sigma> d s k) \<longrightarrow>
           served (servers ?\<sigma> u) s k = posted (servers ?\<sigma> u) s k)"
    unfolding own_eq using inv S' len un by (simp add: sys_inv_def)
  moreover have "\<forall>d < nclients \<sigma>. client_inv t64 ?\<sigma> (tr @ ?l) d" using own other by blast
  ultimately show ?thesis unfolding sys_inv_def by simp
qed

lemma sys_inv_invoke:
  assumes inv: "sys_inv t64 \<sigma> tr" and c: "c < nclients \<sigma>" and idle: "cpc (clients \<sigma> c) = Idle"
    and v: "v < nservers \<sigma>" "length args \<le> 5"
  shows "sys_inv t64 (\<sigma>\<lparr> clients := (clients \<sigma>)(c := (clients \<sigma> c)\<lparr> cpc := SetFptr v f args \<rparr>) \<rparr>)
           (tr @ ev (Some (Invoke c v f args)))"
proof -
  let ?\<sigma> = "\<sigma>\<lparr> clients := (clients \<sigma>)(c := (clients \<sigma> c)\<lparr> cpc := SetFptr v f args \<rparr>) \<rparr>"
  have "client_inv t64 ?\<sigma> (tr @ ev (Some (Invoke c v f args))) d" if "d < nclients \<sigma>" for d
    using inv that idle v by (auto simp: sys_inv_def client_inv_def track_append ev_def)
  moreover have "owner ?\<sigma> d s k = owner \<sigma> d s k" for d s k by (auto simp: owner_def)
  moreover have "placed t64 ?\<sigma>" using inv placed_same [of ?\<sigma> \<sigma> t64] by (simp add: sys_inv_def)
  ultimately show ?thesis using inv by (simp add: sys_inv_def)
qed

lemma sys_inv_step:
  assumes "sys_inv t64 \<sigma> tr" and "ffwd_step t64 call \<sigma> l \<sigma>'"
  shows "sys_inv t64 \<sigma>' (tr @ ev l)"
  using assms(2,1)
proof cases
  case finish
  then show ?thesis using assms(1)
    by (simp add: sys_inv_def placed_def client_inv_def owner_def ev_def)
qed (auto intro: sys_inv_server sys_inv_client sys_inv_invoke)

lemma sys_inv_run: "ffwd_run t64 call \<sigma>0 tr \<sigma> \<Longrightarrow> initial t64 \<sigma>0 \<Longrightarrow> sys_inv t64 \<sigma> tr"
  by (induction rule: ffwd_run.induct) (auto intro: sys_inv_initial sys_inv_step)

end
