(* ===== verification/Ffwd_Delegation.thy ===== *)
theory Ffwd_Delegation
  imports Ffwd_Protocol
begin

text \<open>
  What the runs of the delegation protocol guarantee: every call of a client is executed exactly
  once, by the server it was sent to, with its own arguments, between its start and its return,
  and returns the result of that execution; a server's data is the result of its executions in
  order; a client waits for at most two passes of the server loop. The locale
  \<open>delegated_object\<close> is the interface between the protocol and the functions that clients
  delegate: from the laws of the single calls it derives that concurrent use agrees with the
  sequential specification.
\<close>


section \<open>What a delegation run shows\<close>

subsection \<open>Runs keep the placement of the clients and the order of the calls\<close>

lemma step_static:
  assumes "ffwd_step t64 call \<sigma> l \<sigma>'"
  shows "nservers \<sigma>' = nservers \<sigma>" "nclients \<sigma>' = nclients \<sigma>"
    "chip (clients \<sigma>' c) = chip (clients \<sigma> c)" "slot (clients \<sigma>' c) = slot (clients \<sigma> c)"
    "stop_flag \<sigma>' \<noteq> 1 \<Longrightarrow> stop_flag \<sigma> \<noteq> 1"
  using assms by (auto elim!: ffwd_step.cases dest: client_step_static)

lemma run_static:
  assumes "ffwd_run t64 call \<sigma>0 tr \<sigma>"
  shows "nservers \<sigma> = nservers \<sigma>0" "nclients \<sigma> = nclients \<sigma>0"
    "chip (clients \<sigma> c) = chip (clients \<sigma>0 c)" "slot (clients \<sigma> c) = slot (clients \<sigma>0 c)"
  using assms by (induction rule: ffwd_run.induct) (simp_all add: step_static)

lemma server_step_sdata:
  "server_step t64 call fin pc S = Some (e, S') \<Longrightarrow>
   (case e of None \<Rightarrow> sdata S' = sdata S
    | Some (s, k, f, a, r) \<Rightarrow> call f a (sdata S) = Some (r, sdata S'))"
  by (cases pc) (auto simp: server_call_def Let_def split: if_splits option.splits)

lemma client_step_sdata:
  "client_step t64 pc C S = Some (e, C', S') \<Longrightarrow> sdata S' = sdata S"
  using client_step_shape [of t64 pc C S e C' S'] by auto

lemma step_replay:
  assumes "ffwd_step t64 call \<sigma> l \<sigma>'"
  shows "replay call (sdata (servers \<sigma> v)) (execs v (ev l)) = Some (sdata (servers \<sigma>' v))"
  using assms
proof cases
  case (server u e S')
  then show ?thesis using server_step_sdata [OF server(4)]
    by (cases e) (auto simp: ev_def)
next
  case (client c u e C' S' f args)
  then show ?thesis using client_step_sdata [OF client(5)]
    by (cases e) (auto simp: ev_def)
qed (auto simp: ev_def)

lemma step_owned:
  assumes "sys_inv t64 \<sigma> tr" "ffwd_step t64 call \<sigma> (Some (Exec v s k f a r)) \<sigma>'"
  shows "\<exists>c. owner \<sigma> c s k"
  using assms(2)
proof cases
  case (server v' e S')
  then have sv: "server_inv t64 (servers \<sigma> v)" and e: "e = Some (s, k, f, a, r)" and "v' = v" "v < nservers \<sigma>"
    using assms(1) by (cases e; auto simp: sys_inv_def)+
  have "s < 4 \<and> k < 2 * NCLIENTS t64"
    using server(4) e \<open>v' = v\<close> sv
    by (cases "spc (servers \<sigma> v)") 
      (auto simp: server_call_def Let_def server_inv_def coords_inv split: if_splits option.splits)
  moreover from this have "slot_called t64 (servers \<sigma> v) S' s k f a r"
    using server_step_slot [OF sv, of call "stop_flag \<sigma>" e S' s k] server(4) e \<open>v' = v\<close> by simp
  ultimately have "s < 4" "k < 2 * NCLIENTS t64" "served (servers \<sigma> v) s k \<noteq> posted (servers \<sigma> v) s k"
    using slot_calledD [of t64 "servers \<sigma> v" S' s k f a r] by auto
  then show ?thesis using assms(1) \<open>v < nservers \<sigma>\<close> unfolding sys_inv_def by blast
next
  case (client c u e C' S' g args)
  then show ?thesis by (cases e) auto
qed

lemma run_owned:
  assumes "ffwd_run t64 call \<sigma>0 tr \<sigma>" "initial t64 \<sigma>0" "Exec v s k f a r \<in> set tr"
  shows "\<exists>c < nclients \<sigma>0. chip (clients \<sigma>0 c) = s \<and> slot (clients \<sigma>0 c) = k"
  using assms
proof (induction rule: ffwd_run.induct)
  case (step tr \<sigma> l \<sigma>')
  show ?case
  proof (cases "Exec v s k f a r \<in> set tr")
    case False
    with step have "l = Some (Exec v s k f a r)" by (auto simp: ev_def split: option.splits)
    with step step_owned [OF sys_inv_run [OF step(1)], of call v s k f a r \<sigma>']
    have "\<exists>c. owner \<sigma> c s k" by simp
    then show ?thesis by (simp add: owner_def run_static [OF step(1)])
  qed (use step in simp)
qed simp

lemma run_replay:
  assumes "ffwd_run t64 call \<sigma>0 tr \<sigma>"
  shows "replay call (sdata (servers \<sigma>0 v)) (execs v tr) = Some (sdata (servers \<sigma> v))"
  using assms
proof (induction rule: ffwd_run.induct)
  case (step tr \<sigma> l \<sigma>')
  then show ?case by (simp add: execs_append replay_append step_replay)
qed simp

subsection \<open>A scheduler\<close>

datatype 'f choice = Server nat | Call_from nat nat 'f "u64 list" | Client nat | Finish

fun sched_step :: "bool \<Rightarrow> ('f \<Rightarrow> u64 list \<Rightarrow> 'd \<Rightarrow> (u64 \<times> 'd) option) \<Rightarrow> 'f choice \<Rightarrow> ('f, 'd) sys \<Rightarrow>
    ('f event option \<times> ('f, 'd) sys) option" where
  "sched_step t64 call (Server v) \<sigma> =
     (if v < nservers \<sigma> then
        case server_step t64 call (stop_flag \<sigma>) (spc (servers \<sigma> v)) (servers \<sigma> v) of None \<Rightarrow> None
        | Some (e, S') \<Rightarrow> Some (map_option (\<lambda>(s, k, f, a, r). Exec v s k f a r) e,
            \<sigma>\<lparr> servers := (servers \<sigma>)(v := S') \<rparr>)
      else None)"
| "sched_step t64 call (Call_from c v f args) \<sigma> =
     (if c < nclients \<sigma> \<and> cpc (clients \<sigma> c) = Idle \<and> v < nservers \<sigma> \<and> length args \<le> 5 then
        Some (Some (Invoke c v f args),
          \<sigma>\<lparr> clients := (clients \<sigma>)(c := (clients \<sigma> c)\<lparr> cpc := SetFptr v f args \<rparr>) \<rparr>)
      else None)"
| "sched_step t64 call (Client c) \<sigma> =
     (case pc_call (cpc (clients \<sigma> c)) of None \<Rightarrow> None
      | Some (f, args) \<Rightarrow>
         (let v = pc_server (cpc (clients \<sigma> c)) in
          case client_step t64 (cpc (clients \<sigma> c)) (clients \<sigma> c) (servers \<sigma> v) of None \<Rightarrow> None
          | Some (e, C', S') \<Rightarrow>
              if c < nclients \<sigma> then Some (map_option (Return c v f args) e,
                \<sigma>\<lparr> servers := (servers \<sigma>)(v := S'), clients := (clients \<sigma>)(c := C') \<rparr>)
              else None))"
| "sched_step t64 call Finish \<sigma> = Some (None, \<sigma>\<lparr> stop_flag := 1 \<rparr>)"

fun sched_run :: "bool \<Rightarrow> ('f \<Rightarrow> u64 list \<Rightarrow> 'd \<Rightarrow> (u64 \<times> 'd) option) \<Rightarrow> 'f choice list \<Rightarrow>
    ('f event list \<times> ('f, 'd) sys) \<Rightarrow> ('f event list \<times> ('f, 'd) sys) option" where
  "sched_run t64 call [] (tr, \<sigma>) = Some (tr, \<sigma>)"
| "sched_run t64 call (ch # chs) (tr, \<sigma>) =
     (case sched_step t64 call ch \<sigma> of None \<Rightarrow> None
      | Some (l, \<sigma>') \<Rightarrow> sched_run t64 call chs (tr @ ev l, \<sigma>'))"

lemma sched_step_sound:
  "sched_step t64 call ch \<sigma> = Some (l, \<sigma>') \<Longrightarrow> ffwd_step t64 call \<sigma> l \<sigma>'"
  by (cases ch) (auto simp: Let_def simp del: map_option_eq_Some intro!: ffwd_step.intros split: if_splits option.splits)

lemma sched_run_sound:
  assumes "sched_run t64 call chs (tr, \<sigma>) = Some (tr', \<sigma>')" "ffwd_run t64 call \<sigma>0 tr \<sigma>"
  shows "ffwd_run t64 call \<sigma>0 tr' \<sigma>'"
  using assms
  by (induction chs arbitrary: tr \<sigma>) (auto split: option.splits dest!: sched_step_sound intro: ffwd_run.step)

subsection \<open>Bounded waiting\<close>

fun steps_left :: "bool \<Rightarrow> server_pc \<Rightarrow> nat" where
  "steps_left t64 Head = 0"
| "steps_left t64 (Poll b k) = (7 - b) * (3 * NCLIENTS t64 + 4) + 2 * (NCLIENTS t64 - k) + NCLIENTS t64 + 4"
| "steps_left t64 (Call b k) = (7 - b) * (3 * NCLIENTS t64 + 4) + 2 * (NCLIENTS t64 - k) + NCLIENTS t64 + 3"
| "steps_left t64 (Test b) = (7 - b) * (3 * NCLIENTS t64 + 4) + NCLIENTS t64 + 3"
| "steps_left t64 (Copy b i) = (7 - b) * (3 * NCLIENTS t64 + 4) + (NCLIENTS t64 - i) + 2"
| "steps_left t64 (Next b) = (7 - b) * (3 * NCLIENTS t64 + 4) + 1"
| "steps_left t64 Stopped = 0"

definition pass_steps :: "bool \<Rightarrow> nat" where
  "pass_steps t64 = 8 * (3 * NCLIENTS t64 + 4) + 1"

fun gone :: "server_pc \<Rightarrow> nat \<Rightarrow> nat \<Rightarrow> bool" where
  "gone (Poll b' k) b j = (b < b' \<or> b' = b \<and> j < k)"
| "gone (Call b' k) b j = (b < b' \<or> b' = b \<and> j < k)"
| "gone (Test b') b j = (b \<le> b')"
| "gone (Copy b' i) b j = (b \<le> b')"
| "gone (Next b') b j = (b \<le> b')"
| "gone pc b j = False"

definition delay :: "bool \<Rightarrow> ('f, 'd) server \<Rightarrow> nat \<Rightarrow> nat \<Rightarrow> nat" where
  "delay t64 S s k = steps_left t64 (spc S) +
     (if served S s k = posted S s k then 0
      else if spc S = Head \<or> gone (spc S) (block_of t64 s k) (pos_of t64 k) then pass_steps t64 else 0)"

lemma steps_left_le: "pc_ok t64 pc \<Longrightarrow> steps_left t64 pc < pass_steps t64"
  by (cases pc) (auto simp: pass_steps_def NCLIENTS_def)

lemma delay_le: "server_inv t64 S \<Longrightarrow> delay t64 S s k < 2 * pass_steps t64"
  using steps_left_le [of t64 "spc S"] by (auto simp: delay_def server_inv_def)

lemma next_block: "b < 7 \<Longrightarrow> (7 - b) * (m::nat) = (7 - Suc b) * m + m"
proof -
  assume "b < 7"
  then have "7 - b = Suc (7 - Suc b)" by simp
  then show ?thesis by simp
qed

lemma steps_left_step:
  assumes "pc_ok t64 (spc S)" "server_step t64 call fin (spc S) S = Some (e, S')" "spc S \<noteq> Head"
  shows "steps_left t64 (spc S') < steps_left t64 (spc S)"
  using assms
  by (cases "spc S")
    (auto simp: server_call_def Let_def next_block split: if_splits option.splits)

lemma waits_head: "server_inv t64 S \<Longrightarrow> s < 4 \<Longrightarrow> k < 2 * NCLIENTS t64 \<Longrightarrow> spc S = Head \<Longrightarrow>
    shown t64 S s k = served S s k"
  using slot_invD [of t64 S s k] by (auto simp: slot_inv_def)

lemma gone_step:
  assumes inv: "server_inv t64 S" and st: "server_step t64 call fin (spc S) S = Some (e, S')"
    and b: "s < 4" "k < 2 * NCLIENTS t64" and un: "served S' s k \<noteq> posted S' s k" "served S s k \<noteq> posted S s k"
    and ng: "\<not> gone (spc S) (block_of t64 s k) (pos_of t64 k)"
  shows "\<not> gone (spc S') (block_of t64 s k) (pos_of t64 k) \<and> (spc S \<noteq> Head \<longrightarrow> spc S' \<noteq> Head)"
proof -
  note c = coords [OF b] and sl = slot_invD [OF inv b]
  have pc: "pc_ok t64 (spc S)" using inv by (simp add: server_inv_def)
  show ?thesis
  proof (cases "spc S")
    case (Poll b' i)
    have "seen S s k \<noteq> posted S s k" if "\<not> past (spc S) (block_of t64 s k) (pos_of t64 k)"
      using sl un(2) that by (auto simp: slot_inv_def)
    then have "server_test t64 b' i S" if "b' = block_of t64 s k" "i = pos_of t64 k"
      using that server_test_bits [OF c(1,5), of S] c Poll by simp
    then show ?thesis using Poll st ng pc c(1,5) by (auto simp: less_Suc_eq split: if_splits)
  next
    case (Call b' i)
    have "\<not> (socket_of b' = s \<and> slot_of t64 b' i = k)"
      using step_call(1) [OF inv b Call, of call fin e S'] st Call un
      by (auto simp: slot_called_def)
    then have "\<not> (b' = block_of t64 s k \<and> i = pos_of t64 k)" using c by auto
    then show ?thesis using Call st ng pc
      by (auto simp: server_call_def Let_def split: option.splits)
  qed (use st ng pc c(1) in \<open>auto simp: Let_def split: if_splits\<close>)
qed

lemma delay_step:
  assumes inv: "server_inv t64 S" and st: "server_step t64 call fin (spc S) S = Some (e, S')"
    and b: "s < 4" "k < 2 * NCLIENTS t64" and fin: "fin \<noteq> 1" and ns: "shown t64 S s k \<noteq> posted S s k"
  shows "delay t64 S' s k < delay t64 S s k"
proof (cases "spc S = Head")
  case True
  then have "served S s k \<noteq> posted S s k" using waits_head [OF inv b] ns by simp
  with True st fin show ?thesis by (auto simp: delay_def pass_steps_def)
next
  case False
  have pc: "pc_ok t64 (spc S)" using inv by (simp add: server_inv_def)
  note lt = steps_left_step [OF pc st False]
  have "served S' s k = posted S' s k" if "served S s k = posted S s k"
    using server_step_slot [OF inv st b] that
    by (auto simp: slot_called_def slot_kept_def split: option.splits if_splits)
  then show ?thesis
    using lt gone_step [OF inv st b] False by (auto simp: delay_def)
qed

text \<open>
  A part of a run in which client \<open>c\<close> stays in the loop that waits for server \<open>v\<close>, with the
  number of steps of that server.
\<close>

inductive waits :: "bool \<Rightarrow> ('f \<Rightarrow> u64 list \<Rightarrow> 'd \<Rightarrow> (u64 \<times> 'd) option) \<Rightarrow> nat \<Rightarrow> nat \<Rightarrow>
    ('f, 'd) sys \<Rightarrow> nat \<Rightarrow> ('f, 'd) sys \<Rightarrow> bool"
  for t64 call c v \<sigma>0 where
  none: "waits t64 call c v \<sigma>0 0 \<sigma>0"
| served: "\<lbrakk> waits t64 call c v \<sigma>0 n \<sigma>; v < nservers \<sigma>;
     server_step t64 call (stop_flag \<sigma>) (spc (servers \<sigma> v)) (servers \<sigma> v) = Some (e, S') \<rbrakk> \<Longrightarrow>
     waits t64 call c v \<sigma>0 (Suc n) (\<sigma>\<lparr> servers := (servers \<sigma>)(v := S') \<rparr>)"
| other: "\<lbrakk> waits t64 call c v \<sigma>0 n \<sigma>; ffwd_step t64 call \<sigma> l \<sigma>';
     cpc (clients \<sigma>' c) = cpc (clients \<sigma> c) \<rbrakk> \<Longrightarrow>
     waits t64 call c v \<sigma>0 n \<sigma>'"

abbreviation (input) "answered t64 \<sigma> c v \<equiv>
  shown t64 (servers \<sigma> v) (chip (clients \<sigma> c)) (slot (clients \<sigma> c)) =
  posted (servers \<sigma> v) (chip (clients \<sigma> c)) (slot (clients \<sigma> c))"

abbreviation (input) "delay_of t64 \<sigma> c v \<equiv>
  delay t64 (servers \<sigma> v) (chip (clients \<sigma> c)) (slot (clients \<sigma> c))"

lemma spinning:
  assumes "sys_inv t64 \<sigma> tr" "c < nclients \<sigma>" "cpc (clients \<sigma> c) = Spin v f args"
  shows "chip (clients \<sigma> c) < 4" "slot (clients \<sigma> c) < 2 * NCLIENTS t64" "v < nservers \<sigma>"
    "server_inv t64 (servers \<sigma> v)" "cmask (clients \<sigma> c) = push_bit (slot (clients \<sigma> c)) 1"
    "\<exists>w. waiting t64 (clients \<sigma> c) (servers \<sigma> v) v f args w"
proof -
  have ok: "\<exists>w. client_ok t64 (nservers \<sigma>) (Spin v f args) (clients \<sigma> c) (servers \<sigma>) w"
    using assms by (force simp: sys_inv_def client_inv_def)
  then show v: "v < nservers \<sigma>" and "\<exists>w. waiting t64 (clients \<sigma> c) (servers \<sigma> v) v f args w" by auto
  show "server_inv t64 (servers \<sigma> v)" using assms(1) v by (simp add: sys_inv_def)
  have "placed t64 \<sigma>" using assms(1) by (simp add: sys_inv_def)
  then show "chip (clients \<sigma> c) < 4" "slot (clients \<sigma> c) < 2 * NCLIENTS t64"
    "cmask (clients \<sigma> c) = push_bit (slot (clients \<sigma> c)) 1"
    using assms(2) by (simp_all add: placed_def)
qed

lemma spin_server:
  assumes inv: "sys_inv t64 \<sigma> tr" and c: "c < nclients \<sigma>" "cpc (clients \<sigma> c) = Spin v f args"
    and st: "server_step t64 call (stop_flag \<sigma>) (spc (servers \<sigma> v)) (servers \<sigma> v) = Some (e, S')"
    and fin: "stop_flag \<sigma> \<noteq> 1"
  shows "answered t64 \<sigma> c v \<Longrightarrow> answered t64 (\<sigma>\<lparr> servers := (servers \<sigma>)(v := S') \<rparr>) c v"
    and "\<not> answered t64 \<sigma> c v \<Longrightarrow> delay_of t64 (\<sigma>\<lparr> servers := (servers \<sigma>)(v := S') \<rparr>) c v < delay_of t64 \<sigma> c v"
proof -
  note sp = spinning [OF inv c]
  show "\<not> answered t64 \<sigma> c v \<Longrightarrow> delay_of t64 (\<sigma>\<lparr> servers := (servers \<sigma>)(v := S') \<rparr>) c v < delay_of t64 \<sigma> c v"
    using delay_step [OF sp(4) st sp(1,2) fin] by simp
  assume ans: "answered t64 \<sigma> c v"
  then have "served (servers \<sigma> v) (chip (clients \<sigma> c)) (slot (clients \<sigma> c)) =
      posted (servers \<sigma> v) (chip (clients \<sigma> c)) (slot (clients \<sigma> c))"
    using sp(6) by (auto simp: waiting_def)
  with ans server_step_slot [OF sp(4) st sp(1,2)]
  show "answered t64 (\<sigma>\<lparr> servers := (servers \<sigma>)(v := S') \<rparr>) c v"
    by (auto simp: slot_called_def slot_kept_def split: option.splits if_splits)
qed

lemma client_step_server_view:
  "client_step t64 pc C S = Some (e, C', S') \<Longrightarrow>
   spc S' = spc S \<and> socket_client_flags S' = socket_client_flags S \<and> responses S' = responses S"
  using client_step_shape [of t64 pc C S e C' S'] by auto

lemma spin_other:
  assumes inv: "sys_inv t64 \<sigma> tr" and c: "c < nclients \<sigma>" "cpc (clients \<sigma> c) = Spin v f args"
    and st: "ffwd_step t64 call \<sigma> l \<sigma>'" and spin: "cpc (clients \<sigma>' c) = Spin v f args"
    and fin: "stop_flag \<sigma>' \<noteq> 1"
  shows "(answered t64 \<sigma> c v \<longrightarrow> answered t64 \<sigma>' c v) \<and>
    (\<not> answered t64 \<sigma> c v \<longrightarrow> delay_of t64 \<sigma>' c v \<le> delay_of t64 \<sigma> c v)"
  using st
proof cases
  case (server v' e S')
  show ?thesis
  proof (cases "v' = v")
    case True
    with server fin spin_server [OF inv c, of call e S'] show ?thesis by force
  qed (use server in \<open>simp add: delay_def\<close>)
next
  case (client d u e D' S' g as)
  show ?thesis
  proof (cases "d = c")
    case True
    with client c spin have "S' = servers \<sigma> v" "D' = clients \<sigma> c" "u = v" by (auto split: if_splits)
    with client True show ?thesis by simp
  next
    case False
    have "placed t64 \<sigma>" using inv by (simp add: sys_inv_def)
    with c client(3) False have "chip (clients \<sigma> c) \<noteq> chip (clients \<sigma> d) \<or> slot (clients \<sigma> c) \<noteq> slot (clients \<sigma> d)"
      using owner_unique [of t64 \<sigma> c "chip (clients \<sigma> c)" "slot (clients \<sigma> c)" d] by (auto simp: owner_def)
    from client_step_other(2) [OF client(5) this] client_step_server_view [OF client(5)] client False
    show ?thesis by (auto simp: delay_def)
  qed
qed (use c spin in \<open>auto simp: delay_def\<close>)

lemma waits_delay:
  assumes "waits t64 call c v \<sigma>0 n \<sigma>" "sys_inv t64 \<sigma>0 tr0" "c < nclients \<sigma>0"
    "cpc (clients \<sigma>0 c) = Spin v f args"
  shows "cpc (clients \<sigma> c) = Spin v f args \<and> c < nclients \<sigma> \<and> (\<exists>tr. sys_inv t64 \<sigma> tr) \<and>
    (stop_flag \<sigma> \<noteq> 1 \<longrightarrow> answered t64 \<sigma> c v \<or> delay_of t64 \<sigma> c v + n \<le> delay_of t64 \<sigma>0 c v)"
  using assms
proof (induction rule: waits.induct)
  case (served n \<sigma> e S')
  then obtain tr where tr: "sys_inv t64 \<sigma> tr" and c: "c < nclients \<sigma>" "cpc (clients \<sigma> c) = Spin v f args" by blast
  with sys_inv_server [OF tr served(2,3)] have "\<exists>tr. sys_inv t64 (\<sigma>\<lparr> servers := (servers \<sigma>)(v := S') \<rparr>) tr" by blast
  moreover have "answered t64 (\<sigma>\<lparr> servers := (servers \<sigma>)(v := S') \<rparr>) c v \<or>
      delay_of t64 (\<sigma>\<lparr> servers := (servers \<sigma>)(v := S') \<rparr>) c v + Suc n \<le> delay_of t64 \<sigma>0 c v" if "stop_flag \<sigma> \<noteq> 1"
    using spin_server [OF tr c served(3) that] served that by force
  ultimately show ?case using c by simp
next
  case (other n \<sigma> l \<sigma>')
  then obtain tr where tr: "sys_inv t64 \<sigma> tr" and c: "c < nclients \<sigma>" "cpc (clients \<sigma> c) = Spin v f args" by blast
  have c': "cpc (clients \<sigma>' c) = Spin v f args" "c < nclients \<sigma>'"
    using c other(3) step_static(2) [OF other(2)] by simp_all
  have "answered t64 \<sigma>' c v \<or> delay_of t64 \<sigma>' c v + n \<le> delay_of t64 \<sigma>0 c v" if "stop_flag \<sigma>' \<noteq> 1"
    using spin_other [OF tr c other(2) c'(1) that] step_static(5) [OF other(2) that] other by force
  with c' sys_inv_step [OF tr other(2)] show ?case by blast
qed auto

text \<open>A server whose functions always return goes on as long as it is not shut down.\<close>

lemma server_goes_on:
  assumes "\<And>f a d. call f a d \<noteq> None" "pc \<noteq> Stopped" "fin \<noteq> 1"
  shows "\<exists>e S'. server_step t64 call fin pc S = Some (e, S') \<and> spc S' \<noteq> Stopped"
proof (cases pc)
  case (Call b k)
  let ?r = "chips S (socket_of b) (slot_of t64 b k)"
  obtain x where "call (fptr ?r) (argv ?r) (sdata S) = Some x"
    using assms(1) [of "fptr ?r" "argv ?r" "sdata S"] by blast
  then show ?thesis by (cases x) (simp add: Call server_call_def Let_def)
qed (use assms in \<open>auto simp: Let_def\<close>)

lemma waits_exists:
  assumes "\<And>f a d. call f a d \<noteq> None" "v < nservers \<sigma>" "spc (servers \<sigma> v) \<noteq> Stopped" "stop_flag \<sigma> \<noteq> 1"
  shows "\<exists>\<sigma>'. waits t64 call c v \<sigma> n \<sigma>' \<and> spc (servers \<sigma>' v) \<noteq> Stopped \<and> stop_flag \<sigma>' \<noteq> 1 \<and> v < nservers \<sigma>'"
proof (induction n)
  case (Suc n)
  then obtain \<sigma>' where w: "waits t64 call c v \<sigma> n \<sigma>'" "spc (servers \<sigma>' v) \<noteq> Stopped" "stop_flag \<sigma>' \<noteq> 1"
    "v < nservers \<sigma>'" by blast
  from server_goes_on [where call = call, OF assms(1) w(2,3)]
  obtain e S' where "server_step t64 call (stop_flag \<sigma>') (spc (servers \<sigma>' v)) (servers \<sigma>' v) = Some (e, S')"
    "spc S' \<noteq> Stopped" by blast
  from waits.served [OF w(1,4) this(1)] this(2) w(3,4) show ?case by fastforce
qed (use assms in \<open>auto intro: waits.none\<close>)

lemma answered_spin:
  assumes inv: "sys_inv t64 \<sigma> tr" and c: "c < nclients \<sigma>" "cpc (clients \<sigma> c) = Spin v f args"
    and ans: "answered t64 \<sigma> c v"
  shows "client_step t64 (cpc (clients \<sigma> c)) (clients \<sigma> c) (servers \<sigma> v) =
    Some (None, (clients \<sigma> c)\<lparr> cpc := Fetch v f args \<rparr>, servers \<sigma> v)"
proof -
  note sp = spinning [OF inv c]
  have line: "client_line t64 (clients \<sigma> c) =
      line_of (block_of t64 (chip (clients \<sigma> c)) (slot (clients \<sigma> c)))"
    by (simp add: client_line_def coords(3) [OF sp(1,2)])
  obtain w where "waiting t64 (clients \<sigma> c) (servers \<sigma> v) v f args w" using sp(6) by blast
  then have "bit (lflag (clients \<sigma> c) v) (slot (clients \<sigma> c)) =
      posted (servers \<sigma> v) (chip (clients \<sigma> c)) (slot (clients \<sigma> c))" by (simp add: waiting_def)
  with ans show ?thesis using c sp(5) slot_small [OF sp(2)]
    by (simp add: line bit_flips)
qed

subsection \<open>Delegated objects\<close>

text \<open>Every executed request was made by the client that owns its slot, with these arguments.\<close>

lemma track_exec:
  assumes "track c s k w tr = Some w'" and "Exec v s k f a r \<in> set tr"
  shows "(\<exists>args. Invoke c v f args \<in> set tr \<and> take (length args) a = args) \<or>
    (\<exists>args. w = Called v f args \<and> take (length args) a = args)"
  using assms
proof (induction tr arbitrary: w)
  case (Cons e tr)
  from Cons.prems(1) obtain w1 where w1: "track1 c s k w e = Some w1" "track c s k w1 tr = Some w'"
    by (auto split: option.splits)
  show ?case
  proof (cases "e = Exec v s k f a r")
    case True
    with w1 show ?thesis by (auto split: view.splits if_splits)
  next
    case False
    with Cons.prems(2) have "Exec v s k f a r \<in> set tr" by simp
    from Cons.IH [OF w1(2) this] w1(1) show ?thesis
      by (cases e) (auto split: view.splits if_splits)
  qed
qed simp

lemma run_exec_invoked:
  assumes "ffwd_run t64 call \<sigma>0 tr \<sigma>" "initial t64 \<sigma>0" "Exec v s k f a r \<in> set tr"
  shows "\<exists>c args. Invoke c v f args \<in> set tr \<and> take (length args) a = args"
proof -
  from run_owned [OF assms] obtain c where c: "c < nclients \<sigma>0" "chip (clients \<sigma>0 c) = s" "slot (clients \<sigma>0 c) = k"
    by blast
  with sys_inv_run [OF assms(1,2)] run_static [OF assms(1)] obtain w where "track c s k Free tr = Some w"
    by (auto simp: sys_inv_def client_inv_def)
  from track_exec [OF this assms(3)] show ?thesis by auto
qed

lemma execs_Exec: "(f, a, r) \<in> set (execs v tr) \<Longrightarrow> \<exists>s k. Exec v s k f a r \<in> set tr"
  by (induction v tr rule: execs.induct) (auto split: if_splits)

text \<open>Replaying a log of calls on a sequential specification.\<close>

fun spec_replay :: "('f \<Rightarrow> u64 list \<Rightarrow> 'a \<Rightarrow> u64 \<times> 'a) \<Rightarrow> 'a \<Rightarrow> ('f \<times> u64 list \<times> u64) list \<Rightarrow> 'a option" where
  "spec_replay spec x [] = Some x"
| "spec_replay spec x ((f, a, r) # es) =
     (if fst (spec f a x) = r then spec_replay spec (snd (spec f a x)) es else None)"

locale delegated_object =
  fixes call :: "'f \<Rightarrow> u64 list \<Rightarrow> 'd \<Rightarrow> (u64 \<times> 'd) option"
    and ok :: "'d \<Rightarrow> bool"
    and abs :: "'d \<Rightarrow> 'a"
    and valid :: "'f \<Rightarrow> u64 list \<Rightarrow> bool"
    and spec :: "'f \<Rightarrow> u64 list \<Rightarrow> 'a \<Rightarrow> u64 \<times> 'a"
    and room :: "'d \<Rightarrow> bool"
  assumes call_spec: "ok d \<Longrightarrow> valid f a \<Longrightarrow> call f a d = Some (r, d') \<Longrightarrow>
      ok d' \<and> spec f a (abs d) = (r, abs d')"
    and call_returns: "ok d \<Longrightarrow> valid f a \<Longrightarrow> room d \<Longrightarrow> call f a d \<noteq> None"
    and valid_more: "valid f args \<Longrightarrow> take (length args) a = args \<Longrightarrow> valid f a"
begin

lemma replay_spec:
  assumes "replay call d es = Some d'" "ok d" "\<forall>(f, a, r) \<in> set es. valid f a"
  shows "ok d' \<and> spec_replay spec (abs d) es = Some (abs d')"
  using assms
proof (induction es arbitrary: d)
  case (Cons e es)
  obtain f a r where e: "e = (f, a, r)" by (cases e)
  with Cons.prems(1) obtain d1 where d1: "call f a d = Some (r, d1)" "replay call d1 es = Some d'"
    by (auto split: option.splits if_splits)
  from call_spec [OF Cons.prems(2) _ d1(1)] Cons.prems(3) e
  have "ok d1" "spec f a (abs d) = (r, abs d1)" by auto
  with Cons.IH [OF d1(2)] Cons.prems(3) e show ?case by simp
qed simp

lemma delegated:
  assumes run: "ffwd_run t64 call \<sigma>0 tr \<sigma>" and init: "initial t64 \<sigma>0" and ok0: "ok (sdata (servers \<sigma>0 v))"
    and valid: "\<forall>c f args. Invoke c v f args \<in> set tr \<longrightarrow> valid f args"
  shows "ok (sdata (servers \<sigma> v)) \<and>
    spec_replay spec (abs (sdata (servers \<sigma>0 v))) (execs v tr) = Some (abs (sdata (servers \<sigma> v)))"
proof (rule replay_spec [OF run_replay [OF run] ok0])
  show "\<forall>(f, a, r) \<in> set (execs v tr). valid f a"
    using run_exec_invoked [OF run init] valid valid_more by (blast dest: execs_Exec)
qed

lemma server_not_stuck:
  assumes "ok (sdata S)" "room (sdata S)"
    and "\<And>b k. spc S = Call b k \<Longrightarrow>
      valid (fptr (chips S (socket_of b) (slot_of t64 b k))) (argv (chips S (socket_of b) (slot_of t64 b k)))"
  shows "server_step t64 call fin (spc S) S = None \<longleftrightarrow> spc S = Stopped"
proof (cases "spc S")
  case (Call b k)
  from call_returns [OF assms(1) assms(3) [OF Call] assms(2)] Call show ?thesis
    by (auto simp: server_call_def Let_def)
qed (auto simp: Let_def)

end

text \<open>A parameter of type \<open>int\<close> is the low 32 bits of the word that was passed.\<close>

definition int_arg :: "u64 \<Rightarrow> int" where
  "int_arg w = sint (ucast w :: 32 word)"

lemma hd_prefix: "take (length xs) ys = xs \<Longrightarrow> xs \<noteq> [] \<Longrightarrow> ys \<noteq> [] \<and> hd ys = hd xs"
  by (metis append_take_drop_id hd_append2 list.sel(1) take_Nil append_is_Nil_conv)

subsection \<open>The theorems\<close>

text \<open>
  C1: Delegation executes every call exactly once. In every run from the initial state, for
  every client the events of its slot are in order: a call, one execution of that function by
  the called server with the arguments of the call, one return with the result of that
  execution; and a server executes nothing that is not in the slot of a client.
\<close>

theorem delegation_exactly_once:
  assumes "initial t64 \<sigma>0" and "ffwd_run t64 call \<sigma>0 tr \<sigma>"
  shows "(\<forall>c < nclients \<sigma>0. track c (chip (clients \<sigma>0 c)) (slot (clients \<sigma>0 c)) Free tr \<noteq> None) \<and>
    (\<forall>v s k f a r. Exec v s k f a r \<in> set tr \<longrightarrow>
       (\<exists>c < nclients \<sigma>0. chip (clients \<sigma>0 c) = s \<and> slot (clients \<sigma>0 c) = k))"
  using sys_inv_run [OF assms(2,1)] run_static [OF assms(2)] run_owned [OF assms(2,1)]
  by (auto simp: sys_inv_def client_inv_def)


text \<open>
  C3: A client that waits for its response leaves the wait loop at its next test once its server
  has taken the steps of two passes, whatever the other clients do, as long as the servers are
  not being shut down.
\<close>

theorem delegation_bounded_wait:
  assumes "initial t64 \<sigma>0" "ffwd_run t64 call \<sigma>0 tr \<sigma>" "c < nclients \<sigma>"
    "cpc (clients \<sigma> c) = Spin v f args" "waits t64 call c v \<sigma> n \<sigma>'"
    "stop_flag \<sigma>' \<noteq> 1" "2 * pass_steps t64 \<le> n"
  shows "client_step t64 (cpc (clients \<sigma>' c)) (clients \<sigma>' c) (servers \<sigma>' v) =
    Some (None, (clients \<sigma>' c)\<lparr> cpc := Fetch v f args \<rparr>, servers \<sigma>' v)"
proof -
  have inv: "sys_inv t64 \<sigma> tr" by (rule sys_inv_run [OF assms(2,1)])
  from waits_delay [OF assms(5) inv assms(3,4)] obtain tr' where w: "sys_inv t64 \<sigma>' tr'"
    "c < nclients \<sigma>'" "cpc (clients \<sigma>' c) = Spin v f args"
    "answered t64 \<sigma>' c v \<or> delay_of t64 \<sigma>' c v + n \<le> delay_of t64 \<sigma> c v" using assms(6) by blast
  moreover have "delay_of t64 \<sigma> c v < 2 * pass_steps t64"
    by (rule delay_le [OF spinning(4) [OF inv assms(3,4)]])
  ultimately have "answered t64 \<sigma>' c v" using assms(7) by linarith
  then show ?thesis by (rule answered_spin [OF w(1-3)])
qed

end
