(* ===== verification/Ffwd_Sample.thy ===== *)
theory Ffwd_Sample
  imports Ffwd_Delegation
begin

text \<open>
  The sample client of \<open>libffwd\<close> (\<open>ffwd_sample.c\<close>): an array of counters, the delegated
  function \<open>increment\<close>, and the loop of a client that picks a server and increments the
  counter kept for it.
\<close>

subsection \<open>The delegated function\<close>

datatype sample_fn = Increment

type_synonym counters = "nat \<Rightarrow> int"

definition VARIABLE_SIZE :: nat where "VARIABLE_SIZE = 1024 * 32"

text \<open>\<open>variable[a]++\<close> on a signed \<open>int\<close>: an index out of bounds and an overflow are undefined.\<close>

definition increment :: "int \<Rightarrow> counters \<Rightarrow> (u64 \<times> counters) option" where
  "increment a variable =
     (if 0 \<le> a \<and> a < int VARIABLE_SIZE \<and> variable (nat a) < INT_MAX then
        let variable' = variable(nat a := variable (nat a) + 1) in
        Some (of_int (variable' (nat a)), variable')
      else None)"

fun sample_call :: "sample_fn \<Rightarrow> u64 list \<Rightarrow> counters \<Rightarrow> (u64 \<times> counters) option" where
  "sample_call Increment args variable = increment (int_arg (hd args)) variable"

subsection \<open>The client loop\<close>

definition MULTIPLIER :: u64 where "MULTIPLIER = 15485863"
definition MAX_RANDNO :: u64 where "MAX_RANDNO = 373587883"

text \<open>One iteration for \<open>servers > 0\<close>: the server called, the argument, the next \<open>randno\<close>.\<close>

definition client_iteration :: "nat \<Rightarrow> u64 \<Rightarrow> nat \<times> int \<times> u64" where
  "client_iteration n_srv randno =
     (let index_to_increment = unat (randno mod of_nat n_srv) in
      (index_to_increment mod n_srv, int index_to_increment * 128, (randno + MULTIPLIER) mod MAX_RANDNO))"

fun client_loop :: "nat \<Rightarrow> nat \<Rightarrow> u64 \<Rightarrow> (nat \<times> int) list" where
  "client_loop 0 n_srv randno = []"
| "client_loop (Suc n) n_srv randno =
     (let (server_no, arg, randno') = client_iteration n_srv randno in
      (server_no, arg) # client_loop n n_srv randno')"

subsection \<open>Sequential specification\<close>

fun sample_spec :: "sample_fn \<Rightarrow> u64 list \<Rightarrow> counters \<Rightarrow> u64 \<times> counters" where
  "sample_spec Increment args c =
     (let i = nat (int_arg (hd args)) in (of_int (c i + 1), c(i := c i + 1)))"

fun sample_valid :: "sample_fn \<Rightarrow> u64 list \<Rightarrow> bool" where
  "sample_valid Increment args \<longleftrightarrow>
     args \<noteq> [] \<and> 0 \<le> int_arg (hd args) \<and> int_arg (hd args) < int VARIABLE_SIZE"

definition sample_ok :: "counters \<Rightarrow> bool" where
  "sample_ok c \<longleftrightarrow> (\<forall>i. 0 \<le> c i \<and> c i \<le> INT_MAX)"

definition sample_room :: "counters \<Rightarrow> bool" where
  "sample_room c \<longleftrightarrow> (\<forall>i < VARIABLE_SIZE. c i < INT_MAX)"

interpretation sample: delegated_object sample_call sample_ok "\<lambda>c. c" sample_valid sample_spec sample_room
proof
  fix d f a r d'
  assume "sample_ok d" "sample_valid f a" "sample_call f a d = Some (r, d')"
  then show "sample_ok d' \<and> sample_spec f a d = (r, d')"
    by (cases f) (auto simp: increment_def Let_def sample_ok_def split: if_splits)
next
  fix d f a
  assume "sample_ok d" "sample_valid f a" "sample_room d"
  then show "sample_call f a d \<noteq> None"
    by (cases f) (auto simp: increment_def sample_room_def Let_def nat_less_iff)
next
  fix f args a
  assume "sample_valid f args" "take (length args) a = args"
  then show "sample_valid f a" by (cases f) (use hd_prefix [of args a] in auto)
qed

text \<open>
  With up to 256 servers every request of the sample's client loop goes to one of the
  servers and carries an index within \<open>variable\<close>, 128 elements apart for different servers,
  so that no two servers increment the same counter.
\<close>

theorem client_loop_targets:
  assumes "0 < n_srv" "n_srv \<le> 256" "(v, x) \<in> set (client_loop n n_srv randno)"
  shows "v < n_srv \<and> x = 128 * int v \<and> 0 \<le> x \<and> x < int VARIABLE_SIZE"
  using assms(3)
proof (induction n arbitrary: randno)
  case (Suc n)
  have "unat (randno mod of_nat n_srv) < n_srv"
  proof -
    have "unat (of_nat n_srv :: u64) = n_srv" using assms by (simp add: unat_of_nat take_bit_nat_eq_self)
    then show ?thesis using assms(1) by (simp add: unat_mod)
  qed
  then have "n_srv \<le> 256" "unat (randno mod of_nat n_srv) < n_srv" using assms by simp_all
  then show ?case using Suc.IH Suc.prems
    by (auto simp: client_iteration_def VARIABLE_SIZE_def Let_def simp del: of_nat_unat)
qed simp

theorem client_loop_targets_witness:
  "(3, 384) \<in> set (client_loop 2 4 7) \<and> (3::nat) < 4 \<and> (384::int) < int VARIABLE_SIZE"
proof -
  have "(3, 384) \<in> set (client_loop 2 4 7)" by code_simp
  with client_loop_targets [of 4 3 384 2 7] show ?thesis by simp
qed

subsection \<open>A run of the sample\<close>

text \<open>Two clients of the first chip send an increment to the same server, which serves both.\<close>

definition sample_server :: "(sample_fn, counters) server" where
  "sample_server = \<lparr> chips = (\<lambda>s k. \<lparr> flag = 0, argc = 0, fptr = Increment, argv = [0, 0, 0, 0, 0] \<rparr>),
     responses = (\<lambda>i. \<lparr> return_values = replicate 7 0, flags = 0 \<rparr>),
     old_client_flags = (\<lambda>s. 0), socket_client_flags = (\<lambda>s. 0),
     local_return_values = (\<lambda>i. replicate 8 0), spc = Head, sdata = (\<lambda>i. 0) \<rparr>"

definition sample_client :: "nat \<Rightarrow> sample_fn client" where
  "sample_client c = \<lparr> chip = 0, slot = c, cmask = push_bit c 1, lflag = (\<lambda>v. 0), cpc = Idle \<rparr>"

definition sample_sys :: "(sample_fn, counters) sys" where
  "sample_sys = \<lparr> servers = (\<lambda>v. sample_server), clients = sample_client, nservers = 2, nclients = 2,
     stop_flag = 0 \<rparr>"

definition sample_schedule :: "sample_fn choice list" where
  "sample_schedule = [Call_from 0 1 Increment [128]] @ replicate 6 (Client 0) @
     [Call_from 1 1 Increment [128]] @ replicate 6 (Client 1) @
     replicate 20 (Server 1) @ replicate 2 (Client 0) @ replicate 2 (Client 1)"

lemma sample_initial: "initial True sample_sys"
  by (auto simp: initial_def sample_sys_def sample_server_def sample_client_def NCLIENTS_def inj_on_def)

definition sample_trace :: "sample_fn event list" where
  "sample_trace = [Invoke 0 1 Increment [128], Invoke 1 1 Increment [128],
     Exec 1 0 0 Increment [128, 0, 0, 0, 0] 1, Exec 1 0 1 Increment [128, 0, 0, 0, 0] 2,
     Return 0 1 Increment [128] 1, Return 1 1 Increment [128] 2]"

lemma sample_run: "\<exists>\<sigma>. ffwd_run True sample_call sample_sys sample_trace \<sigma>"
proof -
  have "map_option fst (sched_run True sample_call sample_schedule ([], sample_sys)) = Some sample_trace"
    by code_simp
  then obtain \<sigma> where "sched_run True sample_call sample_schedule ([], sample_sys) = Some (sample_trace, \<sigma>)"
    by (auto simp del: sched_run.simps)
  then show ?thesis using sched_run_sound ffwd_run.start by blast
qed

lemma sample_trace_valid:
  "\<forall>c f args. Invoke c 1 f args \<in> set sample_trace \<longrightarrow> sample_valid f args"
  by (auto simp: sample_trace_def VARIABLE_SIZE_def int_arg_def)

lemma sample_sys_ok: "sample_ok (sdata (servers sample_sys v))"
  by (simp add: sample_sys_def sample_server_def sample_ok_def INT_MAX_def)

theorem delegation_exactly_once_witness:
  "initial True sample_sys \<and> (\<exists>\<sigma>. ffwd_run True sample_call sample_sys sample_trace \<sigma>) \<and>
   track 1 0 1 Free sample_trace \<noteq> None \<and> Exec 1 0 1 Increment [128, 0, 0, 0, 0] 2 \<in> set sample_trace"
proof -
  obtain \<sigma> where run: "ffwd_run True sample_call sample_sys sample_trace \<sigma>" using sample_run by blast
  have "track 1 0 1 Free sample_trace \<noteq> None"
    using delegation_exactly_once [OF sample_initial run] by (auto simp: sample_sys_def sample_client_def)
  with run sample_initial show ?thesis by (auto simp: sample_trace_def)
qed


text \<open>A client that has posted its request, and a function that always returns.\<close>

definition constant_call :: "sample_fn \<Rightarrow> u64 list \<Rightarrow> counters \<Rightarrow> (u64 \<times> counters) option" where
  "constant_call f a d = Some (7, d)"

definition posting :: "sample_fn choice list" where
  "posting = Call_from 0 1 Increment [128] # replicate 6 (Client 0)"

theorem delegation_bounded_wait_witness:
  "\<exists>\<sigma> \<sigma>'. cpc (clients \<sigma> 0) = Spin 1 Increment [128] \<and>
     waits True constant_call 0 1 \<sigma> (2 * pass_steps True) \<sigma>' \<and>
     client_step True (cpc (clients \<sigma>' 0)) (clients \<sigma>' 0) (servers \<sigma>' 1) =
       Some (None, (clients \<sigma>' 0)\<lparr> cpc := Fetch 1 Increment [128] \<rparr>, servers \<sigma>' 1)"
proof -
  have "(case sched_run True constant_call posting ([], sample_sys) of None \<Rightarrow> False
      | Some (tr, \<sigma>) \<Rightarrow> cpc (clients \<sigma> 0) = Spin 1 Increment [128] \<and> spc (servers \<sigma> 1) \<noteq> Stopped \<and>
          stop_flag \<sigma> \<noteq> 1 \<and> nservers \<sigma> = 2 \<and> nclients \<sigma> = 2)"
    by code_simp
  then obtain tr \<sigma> where r: "sched_run True constant_call posting ([], sample_sys) = Some (tr, \<sigma>)"
    and s: "cpc (clients \<sigma> 0) = Spin 1 Increment [128]" "spc (servers \<sigma> 1) \<noteq> Stopped"
      "stop_flag \<sigma> \<noteq> 1" "1 < nservers \<sigma>" "0 < nclients \<sigma>" by (auto split: option.splits)
  have run: "ffwd_run True constant_call sample_sys tr \<sigma>" by (rule sched_run_sound [OF r ffwd_run.start])
  have "constant_call f a d \<noteq> None" for f a d by (simp add: constant_call_def)
  from waits_exists [where call = constant_call, OF this s(4,2,3)] obtain \<sigma>' where
    "waits True constant_call 0 1 \<sigma> (2 * pass_steps True) \<sigma>'" "stop_flag \<sigma>' \<noteq> 1" by blast
  with delegation_bounded_wait [OF sample_initial run s(5,1)] s(1) show ?thesis by blast
qed



end
