(* ===== verification/Linked_Heap.thy ===== *)
theory Linked_Heap
  imports Prelude
begin

text \<open>
  Singly linked structures in a C heap. The locale \<open>linked\<close> is the interface of a node type with
  a link and a key; its lemmas on paths, keys, unlinking and inserting are shared by all list
  components, which interpret it for their own node type.
\<close>

locale linked =
  fixes link :: "'n \<Rightarrow> addr"
    and set_link :: "addr \<Rightarrow> 'n \<Rightarrow> 'n"
    and key :: "'n \<Rightarrow> 'k"
  assumes link_set [simp]: "link (set_link q n) = q"
    and key_set [simp]: "key (set_link q n) = key n"
begin

text \<open>\<open>path h p as q\<close>: following the links from \<open>p\<close> visits the nodes \<open>as\<close> and arrives at \<open>q\<close>.\<close>

fun path :: "'n heap \<Rightarrow> addr \<Rightarrow> addr list \<Rightarrow> addr \<Rightarrow> bool" where
  "path h p [] q \<longleftrightarrow> p = q"
| "path h p (a # as) q \<longleftrightarrow> p = a \<and> (case load h a of None \<Rightarrow> False | Some n \<Rightarrow> path h (link n) as q)"

definition key_at :: "'n heap \<Rightarrow> addr \<Rightarrow> 'k" where
  "key_at h a = key (the (load h a))"

abbreviation "keys_at h as \<equiv> map (key_at h) as"

lemma path_append: "path h p (as @ bs) q \<longleftrightarrow> (\<exists>m. path h p as m \<and> path h m bs q)"
  by (induction as arbitrary: p) (auto split: option.splits)

lemma path_loaded: "path h p as q \<Longrightarrow> a \<in> set as \<Longrightarrow> \<exists>n. load h a = Some n"
  by (induction as arbitrary: p) (auto split: option.splits)

lemma path_not_NULL: "path h p as q \<Longrightarrow> NULL \<notin> set as"
  using path_loaded by fastforce

lemma path_frame:
  "(\<And>a. a \<in> set as \<Longrightarrow> load h' a = load h a) \<Longrightarrow> path h' p as q = path h p as q"
  by (induction as arbitrary: p) (auto split: option.splits)

lemma path_upd [simp]: "a \<notin> set as \<Longrightarrow> path (upd h a n) p as q = path h p as q"
  by (rule path_frame) (auto simp: heap_simps)

lemma path_del [simp]: "a \<notin> set as \<Longrightarrow> path (del h a) p as q = path h p as q"
  by (rule path_frame) (auto simp: heap_simps)

lemma key_at_frame: "load h' a = load h a \<Longrightarrow> key_at h' a = key_at h a"
  by (simp add: key_at_def)

lemma keys_at_frame:
  "(\<And>a. a \<in> set as \<Longrightarrow> load h' a = load h a) \<Longrightarrow> keys_at h' as = keys_at h as"
  by (auto intro: key_at_frame)

lemma path_det:
  "path h p as NULL \<Longrightarrow> path h p bs NULL \<Longrightarrow> as = bs"
proof (induction as arbitrary: p bs)
  case Nil
  then show ?case by (cases bs) auto
next
  case (Cons a as)
  then show ?case by (cases bs) (auto split: option.splits)
qed

lemma path_distinct: "path h p as NULL \<Longrightarrow> distinct as"
proof (induction as arbitrary: p)
  case (Cons a as)
  then obtain n where n: "load h a = Some n" "path h (link n) as NULL" by (auto split: option.splits)
  have "a \<notin> set as"
  proof
    assume "a \<in> set as"
    then obtain xs ys where as: "as = xs @ a # ys" by (meson split_list)
    then have "path h a (a # ys) NULL" using n(2) by (auto simp: path_append)
    moreover have "path h a (a # as) NULL" using n by simp
    ultimately have "a # ys = a # as" by (rule path_det)
    then show False using as by simp
  qed
  with Cons n show ?case by simp
qed simp

text \<open>A node on a path ends: the nodes before it, the node, the nodes after it.\<close>

lemma path_split:
  assumes "path h p (as @ a # bs) q"
  obtains n where "load h a = Some n" "path h p as a" "path h (link n) bs q"
  using assms by (auto simp: path_append split: option.splits)

text \<open>Redirecting the last link of a path.\<close>

lemma path_redirect:
  assumes "path h p (as @ [a]) q" "a \<notin> set as" "load h a = Some n" "link n' = r"
  shows "path (upd h a n') p (as @ [a]) r"
proof -
  have "path h p as a" using assms(1) by (auto simp: path_append split: option.splits)
  then have "path (upd h a n') p as a" using assms(2) by simp
  moreover have "a \<noteq> NULL" using assms(3) by auto
  ultimately show ?thesis using assms(4) by (auto simp: path_append heap_simps)
qed

text \<open>Linking a new node \<open>b\<close> in behind \<open>a\<close>, and taking the node behind \<open>a\<close> out.\<close>

lemma path_insert:
  assumes p: "path h p (as @ a # bs) NULL" and n: "load h a = Some n"
    and b: "b \<notin> set (as @ a # bs)" "b \<noteq> NULL" "link nb = link n"
  shows "path (upd (upd h b nb) a (set_link b n)) p (as @ a # b # bs) NULL"
proof -
  let ?h = "upd (upd h b nb) a (set_link b n)"
  have d: "a \<notin> set as" "a \<notin> set bs" using path_distinct [OF p] by auto
  have ab: "path h p as a" "path h (link n) bs NULL" using p n by (auto simp: path_append split: option.splits)
  have "path ?h p as a" "path ?h (link n) bs NULL"
    using ab b d by simp_all
  then show ?thesis using b n d by (auto simp: path_append heap_simps split: option.splits)
qed

lemma path_unlink:
  assumes p: "path h p (as @ a # b # bs) NULL" and n: "load h a = Some n" "load h b = Some nb"
  shows "path (upd h a (set_link (link nb) n)) p (as @ a # bs) NULL"
    and "path (del (upd h a (set_link (link nb) n)) b) p (as @ a # bs) NULL"
proof -
  let ?h = "upd h a (set_link (link nb) n)"
  have d: "a \<notin> set as" "a \<notin> set bs" "b \<notin> set as" "b \<notin> set bs" "a \<noteq> b" using path_distinct [OF p] by auto
  have ab: "path h p as a" "path h (link nb) bs NULL" using p n by (auto simp: path_append split: option.splits)
  then have ab': "path ?h p as a" "path ?h (link nb) bs NULL"
    using d by simp_all
  moreover have a: "a \<noteq> NULL" using n by auto
  ultimately show p': "path ?h p (as @ a # bs) NULL" by (auto simp: path_append heap_simps)
  show "path (del ?h b) p (as @ a # bs) NULL"
    using p' path_del [of b "as @ a # bs" ?h p NULL] d by simp
qed

lemma key_at_upd [simp]:
  "load h a = Some n \<Longrightarrow> key m = key n \<Longrightarrow> key_at (upd h a m) b = key_at h b"
  by (auto simp: key_at_def heap_simps)

lemma key_at_new: "b \<noteq> NULL \<Longrightarrow> key_at (upd h b nb) x = (if x = b then key nb else key_at h x)"
  by (simp add: key_at_def heap_simps)

lemma key_at_del: "x \<noteq> b \<Longrightarrow> key_at (del h b) x = key_at h x"
  by (simp add: key_at_def heap_simps)

lemma key_at_load [simp]: "load h a = Some n \<Longrightarrow> key_at h a = key n"
  by (simp add: key_at_def)

end

subsection \<open>Sorted lists between two sentinels\<close>

locale sentinel_list = linked link set_link key
  for link :: "'n \<Rightarrow> addr" and set_link :: "addr \<Rightarrow> 'n \<Rightarrow> 'n" and key :: "'n \<Rightarrow> int" +
  fixes lo hi :: int
  assumes lo_hi: "lo < hi"
begin

definition sorted_list :: "'n heap \<Rightarrow> addr \<Rightarrow> addr list \<Rightarrow> bool" where
  "sorted_list h p as \<longleftrightarrow> path h p as NULL \<and> sorted_wrt (<) (keys_at h as) \<and> as \<noteq> [] \<and>
     key_at h (hd as) = lo \<and> key_at h (last as) = hi"

definition elems :: "'n heap \<Rightarrow> addr list \<Rightarrow> int set" where
  "elems h as = set (keys_at h as) - {lo, hi}"

lemma sorted_list_head:
  assumes "sorted_list h p as"
  obtains n c bs where "as = p # c # bs" "load h p = Some n" "link n = c" "path h c (c # bs) NULL"
proof -
  from assms obtain a bs where as: "as = a # bs" by (cases as) (auto simp: sorted_list_def)
  with assms lo_hi obtain c cs where "bs = c # cs" by (cases bs) (auto simp: sorted_list_def)
  with as assms that show ?thesis by (auto simp: sorted_list_def split: option.splits)
qed

lemma sorted_list_det: "sorted_list h p as \<Longrightarrow> sorted_list h p bs \<Longrightarrow> as = bs"
  using path_det by (auto simp: sorted_list_def)

lemma sorted_list_frame:
  assumes "\<And>a. a \<in> set as \<Longrightarrow> load h' a = load h a"
  shows "sorted_list h' p as = sorted_list h p as" "elems h' as = elems h as"
proof -
  have keys: "keys_at h' as = keys_at h as" by (rule keys_at_frame) (rule assms)
  have "path h' p as NULL = path h p as NULL" by (rule path_frame) (rule assms)
  moreover have "key_at h' (hd as) = key_at h (hd as)" "key_at h' (last as) = key_at h (last as)" if "as \<noteq> []"
    using that assms by (simp_all add: key_at_def)
  ultimately show "sorted_list h' p as = sorted_list h p as" "elems h' as = elems h as"
    unfolding sorted_list_def elems_def keys by (cases "as = []"; simp)+
qed

text \<open>Where the search for \<open>k\<close> ends: behind the last smaller key.\<close>

lemma sorted_list_position:
  assumes "sorted_list h p as" "lo < k" "k \<le> hi"
  obtains xs a b ys where "as = xs @ a # b # ys" "\<forall>x \<in> set (xs @ [a]). key_at h x < k" "k \<le> key_at h b"
proof -
  let ?P = "\<lambda>x. key_at h x < k"
  have ne: "as \<noteq> []" and hd: "?P (hd as)" and last: "\<not> ?P (last as)" using assms by (auto simp: sorted_list_def)
  have "takeWhile ?P as \<noteq> []" using ne hd by (cases as) auto
  then obtain xs a where t: "takeWhile ?P as = xs @ [a]" by (metis rev_exhaust)
  have "dropWhile ?P as \<noteq> []" using ne last by (auto simp: dropWhile_eq_Nil_conv)
  then obtain b ys where d: "dropWhile ?P as = b # ys" by (cases "dropWhile ?P as") auto
  have "as = xs @ a # b # ys" using takeWhile_dropWhile_id [of ?P as] t d by simp
  moreover have "\<forall>x \<in> set (xs @ [a]). ?P x" using set_takeWhileD [of _ ?P as] t by metis
  moreover have "\<not> ?P b" using hd_dropWhile [of ?P as] d by simp
  ultimately show ?thesis using that by fastforce
qed

lemma elems_position:
  assumes "sorted_list h p (xs @ a # b # ys)" "\<forall>x \<in> set (xs @ [a]). key_at h x < k" "k \<le> key_at h b"
    "lo < k" "k < hi"
  shows "k \<in> elems h (xs @ a # b # ys) \<longleftrightarrow> key_at h b = k"
  using assms by (fastforce simp: sorted_list_def elems_def sorted_wrt_append)

text \<open>The same, for a loop that starts at the successor of the first node.\<close>

lemma sorted_list_search:
  assumes sl: "sorted_list h p as" and k: "lo < k" "k < hi"
  obtains n zs xs a b ys na nb where "as = xs @ a # b # ys" "load h p = Some n"
    "path h (link n) (zs @ b # ys) NULL" "\<forall>x \<in> set zs. key_at h x < k" "last (p # zs) = a"
    "load h a = Some na" "load h b = Some nb" "link na = b"
    "key na < k" "k \<le> key nb" "k \<in> elems h as \<longleftrightarrow> key nb = k"
proof -
  obtain xs a b ys where as: "as = xs @ a # b # ys" and lt: "\<forall>x \<in> set (xs @ [a]). key_at h x < k"
    and ge: "k \<le> key_at h b"
    using sorted_list_position [OF sl k(1) less_imp_le [OF k(2)]] by metis
  have path: "path h p (xs @ a # b # ys) NULL" using sl as by (simp add: sorted_list_def)
  then obtain na nb where n: "load h a = Some na" "load h b = Some nb" "link na = b"
    by (auto simp: path_append split: option.splits)
  obtain m c cs where p: "load h p = Some m" "as = p # c # cs" "link m = c" "path h c (c # cs) NULL"
    using sorted_list_head [OF sl] by metis
  let ?zs = "tl (xs @ [a])"
  have tl: "c # cs = ?zs @ b # ys" and la: "last (p # ?zs) = a"
    using p(2) as by (cases xs; simp)+
  have lt': "\<forall>x \<in> set ?zs. key_at h x < k" using lt by (cases xs) auto
  have kb: "key_at h b = key nb" "key_at h a = key na" using n by simp_all
  show ?thesis
  proof (rule that [OF as p(1) _ lt' la n])
    show "path h (link m) (?zs @ b # ys) NULL" using p(3,4) tl by simp
    show "key na < k" "k \<le> key nb" using lt ge kb by auto
    show "k \<in> elems h as \<longleftrightarrow> key nb = k"
      using elems_position [OF sl [unfolded as] lt ge k] kb as by simp
  qed
qed

lemma sorted_list_insert:
  assumes sl: "sorted_list h p (xs @ a # b # ys)" and n: "load h a = Some n"
    and lt: "key_at h a < k" "k < key_at h b"
    and c: "c \<notin> set (xs @ a # b # ys)" "c \<noteq> NULL" "link nc = b" "key nc = k"
  shows "sorted_list (upd (upd h c nc) a (set_link c n)) p (xs @ a # c # b # ys)"
    and "lo < k \<Longrightarrow> k < hi \<Longrightarrow> elems (upd (upd h c nc) a (set_link c n)) (xs @ a # c # b # ys) =
           insert k (elems h (xs @ a # b # ys))"
proof -
  let ?h = "upd (upd h c nc) a (set_link c n)"
  have p: "path h p (xs @ a # b # ys) NULL" using sl by (simp add: sorted_list_def)
  have ln: "link n = b" using p n by (auto simp: path_append split: option.splits)
  have ks: "keys_at ?h zs = keys_at h zs" if "c \<notin> set zs" for zs
    using that c(1) n by (auto simp: key_at_def heap_simps)
  have kc: "key_at ?h c = k" using c by (auto simp: key_at_def heap_simps)
  have ks': "keys_at ?h (xs @ a # c # b # ys) = keys_at h (xs @ [a]) @ k # keys_at h (b # ys)"
    using ks [of "xs @ [a]"] ks [of "b # ys"] kc c(1) by simp
  have "path ?h p (xs @ a # c # b # ys) NULL"
    by (rule path_insert [OF p n]) (use c ln in auto)
  moreover have "sorted_wrt (<) (keys_at ?h (xs @ a # c # b # ys))"
    unfolding ks' using sl lt by (fastforce simp: sorted_list_def sorted_wrt_append)
  moreover have "key_at ?h (hd (xs @ a # c # b # ys)) = lo"
  proof -
    have "hd (xs @ a # c # b # ys) = hd (xs @ a # b # ys)" "hd (xs @ a # b # ys) \<noteq> c"
      using c(1) by (cases xs; auto)+
    then show ?thesis using sl ks [of "[hd (xs @ a # b # ys)]"] by (simp add: sorted_list_def)
  qed
  moreover have "key_at ?h (last (xs @ a # c # b # ys)) = hi"
  proof -
    have "last (b # ys) \<noteq> c" using c(1) last_in_set [of "b # ys"] by (auto split: if_splits)
    then show ?thesis using sl ks [of "[last (b # ys)]"] by (simp add: sorted_list_def)
  qed
  ultimately show "sorted_list ?h p (xs @ a # c # b # ys)" by (simp add: sorted_list_def)
  show "elems ?h (xs @ a # c # b # ys) = insert k (elems h (xs @ a # b # ys))" if "lo < k" "k < hi"
    unfolding elems_def ks' using that by auto
qed

lemma sorted_list_remove:
  assumes sl: "sorted_list h p (xs @ a # b # ys)" and n: "load h a = Some n" "load h b = Some nb"
    and k: "key nb = k" "lo < k" "k < hi"
  shows "sorted_list (upd h a (set_link (link nb) n)) p (xs @ a # ys)"
    and "elems (upd h a (set_link (link nb) n)) (xs @ a # ys) = elems h (xs @ a # b # ys) - {k}"
    and "sorted_list (del (upd h a (set_link (link nb) n)) b) p (xs @ a # ys)"
    and "elems (del (upd h a (set_link (link nb) n)) b) (xs @ a # ys) = elems h (xs @ a # b # ys) - {k}"
proof -
  let ?h = "upd h a (set_link (link nb) n)"
  have p: "path h p (xs @ a # b # ys) NULL" using sl by (simp add: sorted_list_def)
  have ys: "ys \<noteq> []" using sl k n by (auto simp: sorted_list_def)
  have ks: "key_at ?h = key_at h" using n by (auto simp: key_at_def heap_simps)
  show s: "sorted_list ?h p (xs @ a # ys)"
    using sl path_unlink(1) [OF p n] ys unfolding sorted_list_def ks
    by (cases xs) (auto simp: sorted_wrt_append)
  show e: "elems ?h (xs @ a # ys) = elems h (xs @ a # b # ys) - {k}"
    using sl n k unfolding elems_def sorted_list_def ks by (auto simp: sorted_wrt_append)
  have "b \<notin> set (xs @ a # ys)" using path_distinct [OF p] by auto
  then have f: "\<And>x. x \<in> set (xs @ a # ys) \<Longrightarrow> load (del ?h b) x = load ?h x" by (auto simp: heap_simps)
  show "sorted_list (del ?h b) p (xs @ a # ys)"
    "elems (del ?h b) (xs @ a # ys) = elems h (xs @ a # b # ys) - {k}"
    using sorted_list_frame [of "xs @ a # ys" "del ?h b" ?h, OF f] s e by simp_all
qed

end

end
