(* ===== verification/List_Ffwd.thy ===== *)
theory List_Ffwd
  imports Ffwd_Delegation Linked_Heap
begin

text \<open>
  The delegated sorted list \<open>micro-benchmarks/versioning/list_ffwd.c\<close>: a singly linked list
  between two sentinel nodes with the keys \<open>INT_MIN\<close> and \<open>INT_MAX\<close>, and the functions
  \<open>ffwd_list_ins\<close>, \<open>ffwd_list_del\<close> and \<open>ffwd_list_find\<close> that clients delegate to server 0.

  The state is the memory of the server: a heap of nodes, a heap of list structs, and the global
  \<open>list\<close>. A function returns \<open>None\<close> when it reads an indeterminate value, accesses memory that
  is not allocated, or stops in \<open>assert\<close>. The variable \<open>val\<close> of the search loops is
  indeterminate (\<open>None\<close>) until the loop assigns it.
\<close>

record node =
  nvalue :: int
  nxt :: addr

record spinlock_list =
  head :: addr

record list_mem =
  nodes :: "node heap"
  lists :: "spinlock_list heap"
  list_ptr :: addr

subsection \<open>Initialisation\<close>

text \<open>
  The loop of \<open>list_global_init\<close>. The result is \<open>Inl h\<close> for an early \<open>return NULL\<close> and
  \<open>Inr (node, h)\<close> at the end of the loop; the step \<open>value_range / init_size\<close> and the sum
  must be values of type \<open>int\<close>.
\<close>

partial_function (option) init_loop ::
  "int \<Rightarrow> int \<Rightarrow> node heap \<Rightarrow> addr \<Rightarrow> int \<Rightarrow> (node heap + addr \<times> node heap) option" where
  "init_loop init_size value_range h node i =
     (if i < value_range then
        (let (a, h1) = malloc h in
         do { h2 \<leftarrow> modify h1 node (nxt_update (\<lambda>_. a));
              if a = NULL then Some (Inl h2)
              else do { h3 \<leftarrow> modify h2 a (nvalue_update (\<lambda>_. i));
                        if init_size = 0 \<or> \<not> c_int (i + c_div value_range init_size) then None
                        else init_loop init_size value_range h3 a (i + c_div value_range init_size) } })
      else Some (Inr (node, h)))"

definition list_global_init :: "int \<Rightarrow> int \<Rightarrow> list_mem \<Rightarrow> (addr \<times> list_mem) option" where
  "list_global_init init_size value_range s =
     (let (l, ls1) = malloc (lists s); s1 = s\<lparr> lists := ls1, list_ptr := l \<rparr> in
      if l = NULL then Some (NULL, s1)
      else
        let (node, h1) = malloc (nodes s1) in
        do { ls2 \<leftarrow> modify (lists s1) l (head_update (\<lambda>_. node));
             let s2 = s1\<lparr> lists := ls2, nodes := h1 \<rparr>;
             if node = NULL then Some (NULL, s2)
             else do {
               h2 \<leftarrow> modify h1 node (nvalue_update (\<lambda>_. INT_MIN));
               r \<leftarrow> init_loop init_size value_range h2 node 0;
               (case r of
                  Inl h3 \<Rightarrow> Some (NULL, s2\<lparr> nodes := h3 \<rparr>)
                | Inr (node', h3) \<Rightarrow>
                    (let (a, h4) = malloc h3 in
                     do { h5 \<leftarrow> modify h4 node' (nxt_update (\<lambda>_. a));
                          if a = NULL then Some (NULL, s2\<lparr> nodes := h5 \<rparr>)
                          else do { h6 \<leftarrow> modify h5 a (nvalue_update (\<lambda>_. INT_MAX));
                                    h7 \<leftarrow> modify h6 a (nxt_update (\<lambda>_. NULL));
                                    Some (l, s2\<lparr> nodes := h7 \<rparr>) } })) } })"

subsection \<open>Operations\<close>

text \<open>The loop \<open>for (prev = \<dots>, cur = prev->next; cur != NULL; prev = cur, cur = cur->next)\<close>.\<close>

partial_function (option) search ::
  "node heap \<Rightarrow> int \<Rightarrow> addr \<Rightarrow> addr \<Rightarrow> int option \<Rightarrow> (addr \<times> addr \<times> int option) option" where
  "search h key prev cur val =
     (if cur = NULL then Some (prev, cur, val)
      else do { n \<leftarrow> load h cur;
                if key \<le> nvalue n then Some (prev, cur, Some (nvalue n))
                else search h key cur (nxt n) (Some (nvalue n)) })"

definition ffwd_list_ins :: "int \<Rightarrow> list_mem \<Rightarrow> (u64 \<times> list_mem) option" where
  "ffwd_list_ins key s = do {
     l \<leftarrow> load (lists s) (list_ptr s);
     p \<leftarrow> load (nodes s) (head l);
     (prev, cur, val) \<leftarrow> search (nodes s) key (head l) (nxt p) None;
     v \<leftarrow> val;
     if v \<noteq> key then
       let (new_node, h1) = malloc (nodes s) in
       if new_node = NULL then None
       else do {
         h2 \<leftarrow> modify h1 new_node (nvalue_update (\<lambda>_. key));
         h3 \<leftarrow> modify h2 new_node (nxt_update (\<lambda>_. cur));
         h4 \<leftarrow> modify h3 prev (nxt_update (\<lambda>_. new_node));
         Some (1, s\<lparr> nodes := h4 \<rparr>) }
     else Some (0, s) }"

definition ffwd_list_del :: "int \<Rightarrow> list_mem \<Rightarrow> (u64 \<times> list_mem) option" where
  "ffwd_list_del key s = do {
     l \<leftarrow> load (lists s) (list_ptr s);
     p \<leftarrow> load (nodes s) (head l);
     (prev, cur, val) \<leftarrow> search (nodes s) key (head l) (nxt p) None;
     v \<leftarrow> val;
     if v = key then do {
       c \<leftarrow> load (nodes s) cur;
       h1 \<leftarrow> modify (nodes s) prev (nxt_update (\<lambda>_. nxt c));
       h2 \<leftarrow> free h1 cur;
       Some (1, s\<lparr> nodes := h2 \<rparr>) }
     else Some (0, s) }"

partial_function (option) find_loop :: "node heap \<Rightarrow> int \<Rightarrow> addr \<Rightarrow> int option \<Rightarrow> int option option" where
  "find_loop h key cur val =
     (if cur = NULL then Some val
      else do { n \<leftarrow> load h cur;
                if key \<le> nvalue n then Some (Some (nvalue n))
                else find_loop h key (nxt n) (Some (nvalue n)) })"

definition ffwd_list_find :: "int \<Rightarrow> list_mem \<Rightarrow> (u64 \<times> list_mem) option" where
  "ffwd_list_find key s = do {
     l \<leftarrow> load (lists s) (list_ptr s);
     p \<leftarrow> load (nodes s) (head l);
     val \<leftarrow> find_loop (nodes s) key (nxt p) None;
     v \<leftarrow> val;
     Some (if v = key then 1 else 0, s) }"

declare init_loop.simps [code] search.simps [code] find_loop.simps [code]

text \<open>
  The calls that \<open>list_ins\<close>, \<open>list_del\<close> and \<open>list_find\<close> delegate: the server, the function and
  the arguments of \<open>FFWD_EXEC\<close>; the server calls the function with the low 32 bits of the word.
\<close>

datatype list_fn = Ins | Del | Find

definition list_ins :: "int \<Rightarrow> nat \<times> list_fn \<times> u64 list" where
  "list_ins key = (0, Ins, [of_int key])"

definition list_del :: "int \<Rightarrow> nat \<times> list_fn \<times> u64 list" where
  "list_del key = (0, Del, [of_int key])"

definition list_find :: "int \<Rightarrow> nat \<times> list_fn \<times> u64 list" where
  "list_find key = (0, Find, [of_int key])"

fun list_call :: "list_fn \<Rightarrow> u64 list \<Rightarrow> list_mem \<Rightarrow> (u64 \<times> list_mem) option" where
  "list_call Ins args s = ffwd_list_ins (int_arg (hd args)) s"
| "list_call Del args s = ffwd_list_del (int_arg (hd args)) s"
| "list_call Find args s = ffwd_list_find (int_arg (hd args)) s"

subsection \<open>The list in the heap\<close>

interpretation nl: sentinel_list nxt "\<lambda>q. nxt_update (\<lambda>_. q)" nvalue INT_MIN INT_MAX
  by unfold_locales (simp_all add: INT_MIN_def INT_MAX_def)

text \<open>
  The invariant: \<open>list\<close> is allocated, its nodes are a sorted list, and nothing else is allocated
  (no node is lost).
\<close>

definition list_at :: "list_mem \<Rightarrow> addr list \<Rightarrow> bool" where
  "list_at s as \<longleftrightarrow> heap_ok (nodes s) \<and> dom (cells (nodes s)) = set as \<and>
     (\<exists>l. load (lists s) (list_ptr s) = Some l \<and> nl.sorted_list (nodes s) (head l) as)"

definition list_ok :: "list_mem \<Rightarrow> bool" where
  "list_ok s \<longleftrightarrow> (\<exists>as. list_at s as)"

definition list_abs :: "list_mem \<Rightarrow> int set" where
  "list_abs s = {k. \<exists>as. list_at s as \<and> k \<in> nl.elems (nodes s) as}"

lemma list_at_det: "list_at s as \<Longrightarrow> list_at s bs \<Longrightarrow> as = bs"
  using nl.sorted_list_det by (auto simp: list_at_def)

lemma list_abs_eq: "list_at s as \<Longrightarrow> list_abs s = nl.elems (nodes s) as"
  unfolding list_abs_def using list_at_det by blast

lemma search_path:
  assumes "nl.path h cur (xs @ b # ys) q" "\<forall>x \<in> set xs. nl.key_at h x < k" "k \<le> nl.key_at h b"
  shows "search h k prev cur val = Some (last (prev # xs), b, Some (nl.key_at h b))"
  using assms
  by (induction xs arbitrary: prev cur val; subst search.simps)
    (auto simp: nl.key_at_def split: option.splits)

lemma find_loop_path:
  assumes "nl.path h cur (xs @ b # ys) q" "\<forall>x \<in> set xs. nl.key_at h x < k" "k \<le> nl.key_at h b"
  shows "find_loop h k cur val = Some (Some (nl.key_at h b))"
  using assms
  by (induction xs arbitrary: cur val; subst find_loop.simps)
    (auto simp: nl.key_at_def split: option.splits)

text \<open>What the search loops find in a sorted list.\<close>

lemma sorted_search:
  assumes sl: "nl.sorted_list h p as" and k: "INT_MIN < k" "k < INT_MAX"
  obtains n xs a b ys na nb where "as = xs @ a # b # ys" "load h p = Some n"
    "\<And>val. search h k p (nxt n) val = Some (a, b, Some (nvalue nb))"
    "\<And>val. find_loop h k (nxt n) val = Some (Some (nvalue nb))"
    "load h a = Some na" "load h b = Some nb" "nxt na = b"
    "nvalue na < k" "k \<le> nvalue nb" "k \<in> nl.elems h as \<longleftrightarrow> nvalue nb = k"
  by (rule nl.sorted_list_search [OF sl k], rule that)
    (use search_path find_loop_path in \<open>auto simp: nl.key_at_def\<close>)

lemma list_search:
  assumes at: "list_at s as" and k: "INT_MIN < k" "k < INT_MAX"
  obtains l p xs a b ys na nb where "as = xs @ a # b # ys" "load (lists s) (list_ptr s) = Some l"
    "load (nodes s) (head l) = Some p" "nl.sorted_list (nodes s) (head l) as"
    "search (nodes s) k (head l) (nxt p) None = Some (a, b, Some (nvalue nb))"
    "find_loop (nodes s) k (nxt p) None = Some (Some (nvalue nb))"
    "load (nodes s) a = Some na" "load (nodes s) b = Some nb" "nxt na = b"
    "nvalue na < k" "k \<le> nvalue nb" "k \<in> list_abs s \<longleftrightarrow> nvalue nb = k"
proof -
  obtain l where l: "load (lists s) (list_ptr s) = Some l" and sl: "nl.sorted_list (nodes s) (head l) as"
    using at by (auto simp: list_at_def)
  show ?thesis
    by (rule sorted_search [OF sl k]) (use that [OF _ l _ sl] list_abs_eq [OF at] in simp)
qed

lemma ins_present:
  assumes "list_ok s" "INT_MIN < k" "k < INT_MAX" "k \<in> list_abs s"
  shows "ffwd_list_ins k s = Some (0, s)"
proof -
  from assms(1) obtain as where at: "list_at s as" by (auto simp: list_ok_def)
  show ?thesis by (rule list_search [OF at assms(2,3)]) (use assms(4) in \<open>simp add: ffwd_list_ins_def\<close>)
qed

lemma ins_absent:
  assumes "list_ok s" "INT_MIN < k" "k < INT_MAX" "k \<notin> list_abs s" "malloc_succeeds (nodes s)"
  shows "\<exists>s'. ffwd_list_ins k s = Some (1, s') \<and> list_ok s' \<and> list_abs s' = insert k (list_abs s)"
proof -
  from assms(1) obtain as where at: "list_at s as" by (auto simp: list_ok_def)
  from list_search [OF at assms(2,3)] obtain l p xs a b ys na nb where
    f: "as = xs @ a # b # ys" "load (lists s) (list_ptr s) = Some l" "load (nodes s) (head l) = Some p"
    "nl.sorted_list (nodes s) (head l) as"
    "search (nodes s) k (head l) (nxt p) None = Some (a, b, Some (nvalue nb))"
    "load (nodes s) a = Some na" "load (nodes s) b = Some nb" "nxt na = b"
    "nvalue na < k" "k \<le> nvalue nb" "k \<in> list_abs s \<longleftrightarrow> nvalue nb = k" by metis
  have ok: "heap_ok (nodes s)" using at by (simp add: list_at_def)
  obtain c h1 where m: "malloc (nodes s) = (c, h1)" by (cases "malloc (nodes s)")
  from malloc_succeedsD [OF assms(5) m] malloc_cases [OF ok m]
  have c: "c \<noteq> NULL" "load (nodes s) c = None" "h1 = upd (nodes s) c (junk (nodes s) c)" by auto
  let ?n = "junk (nodes s) c\<lparr> nvalue := k, nxt := b \<rparr>"
  let ?h = "upd (upd (nodes s) c ?n) a (na\<lparr> nxt := c \<rparr>)"
  have ca: "c \<noteq> a" using c f by auto
  have ins: "ffwd_list_ins k s = Some (1, s\<lparr> nodes := ?h \<rparr>)"
    using f c ca assms(4) by (simp add: ffwd_list_ins_def m heap_simps)
  note as = f(4) [unfolded f(1)]
  have cas: "c \<notin> set (xs @ a # b # ys)"
    using c(2) nl.path_loaded [of "nodes s" "head l" as NULL c] f(1,4) by (auto simp: nl.sorted_list_def)
  have kb: "nl.key_at (nodes s) a < k" "k < nl.key_at (nodes s) b" using f assms(4) by auto
  have "list_at (s\<lparr> nodes := ?h \<rparr>) (xs @ a # c # b # ys)"
    using nl.sorted_list_insert(1) [OF as f(6) kb cas c(1), of ?n] ok c(1) f at
    by (auto simp: list_at_def heap_simps)
  moreover from this have "list_abs (s\<lparr> nodes := ?h \<rparr>) = insert k (list_abs s)"
    using nl.sorted_list_insert(2) [OF as f(6) kb cas c(1), of ?n] assms(2,3) f(1) at
    by (simp add: list_abs_eq)
  ultimately show ?thesis using ins by (auto simp: list_ok_def)
qed

lemma del_absent:
  assumes "list_ok s" "INT_MIN < k" "k < INT_MAX" "k \<notin> list_abs s"
  shows "ffwd_list_del k s = Some (0, s)"
proof -
  from assms(1) obtain as where at: "list_at s as" by (auto simp: list_ok_def)
  show ?thesis by (rule list_search [OF at assms(2,3)]) (use assms(4) in \<open>simp add: ffwd_list_del_def\<close>)
qed

lemma del_present:
  assumes "list_ok s" "INT_MIN < k" "k < INT_MAX" "k \<in> list_abs s"
  shows "\<exists>s'. ffwd_list_del k s = Some (1, s') \<and> list_ok s' \<and> list_abs s' = list_abs s - {k}"
proof -
  from assms(1) obtain as where at: "list_at s as" by (auto simp: list_ok_def)
  from list_search [OF at assms(2,3)] obtain l p xs a b ys na nb where
    f: "as = xs @ a # b # ys" "load (lists s) (list_ptr s) = Some l" "load (nodes s) (head l) = Some p"
    "nl.sorted_list (nodes s) (head l) as"
    "search (nodes s) k (head l) (nxt p) None = Some (a, b, Some (nvalue nb))"
    "load (nodes s) a = Some na" "load (nodes s) b = Some nb" "nxt na = b"
    "k \<in> list_abs s \<longleftrightarrow> nvalue nb = k" by metis
  let ?h = "del (upd (nodes s) a (na\<lparr> nxt := nxt nb \<rparr>)) b"
  note as = f(4) [unfolded f(1)]
  have ab: "a \<noteq> b" "a \<noteq> NULL" "distinct as" using nl.path_distinct [of "nodes s" "head l" as] f(1,4,6)
    by (auto simp: nl.sorted_list_def)
  have "load (upd (nodes s) a (na\<lparr> nxt := nxt nb \<rparr>)) b = Some nb" using ab f by (simp add: heap_simps)
  then have del: "ffwd_list_del k s = Some (1, s\<lparr> nodes := ?h \<rparr>)"
    using f assms(4) by (simp add: ffwd_list_del_def heap_simps)
  have kb: "nvalue nb = k" using f assms(4) by simp
  have "list_at (s\<lparr> nodes := ?h \<rparr>) (xs @ a # ys)"
    using nl.sorted_list_remove(3) [OF as f(6,7) kb assms(2,3)] ab f at
    by (auto simp: list_at_def heap_simps)
  moreover from this have "list_abs (s\<lparr> nodes := ?h \<rparr>) = list_abs s - {k}"
    using nl.sorted_list_remove(4) [OF as f(6,7) kb assms(2,3)] f(1) at by (simp add: list_abs_eq)
  ultimately show ?thesis using del by (auto simp: list_ok_def)
qed

lemma find_eq:
  assumes "list_ok s" "INT_MIN < k" "k < INT_MAX"
  shows "ffwd_list_find k s = Some (if k \<in> list_abs s then 1 else 0, s)"
proof -
  from assms(1) obtain as where at: "list_at s as" by (auto simp: list_ok_def)
  show ?thesis by (rule list_search [OF at assms(2,3)]) (simp add: ffwd_list_find_def)
qed

subsection \<open>Initialisation builds a sorted list\<close>

text \<open>A list whose last link is not yet written, as between two rounds of the loop.\<close>

definition open_list :: "node heap \<Rightarrow> addr \<Rightarrow> addr list \<Rightarrow> addr \<Rightarrow> bool" where
  "open_list h p xs a \<longleftrightarrow> heap_ok h \<and> dom (cells h) = set (xs @ [a]) \<and> distinct (xs @ [a]) \<and>
     nl.path h p xs a"

lemma open_list_load: "open_list h p xs a \<Longrightarrow> \<exists>n. load h a = Some n"
  by (auto simp: open_list_def load_cells)

lemma open_list_extend:
  assumes o: "open_list h p xs a" and m: "malloc h = (c, h1)" "c \<noteq> NULL"
  obtains h2 h3 where "modify h1 a (nxt_update (\<lambda>_. c)) = Some h2"
    "modify h2 c (nvalue_update (\<lambda>_. v)) = Some h3" "open_list h3 p (xs @ [a]) c"
    "nl.keys_at h3 (xs @ [a, c]) = nl.keys_at h (xs @ [a]) @ [v]"
proof -
  obtain n where n: "load h a = Some n" using open_list_load [OF o] by blast
  have ok: "heap_ok h" using o by (simp add: open_list_def)
  from malloc_cases [OF ok m(1)] m(2) have c: "load h c = None" "h1 = upd h c (junk h c)" by auto
  have ac: "a \<noteq> c" "a \<noteq> NULL" using n c by auto
  have cx: "c \<notin> set (xs @ [a])" using o c(1) m(2) by (auto simp: open_list_def load_def)
  let ?h2 = "upd (upd h c (junk h c)) a (n\<lparr> nxt := c \<rparr>)"
  let ?h3 = "upd ?h2 c (junk h c\<lparr> nvalue := v \<rparr>)"
  show ?thesis
  proof (rule that [of ?h2 ?h3])
    show "modify h1 a (nxt_update (\<lambda>_. c)) = Some ?h2" using n ac c by (simp add: heap_simps)
    show "modify ?h2 c (nvalue_update (\<lambda>_. v)) = Some ?h3" using ac m(2) by (simp add: heap_simps)
    show "open_list ?h3 p (xs @ [a]) c"
      using o cx ac m(2) by (auto simp: open_list_def nl.path_append heap_simps)
    show "nl.keys_at ?h3 (xs @ [a, c]) = nl.keys_at h (xs @ [a]) @ [v]"
      using cx ac m(2) n by (auto simp: nl.key_at_def heap_simps)
  qed
qed

lemma stepped:
  assumes "0 < (st::int)" "i < r"
  shows "{x. i \<le> x \<and> x < r \<and> st dvd (x - i)} = insert i {x. i + st \<le> x \<and> x < r \<and> st dvd (x - (i + st))}"
proof -
  have d: "st dvd (x - (i + st)) \<longleftrightarrow> st dvd (x - i)" for x
    by (metis diff_diff_eq dvd_minus_iff dvd_diff_right_iff dvd_refl minus_diff_eq)
  have "i + st \<le> x" if "st dvd (x - i)" "i < x" for x
    using zdvd_imp_le [OF that(1)] that(2) by simp
  with assms show ?thesis by (fastforce simp: d)
qed

lemma init_loop_builds:
  assumes "open_list h p xs a" "sorted_wrt (<) (nl.keys_at h (xs @ [a]) @ [i])" "0 < init_size" "0 \<le> i"
    "st = value_range div init_size" "0 < st" "value_range + st \<le> INT_MAX"
  shows "\<exists>r. init_loop init_size value_range h a i = Some r \<and>
    (\<forall>b h'. r = Inr (b, h') \<longrightarrow> (\<exists>ys ks. open_list h' p ys b \<and> nl.keys_at h' (ys @ [b]) = nl.keys_at h (xs @ [a]) @ ks \<and>
       sorted_wrt (<) (nl.keys_at h' (ys @ [b])) \<and> set ks = {x. i \<le> x \<and> x < value_range \<and> st dvd (x - i)}))"
  using assms
proof (induction "nat (value_range - i)" arbitrary: h xs a i rule: less_induct)
  case less
  show ?case
  proof (cases "i < value_range")
    case True
    obtain c h1 where m: "malloc h = (c, h1)" by (cases "malloc h")
    obtain n where n: "load h a = Some n" using open_list_load [OF less(2)] by blast
    have div: "c_div value_range init_size = st" using True less by simp
    have int: "c_int (i + st)" using True less by (simp add: c_int_def INT_MIN_def)
    show ?thesis
    proof (cases "c = NULL")
      case True
      with malloc_cases [OF _ m] less(2) have "h1 = h" by (auto simp: open_list_def)
      with True n \<open>i < value_range\<close> m show ?thesis by (subst init_loop.simps) (simp add: heap_simps)
    next
      case False
      obtain h2 h3 where h3: "modify h1 a (nxt_update (\<lambda>_. c)) = Some h2"
        "modify h2 c (nvalue_update (\<lambda>_. i)) = Some h3" "open_list h3 p (xs @ [a]) c"
        "nl.keys_at h3 (xs @ [a, c]) = nl.keys_at h (xs @ [a]) @ [i]"
        using open_list_extend [OF less(2) m False] by metis
      have e: "nl.keys_at h3 ((xs @ [a]) @ [c]) = nl.keys_at h (xs @ [a]) @ [i]" using h3(4) by simp
      have "sorted_wrt (<) (nl.keys_at h3 ((xs @ [a]) @ [c]) @ [i + st])"
        unfolding e using less(3,7) by (fastforce simp: sorted_wrt_append)
      from less(1) [OF _ h3(3) this less(4) _ less(6-8)] True less(5,7) obtain r where
        r: "init_loop init_size value_range h3 c (i + st) = Some r"
        "\<forall>b h'. r = Inr (b, h') \<longrightarrow> (\<exists>ys ks. open_list h' p ys b \<and>
          nl.keys_at h' (ys @ [b]) = nl.keys_at h3 ((xs @ [a]) @ [c]) @ ks \<and>
          sorted_wrt (<) (nl.keys_at h' (ys @ [b])) \<and> set ks = {x. i + st \<le> x \<and> x < value_range \<and> st dvd (x - (i + st))})"
        by auto
      have "init_loop init_size value_range h a i = Some r"
        using True m False h3 div int less(4) r(1) by (subst init_loop.simps) simp
      moreover have "\<exists>ys ks. open_list h' p ys b \<and> nl.keys_at h' (ys @ [b]) = nl.keys_at h (xs @ [a]) @ ks \<and>
          sorted_wrt (<) (nl.keys_at h' (ys @ [b])) \<and> set ks = {x. i \<le> x \<and> x < value_range \<and> st dvd (x - i)}"
        if "r = Inr (b, h')" for b h'
      proof -
        from r(2) that obtain ys ks where "open_list h' p ys b"
          "nl.keys_at h' (ys @ [b]) = nl.keys_at h3 ((xs @ [a]) @ [c]) @ ks"
          "sorted_wrt (<) (nl.keys_at h' (ys @ [b]))" "set ks = {x. i + st \<le> x \<and> x < value_range \<and> st dvd (x - (i + st))}"
          by blast
        then show ?thesis unfolding e using stepped [OF less(7) True] by (intro exI [of _ ys] exI [of _ "i # ks"]) simp
      qed
      ultimately show ?thesis by blast
    qed
  next
    case False
    have "open_list h p xs a \<and> nl.keys_at h (xs @ [a]) = nl.keys_at h (xs @ [a]) @ [] \<and>
        sorted_wrt (<) (nl.keys_at h (xs @ [a])) \<and> set [] = {x. i \<le> x \<and> x < value_range \<and> st dvd (x - i)}"
      using False less(2,3) by (auto simp: sorted_wrt_append)
    moreover have "init_loop init_size value_range h a i = Some (Inr (a, h))"
      using False by (subst init_loop.simps) simp
    ultimately show ?thesis by blast
  qed
qed

text \<open>Closing the list with the last sentinel.\<close>

lemma open_list_close:
  assumes o: "open_list h p ys b" "nl.keys_at h (ys @ [b]) = INT_MIN # ks"
      "sorted_wrt (<) (INT_MIN # ks)" "\<forall>k \<in> set ks. k < INT_MAX"
    and m: "malloc h = (c, h1)" "c \<noteq> NULL"
  obtains h2 h3 h4 where "modify h1 b (nxt_update (\<lambda>_. c)) = Some h2"
    "modify h2 c (nvalue_update (\<lambda>_. INT_MAX)) = Some h3" "modify h3 c (nxt_update (\<lambda>_. NULL)) = Some h4"
    "heap_ok h4" "dom (cells h4) = set (ys @ [b, c])" "nl.sorted_list h4 p (ys @ [b, c])"
    "nl.elems h4 (ys @ [b, c]) = set ks"
proof -
  obtain h2 h3 where h3: "modify h1 b (nxt_update (\<lambda>_. c)) = Some h2"
    "modify h2 c (nvalue_update (\<lambda>_. INT_MAX)) = Some h3" "open_list h3 p (ys @ [b]) c"
    "nl.keys_at h3 (ys @ [b, c]) = (INT_MIN # ks) @ [INT_MAX]"
    using open_list_extend [OF o(1) m, of INT_MAX] unfolding o(2) by metis
  obtain n where n: "load h3 c = Some n" using open_list_load [OF h3(3)] by blast
  let ?h = "upd h3 c (n\<lparr> nxt := NULL \<rparr>)"
  have key: "nl.key_at ?h = nl.key_at h3" using n by (auto simp: nl.key_at_def heap_simps)
  have path: "nl.path ?h p (ys @ [b, c]) NULL"
    using h3(3) m(2) by (auto simp: open_list_def nl.path_append heap_simps split: if_splits option.splits)
  have last: "nl.key_at h3 (last (ys @ [b, c])) = INT_MAX" and hd: "nl.key_at h3 (hd (ys @ [b, c])) = INT_MIN"
    using h3(4) by (simp, cases ys, auto)
  have "nl.sorted_list ?h p (ys @ [b, c])"
    unfolding nl.sorted_list_def key h3(4) using path last hd o(3,4)
    by (auto simp: sorted_wrt_append INT_MIN_def INT_MAX_def)
  moreover have "nl.elems ?h (ys @ [b, c]) = set ks"
    unfolding nl.elems_def key h3(4) using o(3,4) by auto
  moreover have "heap_ok ?h" "dom (cells ?h) = set (ys @ [b, c])"
    using h3(3) m(2) by (auto simp: open_list_def heap_simps)
  ultimately show ?thesis using that [OF h3(1,2)] n by (simp add: heap_simps)
qed

lemma init_builds:
  assumes "heap_ok (nodes s)" "cells (nodes s) = Map.empty" "heap_ok (lists s)"
    and "0 < init_size" "init_size \<le> value_range" "value_range + value_range div init_size \<le> INT_MAX"
  shows "\<exists>l s'. list_global_init init_size value_range s = Some (l, s') \<and>
    (l \<noteq> NULL \<longrightarrow> list_ok s' \<and>
       list_abs s' = {x. 0 \<le> x \<and> x < value_range \<and> (value_range div init_size) dvd x})"
proof -
  obtain l ls1 where ml: "malloc (lists s) = (l, ls1)" by (cases "malloc (lists s)")
  obtain a h1 where ma: "malloc (nodes s) = (a, h1)" by (cases "malloc (nodes s)")
  let ?st = "value_range div init_size"
  have st: "0 < ?st" using assms by (simp add: pos_imp_zdiv_pos_iff)
  show ?thesis
  proof (cases "l = NULL \<or> a = NULL")
    case True
    show ?thesis
      by (rule malloc_cases [OF assms(3) ml]) (use True ml ma in \<open>auto simp: list_global_init_def heap_simps Let_def\<close>)
  next
    case False
    with malloc_cases [OF assms(3) ml] malloc_cases [OF assms(1) ma]
    have n: "ls1 = upd (lists s) l (junk (lists s) l)" "h1 = upd (nodes s) a (junk (nodes s) a)" by auto
    let ?ls = "upd (lists s) l (junk (lists s) l\<lparr> head := a \<rparr>)"
    let ?h2 = "upd (nodes s) a (junk (nodes s) a\<lparr> nvalue := INT_MIN \<rparr>)"
    let ?s = "\<lambda>h. s\<lparr> lists := ?ls, list_ptr := l, nodes := h \<rparr>"
    have o: "open_list ?h2 a [] a" "nl.keys_at ?h2 ([] @ [a]) = [INT_MIN]"
      using False assms(1,2) by (auto simp: open_list_def nl.key_at_def heap_simps)
    have "sorted_wrt (<) (nl.keys_at ?h2 ([] @ [a]) @ [0])" unfolding o(2) by (simp add: INT_MIN_def)
    from init_loop_builds [OF o(1) this assms(4) order.refl refl st assms(6)] obtain r where
      r: "init_loop init_size value_range ?h2 a 0 = Some r"
      "\<forall>b h'. r = Inr (b, h') \<longrightarrow> (\<exists>ys ks. open_list h' a ys b \<and> nl.keys_at h' (ys @ [b]) = [INT_MIN] @ ks \<and>
         sorted_wrt (<) (nl.keys_at h' (ys @ [b])) \<and> set ks = {x. 0 \<le> x \<and> x < value_range \<and> ?st dvd (x - 0)})"
      unfolding o(2) by blast
    show ?thesis
    proof (cases r)
      case (Inl h3)
      then show ?thesis using False ml ma n r(1) by (simp add: list_global_init_def heap_simps)
    next
      case (Inr bh)
      then obtain b h3 where bh: "r = Inr (b, h3)" by (cases bh) auto
      obtain c h4 where mc: "malloc h3 = (c, h4)" by (cases "malloc h3")
      from r(2) bh obtain ys ks where y: "open_list h3 a ys b" "nl.keys_at h3 (ys @ [b]) = INT_MIN # ks"
        "sorted_wrt (<) (INT_MIN # ks)" "set ks = {x. 0 \<le> x \<and> x < value_range \<and> ?st dvd x}" by auto
      show ?thesis
      proof (cases "c = NULL")
        case True
        moreover have "h4 = h3" using malloc_cases [OF _ mc] y(1) True by (auto simp: open_list_def)
        moreover obtain nb where "load h3 b = Some nb" using open_list_load [OF y(1)] by blast
        ultimately show ?thesis using False ml ma n r(1) bh mc by (simp add: list_global_init_def heap_simps)
      next
        case c: False
        have "\<forall>k \<in> set ks. k < INT_MAX" using y(4) assms(6) st by auto
        from open_list_close [OF y(1-3) this mc c] obtain h5 h6 h7 where
          h: "modify h4 b (nxt_update (\<lambda>_. c)) = Some h5" "modify h5 c (nvalue_update (\<lambda>_. INT_MAX)) = Some h6"
          "modify h6 c (nxt_update (\<lambda>_. NULL)) = Some h7"
          "heap_ok h7" "dom (cells h7) = set (ys @ [b, c])" "nl.sorted_list h7 a (ys @ [b, c])"
          "nl.elems h7 (ys @ [b, c]) = set ks" by metis
        have "list_global_init init_size value_range s = Some (l, ?s h7)"
          using False ml ma n r(1) bh mc c h(1-3) by (simp add: list_global_init_def heap_simps)
        moreover have "list_at (?s h7) (ys @ [b, c])" using h(4-6) False by (simp add: list_at_def heap_simps)
        moreover from this have "list_abs (?s h7) = set ks" using h(7) by (simp add: list_abs_eq)
        ultimately show ?thesis using y(4) by (auto simp: list_ok_def)
      qed
    qed
  qed
qed

text \<open>
  C26: With \<open>0 < init_size \<le> value_range\<close> (and room for the last increment of the loop variable)
  \<open>list_global_init\<close> terminates without undefined behaviour from an empty node heap; if it does
  not return \<open>NULL\<close>, then \<open>list\<close> is a sorted list between its sentinels that contains exactly the
  multiples of \<open>value_range / init_size\<close> below \<open>value_range\<close>, and every allocated node is in it.
\<close>

theorem list_global_init_builds:
  assumes "heap_ok (nodes s)" "cells (nodes s) = Map.empty" "heap_ok (lists s)"
    and "0 < init_size" "init_size \<le> value_range" "value_range + value_range div init_size \<le> INT_MAX"
  shows "\<exists>l s'. list_global_init init_size value_range s = Some (l, s') \<and>
    (l \<noteq> NULL \<longrightarrow> list_ok s' \<and>
       list_abs s' = {x. 0 \<le> x \<and> x < value_range \<and> (value_range div init_size) dvd x})"
  by (rule init_builds [OF assms])

subsection \<open>The delegated list is a set\<close>

fun set_spec :: "list_fn \<Rightarrow> u64 list \<Rightarrow> int set \<Rightarrow> u64 \<times> int set" where
  "set_spec Ins args X = (let k = int_arg (hd args) in (if k \<in> X then 0 else 1, insert k X))"
| "set_spec Del args X = (let k = int_arg (hd args) in (if k \<in> X then 1 else 0, X - {k}))"
| "set_spec Find args X = (let k = int_arg (hd args) in (if k \<in> X then 1 else 0, X))"

definition key_valid :: "list_fn \<Rightarrow> u64 list \<Rightarrow> bool" where
  "key_valid f args \<longleftrightarrow> args \<noteq> [] \<and> INT_MIN < int_arg (hd args) \<and> int_arg (hd args) < INT_MAX"

lemma ins_None: "ffwd_list_ins k s = Some (r, s') \<Longrightarrow> list_ok s \<Longrightarrow> INT_MIN < k \<Longrightarrow> k < INT_MAX \<Longrightarrow>
    k \<notin> list_abs s \<Longrightarrow> malloc_succeeds (nodes s)"
  by (auto simp: ffwd_list_ins_def malloc_succeeds_def malloc_def Let_def list_ok_def
      elim!: list_search split: if_splits)

interpretation list_ffwd: delegated_object list_call list_ok list_abs key_valid set_spec
  "\<lambda>s. malloc_succeeds (nodes s)"
proof
  fix d f a r d'
  assume d: "list_ok d" "key_valid f a" "list_call f a d = Some (r, d')"
  then show "list_ok d' \<and> set_spec f a (list_abs d) = (r, list_abs d')"
  proof (cases f)
    case Ins
    with d show ?thesis
      using ins_present [of d "int_arg (hd a)"] ins_absent [of d "int_arg (hd a)"] ins_None [of "int_arg (hd a)" d r d']
      by (cases "int_arg (hd a) \<in> list_abs d") (auto simp: key_valid_def Let_def)
  next
    case Del
    with d show ?thesis
      using del_present [of d "int_arg (hd a)"] del_absent [of d "int_arg (hd a)"]
      by (cases "int_arg (hd a) \<in> list_abs d") (auto simp: key_valid_def Let_def)
  next
    case Find
    with d show ?thesis using find_eq [of d "int_arg (hd a)"] by (auto simp: key_valid_def Let_def)
  qed
next
  fix d f a
  assume "list_ok d" "key_valid f a" "malloc_succeeds (nodes d)"
  then show "list_call f a d \<noteq> None"
    using ins_present [of d "int_arg (hd a)"] ins_absent [of d "int_arg (hd a)"]
      del_present [of d "int_arg (hd a)"] del_absent [of d "int_arg (hd a)"] find_eq [of d "int_arg (hd a)"]
    by (cases f; cases "int_arg (hd a) \<in> list_abs d") (auto simp: key_valid_def)
next
  fix f args a
  assume "key_valid f args" "take (length args) a = args"
  then show "key_valid f a" using hd_prefix [of args a] by (auto simp: key_valid_def)
qed

text \<open>
  C7: The delegated list behaves as a set of integers: in every run of the protocol whose calls
  carry keys strictly between the sentinels, the results that clients get and the keys in the
  list are those of executing the calls one after the other on a set, and the memory of the
  server stays one sorted list without lost nodes.
\<close>

theorem list_ffwd_linearizes:
  assumes "ffwd_run t64 list_call \<sigma>0 tr \<sigma>" and "initial t64 \<sigma>0" and "list_ok (sdata (servers \<sigma>0 v))"
    and "\<forall>c f args. Invoke c v f args \<in> set tr \<longrightarrow> key_valid f args"
  shows "list_ok (sdata (servers \<sigma> v)) \<and>
    spec_replay set_spec (list_abs (sdata (servers \<sigma>0 v))) (execs v tr) = Some (list_abs (sdata (servers \<sigma> v)))"
  by (rule list_ffwd.delegated [OF assms])

text \<open>
  C25: The three operations on a sorted list are total and correct: with a key strictly between
  the sentinels they return, they keep the list sorted with no node lost and no invalid access,
  insertion adds and deletion removes exactly the key, and the results say whether the set changed
  (insertion, deletion) or contains the key (search). Only the insertion of a new key needs
  memory.
\<close>

theorem list_operations_correct:
  assumes "list_ok s" "INT_MIN < k" "k < INT_MAX"
  shows "(k \<in> list_abs s \<longrightarrow> ffwd_list_ins k s = Some (0, s)) \<and>
    (k \<notin> list_abs s \<and> malloc_succeeds (nodes s) \<longrightarrow>
       (\<exists>s'. ffwd_list_ins k s = Some (1, s') \<and> list_ok s' \<and> list_abs s' = insert k (list_abs s))) \<and>
    (k \<in> list_abs s \<longrightarrow>
       (\<exists>s'. ffwd_list_del k s = Some (1, s') \<and> list_ok s' \<and> list_abs s' = list_abs s - {k})) \<and>
    (k \<notin> list_abs s \<longrightarrow> ffwd_list_del k s = Some (0, s)) \<and>
    ffwd_list_find k s = Some (if k \<in> list_abs s then 1 else 0, s)"
  using ins_present [OF assms] ins_absent [OF assms] del_present [OF assms] del_absent [OF assms]
    find_eq [OF assms] by simp

subsection \<open>A list of four keys\<close>

definition no_node :: node where "no_node = \<lparr> nvalue = 77, nxt = 99 \<rparr>"
definition no_list :: spinlock_list where "no_list = \<lparr> head = 55 \<rparr>"

definition list_mem0 :: list_mem where
  "list_mem0 = \<lparr> nodes = \<lparr> cells = Map.empty, policy = first_fit 20, junk = (\<lambda>_. no_node) \<rparr>,
     lists = \<lparr> cells = Map.empty, policy = first_fit 2, junk = (\<lambda>_. no_list) \<rparr>, list_ptr = NULL \<rparr>"

lemma list_mem0_ok: "heap_ok (nodes list_mem0)" "cells (nodes list_mem0) = Map.empty" "heap_ok (lists list_mem0)"
  by (auto simp: list_mem0_def heap_ok_def first_fit_ok)

lemma list_mem1_init:
  "\<exists>l s'. list_global_init 4 10 list_mem0 = Some (l, s') \<and> l \<noteq> NULL \<and> list_ok s' \<and>
     list_abs s' = {x. 0 \<le> x \<and> x < 10 \<and> 2 dvd x}"
proof -
  have "map_option fst (list_global_init 4 10 list_mem0) = Some 1"
    by code_simp
  with init_builds [OF list_mem0_ok, of 4 10] show ?thesis
    by (auto simp: INT_MAX_def)
qed

theorem list_global_init_builds_witness:
  "\<exists>l s'. list_global_init 3 10 list_mem0 = Some (l, s') \<and>
     (l \<noteq> NULL \<longrightarrow> list_abs s' = {x. 0 \<le> x \<and> x < 10 \<and> 3 dvd x})"
  using list_global_init_builds [OF list_mem0_ok, of 3 10] by (auto simp: INT_MAX_def)

definition list_mem1 :: list_mem where
  "list_mem1 = (case list_global_init 4 10 list_mem0 of Some (l, s) \<Rightarrow> s | None \<Rightarrow> list_mem0)"

lemma list_mem1_ok: "list_ok list_mem1" "list_abs list_mem1 = {x. 0 \<le> x \<and> x < 10 \<and> 2 dvd x}"
proof -
  obtain l s' where s': "list_global_init 4 10 list_mem0 = Some (l, s')" "list_ok s'"
    "list_abs s' = {x. 0 \<le> x \<and> x < 10 \<and> 2 dvd x}" using list_mem1_init by blast
  then show "list_ok list_mem1" "list_abs list_mem1 = {x. 0 \<le> x \<and> x < 10 \<and> 2 dvd x}"
    by (simp_all only: list_mem1_def option.case prod.case)
qed

theorem list_operations_correct_witness:
  "list_ok list_mem1 \<and> (\<exists>s. ffwd_list_ins 5 list_mem1 = Some (1, s) \<and> list_abs s = insert 5 (list_abs list_mem1)) \<and>
   ffwd_list_find 4 list_mem1 = Some (1, list_mem1)"
proof -
  have "malloc_succeeds (nodes list_mem1)" by code_simp
  with list_operations_correct [OF list_mem1_ok(1), of 5] list_operations_correct [OF list_mem1_ok(1), of 4] list_mem1_ok
  show ?thesis by (auto simp: INT_MIN_def INT_MAX_def)
qed

text \<open>A run: client 0 inserts 5, client 1 looks for 6.\<close>

definition list_sys :: "(list_fn, list_mem) sys" where
  "list_sys = \<lparr> servers = (\<lambda>v. \<lparr> chips = (\<lambda>s k. \<lparr> flag = 0, argc = 0, fptr = Find, argv = [0, 0, 0, 0, 0] \<rparr>),
       responses = (\<lambda>i. \<lparr> return_values = replicate 7 0, flags = 0 \<rparr>),
       old_client_flags = (\<lambda>s. 0), socket_client_flags = (\<lambda>s. 0),
       local_return_values = (\<lambda>i. replicate 8 0), spc = Head, sdata = list_mem1 \<rparr>),
     clients = (\<lambda>c. \<lparr> chip = 0, slot = c, cmask = push_bit c 1, lflag = (\<lambda>v. 0), cpc = Idle \<rparr>),
     nservers = 1, nclients = 2, stop_flag = 0 \<rparr>"

lemma list_sys_initial: "initial True list_sys"
  by (auto simp: initial_def list_sys_def NCLIENTS_def inj_on_def)

theorem list_ffwd_linearizes_witness:
  "\<exists>\<sigma>. ffwd_run True list_call list_sys [Invoke 0 0 Ins [5], Exec 0 0 0 Ins [5, 0, 0, 0, 0] 1] \<sigma> \<and>
     list_ok (sdata (servers \<sigma> 0)) \<and> 5 \<in> list_abs (sdata (servers \<sigma> 0))"
proof -
  let ?tr = "[Invoke 0 0 Ins [5], Exec 0 0 0 Ins [5, 0, 0, 0, 0] 1]"
  have "map_option fst (sched_run True list_call (Call_from 0 0 Ins [5] # replicate 6 (Client 0) @ replicate 3 (Server 0))
      ([], list_sys)) = Some ?tr"
    by code_simp
  then obtain \<sigma> where "sched_run True list_call (Call_from 0 0 Ins [5] # replicate 6 (Client 0) @ replicate 3 (Server 0))
      ([], list_sys) = Some (?tr, \<sigma>)" by (auto simp del: sched_run.simps)
  then have run: "ffwd_run True list_call list_sys ?tr \<sigma>" using sched_run_sound ffwd_run.start by blast
  have v: "\<forall>c f args. Invoke c 0 f args \<in> set ?tr \<longrightarrow> key_valid f args"
    by (auto simp: key_valid_def int_arg_def INT_MIN_def INT_MAX_def)
  have "sdata (servers list_sys 0) = list_mem1" by (simp add: list_sys_def)
  with list_ffwd_linearizes [OF run list_sys_initial _ v] list_mem1_ok run show ?thesis
    by (auto simp: int_arg_def Let_def)
qed

end
