(* ===== verification/List_Move.thy ===== *)
theory List_Move
  imports List_Ffwd
begin

text \<open>
  The delegated pair of lists \<open>micro-benchmarks/versioning/list_move_ffwd.c\<close>: two sorted lists
  in one heap, and \<open>list_move_ffwd\<close>, which takes a node out of one list and links it into the
  other. The node type and the search loop are those of \<open>list_ffwd.c\<close>.
\<close>

record move_list =
  head0 :: addr
  head1 :: addr

record move_mem =
  mnodes :: "node heap"
  mlists :: "move_list heap"
  datas :: "addr heap"

text \<open>\<open>list->head[i]\<close>; any other index is outside the array.\<close>

definition heads :: "move_list \<Rightarrow> int \<Rightarrow> addr option" where
  "heads l i = (if i = 0 then Some (head0 l) else if i = 1 then Some (head1 l) else None)"

subsection \<open>Initialisation\<close>

text \<open>The loop: \<open>Inl\<close> for \<open>return NULL\<close>, \<open>Inr (node[0], node[1], h)\<close> at its end.\<close>

partial_function (option) move_init_loop ::
  "int \<Rightarrow> int \<Rightarrow> node heap \<Rightarrow> addr \<Rightarrow> addr \<Rightarrow> int \<Rightarrow> (node heap + addr \<times> addr \<times> node heap) option" where
  "move_init_loop init_size value_range h node0 node1 i =
     (if i < value_range then
        (let (a, h1) = malloc h in
         do { h2 \<leftarrow> modify h1 node0 (nxt_update (\<lambda>_. a));
              let (b, h3) = malloc h2;
              h4 \<leftarrow> modify h3 node1 (nxt_update (\<lambda>_. b));
              if a = NULL \<or> b = NULL then Some (Inl h4)
              else do { h5 \<leftarrow> modify h4 a (nvalue_update (\<lambda>_. i));
                        h6 \<leftarrow> modify h5 b (nvalue_update (\<lambda>_. i + 1));
                        if init_size = 0 \<or> \<not> c_int (i + c_div value_range init_size) then None
                        else move_init_loop init_size value_range h6 a b (i + c_div value_range init_size) } })
      else Some (Inr (node0, node1, h)))"

declare move_init_loop.simps [code]

definition move_global_init :: "int \<Rightarrow> int \<Rightarrow> move_mem \<Rightarrow> (addr \<times> move_mem) option" where
  "move_global_init init_size value_range s =
     (let (l, ls1) = malloc (mlists s) in
      if l = NULL then Some (NULL, s\<lparr> mlists := ls1 \<rparr>)
      else
        let (a, h1) = malloc (mnodes s); (b, h2) = malloc h1 in
        do { ls2 \<leftarrow> modify ls1 l (\<lambda>x. x\<lparr> head0 := a, head1 := b \<rparr>);
             let s1 = s\<lparr> mlists := ls2, mnodes := h2 \<rparr>;
             if a = NULL \<or> b = NULL then Some (NULL, s1)
             else do {
               h3 \<leftarrow> modify h2 a (nvalue_update (\<lambda>_. INT_MIN));
               h4 \<leftarrow> modify h3 b (nvalue_update (\<lambda>_. INT_MIN));
               r \<leftarrow> move_init_loop init_size value_range h4 a b 0;
               (case r of
                  Inl h5 \<Rightarrow> Some (NULL, s1\<lparr> mnodes := h5 \<rparr>)
                | Inr (node0, node1, h5) \<Rightarrow>
                    (let (c, h6) = malloc h5 in
                     do { h7 \<leftarrow> modify h6 node0 (nxt_update (\<lambda>_. c));
                          let (d, h8) = malloc h7;
                          h9 \<leftarrow> modify h8 node1 (nxt_update (\<lambda>_. d));
                          if c = NULL \<or> d = NULL then Some (NULL, s1\<lparr> mnodes := h9 \<rparr>)
                          else do { h10 \<leftarrow> modify h9 node0 (nvalue_update (\<lambda>_. INT_MAX));
                                    h11 \<leftarrow> modify h10 node1 (nvalue_update (\<lambda>_. INT_MAX));
                                    Some (l, s1\<lparr> mnodes := h11 \<rparr>) } })) } })"

subsection \<open>Moving a key\<close>

definition list_move_ffwd :: "int \<Rightarrow> addr \<Rightarrow> int \<Rightarrow> move_mem \<Rightarrow> (u64 \<times> move_mem) option" where
  "list_move_ffwd key data frm s = do {
     lp \<leftarrow> load (datas s) data;
     l \<leftarrow> load (mlists s) lp;
     src \<leftarrow> heads l frm;
     p \<leftarrow> load (mnodes s) src;
     (prev_src, cur, val) \<leftarrow> search (mnodes s) key src (nxt p) None;
     v \<leftarrow> val;
     if v \<noteq> key then Some (0, s)
     else do {
       dst \<leftarrow> heads l (1 - frm);
       q \<leftarrow> load (mnodes s) dst;
       (prev_dst, next_dst, val') \<leftarrow> search (mnodes s) key dst (nxt q) (Some v);
       w \<leftarrow> val';
       if w = key then Some (0, s)
       else do {
         c \<leftarrow> load (mnodes s) cur;
         h1 \<leftarrow> modify (mnodes s) prev_src (nxt_update (\<lambda>_. nxt c));
         h2 \<leftarrow> modify h1 prev_dst (nxt_update (\<lambda>_. cur));
         h3 \<leftarrow> modify h2 cur (nxt_update (\<lambda>_. next_dst));
         Some (1, s\<lparr> mnodes := h3 \<rparr>) } } }"

subsection \<open>Correctness of the move\<close>

text \<open>Two sorted lists that share no node, \<open>as\<close> at \<open>head[0]\<close> and \<open>bs\<close> at \<open>head[1]\<close>.\<close>

definition move_at :: "move_mem \<Rightarrow> addr \<Rightarrow> addr list \<Rightarrow> addr list \<Rightarrow> bool" where
  "move_at s data as bs \<longleftrightarrow>
     (\<exists>lp l. load (datas s) data = Some lp \<and> load (mlists s) lp = Some l \<and>
        nl.sorted_list (mnodes s) (head0 l) as \<and> nl.sorted_list (mnodes s) (head1 l) bs \<and>
        set as \<inter> set bs = {} \<and> dom (cells (mnodes s)) = set as \<union> set bs)"

lemma upd_commute: "p \<noteq> q \<Longrightarrow> upd (upd h p x) q y = upd (upd h q y) p x"
  by (simp add: upd_def fun_upd_twist)

text \<open>The heap after the three assignments, for any two sorted lists without common nodes.\<close>

lemma move_heap:
  assumes src: "nl.sorted_list h p (xs @ a # b # ys)" and dst: "nl.sorted_list h q (us @ c # d # vs)"
    and dis: "set (xs @ a # b # ys) \<inter> set (us @ c # d # vs) = {}"
    and n: "load h a = Some na" "load h b = Some nb" "load h c = Some nc"
    and k: "nvalue nb = k" "INT_MIN < k" "k < INT_MAX" "nl.key_at h c < k" "k < nl.key_at h d"
  defines "h' \<equiv> upd (upd (upd h a (na\<lparr> nxt := nxt nb \<rparr>)) c (nc\<lparr> nxt := b \<rparr>)) b (nb\<lparr> nxt := d \<rparr>)"
  shows "nl.sorted_list h' p (xs @ a # ys) \<and> nl.elems h' (xs @ a # ys) = nl.elems h (xs @ a # b # ys) - {k}"
    and "nl.sorted_list h' q (us @ c # b # d # vs) \<and>
      nl.elems h' (us @ c # b # d # vs) = insert k (nl.elems h (us @ c # d # vs))"
proof -
  let ?h1 = "upd h a (na\<lparr> nxt := nxt nb \<rparr>)"
  have dist: "distinct (xs @ a # b # ys)" using src nl.path_distinct unfolding nl.sorted_list_def by blast
  have nn: "a \<noteq> NULL" "b \<noteq> NULL" "c \<noteq> NULL" using n by auto
  have ne: "a \<noteq> b" "a \<noteq> c" "b \<noteq> c" using dist dis by auto
  have h': "h' = upd (upd ?h1 b (nb\<lparr> nxt := d \<rparr>)) c (nc\<lparr> nxt := b \<rparr>)"
    unfolding h'_def by (rule upd_commute) (use ne in simp)
  have f1: "\<And>x. x \<in> set (us @ c # d # vs) \<Longrightarrow> load ?h1 x = load h x" using dis by (auto simp: heap_simps)
  have f2: "\<And>x. x \<in> set (xs @ a # ys) \<Longrightarrow> load h' x = load ?h1 x"
    using dis dist by (auto simp: h' heap_simps)
  note rem = nl.sorted_list_remove(1,2) [OF src n(1,2) k(1-3)]
  show "nl.sorted_list h' p (xs @ a # ys) \<and> nl.elems h' (xs @ a # ys) = nl.elems h (xs @ a # b # ys) - {k}"
    using nl.sorted_list_frame [of "xs @ a # ys" h' ?h1, OF f2] rem by simp
  have dst1: "nl.sorted_list ?h1 q (us @ c # d # vs)" "nl.elems ?h1 (us @ c # d # vs) = nl.elems h (us @ c # d # vs)"
    using nl.sorted_list_frame [of "us @ c # d # vs" ?h1 h, OF f1] dst by simp_all
  have c1: "load ?h1 c = Some nc" "nl.key_at ?h1 c < k" "k < nl.key_at ?h1 d"
    using n k ne by (auto simp: heap_simps)
  have "b \<notin> set (us @ c # d # vs)" using dis by auto
  from nl.sorted_list_insert [OF dst1(1) c1 this nn(2), of "nb\<lparr> nxt := d \<rparr>"] k dst1(2)
  show "nl.sorted_list h' q (us @ c # b # d # vs) \<and>
      nl.elems h' (us @ c # b # d # vs) = insert k (nl.elems h (us @ c # d # vs))"
    by (simp add: h')
qed

text \<open>The list a call moves from and the list it moves to.\<close>

lemma move_lists:
  assumes "move_at s data as bs" "frm = 0 \<or> frm = 1"
  obtains lp l p q where "load (datas s) data = Some lp" "load (mlists s) lp = Some l"
    "heads l frm = Some p" "heads l (1 - frm) = Some q"
    "nl.sorted_list (mnodes s) p (if frm = 0 then as else bs)"
    "nl.sorted_list (mnodes s) q (if frm = 0 then bs else as)"
  using assms by (auto simp: move_at_def heads_def)

lemma move_done:
  assumes "load (datas s) data = Some lp" "load (mlists s) lp = Some l"
    "heads l frm = Some p" "heads l (1 - frm) = Some q" "load (mnodes s) p = Some np" "load (mnodes s) q = Some nq"
    "search (mnodes s) k p (nxt np) None = Some (a, b, Some k)"
    "search (mnodes s) k q (nxt nq) (Some k) = Some (c, d, Some w)" "w \<noteq> k"
    "load (mnodes s) a = Some na" "load (mnodes s) b = Some nb" "load (mnodes s) c = Some nc"
    "a \<noteq> c" "b \<noteq> c" "a \<noteq> b"
  shows "list_move_ffwd k data frm s = Some (1, s\<lparr> mnodes :=
    upd (upd (upd (mnodes s) a (na\<lparr> nxt := nxt nb \<rparr>)) c (nc\<lparr> nxt := b \<rparr>)) b (nb\<lparr> nxt := d \<rparr>) \<rparr>)"
  using assms by (simp add: list_move_ffwd_def heap_simps)

definition move_ok :: "move_mem \<Rightarrow> addr \<Rightarrow> bool" where
  "move_ok s data \<longleftrightarrow> (\<exists>as bs. move_at s data as bs)"

definition move_abs :: "move_mem \<Rightarrow> addr \<Rightarrow> int \<Rightarrow> int set" where
  "move_abs s data i = {k. \<exists>as bs. move_at s data as bs \<and> k \<in> nl.elems (mnodes s) (if i = 0 then as else bs)}"

lemma move_at_det: "move_at s data as bs \<Longrightarrow> move_at s data as' bs' \<Longrightarrow> as = as' \<and> bs = bs'"
  using nl.sorted_list_det by (auto simp: move_at_def)

lemma move_abs_eq: "move_at s data as bs \<Longrightarrow> move_abs s data i = nl.elems (mnodes s) (if i = 0 then as else bs)"
  unfolding move_abs_def using move_at_det by blast

text \<open>
  The state after a move, with the lists renamed by the direction of the move.
\<close>

lemma move_at_moved:
  assumes at: "move_at s data as bs" and dir: "frm = 0 \<or> frm = 1"
    and h: "nl.sorted_list h p src" "nl.sorted_list h q dst" "set src \<inter> set dst = {}"
      "dom (cells h) = set src \<union> set dst"
    and l: "load (datas s) data = Some lp" "load (mlists s) lp = Some l" "heads l frm = Some p" "heads l (1 - frm) = Some q"
  shows "move_ok (s\<lparr> mnodes := h \<rparr>) data \<and> move_abs (s\<lparr> mnodes := h \<rparr>) data frm = nl.elems h src \<and>
    move_abs (s\<lparr> mnodes := h \<rparr>) data (1 - frm) = nl.elems h dst"
proof -
  have "move_at (s\<lparr> mnodes := h \<rparr>) data (if frm = 0 then src else dst) (if frm = 0 then dst else src)"
    using h l dir by (auto simp: move_at_def heads_def)
  from move_abs_eq [OF this] this dir show ?thesis by (auto simp: move_ok_def)
qed

lemma move_moves:
  assumes at: "move_at s data as bs" and dir: "frm = 0 \<or> frm = 1" and k: "INT_MIN < k" "k < INT_MAX"
    and mem: "k \<in> move_abs s data frm" "k \<notin> move_abs s data (1 - frm)"
  shows "\<exists>s'. list_move_ffwd k data frm s = Some (1, s') \<and> move_ok s' data \<and>
    move_abs s' data frm = move_abs s data frm - {k} \<and>
    move_abs s' data (1 - frm) = insert k (move_abs s data (1 - frm))"
proof -
  let ?src = "if frm = 0 then as else bs" and ?dst = "if frm = 0 then bs else as"
  obtain lp l p q where l: "load (datas s) data = Some lp" "load (mlists s) lp = Some l"
    "heads l frm = Some p" "heads l (1 - frm) = Some q"
    and sl: "nl.sorted_list (mnodes s) p ?src" "nl.sorted_list (mnodes s) q ?dst"
    using move_lists [OF at dir] by metis
  have el: "move_abs s data frm = nl.elems (mnodes s) ?src" "move_abs s data (1 - frm) = nl.elems (mnodes s) ?dst"
    using move_abs_eq [OF at] dir by auto
  obtain np xs a b ys na nb where src: "?src = xs @ a # b # ys" "load (mnodes s) p = Some np"
    "search (mnodes s) k p (nxt np) None = Some (a, b, Some k)" "load (mnodes s) a = Some na"
    "load (mnodes s) b = Some nb" "nvalue nb = k"
    using sorted_search [OF sl(1) k] mem(1) el(1) by metis
  obtain nq us c d vs nc nd where dst: "?dst = us @ c # d # vs" "load (mnodes s) q = Some nq"
    "search (mnodes s) k q (nxt nq) (Some k) = Some (c, d, Some (nvalue nd))" "load (mnodes s) c = Some nc"
    "load (mnodes s) d = Some nd" "nvalue nc < k" "k \<le> nvalue nd" "nvalue nd \<noteq> k"
    using sorted_search [OF sl(2) k] mem(2) el(2) by metis
  have dis: "set (xs @ a # b # ys) \<inter> set (us @ c # d # vs) = {}" and dom: "dom (cells (mnodes s)) = set ?src \<union> set ?dst"
    using at unfolding src(1) [symmetric] dst(1) [symmetric] by (auto simp: move_at_def)
  have dist: "distinct (xs @ a # b # ys)" using sl(1) nl.path_distinct unfolding nl.sorted_list_def src(1) by blast
  have ne: "a \<noteq> c" "b \<noteq> c" "a \<noteq> b" using dis dist by auto
  let ?h = "upd (upd (upd (mnodes s) a (na\<lparr> nxt := nxt nb \<rparr>)) c (nc\<lparr> nxt := b \<rparr>)) b (nb\<lparr> nxt := d \<rparr>)"
  have mv: "list_move_ffwd k data frm s = Some (1, s\<lparr> mnodes := ?h \<rparr>)"
    by (rule move_done [OF l src(2) dst(2) src(3) dst(3,8) src(4,5) dst(4) ne])
  have kd: "nl.key_at (mnodes s) c < k" "k < nl.key_at (mnodes s) d" using dst by auto
  note heap = move_heap [OF sl(1) [unfolded src(1)] sl(2) [unfolded dst(1)] dis src(4,5) dst(4) src(6) k kd]
  have "move_ok (s\<lparr> mnodes := ?h \<rparr>) data \<and> move_abs (s\<lparr> mnodes := ?h \<rparr>) data frm = nl.elems ?h (xs @ a # ys) \<and>
    move_abs (s\<lparr> mnodes := ?h \<rparr>) data (1 - frm) = nl.elems ?h (us @ c # b # d # vs)"
    by (rule move_at_moved [OF at dir conjunct1 [OF heap(1)] conjunct1 [OF heap(2)] _ _ l])
      (use dis dist dom src(1) dst(1) in \<open>auto simp: heap_simps\<close>)
  with mv heap src(1) dst(1) show ?thesis by (simp add: el)
qed

lemma sorted_search_val:
  assumes "nl.sorted_list h p as" "INT_MIN < k" "k < INT_MAX"
  shows "\<exists>n a b v. load h p = Some n \<and> (\<forall>val. search h k p (nxt n) val = Some (a, b, Some v)) \<and>
    (k \<in> nl.elems h as \<longleftrightarrow> v = k)"
  by (rule sorted_search [OF assms]) simp

lemma move_refuses:
  assumes at: "move_at s data as bs" and dir: "frm = 0 \<or> frm = 1" and k: "INT_MIN < k" "k < INT_MAX"
    and mem: "k \<notin> move_abs s data frm \<or> k \<in> move_abs s data (1 - frm)"
  shows "list_move_ffwd k data frm s = Some (0, s)"
proof -
  let ?src = "if frm = 0 then as else bs" and ?dst = "if frm = 0 then bs else as"
  obtain lp l p q where l: "load (datas s) data = Some lp" "load (mlists s) lp = Some l"
    "heads l frm = Some p" "heads l (1 - frm) = Some q"
    and sl: "nl.sorted_list (mnodes s) p ?src" "nl.sorted_list (mnodes s) q ?dst"
    using move_lists [OF at dir] by metis
  have el: "move_abs s data frm = nl.elems (mnodes s) ?src" "move_abs s data (1 - frm) = nl.elems (mnodes s) ?dst"
    using move_abs_eq [OF at] dir by auto
  obtain np a b v where src: "load (mnodes s) p = Some np"
    "search (mnodes s) k p (nxt np) None = Some (a, b, Some v)"
    "k \<in> nl.elems (mnodes s) ?src \<longleftrightarrow> v = k"
    using sorted_search_val [OF sl(1) k] by blast
  obtain nq c d w where dst: "load (mnodes s) q = Some nq"
    "search (mnodes s) k q (nxt nq) (Some k) = Some (c, d, Some w)"
    "k \<in> nl.elems (mnodes s) ?dst \<longleftrightarrow> w = k"
    using sorted_search_val [OF sl(2) k] by blast
  show ?thesis using l src dst mem unfolding el by (auto simp: list_move_ffwd_def)
qed

text \<open>
  C27: On two sorted lists without common nodes, \<open>list_move_ffwd\<close> moves the key: if it is in the
  source list and not in the destination list, the call returns 1, the key is in the destination
  list only, both lists stay sorted, share no node and lose none; otherwise it returns 0 and
  changes nothing.
\<close>

theorem list_move_correct:
  assumes "move_ok s data" and "frm = 0 \<or> frm = 1" and "INT_MIN < k" "k < INT_MAX"
  shows "if k \<in> move_abs s data frm \<and> k \<notin> move_abs s data (1 - frm)
    then \<exists>s'. list_move_ffwd k data frm s = Some (1, s') \<and> move_ok s' data \<and>
      move_abs s' data frm = move_abs s data frm - {k} \<and>
      move_abs s' data (1 - frm) = insert k (move_abs s data (1 - frm))
    else list_move_ffwd k data frm s = Some (0, s)"
proof -
  from assms(1) obtain as bs where at: "move_at s data as bs" by (auto simp: move_ok_def)
  show ?thesis using move_moves [OF at assms(2-4)] move_refuses [OF at assms(2-4)] by auto
qed

subsection \<open>Two lists in memory, and what the initialisation leaves\<close>

definition move_mem0 :: "node \<Rightarrow> move_mem" where
  "move_mem0 g = \<lparr> mnodes = \<lparr> cells = Map.empty, policy = first_fit 20, junk = (\<lambda>_. g) \<rparr>,
     mlists = \<lparr> cells = Map.empty, policy = first_fit 2, junk = (\<lambda>_. \<lparr> head0 = 0, head1 = 0 \<rparr>) \<rparr>,
     datas = \<lparr> cells = [7 \<mapsto> 1], policy = first_fit 2, junk = (\<lambda>_. 0) \<rparr> \<rparr>"

text \<open>The lists \<open>INT_MIN, 5, INT_MAX\<close> and \<open>INT_MIN, INT_MAX\<close>.\<close>

definition move_mem1 :: move_mem where
  "move_mem1 = \<lparr> mnodes = \<lparr> cells = [1 \<mapsto> \<lparr> nvalue = INT_MIN, nxt = 2 \<rparr>, 2 \<mapsto> \<lparr> nvalue = 5, nxt = 3 \<rparr>,
       3 \<mapsto> \<lparr> nvalue = INT_MAX, nxt = 0 \<rparr>, 4 \<mapsto> \<lparr> nvalue = INT_MIN, nxt = 5 \<rparr>, 5 \<mapsto> \<lparr> nvalue = INT_MAX, nxt = 0 \<rparr>],
       policy = first_fit 20, junk = (\<lambda>_. no_node) \<rparr>,
     mlists = \<lparr> cells = [1 \<mapsto> \<lparr> head0 = 1, head1 = 4 \<rparr>], policy = first_fit 2, junk = (\<lambda>_. \<lparr> head0 = 0, head1 = 0 \<rparr>) \<rparr>,
     datas = \<lparr> cells = [7 \<mapsto> 1], policy = first_fit 2, junk = (\<lambda>_. 0) \<rparr> \<rparr>"

lemma move_mem1_at: "move_at move_mem1 7 [1, 2, 3] [4, 5]"
  unfolding move_at_def nl.sorted_list_def
  by (auto simp: move_mem1_def load_def nl.key_at_def INT_MIN_def INT_MAX_def)

theorem list_move_correct_witness:
  "\<exists>s'. list_move_ffwd 5 7 0 move_mem1 = Some (1, s') \<and> move_abs s' 7 0 = {} \<and> move_abs s' 7 1 = {5}"
proof -
  have ok: "move_ok move_mem1 7" using move_mem1_at by (auto simp: move_ok_def)
  have "move_abs move_mem1 7 0 = {5}" "move_abs move_mem1 7 1 = {}"
    unfolding move_abs_eq [OF move_mem1_at] nl.elems_def
    by (auto simp: nl.key_at_def move_mem1_def load_def INT_MIN_def INT_MAX_def)
  with list_move_correct [OF ok, of 0 5] show ?thesis by (auto simp: INT_MIN_def INT_MAX_def)
qed


end
