(* ===== verification/Int_Set.thy ===== *)
theory Int_Set
  imports Ffwd_Delegation Linked_Heap
begin

text \<open>
  The integer sets of synchrobench (\<open>linkedlists/simple-list/linkedlist.c\<close> and \<open>intset.c\<close>):
  sorted linked lists between the sentinels \<open>VAL_MIN\<close> and \<open>VAL_MAX\<close>, any number of them in one
  memory, and the operations that clients delegate to one of four servers.

  A function ends in \<open>Inr\<close> with its result, in \<open>Inl (Exit 1)\<close> where it calls \<open>exit(1)\<close>, or in
  \<open>Inl Undef\<close> for an access to memory that is not allocated or a loop that does not end.
\<close>

record snode =
  sval :: int
  snext :: addr

record intset =
  ihead :: addr

record set_mem =
  snodes :: "snode heap"
  intsets :: "intset heap"

subsection \<open>linkedlist.c\<close>

definition VAL_MIN :: int where "VAL_MIN = INT_MIN"
definition VAL_MAX :: int where "VAL_MAX = INT_MAX"

definition new_node :: "int \<Rightarrow> addr \<Rightarrow> set_mem \<Rightarrow> stop + addr \<times> set_mem" where
  "new_node val next' m =
     (let (node, h1) = malloc (snodes m) in
      if node = NULL then Inl (Exit 1)
      else cbind (need (modify h1 node (sval_update (\<lambda>_. val)))) (\<lambda>h2.
           cbind (need (modify h2 node (snext_update (\<lambda>_. next')))) (\<lambda>h3.
           Inr (node, m\<lparr> snodes := h3 \<rparr>))))"

definition set_new :: "set_mem \<Rightarrow> stop + addr \<times> set_mem" where
  "set_new m =
     (let (s, is1) = malloc (intsets m) in
      if s = NULL then Inl (Exit 1)
      else cbind (new_node VAL_MAX NULL (m\<lparr> intsets := is1 \<rparr>)) (\<lambda>(mx, m1).
           cbind (new_node VAL_MIN mx m1) (\<lambda>(mn, m2).
           cbind (need (modify (intsets m2) s (ihead_update (\<lambda>_. mn)))) (\<lambda>is2.
           Inr (s, m2\<lparr> intsets := is2 \<rparr>)))))"

text \<open>\<open>while (node != NULL) { next = node->next; free(node); node = next; }\<close>\<close>

partial_function (option) delete_loop :: "snode heap \<Rightarrow> addr \<Rightarrow> snode heap option" where
  "delete_loop h node =
     (if node = NULL then Some h
      else do { n \<leftarrow> load h node; h1 \<leftarrow> free h node; delete_loop h1 (snext n) })"

definition set_delete :: "addr \<Rightarrow> set_mem \<Rightarrow> stop + set_mem" where
  "set_delete s m =
     cbind (need (load (intsets m) s)) (\<lambda>i.
     cbind (need (delete_loop (snodes m) (ihead i))) (\<lambda>h.
     cbind (need (free (intsets m) s)) (\<lambda>is.
     Inr (m\<lparr> snodes := h, intsets := is \<rparr>))))"

partial_function (option) size_loop :: "snode heap \<Rightarrow> addr \<Rightarrow> int \<Rightarrow> int option" where
  "size_loop h node sz =
     do { n \<leftarrow> load h node;
          if snext n \<noteq> NULL then
            if c_int (sz + 1) then size_loop h (snext n) (sz + 1) else None
          else Some sz }"

definition set_size :: "addr \<Rightarrow> set_mem \<Rightarrow> stop + int" where
  "set_size s m =
     cbind (need (load (intsets m) s)) (\<lambda>i.
     cbind (need (load (snodes m) (ihead i))) (\<lambda>n.
     need (size_loop (snodes m) (snext n) 0)))"

subsection \<open>intset.c: the functions the servers execute\<close>

text \<open>\<open>while (next->val < val) { prev = next; next = prev->next; }\<close>\<close>

partial_function (option) set_search :: "snode heap \<Rightarrow> int \<Rightarrow> addr \<Rightarrow> addr \<Rightarrow> (addr \<times> addr \<times> snode) option" where
  "set_search h val prev nxt =
     do { n \<leftarrow> load h nxt;
          if sval n < val then set_search h val nxt (snext n) else Some (prev, nxt, n) }"

declare delete_loop.simps [code] size_loop.simps [code] set_search.simps [code]

definition set_contains_intern :: "addr \<Rightarrow> int \<Rightarrow> set_mem \<Rightarrow> stop + int \<times> set_mem" where
  "set_contains_intern s val m =
     cbind (need (load (intsets m) s)) (\<lambda>i.
     cbind (need (load (snodes m) (ihead i))) (\<lambda>p.
     cbind (need (set_search (snodes m) val (ihead i) (snext p))) (\<lambda>(prev, nxt, n).
     Inr (if sval n = val then 1 else 0, m))))"

definition set_seq_add_intern :: "addr \<Rightarrow> int \<Rightarrow> set_mem \<Rightarrow> stop + int \<times> set_mem" where
  "set_seq_add_intern s val m =
     cbind (need (load (intsets m) s)) (\<lambda>i.
     cbind (need (load (snodes m) (ihead i))) (\<lambda>p.
     cbind (need (set_search (snodes m) val (ihead i) (snext p))) (\<lambda>(prev, nxt, n).
     if sval n \<noteq> val then
       cbind (new_node val nxt m) (\<lambda>(c, m1).
       cbind (need (modify (snodes m1) prev (snext_update (\<lambda>_. c)))) (\<lambda>h.
       Inr (1, m1\<lparr> snodes := h \<rparr>)))
     else Inr (0, m))))"

text \<open>The same function again under another name, and the call of it that is not delegated.\<close>

definition set_seq_add_intern_2 :: "addr \<Rightarrow> int \<Rightarrow> set_mem \<Rightarrow> stop + int \<times> set_mem" where
  "set_seq_add_intern_2 s val m = set_seq_add_intern s val m"

definition set_seq_add_2 :: "addr \<Rightarrow> int \<Rightarrow> set_mem \<Rightarrow> stop + int \<times> set_mem" where
  "set_seq_add_2 s val m = set_seq_add_intern_2 s val m"

definition set_remove_intern :: "addr \<Rightarrow> int \<Rightarrow> set_mem \<Rightarrow> stop + int \<times> set_mem" where
  "set_remove_intern s val m =
     cbind (need (load (intsets m) s)) (\<lambda>i.
     cbind (need (load (snodes m) (ihead i))) (\<lambda>p.
     cbind (need (set_search (snodes m) val (ihead i) (snext p))) (\<lambda>(prev, nxt, n).
     if sval n = val then
       cbind (need (modify (snodes m) prev (snext_update (\<lambda>_. snext n)))) (\<lambda>h1.
       cbind (need (free h1 nxt)) (\<lambda>h2.
       Inr (1, m\<lparr> snodes := h2 \<rparr>)))
     else Inr (0, m))))"

subsection \<open>intset.c: the calls of the clients\<close>

datatype set_fn = Contains | Add | Remove

text \<open>
  The \<open>switch(server)\<close> of \<open>set_contains\<close>, \<open>set_seq_add\<close> (called by \<open>set_add\<close>) and \<open>set_remove\<close>: the
  call that is delegated. For another server number nothing is called and the result is an
  uninitialised variable (\<open>None\<close>).
\<close>

definition set_switch :: "set_fn \<Rightarrow> addr \<Rightarrow> int \<Rightarrow> int \<Rightarrow> (nat \<times> set_fn \<times> u64 list) option" where
  "set_switch f s val server =
     (if server \<in> {0, 1, 2, 3} then Some (nat server, f, [of_nat s, of_int val]) else None)"

definition set_contains :: "addr \<Rightarrow> int \<Rightarrow> int \<Rightarrow> (nat \<times> set_fn \<times> u64 list) option" where
  "set_contains s val server = set_switch Contains s val server"

definition set_add :: "addr \<Rightarrow> int \<Rightarrow> int \<Rightarrow> (nat \<times> set_fn \<times> u64 list) option" where
  "set_add s val server = set_switch Add s val server"

definition set_remove :: "addr \<Rightarrow> int \<Rightarrow> int \<Rightarrow> (nat \<times> set_fn \<times> u64 list) option" where
  "set_remove s val server = set_switch Remove s val server"

text \<open>The server's side: \<open>intset_t *\<close> and \<open>intptr_t\<close> arguments, the \<open>int\<close> result as a 64-bit word.\<close>

definition ret_int :: "stop + int \<times> set_mem \<Rightarrow> (u64 \<times> set_mem) option" where
  "ret_int r = (case r of Inl e \<Rightarrow> None | Inr (x, m) \<Rightarrow> Some (of_int x, m))"

fun set_call :: "set_fn \<Rightarrow> u64 list \<Rightarrow> set_mem \<Rightarrow> (u64 \<times> set_mem) option" where
  "set_call Contains args m = ret_int (set_contains_intern (unat (args ! 0)) (sint (args ! 1)) m)"
| "set_call Add args m = ret_int (set_seq_add_intern (unat (args ! 0)) (sint (args ! 1)) m)"
| "set_call Remove args m = ret_int (set_remove_intern (unat (args ! 0)) (sint (args ! 1)) m)"

subsection \<open>Several sets in one memory\<close>

interpretation sn: sentinel_list snext "\<lambda>q. snext_update (\<lambda>_. q)" sval VAL_MIN VAL_MAX
  by unfold_locales (simp_all add: VAL_MIN_def VAL_MAX_def INT_MIN_def INT_MAX_def)

definition set_at :: "set_mem \<Rightarrow> addr \<Rightarrow> addr list \<Rightarrow> bool" where
  "set_at m s as \<longleftrightarrow>
     (case load (intsets m) s of None \<Rightarrow> False | Some i \<Rightarrow> sn.sorted_list (snodes m) (ihead i) as)"

text \<open>The sets \<open>S\<close>, each a sorted list of nodes of its own, and no other node allocated.\<close>

definition sets_at :: "set_mem \<Rightarrow> addr set \<Rightarrow> (addr \<Rightarrow> addr list) \<Rightarrow> bool" where
  "sets_at m S as \<longleftrightarrow> heap_ok (snodes m) \<and> heap_ok (intsets m) \<and> dom (cells (intsets m)) = S \<and>
     (\<forall>s \<in> S. set_at m s (as s)) \<and>
     (\<forall>s \<in> S. \<forall>t \<in> S. s \<noteq> t \<longrightarrow> set (as s) \<inter> set (as t) = {}) \<and>
     dom (cells (snodes m)) = (\<Union>s \<in> S. set (as s))"

definition sets_ok :: "addr set \<Rightarrow> set_mem \<Rightarrow> bool" where
  "sets_ok S m \<longleftrightarrow> (\<exists>as. sets_at m S as)"

definition set_abs :: "set_mem \<Rightarrow> addr \<Rightarrow> int set" where
  "set_abs m s = {k. \<exists>as. set_at m s as \<and> k \<in> sn.elems (snodes m) as}"

lemma set_at_det: "set_at m s as \<Longrightarrow> set_at m s bs \<Longrightarrow> as = bs"
  using sn.sorted_list_det by (auto simp: set_at_def split: option.splits)

lemma set_abs_eq: "set_at m s as \<Longrightarrow> set_abs m s = sn.elems (snodes m) as"
  unfolding set_abs_def using set_at_det by blast

text \<open>What the search finds.\<close>

lemma set_search_path:
  assumes "sn.path h p (xs @ b # ys) q" "\<forall>x \<in> set xs. sn.key_at h x < k" "k \<le> sn.key_at h b" "load h b = Some nb"
  shows "set_search h k prev p = Some (last (prev # xs), b, nb)"
  using assms
  by (induction xs arbitrary: prev p; subst set_search.simps)
    (auto simp: sn.key_at_def split: option.splits)

lemma set_search_finds:
  assumes sl: "sn.sorted_list h p as" and k: "VAL_MIN < k" "k < VAL_MAX"
  obtains n xs a b ys na nb where "as = xs @ a # b # ys" "load h p = Some n"
    "set_search h k p (snext n) = Some (a, b, nb)"
    "load h a = Some na" "load h b = Some nb" "snext na = b"
    "sval na < k" "k \<le> sval nb" "k \<in> sn.elems h as \<longleftrightarrow> sval nb = k"
  by (rule sn.sorted_list_search [OF sl k], rule that)
    (use set_search_path in \<open>auto simp: sn.key_at_def\<close>)

text \<open>Changing one of the sets.\<close>

lemma sets_at_update:
  assumes at: "sets_at m S as" and s: "s \<in> S" "load (intsets m) s = Some i"
    and h: "heap_ok h" "sn.sorted_list h (ihead i) bs" "dom (cells h) = (dom (cells (snodes m)) - set (as s)) \<union> set bs"
    and frame: "\<And>x. x \<in> dom (cells (snodes m)) - set (as s) \<Longrightarrow> x \<notin> set bs \<and> load h x = load (snodes m) x"
  shows "sets_at (m\<lparr> snodes := h \<rparr>) S (as(s := bs))"
    and "set_abs (m\<lparr> snodes := h \<rparr>) s = sn.elems h bs"
    and "t \<in> S \<Longrightarrow> t \<noteq> s \<Longrightarrow> set_abs (m\<lparr> snodes := h \<rparr>) t = set_abs m t"
proof -
  have other: "set_at (m\<lparr> snodes := h \<rparr>) t (as t) \<and> sn.elems h (as t) = sn.elems (snodes m) (as t) \<and>
      set (as t) \<inter> set bs = {} \<and> set (as t) \<subseteq> dom (cells (snodes m)) - set (as s)" if t: "t \<in> S" "t \<noteq> s" for t
  proof -
    have sub: "set (as t) \<subseteq> dom (cells (snodes m)) - set (as s)" using at t s by (auto simp: sets_at_def)
    then have "\<And>x. x \<in> set (as t) \<Longrightarrow> load h x = load (snodes m) x" using frame by blast
    from sn.sorted_list_frame [of "as t" h "snodes m", OF this] show ?thesis
      using at t sub frame by (fastforce simp: sets_at_def set_at_def split: option.splits)
  qed
  have own: "set_at (m\<lparr> snodes := h \<rparr>) s bs" using s h by (simp add: set_at_def)
  show "set_abs (m\<lparr> snodes := h \<rparr>) s = sn.elems h bs" using set_abs_eq [OF own] by simp
  show "set_abs (m\<lparr> snodes := h \<rparr>) t = set_abs m t" if "t \<in> S" "t \<noteq> s"
    using other [OF that] set_abs_eq [of "m\<lparr> snodes := h \<rparr>" t "as t"] set_abs_eq [of m t "as t"] at that
    by (simp add: sets_at_def)
  have "dom (cells h) = (\<Union>t \<in> S. set ((as(s := bs)) t))"
  proof -
    have "dom (cells (snodes m)) - set (as s) = (\<Union>t \<in> S - {s}. set (as t))"
      using at s unfolding sets_at_def by blast
    then show ?thesis using h(3) s by (auto split: if_splits)
  qed
  moreover have "set ((as(s := bs)) t) \<inter> set ((as(s := bs)) u) = {}" if "t \<in> S" "u \<in> S" "t \<noteq> u" for t u
    using that at other [of t] other [of u] by (auto simp: sets_at_def)
  moreover have "set_at (m\<lparr> snodes := h \<rparr>) t ((as(s := bs)) t)" if "t \<in> S" for t
    using own other [of t] that by simp
  ultimately show "sets_at (m\<lparr> snodes := h \<rparr>) S (as(s := bs))"
    using at h(1) by (simp add: sets_at_def)
qed

subsection \<open>The operations\<close>

lemma sets_at_set:
  assumes "sets_at m S as" "s \<in> S"
  obtains i where "load (intsets m) s = Some i" "sn.sorted_list (snodes m) (ihead i) (as s)"
    "set_abs m s = sn.elems (snodes m) (as s)"
proof -
  have at: "set_at m s (as s)" using assms by (simp add: sets_at_def)
  then obtain i where "load (intsets m) s = Some i" "sn.sorted_list (snodes m) (ihead i) (as s)"
    by (auto simp: set_at_def split: option.splits)
  then show ?thesis using that set_abs_eq [OF at] by blast
qed

lemma contains_eq:
  assumes at: "sets_at m S as" and s: "s \<in> S" and k: "VAL_MIN < k" "k < VAL_MAX"
  shows "set_contains_intern s k m = Inr (if k \<in> set_abs m s then 1 else 0, m)"
proof (rule sets_at_set [OF at s])
  fix i assume i: "load (intsets m) s = Some i" "sn.sorted_list (snodes m) (ihead i) (as s)"
    "set_abs m s = sn.elems (snodes m) (as s)"
  show ?thesis by (rule set_search_finds [OF i(2) k]) (simp add: i(1,3) set_contains_intern_def)
qed

lemma add_present:
  assumes at: "sets_at m S as" and s: "s \<in> S" and k: "VAL_MIN < k" "k < VAL_MAX" "k \<in> set_abs m s"
  shows "set_seq_add_intern s k m = Inr (0, m)"
proof (rule sets_at_set [OF at s])
  fix i assume i: "load (intsets m) s = Some i" "sn.sorted_list (snodes m) (ihead i) (as s)"
    "set_abs m s = sn.elems (snodes m) (as s)"
  show ?thesis by (rule set_search_finds [OF i(2) k(1,2)]) (use i k(3) in \<open>simp add: set_seq_add_intern_def\<close>)
qed

lemma remove_absent:
  assumes at: "sets_at m S as" and s: "s \<in> S" and k: "VAL_MIN < k" "k < VAL_MAX" "k \<notin> set_abs m s"
  shows "set_remove_intern s k m = Inr (0, m)"
proof (rule sets_at_set [OF at s])
  fix i assume i: "load (intsets m) s = Some i" "sn.sorted_list (snodes m) (ihead i) (as s)"
    "set_abs m s = sn.elems (snodes m) (as s)"
  show ?thesis by (rule set_search_finds [OF i(2) k(1,2)]) (use i k(3) in \<open>simp add: set_remove_intern_def\<close>)
qed

lemma add_absent:
  assumes at: "sets_at m S as" and s: "s \<in> S" and k: "VAL_MIN < k" "k < VAL_MAX" "k \<notin> set_abs m s"
  shows "if malloc_succeeds (snodes m)
    then \<exists>m'. set_seq_add_intern s k m = Inr (1, m') \<and> sets_ok S m' \<and> set_abs m' s = insert k (set_abs m s) \<and>
      (\<forall>t \<in> S - {s}. set_abs m' t = set_abs m t)
    else set_seq_add_intern s k m = Inl (Exit 1)"
proof -
  obtain i where i: "load (intsets m) s = Some i" "sn.sorted_list (snodes m) (ihead i) (as s)"
    "set_abs m s = sn.elems (snodes m) (as s)" by (rule sets_at_set [OF at s])
  obtain n xs a b ys na nb where f: "as s = xs @ a # b # ys" "load (snodes m) (ihead i) = Some n"
    "set_search (snodes m) k (ihead i) (snext n) = Some (a, b, nb)"
    "load (snodes m) a = Some na" "load (snodes m) b = Some nb" "snext na = b"
    "sval na < k" "k \<le> sval nb" "k \<in> sn.elems (snodes m) (as s) \<longleftrightarrow> sval nb = k"
    by (rule set_search_finds [OF i(2) k(1,2)])
  have ok: "heap_ok (snodes m)" using at by (simp add: sets_at_def)
  obtain c h1 where mc: "malloc (snodes m) = (c, h1)" by (cases "malloc (snodes m)")
  have sub: "set (as s) \<subseteq> dom (cells (snodes m))" using at s by (auto simp: sets_at_def)
  show ?thesis
  proof (cases "malloc_succeeds (snodes m)")
    case True
    from malloc_succeedsD [OF True mc] malloc_cases [OF ok mc]
    have c: "c \<noteq> NULL" "load (snodes m) c = None" "h1 = upd (snodes m) c (junk (snodes m) c)" by auto
    let ?n = "junk (snodes m) c\<lparr> sval := k, snext := b \<rparr>"
    let ?h = "upd (upd (snodes m) c ?n) a (na\<lparr> snext := c \<rparr>)"
    have fresh: "c \<notin> dom (cells (snodes m))" using c(2) ok by (auto simp: load_cells)
    have ca: "c \<noteq> a" using c f by auto
    have kb: "sn.key_at (snodes m) a < k" "k < sn.key_at (snodes m) b" using f k(3) i(3) by auto
    have cas: "c \<notin> set (xs @ a # b # ys)" using fresh sub f(1) by auto
    have run: "set_seq_add_intern s k m = Inr (1, m\<lparr> snodes := ?h \<rparr>)"
      using f c ca k(3) i by (simp add: set_seq_add_intern_def new_node_def mc heap_simps)
    note ins = sn.sorted_list_insert [OF i(2) [unfolded f(1)] f(4) kb cas c(1), of ?n]
    have "a \<in> set (as s)" using f(1) by simp
    then have h: "heap_ok ?h" "dom (cells ?h) = (dom (cells (snodes m)) - set (as s)) \<union> set (xs @ a # c # b # ys)"
      "\<And>x. x \<in> dom (cells (snodes m)) - set (as s) \<Longrightarrow> x \<notin> set (xs @ a # c # b # ys) \<and> load ?h x = load (snodes m) x"
      using ok c(1) f(1,4) sub fresh by (auto simp: heap_simps)
    note upd = sets_at_update [OF at s i(1) h(1) _ h(2,3)]
    show ?thesis using True run upd ins k i(3) f(1) by (auto simp: sets_ok_def)
  next
    case False
    then have "c = NULL" using mc by (auto simp: malloc_succeeds_def malloc_def Let_def split: if_splits)
    with False show ?thesis using f k(3) i by (simp add: set_seq_add_intern_def new_node_def mc)
  qed
qed

lemma remove_present:
  assumes at: "sets_at m S as" and s: "s \<in> S" and k: "VAL_MIN < k" "k < VAL_MAX" "k \<in> set_abs m s"
  shows "\<exists>m'. set_remove_intern s k m = Inr (1, m') \<and> sets_ok S m' \<and> set_abs m' s = set_abs m s - {k} \<and>
      (\<forall>t \<in> S - {s}. set_abs m' t = set_abs m t)"
proof -
  obtain i where i: "load (intsets m) s = Some i" "sn.sorted_list (snodes m) (ihead i) (as s)"
    "set_abs m s = sn.elems (snodes m) (as s)" by (rule sets_at_set [OF at s])
  obtain n xs a b ys na nb where f: "as s = xs @ a # b # ys" "load (snodes m) (ihead i) = Some n"
    "set_search (snodes m) k (ihead i) (snext n) = Some (a, b, nb)"
    "load (snodes m) a = Some na" "load (snodes m) b = Some nb" "snext na = b"
    "sval na < k" "k \<le> sval nb" "k \<in> sn.elems (snodes m) (as s) \<longleftrightarrow> sval nb = k"
    by (rule set_search_finds [OF i(2) k(1,2)])
  have ok: "heap_ok (snodes m)" using at by (simp add: sets_at_def)
  have sub: "set (as s) \<subseteq> dom (cells (snodes m))" using at s by (auto simp: sets_at_def)
  have kb: "sval nb = k" using f(9) i(3) k(3) by simp
  let ?h = "del (upd (snodes m) a (na\<lparr> snext := snext nb \<rparr>)) b"
  have dist: "distinct (xs @ a # b # ys)" using i(2) sn.path_distinct unfolding sn.sorted_list_def f(1) by blast
  then have "load (upd (snodes m) a (na\<lparr> snext := snext nb \<rparr>)) b = Some nb" using f by (auto simp: heap_simps)
  then have run: "set_remove_intern s k m = Inr (1, m\<lparr> snodes := ?h \<rparr>)"
    using f i kb by (simp add: set_remove_intern_def heap_simps)
  note rem = sn.sorted_list_remove(3,4) [OF i(2) [unfolded f(1)] f(4,5) kb k(1,2)]
  have h: "heap_ok ?h" "dom (cells ?h) = (dom (cells (snodes m)) - set (as s)) \<union> set (xs @ a # ys)"
    "\<And>x. x \<in> dom (cells (snodes m)) - set (as s) \<Longrightarrow> x \<notin> set (xs @ a # ys) \<and> load ?h x = load (snodes m) x"
    using ok f(1,4) sub dist by (auto simp: heap_simps)
  note upd = sets_at_update [OF at s i(1) h(1) _ h(2,3)]
  show ?thesis using run upd rem i(3) f(1) by (auto simp: sets_ok_def)
qed

subsection \<open>Creating, measuring and deleting a set\<close>

lemma load_foldl_del [heap_simps]: "load (foldl del h as) x = (if x \<in> set as then None else load h x)"
  by (induction as arbitrary: h) (auto simp: heap_simps)

lemma foldl_del [simp]:
  "heap_ok h \<Longrightarrow> heap_ok (foldl del h as)" "dom (cells (foldl del h as)) = dom (cells h) - set as"
  by (induction as arbitrary: h) (auto simp: heap_simps)

lemma delete_loop_path: "sn.path h p as NULL \<Longrightarrow> delete_loop h p = Some (foldl del h as)"
proof (induction as arbitrary: h p)
  case Nil
  then show ?case by (subst delete_loop.simps) simp
next
  case (Cons a as)
  then obtain n where n: "p = a" "load h a = Some n" "sn.path h (snext n) as NULL" by (auto split: option.splits)
  have "a \<notin> set as" using sn.path_distinct [OF Cons.prems] by simp
  then have "sn.path (del h a) (snext n) as NULL" using n(3) by simp
  from Cons.IH [OF this] n show ?case by (subst delete_loop.simps) (auto simp: free_eq)
qed

lemma delete_correct:
  assumes at: "sets_at m S as" and s: "s \<in> S"
  shows "\<exists>m'. set_delete s m = Inr m' \<and> sets_ok (S - {s}) m' \<and> (\<forall>t \<in> S - {s}. set_abs m' t = set_abs m t)"
proof -
  obtain i where i: "load (intsets m) s = Some i" "sn.sorted_list (snodes m) (ihead i) (as s)"
    by (rule sets_at_set [OF at s])
  let ?m = "m\<lparr> snodes := foldl del (snodes m) (as s), intsets := del (intsets m) s \<rparr>"
  have run: "set_delete s m = Inr ?m"
    using i delete_loop_path [of "snodes m" "ihead i" "as s"]
    by (simp add: set_delete_def sn.sorted_list_def free_eq)
  have keep: "set_at ?m t (as t) \<and> set_abs ?m t = set_abs m t" if t: "t \<in> S" "t \<noteq> s" for t
  proof -
    have "set (as t) \<inter> set (as s) = {}" using at s t by (simp add: sets_at_def)
    then have f: "\<And>x. x \<in> set (as t) \<Longrightarrow> load (snodes ?m) x = load (snodes m) x" by (auto simp: heap_simps)
    have old: "set_at m t (as t)" using at t by (simp add: sets_at_def)
    then have "set_at ?m t (as t)"
      using sn.sorted_list_frame(1) [of "as t", OF f] t by (auto simp: set_at_def heap_simps split: option.splits)
    then show ?thesis using set_abs_eq [OF old] set_abs_eq [of ?m] sn.sorted_list_frame(2) [of "as t", OF f] by simp
  qed
  have nodes: "dom (cells (snodes ?m)) = (\<Union>t \<in> S - {s}. set (as t))"
    using at s by (auto simp: sets_at_def)
  have "sets_at ?m (S - {s}) as"
    using at keep nodes by (simp add: sets_at_def heap_simps del: foldl_del(2))
  then show ?thesis using run keep by (auto simp: sets_ok_def)
qed

lemma size_loop_path:
  assumes "sn.path h p (xs @ [z]) NULL" "0 \<le> n" "n + int (length xs) \<le> INT_MAX"
  shows "size_loop h p n = Some (n + int (length xs))"
  using assms
proof (induction xs arbitrary: p n)
  case Nil
  then show ?case by (subst size_loop.simps) (auto split: option.splits)
next
  case (Cons x xs)
  then obtain m where m: "p = x" "load h x = Some m" "sn.path h (snext m) (xs @ [z]) NULL" by (auto split: option.splits)
  then have "snext m \<noteq> NULL" by (cases xs) (auto split: option.splits)
  moreover have "c_int (n + 1)" using Cons.prems(2,3) by (simp add: c_int_def INT_MIN_def)
  ultimately show ?case using m Cons.IH [OF m(3), of "n + 1"] Cons.prems(2,3) by (subst size_loop.simps) simp
qed

lemma size_from:
  assumes at: "sets_at m S as" and s: "s \<in> S" and b: "0 \<le> sz" "sz + int (card (set_abs m s)) \<le> INT_MAX"
  shows "\<exists>i n. load (intsets m) s = Some i \<and> load (snodes m) (ihead i) = Some n \<and>
    size_loop (snodes m) (snext n) sz = Some (sz + int (card (set_abs m s)))"
proof -
  obtain i where i: "load (intsets m) s = Some i" "sn.sorted_list (snodes m) (ihead i) (as s)"
    "set_abs m s = sn.elems (snodes m) (as s)" by (rule sets_at_set [OF at s])
  obtain n c bs where h: "as s = ihead i # c # bs" "load (snodes m) (ihead i) = Some n" "snext n = c"
    "sn.path (snodes m) c (c # bs) NULL" by (rule sn.sorted_list_head [OF i(2)])
  let ?k = "sn.key_at (snodes m)"
  define xs z where xz: "xs = butlast (c # bs)" "z = last (c # bs)"
  have cb: "c # bs = xs @ [z]" unfolding xz by (rule append_butlast_last_id [symmetric]) simp
  have ks: "sorted_wrt (<) (?k (ihead i) # map ?k xs @ [?k z])" and e: "?k (ihead i) = VAL_MIN" "?k z = VAL_MAX"
    using i(2) unfolding sn.sorted_list_def h(1) cb by auto
  have "set_abs m s = ?k ` set xs" using ks e unfolding i(3) sn.elems_def h(1) cb by (auto simp: sorted_wrt_append)
  moreover have "distinct (map ?k xs)" using ks by (auto simp: sorted_wrt_append strict_sorted_iff)
  ultimately have len: "card (set_abs m s) = length xs" using distinct_card [of "map ?k xs"] by simp
  have "size_loop (snodes m) c sz = Some (sz + int (length xs))"
    using size_loop_path [of "snodes m" c xs z sz] h(4) b len unfolding cb by simp
  then show ?thesis using i h len by simp
qed

lemma size_correct:
  assumes "sets_at m S as" "s \<in> S" "int (card (set_abs m s)) \<le> INT_MAX"
  shows "set_size s m = Inr (int (card (set_abs m s)))"
  using size_from [OF assms(1,2), of 0] assms(3) by (auto simp: set_size_def)

lemma new_node_cases:
  assumes "heap_ok (snodes m)"
  obtains (exit) "new_node v q m = Inl (Exit 1)"
    | (fresh) a where "new_node v q m = Inr (a, m\<lparr> snodes := upd (snodes m) a (junk (snodes m) a\<lparr> sval := v, snext := q \<rparr>) \<rparr>)"
      "a \<noteq> NULL" "a \<notin> dom (cells (snodes m))"
proof -
  obtain a h where a: "malloc (snodes m) = (a, h)" by (cases "malloc (snodes m)")
  show ?thesis
    by (rule malloc_cases [OF assms a])
      (use a exit fresh [of a] assms in \<open>auto simp: new_node_def heap_simps load_cells\<close>)
qed

text \<open>The memory after a set has been added.\<close>

lemma sets_at_new:
  assumes at: "sets_at m S as" and s: "s \<notin> S"
    and h: "heap_ok h" "load h mn = Some a" "sval a = VAL_MIN" "snext a = mx" "load h mx = Some b" "sval b = VAL_MAX"
      "snext b = NULL" "{mn, mx} \<inter> dom (cells (snodes m)) = {}" "dom (cells h) = {mn, mx} \<union> dom (cells (snodes m))"
      "\<And>x. x \<in> dom (cells (snodes m)) \<Longrightarrow> load h x = load (snodes m) x"
    and hs: "heap_ok hs" "load hs s = Some i" "ihead i = mn" "dom (cells hs) = insert s S"
      "\<And>t. t \<in> S \<Longrightarrow> load hs t = load (intsets m) t"
  defines "m' \<equiv> m\<lparr> snodes := h, intsets := hs \<rparr>"
  shows "sets_at m' (insert s S) (as(s := [mn, mx])) \<and> set_abs m' s = {} \<and> (\<forall>t \<in> S. set_abs m' t = set_abs m t)"
proof -
  have new: "set_at m' s [mn, mx]" "sn.elems h [mn, mx] = {}"
    using h hs sn.lo_hi by (auto simp: m'_def set_at_def sn.sorted_list_def sn.elems_def)
  have keep: "set_at m' t (as t) \<and> set_abs m' t = set_abs m t \<and> set (as t) \<subseteq> dom (cells (snodes m))" if t: "t \<in> S" for t
  proof -
    have sub: "set (as t) \<subseteq> dom (cells (snodes m))" using at t by (auto simp: sets_at_def)
    then have fr: "\<And>x. x \<in> set (as t) \<Longrightarrow> load h x = load (snodes m) x" using h(10) by blast
    have old: "set_at m t (as t)" using at t by (simp add: sets_at_def)
    then have "set_at m' t (as t)"
      using sn.sorted_list_frame(1) [of "as t", OF fr] hs(5) [OF t] by (simp add: m'_def set_at_def split: option.splits)
    then show ?thesis using set_abs_eq [OF old] set_abs_eq [of m'] sn.sorted_list_frame(2) [of "as t", OF fr] sub
      by (simp add: m'_def)
  qed
  have disj: "set (as t) \<inter> set (as u) = {}" if "t \<in> S" "u \<in> S" "t \<noteq> u" for t u
    using at that by (simp add: sets_at_def)
  have "dom (cells h) = (\<Union>t \<in> insert s S. set ((as(s := [mn, mx])) t))"
  proof -
    have "(\<Union>t \<in> S. set ((as(s := [mn, mx])) t)) = (\<Union>t \<in> S. set (as t))"
      using s by (intro SUP_cong) auto
    also have "\<dots> = dom (cells (snodes m))" using at by (simp add: sets_at_def)
    finally have "(\<Union>t \<in> S. set ((as(s := [mn, mx])) t)) = dom (cells (snodes m))" .
    then show ?thesis using h(9) by simp
  qed
  moreover have "set ((as(s := [mn, mx])) t) \<inter> set ((as(s := [mn, mx])) u) = {}"
    if "t \<in> insert s S" "u \<in> insert s S" "t \<noteq> u" for t u
    using that disj [of t u] s h(8) keep [of t] keep [of u] by (cases "t = s"; cases "u = s") auto
  ultimately have "sets_at m' (insert s S) (as(s := [mn, mx]))"
    using h(1) hs(1,4) new keep s by (auto simp: sets_at_def m'_def)
  then show ?thesis using keep new set_abs_eq [OF new(1)] by (simp add: m'_def)
qed

lemma new_correct:
  assumes at: "sets_at m S as"
  shows "set_new m = Inl (Exit 1) \<or> (\<exists>s m'. set_new m = Inr (s, m') \<and> s \<notin> S \<and> sets_ok (insert s S) m' \<and>
    set_abs m' s = {} \<and> (\<forall>t \<in> S. set_abs m' t = set_abs m t))" (is "?exit \<or> ?new")
proof (rule disjCI)
  assume run: "\<not> ?new"
  have ok: "heap_ok (snodes m)" "heap_ok (intsets m)" and S: "dom (cells (intsets m)) = S" using at by (simp_all add: sets_at_def)
  obtain s hs where s: "malloc (intsets m) = (s, hs)" by (cases "malloc (intsets m)")
  show ?exit
  proof (cases "s = NULL")
    case False
    with malloc_cases [OF ok(2) s] have f: "load (intsets m) s = None" "hs = upd (intsets m) s (junk (intsets m) s)" by auto
    let ?m0 = "m\<lparr> intsets := hs \<rparr>"
    show ?thesis
    proof (rule new_node_cases [of ?m0 VAL_MAX NULL])
      fix mx
      let ?m1 = "?m0\<lparr> snodes := upd (snodes ?m0) mx (junk (snodes ?m0) mx\<lparr> sval := VAL_MAX, snext := NULL \<rparr>) \<rparr>"
      assume mx: "new_node VAL_MAX NULL ?m0 = Inr (mx, ?m1)" "mx \<noteq> NULL" "mx \<notin> dom (cells (snodes ?m0))"
      show ?thesis
      proof (rule new_node_cases [of ?m1 VAL_MIN mx])
        fix mn
        let ?m2 = "?m1\<lparr> snodes := upd (snodes ?m1) mn (junk (snodes ?m1) mn\<lparr> sval := VAL_MIN, snext := mx \<rparr>) \<rparr>"
        let ?hs = "upd (intsets m) s (junk (intsets m) s\<lparr> ihead := mn \<rparr>)"
        assume mn: "new_node VAL_MIN mx ?m1 = Inr (mn, ?m2)" "mn \<noteq> NULL" "mn \<notin> dom (cells (snodes ?m1))"
        have new: "set_new m = Inr (s, m\<lparr> snodes := snodes ?m2, intsets := ?hs \<rparr>)"
          using s f mx mn False by (simp add: set_new_def heap_simps)
        have sS: "s \<notin> S" using f(1) ok S by (auto simp: load_cells)
        have "sets_at (m\<lparr> snodes := snodes ?m2, intsets := ?hs \<rparr>) (insert s S) (as(s := [mn, mx])) \<and>
          set_abs (m\<lparr> snodes := snodes ?m2, intsets := ?hs \<rparr>) s = {} \<and>
          (\<forall>t \<in> S. set_abs (m\<lparr> snodes := snodes ?m2, intsets := ?hs \<rparr>) t = set_abs m t)"
          by (rule sets_at_new [OF at sS]) (use ok False mx mn S sS in \<open>auto simp: heap_simps\<close>)
        with run new sS show ?thesis by (auto simp: sets_ok_def)
      qed (use ok mx s f False in \<open>auto simp: set_new_def\<close>)
    qed (use ok s f False in \<open>auto simp: set_new_def\<close>)
  qed (use s in \<open>simp add: set_new_def\<close>)
qed

subsection \<open>The delegated sets\<close>

text \<open>The specification: a family of sets of integers.\<close>

fun sets_spec :: "set_fn \<Rightarrow> u64 list \<Rightarrow> (addr \<Rightarrow> int set) \<Rightarrow> u64 \<times> (addr \<Rightarrow> int set)" where
  "sets_spec Contains args X =
     (let s = unat (args ! 0); k = sint (args ! 1) in (if k \<in> X s then 1 else 0, X))"
| "sets_spec Add args X =
     (let s = unat (args ! 0); k = sint (args ! 1) in (if k \<in> X s then 0 else 1, X(s := insert k (X s))))"
| "sets_spec Remove args X =
     (let s = unat (args ! 0); k = sint (args ! 1) in (if k \<in> X s then 1 else 0, X(s := X s - {k})))"

definition set_valid :: "addr set \<Rightarrow> set_fn \<Rightarrow> u64 list \<Rightarrow> bool" where
  "set_valid S f args \<longleftrightarrow> 2 \<le> length args \<and> unat (args ! 0) \<in> S \<and>
     VAL_MIN < sint (args ! 1) \<and> sint (args ! 1) < VAL_MAX"

definition sets_abs :: "addr set \<Rightarrow> set_mem \<Rightarrow> addr \<Rightarrow> int set" where
  "sets_abs S m s = (if s \<in> S then set_abs m s else {})"

lemma set_call_spec:
  assumes ok: "sets_ok S m" and v: "set_valid S f args" and c: "set_call f args m = Some (r, m')"
  shows "sets_ok S m' \<and> sets_spec f args (sets_abs S m) = (r, sets_abs S m')"
proof -
  obtain as where at: "sets_at m S as" using ok by (auto simp: sets_ok_def)
  let ?s = "unat (args ! 0)" and ?k = "sint (args ! 1)"
  have s: "?s \<in> S" and k: "VAL_MIN < ?k" "?k < VAL_MAX" using v by (auto simp: set_valid_def)
  show ?thesis
  proof (cases f)
    case Contains
    with contains_eq [OF at s k] c ok s show ?thesis by (auto simp: ret_int_def sets_abs_def)
  next
    case Add
    with add_present [OF at s k] add_absent [OF at s k] c ok s show ?thesis
      by (cases "?k \<in> set_abs m ?s") (auto simp: ret_int_def sets_abs_def Let_def fun_eq_iff split: if_splits)
  next
    case Remove
    with remove_present [OF at s k] remove_absent [OF at s k] c ok s show ?thesis
      by (cases "?k \<in> set_abs m ?s") (auto simp: ret_int_def sets_abs_def Let_def fun_eq_iff)
  qed
qed

lemma set_call_returns:
  assumes ok: "sets_ok S m" and v: "set_valid S f args" and room: "malloc_succeeds (snodes m)"
  shows "set_call f args m \<noteq> None"
proof -
  obtain as where at: "sets_at m S as" using ok by (auto simp: sets_ok_def)
  let ?s = "unat (args ! 0)" and ?k = "sint (args ! 1)"
  have s: "?s \<in> S" and k: "VAL_MIN < ?k" "?k < VAL_MAX" using v by (auto simp: set_valid_def)
  show ?thesis
    using contains_eq [OF at s k] add_present [OF at s k] add_absent [OF at s k] room
      remove_present [OF at s k] remove_absent [OF at s k]
    by (cases f; cases "?k \<in> set_abs m ?s") (auto simp: ret_int_def)
qed

lemma nth_prefix: "take (length xs) ys = xs \<Longrightarrow> i < length xs \<Longrightarrow> ys ! i = xs ! i"
  by (metis nth_take)

interpretation int_sets: delegated_object set_call "sets_ok S" "sets_abs S" "set_valid S" sets_spec
  "\<lambda>m. malloc_succeeds (snodes m)" for S
proof
  fix f args a
  assume v: "set_valid S f args" "take (length args) a = args"
  then have "length args \<le> length a" by (metis length_take min.cobounded1)
  moreover have "a ! 0 = args ! 0" "a ! 1 = args ! 1" if "2 \<le> length args"
    using that nth_prefix [OF v(2), of 0] nth_prefix [OF v(2), of 1] by (cases "args = []"; simp)+
  ultimately show "set_valid S f a" using v(1) by (auto simp: set_valid_def)
qed (simp_all add: set_call_spec set_call_returns)

text \<open>
  C5: The delegated integer sets are linearizable: in every run of the protocol whose calls name
  one of the sets of the server and carry a value strictly between the sentinels, the results and
  the contents of all sets are those of executing the calls one after the other on a family of
  sets, and the server's memory consists of exactly these sorted lists.
\<close>

theorem int_sets_linearize:
  assumes "ffwd_run t64 set_call \<sigma>0 tr \<sigma>" and "initial t64 \<sigma>0" and "sets_ok S (sdata (servers \<sigma>0 v))"
    and "\<forall>c f args. Invoke c v f args \<in> set tr \<longrightarrow> set_valid S f args"
  shows "sets_ok S (sdata (servers \<sigma> v)) \<and>
    spec_replay sets_spec (sets_abs S (sdata (servers \<sigma>0 v))) (execs v tr) =
      Some (sets_abs S (sdata (servers \<sigma> v)))"
  by (rule int_sets.delegated [OF assms])


subsection \<open>A memory with one set\<close>

definition set_mem0 :: set_mem where
  "set_mem0 = \<lparr> snodes = \<lparr> cells = Map.empty, policy = first_fit 20, junk = (\<lambda>_. \<lparr> sval = 7, snext = 7 \<rparr>) \<rparr>,
     intsets = \<lparr> cells = Map.empty, policy = first_fit 4, junk = (\<lambda>_. \<lparr> ihead = 7 \<rparr>) \<rparr> \<rparr>"

lemma set_mem0_ok: "sets_ok {} set_mem0"
  by (auto simp: sets_ok_def sets_at_def set_mem0_def heap_ok_def first_fit_ok)

definition set_mem1 :: set_mem where
  "set_mem1 = (case set_new set_mem0 of Inr (s, m) \<Rightarrow> m | Inl e \<Rightarrow> set_mem0)"

lemma set_mem1_new: "set_new set_mem0 = Inr (1, set_mem1)"
proof -
  have "(case set_new set_mem0 of Inr (s, m) \<Rightarrow> s = 1 | Inl e \<Rightarrow> False)" by code_simp
  then show ?thesis by (auto simp: set_mem1_def split: sum.splits)
qed

lemma set_mem1_ok: "sets_ok {1} set_mem1" "set_abs set_mem1 1 = {}"
proof -
  obtain as where "sets_at set_mem0 {} as" using set_mem0_ok by (auto simp: sets_ok_def)
  from new_correct [OF this] set_mem1_new show "sets_ok {1} set_mem1" "set_abs set_mem1 1 = {}" by auto
qed


definition set_sys :: "(set_fn, set_mem) sys" where
  "set_sys = \<lparr> servers = (\<lambda>v. \<lparr> chips = (\<lambda>s k. \<lparr> flag = 0, argc = 0, fptr = Contains, argv = [0, 0, 0, 0, 0] \<rparr>),
       responses = (\<lambda>i. \<lparr> return_values = replicate 7 0, flags = 0 \<rparr>),
       old_client_flags = (\<lambda>s. 0), socket_client_flags = (\<lambda>s. 0),
       local_return_values = (\<lambda>i. replicate 8 0), spc = Head, sdata = set_mem1 \<rparr>),
     clients = (\<lambda>c. \<lparr> chip = 0, slot = c, cmask = push_bit c 1, lflag = (\<lambda>v. 0), cpc = Idle \<rparr>),
     nservers = 4, nclients = 2, stop_flag = 0 \<rparr>"

lemma set_sys_initial: "initial True set_sys"
  by (auto simp: initial_def set_sys_def NCLIENTS_def inj_on_def)

theorem int_sets_linearize_witness:
  "\<exists>\<sigma>. ffwd_run True set_call set_sys [Invoke 0 2 Add [1, 5], Exec 2 0 0 Add [1, 5, 0, 0, 0] 1] \<sigma> \<and>
     sets_ok {1} (sdata (servers \<sigma> 2)) \<and> 5 \<in> set_abs (sdata (servers \<sigma> 2)) 1"
proof -
  let ?tr = "[Invoke 0 2 Add [1, 5], Exec 2 0 0 Add [1, 5, 0, 0, 0] 1]"
  let ?sched = "Call_from 0 2 Add [1, 5] # replicate 7 (Client 0) @ replicate 3 (Server 2)"
  have "map_option fst (sched_run True set_call ?sched ([], set_sys)) = Some ?tr" by code_simp
  then obtain \<sigma> where "sched_run True set_call ?sched ([], set_sys) = Some (?tr, \<sigma>)" by (auto simp del: sched_run.simps)
  then have run: "ffwd_run True set_call set_sys ?tr \<sigma>" using sched_run_sound ffwd_run.start by blast
  have v: "\<forall>c f args. Invoke c 2 f args \<in> set ?tr \<longrightarrow> set_valid {1} f args"
    by (auto simp: set_valid_def VAL_MIN_def VAL_MAX_def INT_MIN_def INT_MAX_def)
  have "sdata (servers set_sys 2) = set_mem1" by (simp add: set_sys_def)
  with int_sets_linearize [OF run set_sys_initial _ v] set_mem1_ok
  have r: "sets_ok {1} (sdata (servers \<sigma> 2))"
    "spec_replay sets_spec (sets_abs {1} set_mem1) (execs 2 ?tr) = Some (sets_abs {1} (sdata (servers \<sigma> 2)))" by auto
  from r(2) have "sets_abs {1} (sdata (servers \<sigma> 2)) = (sets_abs {1} set_mem1)(1 := insert 5 (sets_abs {1} set_mem1 1))"
    by (auto simp: Let_def split: if_splits)
  then have "5 \<in> sets_abs {1} (sdata (servers \<sigma> 2)) 1" by simp
  with run r(1) show ?thesis by (auto simp: sets_abs_def)
qed

end
