(* ===== verification/Hash_Table.thy ===== *)
theory Hash_Table
  imports Int_Set
begin

text \<open>
  The hash table of synchrobench (\<open>hashtables/lockbased-ht/hashtable-lock.c\<close>): an array of
  integer sets. A call on a value is delegated to the server that owns the quarter of the array
  in which the value's bucket lies. \<open>maxhtlength\<close>, a global of the C file, is an argument here.
\<close>

definition MAXHTLENGTH :: nat where "MAXHTLENGTH = 65536"

record ht_intset =
  buckets :: "nat \<Rightarrow> addr"

record ht_mem =
  mem :: set_mem
  tables :: "ht_intset heap"

text \<open>\<open>set->buckets[i]\<close> with its bound.\<close>

definition bucket :: "ht_intset \<Rightarrow> nat \<Rightarrow> addr option" where
  "bucket t i = (if i < MAXHTLENGTH then Some (buckets t i) else None)"

subsection \<open>Creating, measuring and deleting a table\<close>

text \<open>The body of the loop of \<open>ht_delete\<close> is that of \<open>set_delete\<close>. \<open>n\<close> is the number of rounds left.\<close>

fun ht_delete_loop :: "nat \<Rightarrow> nat \<Rightarrow> ht_intset \<Rightarrow> set_mem \<Rightarrow> stop + set_mem" where
  "ht_delete_loop 0 i t m = Inr m"
| "ht_delete_loop (Suc n) i t m =
     cbind (need (bucket t i)) (\<lambda>b. cbind (set_delete b m) (\<lambda>m1. ht_delete_loop n (Suc i) t m1))"

definition ht_delete :: "u32 \<Rightarrow> addr \<Rightarrow> ht_mem \<Rightarrow> stop + ht_mem" where
  "ht_delete maxhtlength s m =
     cbind (need (load (tables m) s)) (\<lambda>t.
     cbind (ht_delete_loop (unat maxhtlength) 0 t (mem m)) (\<lambda>m1.
     cbind (need (free (tables m) s)) (\<lambda>ts. Inr (m\<lparr> mem := m1, tables := ts \<rparr>))))"

fun ht_size_loop :: "nat \<Rightarrow> nat \<Rightarrow> ht_intset \<Rightarrow> int \<Rightarrow> set_mem \<Rightarrow> stop + int" where
  "ht_size_loop 0 i t sz m = Inr sz"
| "ht_size_loop (Suc n) i t sz m =
     cbind (need (bucket t i)) (\<lambda>b.
     cbind (need (load (intsets m) b)) (\<lambda>s.
     cbind (need (load (snodes m) (ihead s))) (\<lambda>h.
     cbind (need (size_loop (snodes m) (snext h) sz)) (\<lambda>sz'. ht_size_loop n (Suc i) t sz' m))))"

definition ht_size :: "u32 \<Rightarrow> addr \<Rightarrow> ht_mem \<Rightarrow> stop + int" where
  "ht_size maxhtlength s m =
     cbind (need (load (tables m) s)) (\<lambda>t. ht_size_loop (unat maxhtlength) 0 t 0 (mem m))"

text \<open>\<open>if (n >= 1<<k) { n >>= k; pos += k; }\<close>\<close>

definition floor_log_step :: "nat \<Rightarrow> u32 \<times> int \<Rightarrow> u32 \<times> int" where
  "floor_log_step k s = (case s of (n, pos) \<Rightarrow> if n \<ge> push_bit k 1 then (drop_bit k n, pos + int k) else (n, pos))"

definition floor_log_2 :: "u32 \<Rightarrow> int" where
  "floor_log_2 n0 =
     (case floor_log_step 2 (floor_log_step 4 (floor_log_step 8 (floor_log_step 16 (n0, 0)))) of (n, pos) \<Rightarrow>
        let pos' = (if n \<ge> push_bit 1 1 then pos + 1 else pos) in
        if n = 0 then - 1 else pos')"

fun ht_new_loop :: "nat \<Rightarrow> nat \<Rightarrow> ht_intset \<Rightarrow> set_mem \<Rightarrow> stop + ht_intset \<times> set_mem" where
  "ht_new_loop 0 i t m = Inr (t, m)"
| "ht_new_loop (Suc n) i t m =
     cbind (set_new m) (\<lambda>(b, m1).
     cbind (need (bucket t i)) (\<lambda>_.
     ht_new_loop n (Suc i) (t\<lparr> buckets := (buckets t)(i := b) \<rparr>) m1))"

definition ht_new :: "u32 \<Rightarrow> ht_mem \<Rightarrow> stop + addr \<times> ht_mem" where
  "ht_new maxhtlength m =
     (let (s, ts) = malloc (tables m) in
      if s = NULL then Inl (Exit 1)
      else cbind (need (load ts s)) (\<lambda>t0.
           cbind (ht_new_loop (unat maxhtlength) 0 t0 (mem m)) (\<lambda>(t, m1).
           cbind (need (store ts s t)) (\<lambda>ts1. Inr (s, m\<lparr> mem := m1, tables := ts1 \<rparr>)))))"

subsection \<open>Calls on a value\<close>

text \<open>
  \<open>addr = val % maxhtlength\<close> (an \<open>int\<close> is converted to \<open>unsigned int\<close>; a modulus of 0 is
  undefined), and the server of the quarter.
\<close>

definition ht_addr :: "u32 \<Rightarrow> int \<Rightarrow> nat option" where
  "ht_addr maxhtlength val =
     (if maxhtlength = 0 then None else Some (unat ((word_of_int val :: u32) mod maxhtlength)))"

definition ht_server :: "u32 \<Rightarrow> nat \<Rightarrow> int" where
  "ht_server maxhtlength a =
     (let quarter = unat (maxhtlength div 4) in
      if a < quarter then 0 else if a < 2 * quarter then 1 else if a < 3 * quarter then 2 else 3)"

definition ht_contains :: "u32 \<Rightarrow> ht_intset \<Rightarrow> int \<Rightarrow> (nat \<times> set_fn \<times> u64 list) option" where
  "ht_contains maxhtlength t val = do {
     a \<leftarrow> ht_addr maxhtlength val; b \<leftarrow> bucket t a; set_contains b val (ht_server maxhtlength a) }"

definition ht_add :: "u32 \<Rightarrow> ht_intset \<Rightarrow> int \<Rightarrow> (nat \<times> set_fn \<times> u64 list) option" where
  "ht_add maxhtlength t val = do {
     a \<leftarrow> ht_addr maxhtlength val; b \<leftarrow> bucket t a; set_add b val (ht_server maxhtlength a) }"

text \<open>The call that the main thread makes itself while it fills the table.\<close>

definition ht_add_2 :: "u32 \<Rightarrow> ht_intset \<Rightarrow> int \<Rightarrow> set_mem \<Rightarrow> stop + int \<times> set_mem" where
  "ht_add_2 maxhtlength t val m =
     cbind (need (ht_addr maxhtlength val)) (\<lambda>a.
     cbind (need (bucket t a)) (\<lambda>b. set_seq_add_2 b val m))"

definition ht_remove :: "u32 \<Rightarrow> ht_intset \<Rightarrow> int \<Rightarrow> (nat \<times> set_fn \<times> u64 list) option" where
  "ht_remove maxhtlength t val = do {
     a \<leftarrow> ht_addr maxhtlength val; b \<leftarrow> bucket t a; set_remove b val (ht_server maxhtlength a) }"

subsection \<open>Routing\<close>

lemma ht_server_range: "ht_server n a \<in> {0, 1, 2, 3}"
  by (simp add: ht_server_def Let_def)

text \<open>A call of one of the three operations on a value.\<close>

definition ht_calls :: "u32 \<Rightarrow> ht_intset \<Rightarrow> int \<Rightarrow> (nat \<times> set_fn \<times> u64 list) set" where
  "ht_calls n t val = {c. ht_contains n t val = Some c \<or> ht_add n t val = Some c \<or> ht_remove n t val = Some c}"

text \<open>A table of \<open>n\<close> buckets at different addresses.\<close>

definition table_ok :: "u32 \<Rightarrow> ht_intset \<Rightarrow> bool" where
  "table_ok n t \<longleftrightarrow> 0 < n \<and> unat n \<le> MAXHTLENGTH \<and> inj_on (buckets t) {..< unat n} \<and>
     (\<forall>i < unat n. buckets t i < 2 ^ 64)"

lemma unat_of_nat_u64: "x < 2 ^ 64 \<Longrightarrow> unat (of_nat x :: u64) = x"
  by (simp add: unat_of_nat take_bit_nat_eq_self)

lemma sint_of_int_u64: "c_int x \<Longrightarrow> sint (of_int x :: u64) = x"
  by (simp add: c_int_def INT_MIN_def INT_MAX_def sint_sbintrunc' signed_take_bit_int_eq_self)

lemma ht_addr_bound: "0 < n \<Longrightarrow> ht_addr n val = Some a \<Longrightarrow> a < unat n"
  by (auto simp: ht_addr_def unat_mod word_gt_0 unat_gt_0)

lemma ht_calls_route:
  assumes t: "table_ok n t" and c: "(v, f, args) \<in> ht_calls n t val" and val: "c_int val"
  obtains a where "ht_addr n val = Some a" "a < unat n" "v = nat (ht_server n a)" "v < 4"
    "length args = 2" "unat (args ! 0) = buckets t a" "sint (args ! 1) = val"
proof -
  have n: "0 < n" "unat n \<le> MAXHTLENGTH" using t by (auto simp: table_ok_def)
  obtain a where a: "ht_addr n val = Some a" using n by (simp add: ht_addr_def word_gt_0)
  have an: "a < unat n" by (rule ht_addr_bound [OF n(1) a])
  then have "buckets t a < 2 ^ 64" "a < MAXHTLENGTH" using t n by (auto simp: table_ok_def)
  moreover from this c a have "v = nat (ht_server n a)" "args = [of_nat (buckets t a), of_int val]"
    using ht_server_range [of n a]
    by (auto simp: ht_calls_def ht_contains_def ht_add_def ht_remove_def set_contains_def set_add_def
        set_remove_def set_switch_def bucket_def split: if_splits)
  ultimately show ?thesis
    using that [OF a an] ht_server_range [of n a] unat_of_nat_u64 sint_of_int_u64 [OF val] by auto
qed

lemma table_ok_calls:
  assumes "table_ok n t" "(v, f, args) \<in> ht_calls n t val" "c_int val" "VAL_MIN < val" "val < VAL_MAX"
    and "buckets t ` {..< unat n} \<subseteq> S"
  shows "set_valid S f args"
  by (rule ht_calls_route [OF assms(1-3)]) (use assms(4-6) in \<open>auto simp: set_valid_def\<close>)

text \<open>
  The table delegates every call on a value to one place. The operations on a value \<open>val\<close> go to
  the server of the quarter in which its bucket lies, one of the four servers, with the pointer
  of that bucket; so two calls on the same value, and two calls on the same bucket, are executed by
  the same server.
\<close>

theorem ht_routing:
  assumes "table_ok n t" "c_int val" "c_int val'"
    and "(v, f, args) \<in> ht_calls n t val" "(v', f', args') \<in> ht_calls n t val'"
    and "ht_addr n val = ht_addr n val' \<or> args ! 0 = args' ! 0"
  shows "v = v' \<and> v < 4 \<and> args ! 0 = args' ! 0 \<and> ht_addr n val = ht_addr n val'"
proof -
  obtain a where a: "ht_addr n val = Some a" "a < unat n" "v = nat (ht_server n a)" "v < 4"
    "unat (args ! 0) = buckets t a" by (rule ht_calls_route [OF assms(1,4,2)])
  obtain b where b: "ht_addr n val' = Some b" "b < unat n" "v' = nat (ht_server n b)" "v' < 4"
    "unat (args' ! 0) = buckets t b" by (rule ht_calls_route [OF assms(1,5,3)])
  have "a = b" using assms(1,6) a b by (auto simp: table_ok_def dest: inj_onD)
  with a b show ?thesis by (simp add: word_unat_eq_iff)
qed

subsection \<open>Runs of the table\<close>

text \<open>All calls of a run are operations on the table, with values of type \<open>int\<close> between the sentinels.\<close>

definition ht_trace :: "u32 \<Rightarrow> ht_intset \<Rightarrow> set_fn event list \<Rightarrow> bool" where
  "ht_trace n t tr \<longleftrightarrow> (\<forall>c v f args. Invoke c v f args \<in> set tr \<longrightarrow>
     (\<exists>val. c_int val \<and> VAL_MIN < val \<and> val < VAL_MAX \<and> (v, f, args) \<in> ht_calls n t val))"

text \<open>The buckets of server \<open>v\<close>, and a memory in which every bucket holds only its own values.\<close>

definition own_buckets :: "u32 \<Rightarrow> ht_intset \<Rightarrow> nat \<Rightarrow> addr set" where
  "own_buckets n t v = buckets t ` {i. i < unat n \<and> ht_server n i = int v}"

definition hashed :: "u32 \<Rightarrow> ht_intset \<Rightarrow> (addr \<Rightarrow> int set) \<Rightarrow> bool" where
  "hashed n t X \<longleftrightarrow> (\<forall>i < unat n. \<forall>k \<in> X (buckets t i). ht_addr n k = Some i)"

lemma sets_spec_cases:
  "snd (sets_spec f a X) = X \<or> snd (sets_spec f a X) = X(unat (a ! 0) := insert (sint (a ! 1)) (X (unat (a ! 0)))) \<or>
   snd (sets_spec f a X) = X(unat (a ! 0) := X (unat (a ! 0)) - {sint (a ! 1)})"
  by (cases f) (auto simp: Let_def)

lemma hashed_step:
  assumes "table_ok n t" "hashed n t X" "i < unat n" "unat (a ! 0) = buckets t i" "ht_addr n (sint (a ! 1)) = Some i"
  shows "hashed n t (snd (sets_spec f a X))"
proof -
  have inj: "buckets t j = buckets t i \<Longrightarrow> j < unat n \<Longrightarrow> j = i" for j
    using assms(1,3) by (auto simp: table_ok_def dest: inj_onD)
  from sets_spec_cases [of f a X] show ?thesis
    using assms(2-5) inj unfolding hashed_def by (elim disjE) (auto split: if_splits)
qed

lemma hashed_replay:
  assumes "table_ok n t" "hashed n t X" "spec_replay sets_spec X es = Some Y"
    and "\<forall>(f, a, r) \<in> set es. \<exists>i < unat n. unat (a ! 0) = buckets t i \<and> ht_addr n (sint (a ! 1)) = Some i"
  shows "hashed n t Y"
  using assms(2-4)
proof (induction es arbitrary: X)
  case (Cons e es)
  obtain f a r where e: "e = (f, a, r)" by (cases e)
  from Cons.prems(3) e obtain i where "i < unat n" "unat (a ! 0) = buckets t i" "ht_addr n (sint (a ! 1)) = Some i" by auto
  with hashed_step [OF assms(1) Cons.prems(1)] have "hashed n t (snd (sets_spec f a X))" by blast
  with Cons e show ?case by (auto split: if_splits)
qed simp

text \<open>Where the calls on a value are executed.\<close>

lemma ht_exec_place:
  assumes t: "table_ok n t" and run: "ffwd_run t64 set_call \<sigma>0 tr \<sigma>" "initial t64 \<sigma>0" and tr: "ht_trace n t tr"
    and ex: "Exec v s k f a r \<in> set tr"
  shows "\<exists>i < unat n. ht_addr n (sint (a ! 1)) = Some i \<and> unat (a ! 0) = buckets t i \<and> int v = ht_server n i"
proof -
  obtain c args where inv: "Invoke c v f args \<in> set tr" "take (length args) a = args"
    using run_exec_invoked [OF run ex] by blast
  with tr obtain val where val: "c_int val" "(v, f, args) \<in> ht_calls n t val" unfolding ht_trace_def by blast
  obtain i where i: "ht_addr n val = Some i" "i < unat n" "v = nat (ht_server n i)" "length args = 2"
    "unat (args ! 0) = buckets t i" "sint (args ! 1) = val" by (rule ht_calls_route [OF t val(2,1)])
  have "a ! 0 = args ! 0" "a ! 1 = args ! 1" using nth_prefix [OF inv(2)] i(4) by simp_all
  then show ?thesis using i ht_server_range [of n i] by auto
qed

text \<open>
  C8: The distributed hash table is a hash table of sets: in every run whose calls are operations
  on the table, every call is executed by the server and in the bucket of its value, the buckets
  of each server go through the states of a sequential family of sets with the results returned, and
  every bucket holds only values of its own.
\<close>

theorem ht_linearizes:
  assumes t: "table_ok n t" and run: "ffwd_run t64 set_call \<sigma>0 tr \<sigma>" "initial t64 \<sigma>0" and tr: "ht_trace n t tr"
    and ok: "sets_ok (own_buckets n t v) (sdata (servers \<sigma>0 v))"
    and h: "hashed n t (sets_abs (own_buckets n t v) (sdata (servers \<sigma>0 v)))"
  shows "sets_ok (own_buckets n t v) (sdata (servers \<sigma> v)) \<and>
    spec_replay sets_spec (sets_abs (own_buckets n t v) (sdata (servers \<sigma>0 v))) (execs v tr) =
      Some (sets_abs (own_buckets n t v) (sdata (servers \<sigma> v))) \<and>
    hashed n t (sets_abs (own_buckets n t v) (sdata (servers \<sigma> v))) \<and>
    (\<forall>f a r. (f, a, r) \<in> set (execs v tr) \<longrightarrow>
       (\<exists>i < unat n. ht_addr n (sint (a ! 1)) = Some i \<and> unat (a ! 0) = buckets t i \<and> int v = ht_server n i))"
proof -
  have valid: "\<forall>c f args. Invoke c v f args \<in> set tr \<longrightarrow> set_valid (own_buckets n t v) f args"
  proof (intro allI impI)
    fix c f args assume "Invoke c v f args \<in> set tr"
    with tr obtain val where val: "c_int val" "VAL_MIN < val" "val < VAL_MAX" "(v, f, args) \<in> ht_calls n t val"
      unfolding ht_trace_def by blast
    show "set_valid (own_buckets n t v) f args"
      by (rule ht_calls_route [OF t val(4,1)])
        (use val ht_server_range in \<open>force simp: set_valid_def own_buckets_def\<close>)
  qed
  note del = int_sets.delegated [OF run ok valid]
  have place: "\<exists>i < unat n. ht_addr n (sint (a ! 1)) = Some i \<and> unat (a ! 0) = buckets t i \<and> int v = ht_server n i"
    if "(f, a, r) \<in> set (execs v tr)" for f a r
    using ht_exec_place [OF t run tr] execs_Exec [OF that] by blast
  have "hashed n t (sets_abs (own_buckets n t v) (sdata (servers \<sigma> v)))"
    by (rule hashed_replay [OF t h conjunct2 [OF del]]) (use place in fastforce)
  with del place show ?thesis by blast
qed

subsection \<open>The life of a table\<close>

lemma delete_loop_correct:
  assumes "sets_ok S m" "inj_on (buckets t) {i..<i + n}" "buckets t ` {i..<i + n} \<subseteq> S" "i + n \<le> MAXHTLENGTH"
  shows "\<exists>m'. ht_delete_loop n i t m = Inr m' \<and> sets_ok (S - buckets t ` {i..<i + n}) m'"
  using assms
proof (induction n arbitrary: i S m)
  case (Suc n)
  have b: "bucket t i = Some (buckets t i)" "buckets t i \<in> S" using Suc.prems by (auto simp: bucket_def)
  obtain as where "sets_at m S as" using Suc.prems(1) by (auto simp: sets_ok_def)
  from delete_correct [OF this b(2)] obtain m1 where m1: "set_delete (buckets t i) m = Inr m1" "sets_ok (S - {buckets t i}) m1" by blast
  have iv: "{i..<i + Suc n} = insert i {Suc i..<Suc i + n}" by auto
  have inj: "inj_on (buckets t) {Suc i..<Suc i + n}" "buckets t i \<notin> buckets t ` {Suc i..<Suc i + n}"
    using Suc.prems(2) unfolding iv by auto
  have "buckets t ` {Suc i..<Suc i + n} \<subseteq> S - {buckets t i}" using Suc.prems(3) inj(2) unfolding iv by blast
  from Suc.IH [OF m1(2) inj(1) this] Suc.prems(4) obtain m' where
    "ht_delete_loop n (Suc i) t m1 = Inr m'" "sets_ok (S - {buckets t i} - buckets t ` {Suc i..<Suc i + n}) m'" by auto
  then show ?case using b m1 unfolding iv by (simp add: set_diff_eq)
qed simp

lemma size_loop_correct:
  assumes at: "sets_at m S as" and "buckets t ` {i..<i + n} \<subseteq> S" "i + n \<le> MAXHTLENGTH" "0 \<le> sz"
    and "sz + (\<Sum>j \<in> {i..<i + n}. int (card (set_abs m (buckets t j)))) \<le> INT_MAX"
  shows "ht_size_loop n i t sz m = Inr (sz + (\<Sum>j \<in> {i..<i + n}. int (card (set_abs m (buckets t j)))))"
  using assms(2-5)
proof (induction n arbitrary: i sz)
  case (Suc n)
  let ?c = "\<lambda>j. int (card (set_abs m (buckets t j)))"
  have iv: "{i..<i + Suc n} = insert i {Suc i..<Suc i + n}" by auto
  have sum: "(\<Sum>j \<in> {i..<i + Suc n}. ?c j) = ?c i + (\<Sum>j \<in> {Suc i..<Suc i + n}. ?c j)" unfolding iv by simp
  have pos: "0 \<le> (\<Sum>j \<in> {Suc i..<Suc i + n}. ?c j)" by (simp add: sum_nonneg)
  have b: "bucket t i = Some (buckets t i)" "buckets t i \<in> S" using Suc.prems by (auto simp: bucket_def)
  have "sz + ?c i \<le> INT_MAX" using Suc.prems(4) sum pos by simp
  from size_from [OF at b(2) Suc.prems(3) this] obtain j h where
    j: "load (intsets m) (buckets t i) = Some j" "load (snodes m) (ihead j) = Some h"
      "size_loop (snodes m) (snext h) sz = Some (sz + ?c i)" by blast
  have "ht_size_loop n (Suc i) t (sz + ?c i) m = Inr (sz + ?c i + (\<Sum>j \<in> {Suc i..<Suc i + n}. ?c j))"
    using Suc.prems sum by (intro Suc.IH) auto
  then show ?case using b j sum by simp
qed simp

lemma new_loop_correct:
  assumes "sets_ok (buckets t ` {..<i}) m" "inj_on (buckets t) {..<i}" "i + n \<le> MAXHTLENGTH"
    and "\<forall>j < i. set_abs m (buckets t j) = {}"
  shows "ht_new_loop n i t m = Inl (Exit 1) \<or> (\<exists>t' m'. ht_new_loop n i t m = Inr (t', m') \<and>
    inj_on (buckets t') {..<i + n} \<and> sets_ok (buckets t' ` {..<i + n}) m' \<and>
    (\<forall>j < i + n. set_abs m' (buckets t' j) = {}))"
  using assms
proof (induction n arbitrary: i m t)
  case (Suc n)
  obtain as where "sets_at m (buckets t ` {..<i}) as" using Suc.prems(1) by (auto simp: sets_ok_def)
  from new_correct [OF this] show ?case
  proof (elim disjE exE conjE)
    fix b m1
    assume b: "set_new m = Inr (b, m1)" "b \<notin> buckets t ` {..<i}" "sets_ok (insert b (buckets t ` {..<i})) m1"
      "set_abs m1 b = {}" "\<forall>s \<in> buckets t ` {..<i}. set_abs m1 s = set_abs m s"
    let ?t = "t\<lparr> buckets := (buckets t)(i := b) \<rparr>"
    have iv: "{..<Suc i} = insert i {..<i}" by auto
    have im: "buckets ?t ` {..<Suc i} = insert b (buckets t ` {..<i})" unfolding iv by auto
    have "inj_on (buckets ?t) {..<i}" using Suc.prems(2) by (auto simp: inj_on_def)
    moreover have "buckets ?t ` {..<i} = buckets t ` {..<i}" by auto
    ultimately have inj: "inj_on (buckets ?t) {..<Suc i}" unfolding iv using b(2) by simp
    have emp: "\<forall>j < Suc i. set_abs m1 (buckets ?t j) = {}" using b(4,5) Suc.prems(4) by (auto simp: less_Suc_eq)
    have bd: "Suc i + n \<le> MAXHTLENGTH" using Suc.prems(3) by simp
    have "sets_ok (buckets ?t ` {..<Suc i}) m1" unfolding im by (rule b(3))
    from Suc.IH [OF this inj bd emp] b(1) bd show ?case by (auto simp: bucket_def)
  qed simp
qed auto

text \<open>
  The life of a table. In a memory without sets, \<open>ht_new\<close> exits or returns a table whose first
  \<open>maxhtlength\<close> buckets are different, empty sets and nothing else is allocated; \<open>ht_size\<close> is the
  sum of the sizes of the buckets; \<open>ht_delete\<close> releases all of it.
\<close>

theorem ht_life_cycle:
  assumes "unat n \<le> MAXHTLENGTH"
  shows "(sets_ok {} (mem m) \<and> heap_ok (tables m) \<longrightarrow> ht_new n m = Inl (Exit 1) \<or>
      (\<exists>s m' t. ht_new n m = Inr (s, m') \<and> load (tables m') s = Some t \<and> inj_on (buckets t) {..< unat n} \<and>
        sets_ok (buckets t ` {..< unat n}) (mem m') \<and> (\<forall>j < unat n. set_abs (mem m') (buckets t j) = {}))) \<and>
    (\<forall>s t. load (tables m) s = Some t \<and> inj_on (buckets t) {..< unat n} \<and> sets_ok (buckets t ` {..< unat n}) (mem m) \<longrightarrow>
      ((\<Sum>j < unat n. int (card (set_abs (mem m) (buckets t j)))) \<le> INT_MAX \<longrightarrow>
        ht_size n s m = Inr (\<Sum>j < unat n. int (card (set_abs (mem m) (buckets t j))))) \<and>
      (\<exists>m'. ht_delete n s m = Inr m' \<and> sets_ok {} (mem m') \<and> load (tables m') s = None))"
proof (intro conjI allI impI; elim conjE)
  assume ok: "sets_ok {} (mem m)" "heap_ok (tables m)"
  obtain s ts where s: "malloc (tables m) = (s, ts)" by (cases "malloc (tables m)")
  show "ht_new n m = Inl (Exit 1) \<or>
      (\<exists>s m' t. ht_new n m = Inr (s, m') \<and> load (tables m') s = Some t \<and> inj_on (buckets t) {..< unat n} \<and>
        sets_ok (buckets t ` {..< unat n}) (mem m') \<and> (\<forall>j < unat n. set_abs (mem m') (buckets t j) = {}))"
  proof (rule malloc_cases [OF ok(2) s])
    assume f: "s \<noteq> NULL" "load (tables m) s = None" "ts = upd (tables m) s (junk (tables m) s)"
    have "sets_ok (buckets (junk (tables m) s) ` {..<0}) (mem m)" using ok(1) by simp
    from new_loop_correct [OF this, of "unat n"] assms f s show ?thesis
      by (auto simp: ht_new_def heap_simps)
  qed (use s in \<open>simp add: ht_new_def\<close>)
next
  fix s t assume t: "load (tables m) s = Some t" "sets_ok (buckets t ` {..< unat n}) (mem m)"
    and b: "(\<Sum>j < unat n. int (card (set_abs (mem m) (buckets t j)))) \<le> INT_MAX"
  obtain as where "sets_at (mem m) (buckets t ` {..< unat n}) as" using t(2) by (auto simp: sets_ok_def)
  from size_loop_correct [OF this, of t 0 "unat n" 0] t b assms
  show "ht_size n s m = Inr (\<Sum>j < unat n. int (card (set_abs (mem m) (buckets t j))))"
    by (simp add: ht_size_def atLeast0LessThan)
next
  fix s t assume t: "load (tables m) s = Some t" "inj_on (buckets t) {..< unat n}" "sets_ok (buckets t ` {..< unat n}) (mem m)"
  from delete_loop_correct [OF t(3), of t 0 "unat n"] t assms
  show "\<exists>m'. ht_delete n s m = Inr m' \<and> sets_ok {} (mem m') \<and> load (tables m') s = None"
    by (auto simp: ht_delete_def atLeast0LessThan free_eq heap_simps)
qed

subsection \<open>The logarithm\<close>

text \<open>One of the five steps on natural numbers, and what it keeps.\<close>

definition log_step :: "nat \<Rightarrow> nat \<times> nat \<Rightarrow> nat \<times> nat" where
  "log_step k s = (case s of (n, pos) \<Rightarrow> if 2 ^ k \<le> n then (n div 2 ^ k, pos + k) else (n, pos))"

definition log_inv :: "nat \<Rightarrow> nat \<Rightarrow> nat \<times> nat \<Rightarrow> bool" where
  "log_inv N w s \<longleftrightarrow> (case s of (n, pos) \<Rightarrow> 2 ^ pos * n \<le> N \<and> N < 2 ^ pos * (n + 1) \<and> n < 2 ^ w \<and> 0 < n)"

lemma log_step_inv:
  assumes "log_inv N (2 * k) (n, pos)"
  shows "log_inv N k (log_step k (n, pos))"
proof (cases "2 ^ k \<le> n")
  case True
  let ?d = "n div 2 ^ k"
  have inv: "2 ^ pos * n \<le> N" "N < 2 ^ pos * (n + 1)" "n < 2 ^ (2 * k)" using assms by (auto simp: log_inv_def)
  have a: "2 ^ k * ?d \<le> n" by simp
  have b: "n + 1 \<le> 2 ^ k * (?d + 1)" by (metis Suc_eq_plus1 Suc_leI dividend_less_times_div zero_less_numeral zero_less_power mult_Suc_right add.commute)
  have "2 ^ pos * (2 ^ k * ?d) \<le> N" using mult_le_mono2 [OF a, of "2 ^ pos"] inv(1) by linarith
  moreover have "N < 2 ^ pos * (2 ^ k * (?d + 1))" using mult_le_mono2 [OF b, of "2 ^ pos"] inv(2) by linarith
  moreover have "?d < 2 ^ k" using inv(3) by (simp add: less_mult_imp_div_less mult_2 power_add)
  moreover have "0 < ?d" using True by (simp add: div_greater_zero_iff)
  ultimately show ?thesis using True by (simp add: log_step_def log_inv_def power_add algebra_simps)
qed (use assms in \<open>auto simp: log_step_def log_inv_def\<close>)

definition log_steps :: "nat \<Rightarrow> nat \<times> nat" where
  "log_steps N = log_step 2 (log_step 4 (log_step 8 (log_step 16 (N, 0))))"

lemma log_steps_inv: "0 < N \<Longrightarrow> N < 2 ^ 32 \<Longrightarrow> log_inv N 2 (log_steps N)"
proof -
  assume N: "0 < N" "N < 2 ^ 32"
  have "log_inv N (2 * 16) (N, 0)" using N by (simp add: log_inv_def)
  then have "log_inv N (2 * 8) (log_step 16 (N, 0))" using log_step_inv [of N 16 N 0] by simp
  then have "log_inv N (2 * 4) (log_step 8 (log_step 16 (N, 0)))"
    using log_step_inv [of N 8] by (metis mult_2 numeral_Bit0 surj_pair)
  then have "log_inv N (2 * 2) (log_step 4 (log_step 8 (log_step 16 (N, 0))))"
    using log_step_inv [of N 4] by (metis mult_2 numeral_Bit0 surj_pair)
  then show ?thesis using log_step_inv [of N 2] unfolding log_steps_def by (metis surj_pair)
qed

lemma unat_push_bit_1: "k < 32 \<Longrightarrow> unat (push_bit k 1 :: u32) = 2 ^ k"
  by (simp only: unsigned_push_bit_eq) (simp add: push_bit_eq_mult take_bit_nat_eq_self)

lemma floor_log_step_nat:
  assumes "k < 32" and "log_step k (unat n, p) = (m, q)"
  obtains n' where "floor_log_step k (n, int p) = (n', int q)" "unat n' = m"
proof (cases "2 ^ k \<le> unat n")
  case True
  have "unat (drop_bit k n) = unat n div 2 ^ k"
    by (simp only: unat_drop_bit_eq drop_bit_eq_div [of k "unat n"])
  with True show ?thesis using assms that [of "drop_bit k n"]
    by (simp add: floor_log_step_def log_step_def word_le_nat_alt unat_push_bit_1 del: push_bit_of_1)
next
  case False
  then show ?thesis using assms that [of n]
    by (simp add: floor_log_step_def log_step_def word_le_nat_alt unat_push_bit_1 del: push_bit_of_1)
qed

lemma floor_log_2_positive:
  assumes "n \<noteq> 0"
  shows "\<exists>l. floor_log_2 n = int l \<and> 2 ^ l \<le> unat n \<and> unat n < 2 ^ (l + 1)"
proof -
  have N: "0 < unat n" "unat n < 2 ^ 32" using unsigned_less [of n] assms by (auto simp: unat_gt_0)
  obtain a p where a: "log_step 16 (unat n, 0) = (a, p)" by fastforce
  obtain b q where b: "log_step 8 (a, p) = (b, q)" by fastforce
  obtain c r where c: "log_step 4 (b, q) = (c, r)" by fastforce
  obtain d s where d: "log_step 2 (c, r) = (d, s)" by fastforce
  obtain n1 where n1: "floor_log_step 16 (n, int 0) = (n1, int p)" "unat n1 = a"
    by (rule floor_log_step_nat [OF _ a]) simp
  obtain n2 where n2: "floor_log_step 8 (n1, int p) = (n2, int q)" "unat n2 = b"
    by (rule floor_log_step_nat [of 8 n1 p b q]) (use b n1 in auto)
  obtain n3 where n3: "floor_log_step 4 (n2, int q) = (n3, int r)" "unat n3 = c"
    by (rule floor_log_step_nat [of 4 n2 q c r]) (use c n2 in auto)
  obtain n4 where n4: "floor_log_step 2 (n3, int r) = (n4, int s)" "unat n4 = d"
    by (rule floor_log_step_nat [of 2 n3 r d s]) (use d n3 in auto)
  have "log_inv (unat n) 2 (d, s)" using log_steps_inv [OF N] a b c d by (simp add: log_steps_def)
  then have i: "2 ^ s * d \<le> unat n" "unat n < 2 ^ s * (d + 1)" "d < 4" "0 < d" by (simp_all add: log_inv_def)
  have f: "floor_log_2 n = (if 2 \<le> d then int s + 1 else int s)"
    using n1 n2 n3 n4 i(4) unat_push_bit_1 [of 1] by (auto simp: floor_log_2_def word_le_nat_alt Let_def)
  show "\<exists>l. floor_log_2 n = int l \<and> 2 ^ l \<le> unat n \<and> unat n < 2 ^ (l + 1)"
  proof (cases "2 \<le> d")
    case True
    with i(3) have "d = 2 \<or> d = 3" by linarith
    with f True i(1,2) show ?thesis by (intro exI [of _ "s + 1"]) auto
  next
    case False
    with i(4) have "d = 1" by simp
    with f i show ?thesis by (intro exI [of _ s]) auto
  qed
qed

text \<open>
  \<open>floor_log_2\<close> computes the floor of the binary logarithm of every positive 32-bit number, and
  -1 for 0.
\<close>

theorem floor_log_2_correct:
  "if n = 0 then floor_log_2 n = - 1
   else \<exists>l. floor_log_2 n = int l \<and> 2 ^ l \<le> unat n \<and> unat n < 2 ^ (l + 1)"
proof (cases "n = 0")
  case True
  then show ?thesis by (simp add: floor_log_2_def floor_log_step_def)
qed (use floor_log_2_positive in simp)

subsection \<open>A table of eight buckets\<close>

definition ht_mem1 :: ht_mem where
  "ht_mem1 = \<lparr> mem = set_mem1, tables = \<lparr> cells = [1 \<mapsto> \<lparr> buckets = (\<lambda>_. 1) \<rparr>], policy = first_fit 2,
     junk = (\<lambda>_. \<lparr> buckets = (\<lambda>_. 99) \<rparr>) \<rparr> \<rparr>"

theorem ht_life_cycle_witness:
  "unat (1 :: u32) \<le> MAXHTLENGTH \<and> ht_size 1 1 ht_mem1 = Inr 0 \<and> (\<exists>m'. ht_delete 1 1 ht_mem1 = Inr m' \<and> sets_ok {} (mem m'))"
proof -
  have n: "unat (1 :: u32) \<le> MAXHTLENGTH" by (simp add: MAXHTLENGTH_def)
  let ?t = "\<lparr> buckets = (\<lambda>_. 1) \<rparr> :: ht_intset"
  have "load (tables ht_mem1) 1 = Some ?t" "inj_on (buckets ?t) {..< unat (1 :: u32)}" "buckets ?t ` {..< unat (1 :: u32)} = {1}"
    "mem ht_mem1 = set_mem1" by (auto simp: ht_mem1_def load_def inj_on_def)
  with n conjunct2 [OF ht_life_cycle [OF n, of ht_mem1], rule_format, of 1 ?t] set_mem1_ok show ?thesis
    by (simp add: INT_MAX_def) blast
qed

definition table8 :: ht_intset where "table8 = \<lparr> buckets = (\<lambda>i. i + 1) \<rparr>"

lemma table8_ok: "table_ok 8 table8"
  by (auto simp: table_ok_def table8_def MAXHTLENGTH_def inj_on_def)

theorem ht_routing_witness:
  "(1, Add, [4, 3]) \<in> ht_calls 8 table8 3 \<and> (1, Remove, [4, 11]) \<in> ht_calls 8 table8 11 \<and>
   ht_addr 8 3 = ht_addr 8 11 \<and> (1::nat) < 4"
proof -
  have c: "(1, Add, [4, 3]) \<in> ht_calls 8 table8 3" "(1, Remove, [4, 11]) \<in> ht_calls 8 table8 11"
    by (auto simp: ht_calls_def ht_add_def ht_remove_def ht_addr_def ht_server_def table8_def bucket_def
        MAXHTLENGTH_def set_add_def set_remove_def set_switch_def Let_def)
  have "c_int 3" "c_int 11" by (simp_all add: c_int_def INT_MIN_def INT_MAX_def)
  from ht_routing [OF table8_ok this c] c show ?thesis by simp
qed

text \<open>A run on a table of one bucket, which belongs to the last server.\<close>

definition table1 :: ht_intset where "table1 = \<lparr> buckets = (\<lambda>_. 1) \<rparr>"

lemma table1_ok: "table_ok 1 table1"
  by (auto simp: table_ok_def table1_def MAXHTLENGTH_def inj_on_def)

lemma table1_own: "own_buckets 1 table1 3 = {1}"
  by (auto simp: own_buckets_def table1_def ht_server_def)

theorem ht_linearizes_witness:
  "\<exists>\<sigma>. ffwd_run True set_call set_sys [Invoke 0 3 Add [1, 5], Exec 3 0 0 Add [1, 5, 0, 0, 0] 1] \<sigma> \<and>
     hashed 1 table1 (sets_abs {1} (sdata (servers \<sigma> 3)))"
proof -
  let ?tr = "[Invoke 0 3 Add [1, 5], Exec 3 0 0 Add [1, 5, 0, 0, 0] 1]"
  let ?sched = "Call_from 0 3 Add [1, 5] # replicate 7 (Client 0) @ replicate 3 (Server 3)"
  have "map_option fst (sched_run True set_call ?sched ([], set_sys)) = Some ?tr" by code_simp
  then obtain \<sigma> where "sched_run True set_call ?sched ([], set_sys) = Some (?tr, \<sigma>)" by (auto simp del: sched_run.simps)
  then have run: "ffwd_run True set_call set_sys ?tr \<sigma>" using sched_run_sound ffwd_run.start by blast
  have "c_int 5" "VAL_MIN < 5" "5 < VAL_MAX" "(3, Add, [1, 5]) \<in> ht_calls 1 table1 5"
    by (auto simp: c_int_def VAL_MIN_def VAL_MAX_def INT_MIN_def INT_MAX_def ht_calls_def ht_add_def ht_addr_def
        ht_server_def table1_def bucket_def MAXHTLENGTH_def set_add_def set_switch_def)
  then have tr: "ht_trace 1 table1 ?tr" unfolding ht_trace_def by auto
  have d: "sdata (servers set_sys 3) = set_mem1" by (simp add: set_sys_def)
  have h: "hashed 1 table1 (sets_abs {1} set_mem1)" using set_mem1_ok by (auto simp: hashed_def sets_abs_def table1_def)
  from ht_linearizes [OF table1_ok run set_sys_initial tr, of 3, unfolded table1_own d, OF set_mem1_ok(1) h] run
  show ?thesis by blast
qed

end
