(* ===== verification/Tree_Heap.thy ===== *)
theory Tree_Heap
  imports Prelude "HOL-Library.Tree"
begin

text \<open>
  Binary trees in a C heap. The locale \<open>tree_nodes\<close> is the interface of a node type with two
  child pointers and an integer key. A tree of addresses describes the shape of the structure
  behind a pointer; a path from the root is a context, a list of frames with the innermost frame
  first, each with the node, the direction taken (\<open>False\<close> for the first child) and the other
  subtree. The tree components interpret the locale for their own node types.
\<close>

type_synonym frame = "addr \<times> bool \<times> addr tree"

fun plug :: "frame list \<Rightarrow> addr tree \<Rightarrow> addr tree" where
  "plug [] t = t"
| "plug ((a, d, s) # c) t = plug c (if d then Node s a t else Node t a s)"

fun before :: "frame list \<Rightarrow> addr list" where
  "before [] = []"
| "before ((a, d, s) # c) = before c @ (if d then inorder s @ [a] else [])"

fun after :: "frame list \<Rightarrow> addr list" where
  "after [] = []"
| "after ((a, d, s) # c) = (if d then [] else a # inorder s) @ after c"

abbreviation ctx_nodes :: "frame list \<Rightarrow> addr set" where
  "ctx_nodes c \<equiv> set (before c) \<union> set (after c)"

lemma inorder_plug [simp]: "inorder (plug c t) = before c @ inorder t @ after c"
  by (induction c t rule: plug.induct) auto

lemma plug_append [simp]: "plug (c @ c') t = plug c' (plug c t)"
  by (induction c t rule: plug.induct) auto

lemma before_append [simp]: "before (c @ c') = before c' @ before c"
  by (induction c) auto

lemma after_append [simp]: "after (c @ c') = after c @ after c'"
  by (induction c) auto

lemma set_tree_plug [simp]: "set_tree (plug c t) = ctx_nodes c \<union> set_tree t"
  by (induction c t rule: plug.induct) auto

declare plug.simps(2) [simp del]

text \<open>A context that only goes to first children is on the left spine: nothing comes before its hole.\<close>

lemma left_spine_before: "\<forall>(a, d, s) \<in> set c. \<not> d \<Longrightarrow> before c = []"
  by (induction c) auto

lemma sorted_wrt_less_append_iff:
  "sorted_wrt (<) (xs @ y # ys) \<longleftrightarrow>
     sorted_wrt (<) (xs @ ys) \<and> (\<forall>x \<in> set xs. x < y) \<and> (\<forall>x \<in> set ys. y < (x :: int))"
  by (auto simp: sorted_wrt_append)

locale tree_nodes =
  fixes child :: "'n \<Rightarrow> bool \<Rightarrow> addr"
    and set_child :: "bool \<Rightarrow> addr \<Rightarrow> 'n \<Rightarrow> 'n"
    and key :: "'n \<Rightarrow> int"
  assumes child_set [simp]: "child (set_child d q n) e = (if e = d then q else child n e)"
    and key_set [simp]: "key (set_child d q n) = key n"
begin

fun tree_at :: "'n heap \<Rightarrow> addr \<Rightarrow> addr tree \<Rightarrow> bool" where
  "tree_at h p Leaf \<longleftrightarrow> p = NULL"
| "tree_at h p (Node l a r) \<longleftrightarrow> p = a \<and> (case load h a of None \<Rightarrow> False
     | Some n \<Rightarrow> tree_at h (child n False) l \<and> tree_at h (child n True) r)"

fun ctx_at :: "'n heap \<Rightarrow> addr \<Rightarrow> frame list \<Rightarrow> addr \<Rightarrow> bool" where
  "ctx_at h p [] q \<longleftrightarrow> p = q"
| "ctx_at h p ((a, d, s) # c) q \<longleftrightarrow> ctx_at h p c a \<and> (case load h a of None \<Rightarrow> False
     | Some n \<Rightarrow> child n d = q \<and> tree_at h (child n (\<not> d)) s)"

definition key_at :: "'n heap \<Rightarrow> addr \<Rightarrow> int" where
  "key_at h a = key (the (load h a))"

abbreviation "keys_at h as \<equiv> map (key_at h) as"

definition bst_at :: "'n heap \<Rightarrow> addr \<Rightarrow> addr tree \<Rightarrow> bool" where
  "bst_at h p t \<longleftrightarrow> tree_at h p t \<and> sorted_wrt (<) (keys_at h (inorder t))"

lemma tree_at_plug: "tree_at h p (plug c t) \<longleftrightarrow> (\<exists>q. ctx_at h p c q \<and> tree_at h q t)"
  by (induction c t rule: plug.induct) (auto simp: plug.simps(2) split: option.splits)

lemma tree_at_loaded: "tree_at h p t \<Longrightarrow> a \<in> set (inorder t) \<Longrightarrow> \<exists>n. load h a = Some n"
  by (induction t arbitrary: p) (auto split: option.splits)

lemma ctx_at_loaded: "ctx_at h p c q \<Longrightarrow> a \<in> ctx_nodes c \<Longrightarrow> \<exists>n. load h a = Some n"
proof (induction c arbitrary: q)
  case (Cons f c)
  then show ?case
    by (cases f) (auto split: option.splits if_splits dest: tree_at_loaded)
qed simp

lemma tree_at_frame:
  "(\<And>a. a \<in> set (inorder t) \<Longrightarrow> load h' a = load h a) \<Longrightarrow> tree_at h' p t = tree_at h p t"
  by (induction t arbitrary: p) (auto split: option.splits)

lemma ctx_at_frame:
  "(\<And>a. a \<in> ctx_nodes c \<Longrightarrow> load h' a = load h a) \<Longrightarrow> ctx_at h' p c q = ctx_at h p c q"
proof (induction c arbitrary: q)
  case (Cons f c)
  obtain a d s where f: "f = (a, d, s)" by (cases f)
  have "ctx_at h' p c a = ctx_at h p c a" using Cons.prems by (intro Cons.IH) (auto simp: f)
  moreover have "load h' a = load h a" using Cons.prems by (auto simp: f split: if_splits)
  moreover have "tree_at h' q s = tree_at h q s" for q
    using Cons.prems by (intro tree_at_frame) (auto simp: f split: if_splits)
  ultimately show ?case by (auto simp: f split: option.splits)
qed simp

lemma keys_at_frame: "(\<And>a. a \<in> set as \<Longrightarrow> load h' a = load h a) \<Longrightarrow> keys_at h' as = keys_at h as"
  by (auto simp: key_at_def)

lemma tree_at_upd [simp]: "a \<notin> set (inorder t) \<Longrightarrow> tree_at (upd h a n) p t = tree_at h p t"
  by (rule tree_at_frame) (auto simp: heap_simps)

lemma tree_at_del [simp]: "a \<notin> set (inorder t) \<Longrightarrow> tree_at (del h a) p t = tree_at h p t"
  by (rule tree_at_frame) (auto simp: heap_simps)

lemma ctx_at_upd [simp]: "a \<notin> ctx_nodes c \<Longrightarrow> ctx_at (upd h a n) p c q = ctx_at h p c q"
  by (rule ctx_at_frame) (auto simp: heap_simps)

lemma ctx_at_del [simp]: "a \<notin> ctx_nodes c \<Longrightarrow> ctx_at (del h a) p c q = ctx_at h p c q"
  by (rule ctx_at_frame) (auto simp: heap_simps)

lemma key_at_upd_child:
  "load h a = Some n \<Longrightarrow> key_at (upd h a (set_child d q n)) = key_at h"
  by (auto simp: key_at_def heap_simps)

text \<open>A strict order on the keys leaves no room for an address to occur twice.\<close>

lemma sorted_distinct: "sorted_wrt (<) (keys_at h as) \<Longrightarrow> distinct as"
proof -
  assume "sorted_wrt (<) (keys_at h as)"
  then have "distinct (keys_at h as)" by (simp add: strict_sorted_iff)
  then show ?thesis by (simp add: distinct_map)
qed

lemma bst_distinct: "bst_at h p t \<Longrightarrow> distinct (inorder t)"
  unfolding bst_at_def using sorted_distinct by blast

lemma tree_at_det: "tree_at h p t \<Longrightarrow> tree_at h p t' \<Longrightarrow> t = t'"
proof (induction t arbitrary: p t')
  case Leaf
  then show ?case by (cases t') (auto split: option.splits)
next
  case (Node l a r)
  then show ?case by (cases t') (auto split: option.splits)
qed

text \<open>Overwriting the pointer of the innermost frame puts another tree into the hole.\<close>

lemma ctx_at_redirect:
  assumes "ctx_at h p ((a, d, s) # c) q" and "load h a = Some n"
    and "a \<notin> ctx_nodes c" and "a \<notin> set (inorder s)"
  shows "ctx_at (upd h a (set_child d q' n)) p ((a, d, s) # c) q'"
  using assms by (auto simp: heap_simps)

lemma ctx_redirect_distinct:
  assumes "distinct (inorder (plug ((a, d, s) # c) t))"
  shows "a \<notin> ctx_nodes c" and "a \<notin> set (inorder s)" and "a \<notin> set (inorder t)"
  using assms by (auto split: if_splits)

text \<open>
  The state of a search for \<open>k\<close>: the keys passed on the left are smaller, those on the right
  are larger.
\<close>

definition located :: "'n heap \<Rightarrow> addr \<Rightarrow> int \<Rightarrow> frame list \<Rightarrow> addr \<Rightarrow> addr tree \<Rightarrow> bool" where
  "located h p k c q t \<longleftrightarrow> ctx_at h p c q \<and> tree_at h q t \<and>
     sorted_wrt (<) (keys_at h (inorder (plug c t))) \<and>
     (\<forall>a \<in> set (before c). key_at h a < k) \<and> (\<forall>a \<in> set (after c). k < key_at h a)"

lemma located_left:
  assumes "located h p k c q (Node l a r)" "load h q = Some n" "k < key n"
  shows "located h p k ((a, False, r) # c) (child n False) l"
proof -
  have [simp]: "a = q" and n: "key_at h q = key n" using assms by (auto simp: located_def key_at_def)
  have "key n < key_at h x" if "x \<in> set (inorder r)" for x
    using assms(1) that by (auto simp: located_def sorted_wrt_append n)
  with assms show ?thesis by (force simp: located_def n)
qed

lemma located_right:
  assumes "located h p k c q (Node l a r)" "load h q = Some n" "key n < k"
  shows "located h p k ((a, True, l) # c) (child n True) r"
proof -
  have [simp]: "a = q" and n: "key_at h q = key n" using assms by (auto simp: located_def key_at_def)
  have "key_at h x < key n" if "x \<in> set (inorder l)" for x
    using assms(1) that by (auto simp: located_def sorted_wrt_append n)
  with assms show ?thesis by (force simp: located_def n)
qed

lemma located_bst: "located h p k c q t \<Longrightarrow> bst_at h p (plug c t)"
  by (auto simp: located_def bst_at_def tree_at_plug)

lemma located_absent: "located h p k c q Leaf \<Longrightarrow> k \<notin> key_at h ` set (inorder (plug c Leaf))"
  by (auto simp: located_def)

lemma located_present:
  "located h p k c q (Node l a r) \<Longrightarrow> key_at h a = k \<Longrightarrow>
   k \<in> key_at h ` set (inorder (plug c (Node l a r)))"
  by auto

lemma located_NULL: "located h p k c q t \<Longrightarrow> q = NULL \<longleftrightarrow> t = Leaf"
  by (cases t) (auto simp: located_def split: option.splits)

lemma located_load: "located h p k c q (Node l a r) \<Longrightarrow> a = q \<and> (\<exists>n. load h q = Some n \<and> key_at h q = key n)"
  by (auto simp: located_def key_at_def split: option.splits)

end

end
