(* ===== verification/Tree_Ffwd.thy ===== *)
theory Tree_Ffwd
  imports List_Ffwd Tree_Heap
begin

text \<open>
  \<open>micro-benchmarks/versioning/tree_ffwd.c\<close>: unbalanced search trees, one per server, whose
  operations are delegated to the server \<open>key % MAX_SERVERS\<close>. Every tree hangs below a sentinel
  node with the key \<open>INT_MAX\<close>. \<open>child[0]\<close> is \<open>tchild n False\<close>, \<open>child[1]\<close> is \<open>tchild n True\<close>.

  \<open>MAX_SERVERS\<close> is set when the program is built, hence a parameter, as is the sequence of
  numbers that \<open>rand\<close> returns. \<open>None\<close> is an invalid access or (in \<open>tree_fill\<close>) a loop without
  end.
\<close>

record tnode =
  tvalue :: int
  tchild :: "bool \<Rightarrow> addr"

record rlu_tree =
  troot :: addr

record tree_mem =
  tnodes :: "tnode heap"
  rlu_trees :: "rlu_tree heap"
  tree :: "nat \<Rightarrow> addr"

definition set_tchild :: "bool \<Rightarrow> addr \<Rightarrow> tnode \<Rightarrow> tnode" where
  "set_tchild d q n = n\<lparr> tchild := (tchild n)(d := q) \<rparr>"

definition rlu_new_node :: "int \<Rightarrow> tnode heap \<Rightarrow> (addr \<times> tnode heap) option" where
  "rlu_new_node key h = (let (node, h1) = malloc h in do {
     h2 \<leftarrow> modify h1 node (tvalue_update (\<lambda>_. key));
     h3 \<leftarrow> modify h2 node (set_tchild False NULL);
     h4 \<leftarrow> modify h3 node (set_tchild True NULL);
     Some (node, h4) })"

subsection \<open>Filling the trees\<close>

partial_function (option) init_search ::
  "tnode heap \<Rightarrow> int \<Rightarrow> addr \<Rightarrow> bool \<Rightarrow> addr \<Rightarrow> (addr \<times> bool \<times> addr) option" where
  "init_search h key prev direction cur =
     (if cur = NULL then Some (prev, direction, cur)
      else do { n \<leftarrow> load h cur;
        if key < tvalue n then init_search h key cur False (tchild n False)
        else if tvalue n < key then init_search h key cur True (tchild n True)
        else Some (cur, direction, cur) })"

text \<open>
  The loop that inserts \<open>n\<close> random keys below \<open>root\<close>; \<open>r\<close> counts the calls of \<open>rand\<close>. A key
  that is present is skipped.
\<close>

partial_function (option) tree_fill ::
  "(nat \<Rightarrow> int) \<Rightarrow> int \<Rightarrow> addr \<Rightarrow> int \<Rightarrow> int \<Rightarrow> nat \<Rightarrow> tnode heap \<Rightarrow> (nat \<times> tnode heap) option" where
  "tree_fill rand value_range root n i r h =
     (if i < n then
        if value_range = 0 then None
        else do {
          p \<leftarrow> load h root;
          (prev, direction, cur) \<leftarrow> init_search h (c_mod (rand r) value_range) root False (tchild p False);
          if cur \<noteq> NULL then tree_fill rand value_range root n i (Suc r) h
          else do {
            (new_node, h1) \<leftarrow> rlu_new_node (c_mod (rand r) value_range) h;
            h2 \<leftarrow> modify h1 prev (set_tchild direction new_node);
            tree_fill rand value_range root n (i + 1) (Suc r) h2 } }
      else Some (r, h))"

fun tree_init_loop :: "nat \<Rightarrow> (nat \<Rightarrow> int) \<Rightarrow> int \<Rightarrow> int \<Rightarrow> nat \<Rightarrow> nat \<Rightarrow> nat \<Rightarrow> tree_mem \<Rightarrow>
    (bool \<times> tree_mem) option" where
  "tree_init_loop ms rand init_size value_range j 0 r m = Some (True, m)"
| "tree_init_loop ms rand init_size value_range j (Suc k) r m =
     (let (t, ts1) = malloc (rlu_trees m); m1 = m\<lparr> tree := (tree m)(j := t), rlu_trees := ts1 \<rparr> in
      if t = NULL then Some (False, m1)
      else do {
        (root, h1) \<leftarrow> rlu_new_node INT_MAX (tnodes m1);
        ts2 \<leftarrow> modify (rlu_trees m1) t (troot_update (\<lambda>_. root));
        (r', h2) \<leftarrow> tree_fill rand value_range root (c_div init_size (int ms)) 0 r h1;
        tree_init_loop ms rand init_size value_range (Suc j) k r' (m1\<lparr> rlu_trees := ts2, tnodes := h2 \<rparr>) })"

definition list_global_init_tree :: "nat \<Rightarrow> (nat \<Rightarrow> int) \<Rightarrow> int \<Rightarrow> int \<Rightarrow> tree_mem \<Rightarrow> (addr \<times> tree_mem) option" where
  "list_global_init_tree ms rand init_size value_range m = do {
     (all_built, m') \<leftarrow> tree_init_loop ms rand init_size value_range 0 ms 0 m;
     Some (if all_built then tree m' 0 else NULL, m') }"

subsection \<open>The delegated operations\<close>

text \<open>\<open>tree[key%MAX_SERVERS]->root\<close>: a negative index is out of range.\<close>

definition tree_root :: "nat \<Rightarrow> int \<Rightarrow> tree_mem \<Rightarrow> addr option" where
  "tree_root ms key m =
     (if ms = 0 \<or> c_mod key (int ms) < 0 then None
      else map_option troot (load (rlu_trees m) (tree m (nat (c_mod key (int ms))))))"

partial_function (option) descend ::
  "tnode heap \<Rightarrow> int \<Rightarrow> addr \<Rightarrow> bool \<Rightarrow> addr \<Rightarrow> (addr \<times> bool \<times> addr) option" where
  "descend h key prev direction cur =
     (if cur = NULL then Some (prev, direction, cur)
      else do { n \<leftarrow> load h cur;
        if key < tvalue n then descend h key cur False (tchild n False)
        else if tvalue n < key then descend h key cur True (tchild n True)
        else Some (prev, direction, cur) })"

definition list_ins_ffwd :: "nat \<Rightarrow> int \<Rightarrow> tree_mem \<Rightarrow> (u64 \<times> tree_mem) option" where
  "list_ins_ffwd ms key m = do {
     root \<leftarrow> tree_root ms key m;
     p \<leftarrow> load (tnodes m) root;
     (prev, direction, cur) \<leftarrow> descend (tnodes m) key root False (tchild p False);
     if cur = NULL then do {
       (new_node, h1) \<leftarrow> rlu_new_node key (tnodes m);
       h2 \<leftarrow> modify h1 prev (set_tchild direction new_node);
       Some (1, m\<lparr> tnodes := h2 \<rparr>) }
     else Some (0, m) }"

partial_function (option) succ_loop :: "tnode heap \<Rightarrow> addr \<Rightarrow> addr \<Rightarrow> addr \<Rightarrow> (addr \<times> addr) option" where
  "succ_loop h prev_succ succ follow =
     (if follow = NULL then Some (prev_succ, succ)
      else do { n \<leftarrow> load h follow; succ_loop h succ follow (tchild n False) })"

text \<open>Unlinking a node that was found; the search and the release of the node are around it.\<close>

definition unlink_node :: "tnode heap \<Rightarrow> addr \<Rightarrow> bool \<Rightarrow> addr \<Rightarrow> tnode heap option" where
  "unlink_node h prev direction cur = do {
     c \<leftarrow> load h cur;
     if tchild c False = NULL then modify h prev (set_tchild direction (tchild c True))
     else if tchild c True = NULL then modify h prev (set_tchild direction (tchild c False))
     else do {
       s \<leftarrow> load h (tchild c True);
       (prev_succ, succ) \<leftarrow> succ_loop h cur (tchild c True) (tchild s False);
       h1 \<leftarrow> modify h prev (set_tchild direction succ);
       if prev_succ = cur then modify h1 succ (set_tchild False (tchild c False))
       else do {
         sn \<leftarrow> load h1 succ;
         h2 \<leftarrow> modify h1 prev_succ (set_tchild False (tchild sn True));
         h3 \<leftarrow> modify h2 succ (set_tchild False (tchild c False));
         modify h3 succ (set_tchild True (tchild c True)) } } }"

definition list_del_ffwd :: "nat \<Rightarrow> int \<Rightarrow> tree_mem \<Rightarrow> (u64 \<times> tree_mem) option" where
  "list_del_ffwd ms key m = do {
     root \<leftarrow> tree_root ms key m;
     p \<leftarrow> load (tnodes m) root;
     (prev, direction, cur) \<leftarrow> descend (tnodes m) key root False (tchild p False);
     h1 \<leftarrow> (if cur = NULL then Some (tnodes m) else unlink_node (tnodes m) prev direction cur);
     h2 \<leftarrow> free h1 cur;
     Some (if cur = NULL then 0 else 1, m\<lparr> tnodes := h2 \<rparr>) }"

partial_function (option) tree_find_loop :: "tnode heap \<Rightarrow> int \<Rightarrow> addr \<Rightarrow> addr option" where
  "tree_find_loop h key cur =
     (if cur = NULL then Some cur
      else do { n \<leftarrow> load h cur;
        if key < tvalue n then tree_find_loop h key (tchild n False)
        else if tvalue n < key then tree_find_loop h key (tchild n True)
        else Some cur })"

definition list_find_ffwd :: "nat \<Rightarrow> int \<Rightarrow> tree_mem \<Rightarrow> (u64 \<times> tree_mem) option" where
  "list_find_ffwd ms key m = do {
     root \<leftarrow> tree_root ms key m;
     p \<leftarrow> load (tnodes m) root;
     cur \<leftarrow> tree_find_loop (tnodes m) key (tchild p False);
     Some (if cur = NULL then 0 else 1, m) }"

text \<open>The requests of the clients: server, function and argument.\<close>

definition tree_request :: "nat \<Rightarrow> list_fn \<Rightarrow> int \<Rightarrow> (nat \<times> list_fn \<times> u64 list) option" where
  "tree_request ms f key =
     (if ms = 0 \<or> c_mod key (int ms) < 0 then None else Some (nat (c_mod key (int ms)), f, [of_int key]))"

definition list_ins_tree :: "nat \<Rightarrow> int \<Rightarrow> (nat \<times> list_fn \<times> u64 list) option" where
  "list_ins_tree ms key = tree_request ms Ins key"

definition list_del_tree :: "nat \<Rightarrow> int \<Rightarrow> (nat \<times> list_fn \<times> u64 list) option" where
  "list_del_tree ms key = tree_request ms Del key"

definition list_find_tree :: "nat \<Rightarrow> int \<Rightarrow> (nat \<times> list_fn \<times> u64 list) option" where
  "list_find_tree ms key = tree_request ms Find key"

fun tree_call :: "nat \<Rightarrow> list_fn \<Rightarrow> u64 list \<Rightarrow> tree_mem \<Rightarrow> (u64 \<times> tree_mem) option" where
  "tree_call ms Ins args m = list_ins_ffwd ms (int_arg (hd args)) m"
| "tree_call ms Del args m = list_del_ffwd ms (int_arg (hd args)) m"
| "tree_call ms Find args m = list_find_ffwd ms (int_arg (hd args)) m"

declare init_search.simps [code] tree_fill.simps [code] descend.simps [code] succ_loop.simps [code]
  tree_find_loop.simps [code]

interpretation tn: tree_nodes tchild set_tchild tvalue
  by unfold_locales (auto simp: set_tchild_def)

subsection \<open>Searching\<close>

lemma descend_spec:
  assumes "tn.located h p k ((a, d, s) # c) q t"
  shows "\<exists>a' d' s' c' q' t'. descend h k a d q = Some (a', d', q') \<and>
    tn.located h p k ((a', d', s') # c') q' t' \<and> plug ((a', d', s') # c') t' = plug ((a, d, s) # c) t \<and>
    (t' = Leaf \<or> (q' \<noteq> NULL \<and> tn.key_at h q' = k))"
  using assms
proof (induction t arbitrary: a d s c q)
  case Leaf
  then show ?case using tn.located_NULL [OF Leaf] by (subst descend.simps) fastforce
next
  case (Node l x r)
  from tn.located_load [OF Node.prems] obtain n where n: "x = q" "load h q = Some n" "tn.key_at h q = tvalue n" by blast
  then have q: "q \<noteq> NULL" by auto
  consider (l) "k < tvalue n" | (r) "tvalue n < k" | (eq) "tvalue n = k" by linarith
  then show ?case
  proof cases
    case l
    from Node.IH(1) [OF tn.located_left [OF Node.prems n(2) l]] l n q show ?thesis
      by (subst descend.simps) (simp add: plug.simps(2))
  next
    case r
    from Node.IH(2) [OF tn.located_right [OF Node.prems n(2) r]] r n q show ?thesis
      by (subst descend.simps) (simp add: plug.simps(2))
  next
    case eq
    then have "descend h k a d q = Some (a, d, q)" using n q by (subst descend.simps) simp
    with Node.prems eq n q show ?thesis by blast
  qed
qed

text \<open>
  The other two loops take the same path: the one that fills the trees differs in what it leaves
  in \<open>prev\<close> when the key is found, the one of \<open>list_find_ffwd\<close> keeps only the node.
\<close>

lemma descend_others:
  assumes "tn.located h p k ((a, d, s) # c) q t" and "descend h k a d q = Some (a', d', q')"
  shows "init_search h k a d q = Some (if q' = NULL then a' else q', d', q') \<and> tree_find_loop h k q = Some q'"
  using assms
proof (induction t arbitrary: a d s c q)
  case Leaf
  then show ?case using tn.located_NULL [OF Leaf(1)]
    by (simp add: descend.simps init_search.simps tree_find_loop.simps)
next
  case (Node l x r)
  from tn.located_load [OF Node.prems(1)] obtain n where n: "x = q" "load h q = Some n" "tn.key_at h q = tvalue n" by blast
  then have q: "q \<noteq> NULL" by auto
  note unfold = init_search.simps [of h k a d q] tree_find_loop.simps [of h k q]
  consider (l) "k < tvalue n" | (r) "tvalue n < k" | (eq) "tvalue n = k" by linarith
  then show ?case
  proof cases
    case l
    with Node.prems(2) n q have "descend h k q False (tchild n False) = Some (a', d', q')"
      by (subst (asm) descend.simps) simp
    from Node.IH(1) [OF tn.located_left [OF Node.prems(1) n(2) l, unfolded n(1)] this] l n q show ?thesis
      unfolding unfold by simp
  next
    case r
    with Node.prems(2) n q have "descend h k q True (tchild n True) = Some (a', d', q')"
      by (subst (asm) descend.simps) simp
    from Node.IH(2) [OF tn.located_right [OF Node.prems(1) n(2) r, unfolded n(1)] this] r n q show ?thesis
      unfolding unfold by simp
  next
    case eq
    with Node.prems(2) n q have "a' = a" "d' = d" "q' = q" by (subst (asm) descend.simps, simp)+
    with eq n q show ?thesis unfolding unfold by simp
  qed
qed

subsection \<open>Linking and unlinking a node\<close>

lemma rlu_new_node_eq:
  assumes "heap_ok h" "malloc h = (x, h')" "x \<noteq> NULL"
  shows "rlu_new_node k h = Some (x, upd h x \<lparr> tvalue = k, tchild = (\<lambda>_. NULL) \<rparr>)" "load h x = None"
proof -
  from assms show "load h x = None" by (elim malloc_cases) auto
  have "(((f :: bool \<Rightarrow> addr)(False := NULL))(True := NULL)) = (\<lambda>_. NULL)" for f
    by (auto simp: fun_eq_iff split: if_splits)
  moreover have rec: "n\<lparr> tvalue := k, tchild := f \<rparr> = \<lparr> tvalue = k, tchild = f \<rparr>" for n f
    by (cases n) simp
  ultimately show "rlu_new_node k h = Some (x, upd h x \<lparr> tvalue = k, tchild = (\<lambda>_. NULL) \<rparr>)"
    using assms by (elim malloc_cases) (auto simp: rlu_new_node_def heap_simps set_tchild_def rec)
qed

lemma rlu_new_node_fails: "\<not> malloc_succeeds h \<Longrightarrow> rlu_new_node k h = None"
  by (simp add: rlu_new_node_def malloc_succeeds_def malloc_def heap_simps)

lemma link_node:
  assumes loc: "tn.located h p k ((a, d, s) # c) NULL Leaf" and x: "x \<noteq> NULL" "load h x = None" and ok: "heap_ok h"
    and h1: "h1 = upd h x \<lparr> tvalue = k, tchild = (\<lambda>_. NULL) \<rparr>"
  shows "\<exists>h2. modify h1 a (set_tchild d x) = Some h2 \<and> heap_ok h2 \<and> policy h2 = policy h \<and>
    dom (cells h2) = insert x (dom (cells h)) \<and>
    tn.bst_at h2 p (plug ((a, d, s) # c) (Node Leaf x Leaf)) \<and>
    (\<forall>b. b \<noteq> x \<longrightarrow> tn.key_at h2 b = tn.key_at h b) \<and> tn.key_at h2 x = k \<and>
    (\<forall>b. b \<noteq> x \<and> b \<notin> set (inorder (plug ((a, d, s) # c) Leaf)) \<longrightarrow> load h2 b = load h b)"
proof -
  let ?C = "(a, d, s) # c"
  from loc obtain n where n: "load h a = Some n" by (auto simp: tn.located_def split: option.splits)
  have bst: "tn.bst_at h p (plug ?C Leaf)" by (rule tn.located_bst [OF loc])
  note dist = tn.ctx_redirect_distinct [OF tn.bst_distinct [OF bst]]
  have "\<And>b. b \<in> set (inorder (plug ?C Leaf)) \<Longrightarrow> \<exists>n. load h b = Some n"
    using bst tn.tree_at_loaded unfolding tn.bst_at_def by blast
  then have fresh: "x \<notin> ctx_nodes ?C" using x by fastforce
  have xa: "x \<noteq> a" using n x by auto
  let ?h2 = "upd h1 a (set_tchild d x n)"
  have l1: "load h1 a = Some n" using xa n by (simp add: h1 heap_simps)
  have m: "modify h1 a (set_tchild d x) = Some ?h2" using l1 by (simp add: heap_simps)
  have key: "tn.key_at ?h2 x = k" "\<And>b. b \<noteq> x \<Longrightarrow> tn.key_at ?h2 b = tn.key_at h b"
    using x l1 n by (auto simp: tn.key_at_def heap_simps h1 set_tchild_def)
  have "tn.ctx_at h1 p ?C NULL" using loc fresh unfolding tn.located_def h1 by (subst tn.ctx_at_upd) auto
  from tn.ctx_at_redirect [OF this l1 dist(1,2)] have "tn.ctx_at ?h2 p ?C x" .
  moreover have "tn.tree_at ?h2 x (Node Leaf x Leaf)" using x xa by (auto simp: h1 heap_simps)
  ultimately have t: "tn.tree_at ?h2 p (plug ?C (Node Leaf x Leaf))" unfolding tn.tree_at_plug by blast
  have k: "tn.keys_at ?h2 (before ?C) = tn.keys_at h (before ?C)" "tn.keys_at ?h2 (after ?C) = tn.keys_at h (after ?C)"
    using fresh key(2) unfolding map_eq_conv by (metis UnCI)+
  have so: "sorted_wrt (<) (tn.keys_at ?h2 (inorder (plug ?C (Node Leaf x Leaf))))"
    using loc unfolding inorder_plug map_append k
    by (simp only: inorder.simps list.map append.simps key sorted_wrt_less_append_iff)
       (auto simp: tn.located_def)
  have "load ?h2 b = load h b" if "b \<noteq> x" "b \<notin> set (inorder (plug ?C Leaf))" for b
    using that by (auto simp: h1 heap_simps split: if_splits)
  moreover have "dom (cells ?h2) = insert x (dom (cells h))"
    using n by (auto simp: h1 heap_simps load_def split: if_splits)
  ultimately show ?thesis using m t so key ok x n by (auto simp: tn.bst_at_def h1)
qed

lemma succ_loop_spec:
  assumes "tn.tree_at h x (Node l x r)" and "load h x = Some n"
  shows "\<exists>ps s c r'. succ_loop h prev x (tchild n False) = Some (ps, s) \<and>
    Node l x r = plug c (Node Leaf s r') \<and> before c = [] \<and>
    (c = [] \<and> ps = prev \<or> (\<exists>sib c'. c = (ps, False, sib) # c'))"
  using assms
proof (induction l arbitrary: prev x r n)
  case Leaf
  then have "succ_loop h prev x (tchild n False) = Some (prev, x)" by (subst succ_loop.simps) auto
  moreover have "Node Leaf x r = plug [] (Node Leaf x r)" by simp
  ultimately show ?case by (metis before.simps(1))
next
  case (Node l1 y r1)
  then obtain n' where n': "tchild n False = y" "y \<noteq> NULL" "load h y = Some n'" "tn.tree_at h y (Node l1 y r1)"
    by (auto split: option.splits)
  from Node.IH(1) [OF n'(4,3), of x] obtain ps s c r' where
    IH: "succ_loop h x y (tchild n' False) = Some (ps, s)" "Node l1 y r1 = plug c (Node Leaf s r')" "before c = []"
    "c = [] \<and> ps = x \<or> (\<exists>sib c'. c = (ps, False, sib) # c')" by blast
  have "succ_loop h prev x (tchild n False) = Some (ps, s)" using n' IH(1) by (subst succ_loop.simps) simp
  moreover have "Node (Node l1 y r1) x r = plug (c @ [(x, False, r)]) (Node Leaf s r')"
    using IH(2) by (simp add: plug.simps(2))
  moreover have "before (c @ [(x, False, r)]) = []" using IH(3) by simp
  moreover have "\<exists>sib c'. c @ [(x, False, r)] = (ps, False, sib) # c'" using IH(4) by (elim disjE exE) auto
  ultimately show ?case by metis
qed

text \<open>What unlinking keeps: the keys, the allocated nodes, and all nodes outside of the tree.\<close>

definition rewired :: "tnode heap \<Rightarrow> addr set \<Rightarrow> tnode heap \<Rightarrow> bool" where
  "rewired h A h' \<longleftrightarrow> heap_ok h' \<and> policy h' = policy h \<and> dom (cells h') = dom (cells h) \<and>
     tn.key_at h' = tn.key_at h \<and> (\<forall>b. b \<notin> A \<longrightarrow> load h' b = load h b)"

lemma rewired_refl: "heap_ok h \<Longrightarrow> rewired h A h"
  by (simp add: rewired_def)

lemma rewired_step:
  assumes "rewired h A h1" "load h1 a = Some n" "a \<in> A"
  shows "rewired h A (upd h1 a (set_tchild d q n))"
proof -
  have "a \<noteq> NULL" "cells h1 a = Some n" using assms(2) by (auto simp: load_def split: if_splits)
  with assms show ?thesis unfolding rewired_def tn.key_at_upd_child [OF assms(2)]
    by (auto simp: heap_simps)
qed

lemma unlink_spec:
  assumes loc: "tn.located h p k ((a, d, s) # c) q (Node l q r)" and ok: "heap_ok h"
  shows "\<exists>h1 t. unlink_node h a d q = Some h1 \<and> inorder t = inorder l @ inorder r \<and>
    tn.tree_at h1 p (plug ((a, d, s) # c) t) \<and>
    rewired h (set (inorder (plug ((a, d, s) # c) (Node l q r)))) h1"
proof -
  let ?C = "(a, d, s) # c" and ?A = "set (inorder (plug ((a, d, s) # c) (Node l q r)))"
  from loc obtain na where na: "load h a = Some na" by (auto simp: tn.located_def split: option.splits)
  from loc obtain nq where nq: "load h q = Some nq" and q: "q \<noteq> NULL"
    and lr: "tn.tree_at h (tchild nq False) l" "tn.tree_at h (tchild nq True) r"
    by (auto simp: tn.located_def split: option.splits)
  have ctx: "tn.ctx_at h p ?C q" using loc by (simp add: tn.located_def)
  have dist: "distinct (inorder (plug ?C (Node l q r)))" by (rule tn.bst_distinct [OF tn.located_bst [OF loc]])
  note red = tn.ctx_redirect_distinct [OF dist]
  have aA: "a \<in> ?A" by auto
  have C1: "tn.ctx_at (upd h a (set_tchild d x na)) p ?C x" for x
    by (rule tn.ctx_at_redirect [OF ctx na red(1,2)])
  have al: "a \<notin> set (inorder l)" "a \<notin> set (inorder r)" "a \<noteq> q" using red(3) by auto
  note r1 = rewired_step [OF rewired_refl [OF ok] na aA]
  consider (l) "l = Leaf" | (r) "l \<noteq> Leaf" "r = Leaf" | (both) "l \<noteq> Leaf" "r \<noteq> Leaf" by blast
  then show ?thesis
  proof cases
    case l
    with lr nq na have "unlink_node h a d q = Some (upd h a (set_tchild d (tchild nq True) na))"
      by (simp add: unlink_node_def heap_simps)
    moreover have "tn.tree_at (upd h a (set_tchild d (tchild nq True) na)) p (plug ?C r)"
      unfolding tn.tree_at_plug using C1 lr al by auto
    ultimately show ?thesis using r1 l by fastforce
  next
    case r
    with lr nq na have "unlink_node h a d q = Some (upd h a (set_tchild d (tchild nq False) na))"
      by (cases l) (auto simp: unlink_node_def heap_simps split: option.splits)
    moreover have "tn.tree_at (upd h a (set_tchild d (tchild nq False) na)) p (plug ?C l)"
      unfolding tn.tree_at_plug using C1 lr al by auto
    ultimately show ?thesis using r1 r by fastforce
  next
    case both
    from both(2) lr(2) obtain rl rr y ny where y: "r = Node rl y rr" "tchild nq True = y" "load h y = Some ny" "y \<noteq> NULL"
      by (cases r) (auto split: option.splits)
    have lnz: "tchild nq False \<noteq> NULL" using both(1) lr(1) by (cases l) (auto split: option.splits)
    from succ_loop_spec [of h y rl rr ny q] lr(2) y obtain ps x c2 r' where
      sl: "succ_loop h q y (tchild ny False) = Some (ps, x)" and r: "r = plug c2 (Node Leaf x r')" "before c2 = []"
      and c2: "c2 = [] \<and> ps = q \<or> (\<exists>sib c'. c2 = (ps, False, sib) # c')" by auto
    have ir: "inorder r = x # inorder r' @ after c2" using r by simp
    from lr(2)[unfolded r(1) tn.tree_at_plug] obtain nx where
      x: "tn.ctx_at h y c2 x" "load h x = Some nx" "tchild nx False = NULL" "tn.tree_at h (tchild nx True) r'"
      using y(2) by (auto split: option.splits)
    have xa: "x \<noteq> a" and xC: "x \<notin> ctx_nodes ?C" and xl: "x \<notin> set (inorder l)" and xr: "x \<notin> set (inorder r')" "x \<notin> ctx_nodes c2"
      using dist ir al r(2) by (auto simp: inorder_plug)
    have xz: "x \<noteq> NULL" using x(2) by auto
    let ?h1 = "upd h a (set_tchild d x na)"
    have x1: "load ?h1 x = Some nx" using xa x by (simp add: heap_simps)
    from c2 show ?thesis
    proof
      assume e: "c2 = [] \<and> ps = q"
      let ?h2 = "upd ?h1 x (set_tchild False (tchild nq False) nx)"
      have "unlink_node h a d q = Some ?h2"
        using nq y lnz sl e na x1 by (simp add: unlink_node_def heap_simps)
      moreover have "tn.tree_at ?h2 p (plug ?C (Node l x r'))"
      proof -
        have "tn.ctx_at ?h2 p ?C x" unfolding tn.ctx_at_upd [OF xC] by (rule C1)
        moreover have "tn.tree_at ?h2 x (Node l x r')" using x(4) x1 xl xr al ir lr by (auto simp: heap_simps)
        ultimately show ?thesis unfolding tn.tree_at_plug by blast
      qed
      moreover have "rewired h ?A ?h2" using rewired_step [OF r1 x1] ir by simp
      moreover have "inorder (Node l x r') = inorder l @ inorder r" using ir e by simp
      ultimately show ?thesis by metis
    next
      assume "\<exists>sib c'. c2 = (ps, False, sib) # c'"
      then obtain sib c' where e: "c2 = (ps, False, sib) # c'" by blast
      have dc2: "distinct (inorder (plug c2 (Node Leaf x r')))" using dist unfolding r(1) [symmetric] inorder_plug by simp
      have psq: "ps \<noteq> q" "ps \<noteq> a" "ps \<noteq> x" "ps \<notin> ctx_nodes ?C" "ps \<notin> set (inorder l)" "ps \<notin> set (inorder r')" "ps \<in> set (after c2)"
        using dist al ir e r(2) by (auto simp: inorder_plug)
      obtain np where np: "load h ps = Some np" using x(1) e by (auto split: option.splits)
      let ?h2 = "upd ?h1 ps (set_tchild False (tchild nx True) np)"
      have p1: "load ?h1 ps = Some np" using np psq by (simp add: heap_simps)
      have x2: "load ?h2 x = Some nx" using x1 psq(3) by (simp add: heap_simps)
      let ?nx = "set_tchild True y (set_tchild False (tchild nq False) nx)"
      let ?h4 = "upd ?h2 x ?nx"
      have "unlink_node h a d q = Some ?h4"
        using nq y lnz sl psq(1) na x1 p1 x2 xz by (simp add: unlink_node_def heap_simps)
      moreover have "tn.tree_at ?h4 p (plug ?C (Node l x (plug c2 r')))"
      proof -
        have "tn.ctx_at ?h1 y c2 x" using x(1) al ir r(2) by (subst tn.ctx_at_upd) auto
        from tn.ctx_at_redirect [OF this [unfolded e] p1, of "tchild nx True"] tn.ctx_redirect_distinct [OF dc2 [unfolded e]]
        have "tn.ctx_at ?h2 y c2 (tchild nx True)" unfolding e by blast
        moreover have "tn.tree_at ?h2 (tchild nx True) r'" using x(4) psq(6) al ir by simp
        ultimately have "tn.tree_at ?h2 y (plug c2 r')" unfolding tn.tree_at_plug by blast
        then have "tn.tree_at ?h4 y (plug c2 r')" using xr by simp
        moreover have "tn.tree_at ?h4 (tchild nq False) l" using lr(1) al xl psq(5) by simp
        moreover have "load ?h4 x = Some ?nx" using xz by (simp add: heap_simps)
        ultimately have "tn.tree_at ?h4 x (Node l x (plug c2 r'))" by simp
        moreover have "tn.ctx_at ?h4 p ?C x" unfolding tn.ctx_at_upd [OF xC] tn.ctx_at_upd [OF psq(4)] by (rule C1)
        ultimately show ?thesis unfolding tn.tree_at_plug by blast
      qed
      moreover have "rewired h ?A ?h4"
      proof -
        have A: "ps \<in> ?A" "x \<in> ?A" using psq(7) ir r(2) by auto
        let ?n1 = "set_tchild False (tchild nq False) nx"
        have "rewired h ?A (upd ?h2 x ?n1)" by (rule rewired_step [OF rewired_step [OF r1 p1 A(1)] x2 A(2)])
        moreover have "load (upd ?h2 x ?n1) x = Some ?n1" using xz by (simp add: heap_simps)
        ultimately show ?thesis using rewired_step [of h ?A "upd ?h2 x ?n1" x ?n1 True y] A(2) by (simp add: heap_simps)
      qed
      moreover have "inorder (Node l x (plug c2 r')) = inorder l @ inorder r" using ir r(2) by simp
      ultimately show ?thesis by metis
    qed
  qed
qed

subsection \<open>A tree below its sentinel\<close>

definition root_tree :: "tnode heap \<Rightarrow> addr \<Rightarrow> addr tree \<Rightarrow> bool" where
  "root_tree h rt T \<longleftrightarrow> heap_ok h \<and> T \<noteq> Leaf \<and> tn.bst_at h rt T \<and> tn.key_at h rt = INT_MAX \<and>
     (\<forall>a \<in> set (inorder T). tn.key_at h a \<le> INT_MAX)"

definition tree_keys :: "tnode heap \<Rightarrow> addr tree \<Rightarrow> int set" where
  "tree_keys h T = tn.key_at h ` set (inorder T) - {INT_MAX}"

lemma root_tree_shape:
  assumes "root_tree h rt T"
  obtains t n where "T = Node t rt Leaf" "load h rt = Some n"
proof -
  from assms obtain t r where T: "T = Node t rt r" and bst: "tn.bst_at h rt (Node t rt r)"
    by (cases T) (auto simp: root_tree_def tn.bst_at_def)
  have "r = Leaf"
  proof (rule ccontr)
    assume "r \<noteq> Leaf"
    then obtain x where "x \<in> set (inorder r)" by (cases r) auto
    with bst have "tn.key_at h rt < tn.key_at h x" by (auto simp: tn.bst_at_def sorted_wrt_append)
    moreover have "tn.key_at h x \<le> tn.key_at h rt"
      using assms \<open>x \<in> _\<close> unfolding root_tree_def T by simp
    ultimately show False by simp
  qed
  with T bst that show ?thesis by (auto simp: tn.bst_at_def split: option.splits)
qed

lemma root_tree_root: "root_tree h rt T \<Longrightarrow> rt \<in> set (inorder T)"
  by (rule root_tree_shape) auto

lemma tree_search:
  assumes rt: "root_tree h rt T" and k: "k < INT_MAX" and n: "load h rt = Some n"
  shows "\<exists>a d s c q t. descend h k rt False (tchild n False) = Some (a, d, q) \<and>
    init_search h k rt False (tchild n False) = Some (if q = NULL then a else q, d, q) \<and>
    tree_find_loop h k (tchild n False) = Some q \<and>
    tn.located h rt k ((a, d, s) # c) q t \<and> plug ((a, d, s) # c) t = T \<and>
    (if k \<in> tree_keys h T then q \<noteq> NULL \<and> (\<exists>l r. t = Node l q r) \<and> tn.key_at h q = k
     else q = NULL \<and> t = Leaf)"
proof -
  from rt obtain t where T: "T = Node t rt Leaf" using root_tree_shape by blast
  have loc: "tn.located h rt k [(rt, False, Leaf)] (tchild n False) t"
    using rt k n unfolding root_tree_def tn.located_def T
    by (auto simp: tn.bst_at_def plug.simps(2) sorted_wrt_append)
  from descend_spec [OF loc] obtain a d s c q t' where
    D: "descend h k rt False (tchild n False) = Some (a, d, q)" "tn.located h rt k ((a, d, s) # c) q t'"
    "plug ((a, d, s) # c) t' = T" "t' = Leaf \<or> (q \<noteq> NULL \<and> tn.key_at h q = k)"
    by (auto simp: T plug.simps(2))
  have "if k \<in> tree_keys h T then q \<noteq> NULL \<and> (\<exists>l r. t' = Node l q r) \<and> tn.key_at h q = k
     else q = NULL \<and> t' = Leaf"
  proof (cases t')
    case Leaf
    then have "k \<notin> tn.key_at h ` set (inorder T)" using tn.located_absent D(2,3) by metis
    with Leaf tn.located_NULL [OF D(2)] show ?thesis by (simp add: tree_keys_def)
  next
    case (Node l x r)
    with D tn.located_load [of h rt k _ q l x r] have "x = q" "tn.key_at h q = k" by auto
    moreover from this have "k \<in> tn.key_at h ` set (inorder T)" using Node D(2,3) tn.located_present by metis
    ultimately show ?thesis using Node k tn.located_NULL [OF D(2)] by (simp add: tree_keys_def)
  qed
  with D descend_others [OF loc D(1)] show ?thesis by metis
qed

lemma root_tree_link:
  assumes rt: "root_tree h rt T" and k: "k < INT_MAX" and loc: "tn.located h rt k ((a, d, s) # c) NULL Leaf"
    and T: "plug ((a, d, s) # c) Leaf = T" and m: "malloc_succeeds h"
  shows "\<exists>x h1 h2 T2. rlu_new_node k h = Some (x, h1) \<and> modify h1 a (set_tchild d x) = Some h2 \<and>
    root_tree h2 rt T2 \<and> tree_keys h2 T2 = insert k (tree_keys h T) \<and> x \<notin> dom (cells h) \<and>
    set (inorder T2) = insert x (set (inorder T)) \<and> policy h2 = policy h \<and> dom (cells h2) = insert x (dom (cells h)) \<and>
    (\<forall>b. b \<noteq> x \<and> b \<notin> set (inorder T) \<longrightarrow> load h2 b = load h b)"
proof -
  have ok: "heap_ok h" using rt by (simp add: root_tree_def)
  obtain x h' where mal: "malloc h = (x, h')" by fastforce
  have x: "x \<noteq> NULL" using malloc_succeedsD [OF m mal] .
  note new = rlu_new_node_eq [OF ok mal x]
  from link_node [OF loc x new(2) ok refl] obtain h2 where h2:
    "modify (upd h x \<lparr>tvalue = k, tchild = \<lambda>_. 0\<rparr>) a (set_tchild d x) = Some h2" "heap_ok h2" "policy h2 = policy h"
    "dom (cells h2) = insert x (dom (cells h))" "tn.bst_at h2 rt (plug ((a, d, s) # c) (Node Leaf x Leaf))"
    "\<forall>b. b \<noteq> x \<longrightarrow> tn.key_at h2 b = tn.key_at h b" "tn.key_at h2 x = k"
    "\<forall>b. b \<noteq> x \<and> b \<notin> set (inorder (plug ((a, d, s) # c) Leaf)) \<longrightarrow> load h2 b = load h b" by blast
  let ?T2 = "plug ((a, d, s) # c) (Node Leaf x Leaf)"
  have set: "set (inorder ?T2) = insert x (set (inorder T))" using T by auto
  have "\<exists>n. load h b = Some n" if "b \<in> set (inorder T)" for b
    using rt that tn.tree_at_loaded unfolding root_tree_def tn.bst_at_def by blast
  then have xT: "x \<notin> set (inorder T)" using new(2) by fastforce
  have xrt: "rt \<noteq> x" using xT root_tree_root [OF rt] by blast
  have rt2: "root_tree h2 rt ?T2"
    unfolding root_tree_def
  proof (intro conjI)
    show "?T2 \<noteq> Leaf" using set by (metis inorder.simps(1) set_empty insert_not_empty)
    show "tn.key_at h2 rt = INT_MAX" using h2(6) xrt rt by (auto simp: root_tree_def)
    show "\<forall>b \<in> set (inorder ?T2). tn.key_at h2 b \<le> INT_MAX"
      unfolding set using h2(6,7) rt k xT by (metis insert_iff less_imp_le root_tree_def)
  qed (use h2 in auto)
  have img: "tn.key_at h2 ` set (inorder T) = tn.key_at h ` set (inorder T)"
    by (rule image_cong [OF refl]) (use h2(6) xT in metis)
  have "tree_keys h2 ?T2 = insert k (tree_keys h T)"
    unfolding tree_keys_def set image_insert img using h2(7) k by auto
  moreover have "x \<notin> dom (cells h)" using new(2) ok by (auto simp: load_cells)
  ultimately show ?thesis using new(1) h2(1,3,4,8) rt2 set T by metis
qed

lemma root_tree_unlink:
  assumes rt: "root_tree h rt T" and k: "k < INT_MAX" and loc: "tn.located h rt k ((a, d, s) # c) q (Node l q r)"
    and T: "plug ((a, d, s) # c) (Node l q r) = T" and kq: "tn.key_at h q = k"
  shows "\<exists>h1 T2. unlink_node h a d q = Some h1 \<and> free h1 q = Some (del h1 q) \<and>
    root_tree (del h1 q) rt T2 \<and> tree_keys (del h1 q) T2 = tree_keys h T - {k} \<and> q \<in> dom (cells h) \<and>
    set (inorder T2) = set (inorder T) - {q} \<and> policy h1 = policy h \<and> dom (cells h1) = dom (cells h) \<and>
    (\<forall>b. b \<notin> set (inorder T) \<longrightarrow> load (del h1 q) b = load h b)"
proof -
  have ok: "heap_ok h" using rt by (simp add: root_tree_def)
  from unlink_spec [OF loc ok] obtain h1 t where u: "unlink_node h a d q = Some h1" "inorder t = inorder l @ inorder r"
    "tn.tree_at h1 rt (plug ((a, d, s) # c) t)" "rewired h (set (inorder T)) h1" unfolding T by blast
  let ?T2 = "plug ((a, d, s) # c) t" and ?h2 = "del h1 q"
  obtain n where n: "load h q = Some n" using tn.located_load [OF loc] by blast
  have key: "tn.key_at h1 = tn.key_at h" and ok1: "heap_ok h1" and dom: "dom (cells h1) = dom (cells h)"
    using u(4) by (auto simp: rewired_def)
  have d0: "distinct (inorder T)" using tn.bst_distinct tn.located_bst [OF loc] unfolding T by blast
  have iT: "inorder T = before ((a, d, s) # c) @ inorder l @ q # inorder r @ after ((a, d, s) # c)"
    unfolding T [symmetric] inorder_plug by simp
  have iT2: "inorder ?T2 = before ((a, d, s) # c) @ inorder l @ inorder r @ after ((a, d, s) # c)"
    unfolding inorder_plug u(2) by simp
  have set: "set (inorder ?T2) = set (inorder T) - {q}" using d0 unfolding iT iT2 by auto
  then have qT2: "q \<notin> set (inorder ?T2)" by simp
  have "load h1 q \<noteq> None" using n dom ok1 ok by (auto simp: load_cells dom_def)
  then have fr: "free h1 q = Some ?h2" using free_eq by fastforce
  have k2: "tn.key_at ?h2 b = tn.key_at h b" if "b \<noteq> q" for b
    using that key by (simp add: tn.key_at_def heap_simps fun_eq_iff)
  have img: "tn.key_at ?h2 ` set (inorder ?T2) = tn.key_at h ` set (inorder ?T2)"
    by (rule image_cong [OF refl]) (use k2 qT2 in metis)
  have kinj: "tn.key_at h b \<noteq> k" if "b \<in> set (inorder ?T2)" for b
  proof -
    have "distinct (tn.keys_at h (inorder T))"
      using tn.located_bst [OF loc] unfolding T tn.bst_at_def by (simp add: strict_sorted_iff)
    then have "inj_on (tn.key_at h) (set (inorder T))" unfolding distinct_map by blast
    moreover have "q \<in> set (inorder T)" unfolding iT by simp
    ultimately show ?thesis using that kq unfolding set by (metis DiffD1 DiffD2 inj_onD singletonI)
  qed
  have rtT: "rt \<in> set (inorder T)" "rt \<noteq> q"
    using root_tree_root [OF rt] rt k kq by (auto simp: root_tree_def)
  have rt2: "root_tree ?h2 rt ?T2"
    unfolding root_tree_def
  proof (intro conjI)
    have "rt \<in> set (inorder ?T2)" using rtT unfolding set by simp
    then show "?T2 \<noteq> Leaf" by (metis empty_iff empty_set inorder.simps(1))
    show "tn.key_at ?h2 rt = INT_MAX" using k2 rtT rt by (auto simp: root_tree_def)
    show "\<forall>b \<in> set (inorder ?T2). tn.key_at ?h2 b \<le> INT_MAX"
      using k2 rt unfolding set by (auto simp: root_tree_def)
    have m: "tn.keys_at ?h2 (inorder ?T2) = tn.keys_at h (inorder ?T2)"
      using k2 qT2 unfolding map_eq_conv by metis
    have "sorted_wrt (<) (tn.keys_at h (inorder ?T2))"
      using tn.located_bst [OF loc] unfolding T tn.bst_at_def iT iT2 by (auto simp: sorted_wrt_append)
    then show "tn.bst_at ?h2 rt ?T2" using u(3) qT2 m unfolding tn.bst_at_def by (simp only: tn.tree_at_del not_False_eq_True)
  qed (use ok1 in simp)
  have "tree_keys ?h2 ?T2 = tree_keys h T - {k}"
    unfolding tree_keys_def img using kinj set kq by auto
  moreover have "q \<in> dom (cells h)" using n ok by (auto simp: load_cells)
  moreover have "load ?h2 b = load h b" if "b \<notin> set (inorder T)" for b
    using that u(4) iT by (auto simp: heap_simps rewired_def)
  moreover have "policy h1 = policy h" using u(4) by (simp add: rewired_def)
  ultimately show ?thesis using u(1) fr rt2 set dom by metis
qed

subsection \<open>The operations\<close>

definition tree_rep :: "tree_mem \<Rightarrow> nat \<Rightarrow> addr \<Rightarrow> addr tree \<Rightarrow> bool" where
  "tree_rep m v rt T \<longleftrightarrow> map_option troot (load (rlu_trees m) (tree m v)) = Some rt \<and> root_tree (tnodes m) rt T"

definition tree_ok :: "nat \<Rightarrow> tree_mem \<Rightarrow> bool" where
  "tree_ok v m \<longleftrightarrow> (\<exists>rt T. tree_rep m v rt T)"

definition tree_abs :: "nat \<Rightarrow> tree_mem \<Rightarrow> int set" where
  "tree_abs v m = {k. \<exists>rt T. tree_rep m v rt T \<and> k \<in> tree_keys (tnodes m) T}"

lemma tree_rep_det: "tree_rep m v rt T \<Longrightarrow> tree_rep m v rt' T' \<Longrightarrow> T' = T"
  unfolding tree_rep_def root_tree_def tn.bst_at_def using tn.tree_at_det by (metis option.inject)

lemma tree_abs_eq: "tree_rep m v rt T \<Longrightarrow> tree_abs v m = tree_keys (tnodes m) T"
  using tree_rep_det unfolding tree_abs_def by blast

text \<open>The keys of server \<open>v\<close>.\<close>

definition own_key :: "nat \<Rightarrow> nat \<Rightarrow> int \<Rightarrow> bool" where
  "own_key ms v k \<longleftrightarrow> 0 < ms \<and> k < INT_MAX \<and> c_mod k (int ms) = int v"

lemma tree_root_own: "own_key ms v k \<Longrightarrow> tree_root ms k m = map_option troot (load (rlu_trees m) (tree m v))"
  by (simp add: tree_root_def own_key_def)

lemma tree_find:
  assumes "tree_ok v m" "own_key ms v k"
  shows "list_find_ffwd ms k m = Some (if k \<in> tree_abs v m then 1 else 0, m)"
proof -
  from assms obtain rt T where rep: "tree_rep m v rt T" by (auto simp: tree_ok_def)
  then have rt: "tree_root ms k m = Some rt" "root_tree (tnodes m) rt T"
    using tree_root_own [OF assms(2)] by (auto simp: tree_rep_def)
  have k: "k < INT_MAX" using assms(2) by (simp add: own_key_def)
  obtain n where n: "load (tnodes m) rt = Some n" using root_tree_shape [OF rt(2)] by blast
  from tree_search [OF rt(2) k n] obtain q where "tree_find_loop (tnodes m) k (tchild n False) = Some q"
    "q = NULL \<longleftrightarrow> k \<notin> tree_keys (tnodes m) T" by (auto split: if_splits)
  then show ?thesis using rt n by (simp add: list_find_ffwd_def tree_abs_eq [OF rep])
qed

lemma tree_ins:
  assumes "tree_ok v m" "own_key ms v k"
  shows "k \<in> tree_abs v m \<Longrightarrow> list_ins_ffwd ms k m = Some (0, m)"
    and "k \<notin> tree_abs v m \<Longrightarrow> malloc_succeeds (tnodes m) \<Longrightarrow>
      \<exists>m'. list_ins_ffwd ms k m = Some (1, m') \<and> tree_ok v m' \<and> tree_abs v m' = insert k (tree_abs v m)"
    and "k \<notin> tree_abs v m \<Longrightarrow> \<not> malloc_succeeds (tnodes m) \<Longrightarrow> list_ins_ffwd ms k m = None"
proof -
  from assms obtain rt T where rep: "tree_rep m v rt T" by (auto simp: tree_ok_def)
  then have rt: "tree_root ms k m = Some rt" "root_tree (tnodes m) rt T"
    using tree_root_own [OF assms(2)] by (auto simp: tree_rep_def)
  have k: "k < INT_MAX" using assms(2) by (simp add: own_key_def)
  obtain n where n: "load (tnodes m) rt = Some n" using root_tree_shape [OF rt(2)] by blast
  from tree_search [OF rt(2) k n] obtain a d s c q t where
    D: "descend (tnodes m) k rt False (tchild n False) = Some (a, d, q)"
    "tn.located (tnodes m) rt k ((a, d, s) # c) q t" "plug ((a, d, s) # c) t = T"
    "if k \<in> tree_keys (tnodes m) T then q \<noteq> NULL \<and> (\<exists>l r. t = Node l q r) \<and> tn.key_at (tnodes m) q = k
     else q = NULL \<and> t = Leaf"
    by blast
  show "list_ins_ffwd ms k m = Some (0, m)" if "k \<in> tree_abs v m"
    using D(1,4) that rt n by (simp add: list_ins_ffwd_def tree_abs_eq [OF rep])
  show "list_ins_ffwd ms k m = None" if "k \<notin> tree_abs v m" "\<not> malloc_succeeds (tnodes m)"
    using D(1,4) that rt n by (simp add: list_ins_ffwd_def tree_abs_eq [OF rep] rlu_new_node_fails)
  show "\<exists>m'. list_ins_ffwd ms k m = Some (1, m') \<and> tree_ok v m' \<and> tree_abs v m' = insert k (tree_abs v m)"
    if nk: "k \<notin> tree_abs v m" and mal: "malloc_succeeds (tnodes m)"
  proof -
    have q: "q = NULL" "t = Leaf" using D(4) nk by (simp_all add: tree_abs_eq [OF rep])
    from root_tree_link [OF rt(2) k D(2,3) [unfolded q] mal] obtain x h1 h2 T2 where
      L: "rlu_new_node k (tnodes m) = Some (x, h1)" "modify h1 a (set_tchild d x) = Some h2" "root_tree h2 rt T2"
      "tree_keys h2 T2 = insert k (tree_keys (tnodes m) T)" by metis
    then have "tree_rep (m\<lparr> tnodes := h2 \<rparr>) v rt T2" using rep by (simp add: tree_rep_def)
    moreover have "list_ins_ffwd ms k m = Some (1, m\<lparr> tnodes := h2 \<rparr>)"
      using D(1) L rt n q by (simp add: list_ins_ffwd_def)
    ultimately show ?thesis using L(4) tree_abs_eq rep tree_abs_eq [OF \<open>tree_rep (m\<lparr> tnodes := h2 \<rparr>) v rt T2\<close>]
      by (auto simp: tree_ok_def)
  qed
qed

lemma tree_del:
  assumes "tree_ok v m" "own_key ms v k"
  shows "k \<notin> tree_abs v m \<Longrightarrow> list_del_ffwd ms k m = Some (0, m)"
    and "k \<in> tree_abs v m \<Longrightarrow>
      \<exists>m'. list_del_ffwd ms k m = Some (1, m') \<and> tree_ok v m' \<and> tree_abs v m' = tree_abs v m - {k}"
proof -
  from assms obtain rt T where rep: "tree_rep m v rt T" by (auto simp: tree_ok_def)
  then have rt: "tree_root ms k m = Some rt" "root_tree (tnodes m) rt T"
    using tree_root_own [OF assms(2)] by (auto simp: tree_rep_def)
  have k: "k < INT_MAX" using assms(2) by (simp add: own_key_def)
  obtain n where n: "load (tnodes m) rt = Some n" using root_tree_shape [OF rt(2)] by blast
  from tree_search [OF rt(2) k n] obtain a d s c q t where
    D: "descend (tnodes m) k rt False (tchild n False) = Some (a, d, q)"
    "tn.located (tnodes m) rt k ((a, d, s) # c) q t" "plug ((a, d, s) # c) t = T"
    "if k \<in> tree_keys (tnodes m) T then q \<noteq> NULL \<and> (\<exists>l r. t = Node l q r) \<and> tn.key_at (tnodes m) q = k
     else q = NULL \<and> t = Leaf"
    by blast
  show "list_del_ffwd ms k m = Some (0, m)" if "k \<notin> tree_abs v m"
    using D(1,4) that rt n by (simp add: list_del_ffwd_def tree_abs_eq [OF rep] free_def)
  show "\<exists>m'. list_del_ffwd ms k m = Some (1, m') \<and> tree_ok v m' \<and> tree_abs v m' = tree_abs v m - {k}"
    if "k \<in> tree_abs v m"
  proof -
    from D(4) that obtain l r where q: "q \<noteq> NULL" "t = Node l q r" "tn.key_at (tnodes m) q = k"
      by (auto simp: tree_abs_eq [OF rep])
    from root_tree_unlink [OF rt(2) k D(2,3) [unfolded q(2)] q(3)] obtain h1 T2 where
      U: "unlink_node (tnodes m) a d q = Some h1" "free h1 q = Some (del h1 q)" "root_tree (del h1 q) rt T2"
      "tree_keys (del h1 q) T2 = tree_keys (tnodes m) T - {k}" by metis
    let ?m' = "m\<lparr> tnodes := del h1 q \<rparr>"
    have rep': "tree_rep ?m' v rt T2" using rep U(3) by (simp add: tree_rep_def)
    moreover have "list_del_ffwd ms k m = Some (1, ?m')"
      using D(1) U rt n q by (simp add: list_del_ffwd_def)
    ultimately show ?thesis using U(4) tree_abs_eq [OF rep] tree_abs_eq [OF rep'] by (auto simp: tree_ok_def)
  qed
qed

definition tree_valid :: "nat \<Rightarrow> nat \<Rightarrow> list_fn \<Rightarrow> u64 list \<Rightarrow> bool" where
  "tree_valid ms v f args \<longleftrightarrow> args \<noteq> [] \<and> own_key ms v (int_arg (hd args))"

interpretation tree_ffwd: delegated_object "tree_call ms" "tree_ok v" "tree_abs v" "tree_valid ms v" set_spec
  "\<lambda>m. malloc_succeeds (tnodes m)"
  for ms v
proof
  fix d f a r d'
  assume d: "tree_ok v d" "tree_valid ms v f a" "tree_call ms f a d = Some (r, d')"
  note ops = tree_ins [OF d(1), of ms "int_arg (hd a)"] tree_del [OF d(1), of ms "int_arg (hd a)"]
    tree_find [OF d(1), of ms "int_arg (hd a)"]
  show "tree_ok v d' \<and> set_spec f a (tree_abs v d) = (r, tree_abs v d')"
  proof (cases f)
    case Ins
    with d ops(1-3) show ?thesis
      by (cases "int_arg (hd a) \<in> tree_abs v d"; cases "malloc_succeeds (tnodes d)")
         (auto simp: tree_valid_def Let_def)
  next
    case Del
    with d ops(4,5) show ?thesis
      by (cases "int_arg (hd a) \<in> tree_abs v d") (auto simp: tree_valid_def Let_def)
  next
    case Find
    with d ops(6) show ?thesis by (auto simp: tree_valid_def Let_def)
  qed
next
  fix d f a
  assume d: "tree_ok v d" "tree_valid ms v f a" "malloc_succeeds (tnodes d)"
  then show "tree_call ms f a d \<noteq> None"
    using tree_ins [OF d(1), of ms "int_arg (hd a)"] tree_del [OF d(1), of ms "int_arg (hd a)"]
      tree_find [OF d(1), of ms "int_arg (hd a)"]
    by (cases f; cases "int_arg (hd a) \<in> tree_abs v d") (auto simp: tree_valid_def)
next
  fix f args a
  assume "tree_valid ms v f args" "take (length args) a = args"
  then show "tree_valid ms v f a" using hd_prefix [of args a] by (auto simp: tree_valid_def)
qed

subsection \<open>Filling a tree\<close>

text \<open>What the insertions of \<open>tree_fill\<close> keep of the memory outside of the tree.\<close>

definition grown :: "tnode heap \<Rightarrow> addr tree \<Rightarrow> tnode heap \<Rightarrow> addr tree \<Rightarrow> bool" where
  "grown h T h' T' \<longleftrightarrow> policy h' = policy h \<and> finite (dom (cells h')) \<and> dom (cells h) \<subseteq> dom (cells h') \<and>
     set (inorder T') \<subseteq> set (inorder T) \<union> (dom (cells h') - dom (cells h)) \<and>
     card (dom (cells h')) + card (tree_keys h T) = card (dom (cells h)) + card (tree_keys h' T') \<and>
     (\<forall>b. b \<in> dom (cells h) - set (inorder T) \<longrightarrow> load h' b = load h b)"

lemma grown_refl: "finite (dom (cells h)) \<Longrightarrow> grown h T h T"
  by (simp add: grown_def)

lemma grown_trans:
  assumes "grown h T h1 T1" "grown h1 T1 h2 T2"
  shows "grown h T h2 T2"
proof -
  note g = assms [unfolded grown_def]
  have "set (inorder T2) \<subseteq> set (inorder T) \<union> (dom (cells h2) - dom (cells h))" using g by blast
  moreover have "load h2 b = load h b" if "b \<in> dom (cells h) - set (inorder T)" for b
  proof -
    have "b \<in> dom (cells h1) - set (inorder T1)" using g that by blast
    with g that show ?thesis by metis
  qed
  moreover have "dom (cells h) \<subseteq> dom (cells h2)" using g by blast
  moreover have "card (dom (cells h2)) + card (tree_keys h T) = card (dom (cells h)) + card (tree_keys h2 T2)"
    using g by linarith
  ultimately show ?thesis using g unfolding grown_def by metis
qed

lemma finite_tree_keys [simp]: "finite (tree_keys h T)"
  by (simp add: tree_keys_def)

lemma fill_present:
  assumes "root_tree h rt T" "i < n" "value_range \<noteq> 0" "c_mod (rand r) value_range < INT_MAX"
    and "c_mod (rand r) value_range \<in> tree_keys h T"
  shows "tree_fill rand value_range rt n i r h = tree_fill rand value_range rt n i (Suc r) h"
proof -
  obtain p where p: "load h rt = Some p" using root_tree_shape [OF assms(1)] by blast
  from tree_search [OF assms(1,4) p] assms(5) obtain q d where
    "init_search h (c_mod (rand r) value_range) rt False (tchild p False) = Some (q, d, q)" "q \<noteq> NULL" by auto
  with assms p show ?thesis by (subst tree_fill.simps) simp
qed

lemma fill_absent:
  assumes rt: "root_tree h rt T" and i: "i < n" "value_range \<noteq> 0" and k: "c_mod (rand r) value_range = k" "k < INT_MAX"
    and nk: "k \<notin> tree_keys h T" and mal: "malloc_succeeds h" and fin: "finite (dom (cells h))"
  shows "\<exists>h2 T2. tree_fill rand value_range rt n i r h = tree_fill rand value_range rt n (i + 1) (Suc r) h2 \<and>
    root_tree h2 rt T2 \<and> tree_keys h2 T2 = insert k (tree_keys h T) \<and> grown h T h2 T2"
proof -
  obtain p where p: "load h rt = Some p" using root_tree_shape [OF rt] by blast
  from tree_search [OF rt k(2) p] nk obtain a d s c where
    D: "init_search h k rt False (tchild p False) = Some (a, d, NULL)"
    "tn.located h rt k ((a, d, s) # c) NULL Leaf" "plug ((a, d, s) # c) Leaf = T" by auto
  from root_tree_link [OF rt k(2) D(2,3) mal] obtain x h1 h2 T2 where
    L: "rlu_new_node k h = Some (x, h1)" "modify h1 a (set_tchild d x) = Some h2" "root_tree h2 rt T2"
    "tree_keys h2 T2 = insert k (tree_keys h T)" "x \<notin> dom (cells h)" "set (inorder T2) = insert x (set (inorder T))"
    "policy h2 = policy h" "dom (cells h2) = insert x (dom (cells h))"
    "\<forall>b. b \<noteq> x \<and> b \<notin> set (inorder T) \<longrightarrow> load h2 b = load h b" by blast
  have "grown h T h2 T2" unfolding grown_def L(4,6,7,8) using L(5,9) fin nk by auto
  moreover have "tree_fill rand value_range rt n i r h = tree_fill rand value_range rt n (i + 1) (Suc r) h2"
    using D(1) L(1,2) i k p by (subst tree_fill.simps) simp
  ultimately show ?thesis using L(3,4) by blast
qed

text \<open>The numbers that \<open>rand\<close> returns are not negative and never stop hitting every residue.\<close>

definition fair_rand :: "(nat \<Rightarrow> int) \<Rightarrow> int \<Rightarrow> bool" where
  "fair_rand rand value_range \<longleftrightarrow> (\<forall>r. 0 \<le> rand r) \<and>
     (\<forall>r k. 0 \<le> k \<and> k < value_range \<longrightarrow> (\<exists>r' \<ge> r. rand r' mod value_range = k))"

lemma fill_skip:
  assumes rt: "root_tree h rt T" and i: "i < n" and v: "0 < value_range" "value_range \<le> INT_MAX" and nn: "\<forall>r. 0 \<le> rand r"
    and k: "rand (r + e) mod value_range \<notin> tree_keys h T"
  shows "\<exists>r'. tree_fill rand value_range rt n i r h = tree_fill rand value_range rt n i r' h \<and>
    rand r' mod value_range \<notin> tree_keys h T"
  using k
proof (induction e arbitrary: r)
  case (Suc e)
  show ?case
  proof (cases "rand r mod value_range \<in> tree_keys h T")
    case True
    have c: "c_mod (rand r) value_range = rand r mod value_range" using nn v by simp
    have "tree_fill rand value_range rt n i r h = tree_fill rand value_range rt n i (Suc r) h"
      using True v order_less_le_trans [OF pos_mod_bound [OF v(1), of "rand r"] v(2)]
      by (intro fill_present [OF rt i]) (auto simp: c)
    with Suc.IH [of "Suc r"] Suc.prems show ?thesis by simp
  qed blast
qed auto

lemma tree_fill_spec:
  assumes v: "0 < value_range" "value_range \<le> INT_MAX" and fair: "fair_rand rand value_range"
    and n: "int n \<le> value_range"
    and cap: "capacity h N" and rt: "root_tree h rt T" and keys: "tree_keys h T \<subseteq> {0..<value_range}"
    and c: "card (tree_keys h T) + e = n" "card (dom (cells h)) + e \<le> N" "finite (dom (cells h))"
  shows "\<exists>r' h' T'. tree_fill rand value_range rt (int n) (int (card (tree_keys h T))) r h = Some (r', h') \<and>
    root_tree h' rt T' \<and> card (tree_keys h' T') = n \<and> tree_keys h' T' \<subseteq> {0..<value_range} \<and> grown h T h' T'"
  using cap rt keys c
proof (induction e arbitrary: r h T)
  case 0
  then have "tree_fill rand value_range rt (int n) (int (card (tree_keys h T))) r h = Some (r, h)"
    by (subst tree_fill.simps) simp
  with 0 grown_refl show ?case by auto
next
  case (Suc e)
  have i: "int (card (tree_keys h T)) < int n" using Suc.prems(4) by simp
  have nn: "\<forall>r. 0 \<le> rand r" using fair by (simp add: fair_rand_def)
  have "\<not> {0..<value_range} \<subseteq> tree_keys h T"
    using card_mono [of "tree_keys h T" "{0..<value_range}"] i n v by auto
  then obtain k0 where "0 \<le> k0" "k0 < value_range" "k0 \<notin> tree_keys h T" by (auto simp: subset_eq)
  moreover from this obtain r0 where "r0 \<ge> r" "rand r0 mod value_range = k0"
    using fair unfolding fair_rand_def by blast
  ultimately have "rand (r + (r0 - r)) mod value_range \<notin> tree_keys h T" by simp
  from fill_skip [OF Suc.prems(2) i v nn this] obtain r1 where
    r1: "tree_fill rand value_range rt (int n) (int (card (tree_keys h T))) r h =
      tree_fill rand value_range rt (int n) (int (card (tree_keys h T))) r1 h"
    "rand r1 mod value_range \<notin> tree_keys h T" by blast
  let ?k = "rand r1 mod value_range"
  have k: "c_mod (rand r1) value_range = ?k" "?k < INT_MAX" "0 \<le> ?k" "?k < value_range"
    using nn v order_less_le_trans [OF pos_mod_bound [OF v(1), of "rand r1"] v(2)] by auto
  have mal: "malloc_succeeds h" using Suc.prems by (intro capacity_malloc) auto
  have v0: "value_range \<noteq> 0" using v by simp
  from fill_absent [where rand = rand and r = r1, OF Suc.prems(2) i v0 k(1,2) r1(2) mal Suc.prems(6)] obtain h2 T2 where
    h2: "tree_fill rand value_range rt (int n) (int (card (tree_keys h T))) r1 h =
      tree_fill rand value_range rt (int n) (int (card (tree_keys h T)) + 1) (Suc r1) h2"
    "root_tree h2 rt T2" "tree_keys h2 T2 = insert ?k (tree_keys h T)" "grown h T h2 T2" by auto
  have card: "card (tree_keys h2 T2) = Suc (card (tree_keys h T))" using h2(3) r1(2) by simp
  have "capacity h2 N" using Suc.prems(1) h2(4) by (simp add: capacity_def grown_def)
  moreover have "tree_keys h2 T2 \<subseteq> {0..<value_range}" using h2(3) k Suc.prems(3) by auto
  moreover have "card (tree_keys h2 T2) + e = n" "finite (dom (cells h2))" "card (dom (cells h2)) + e \<le> N"
    using card Suc.prems h2(4) by (auto simp: grown_def)
  ultimately obtain r' h' T' where
    "tree_fill rand value_range rt (int n) (int (card (tree_keys h2 T2))) (Suc r1) h2 = Some (r', h')"
    "root_tree h' rt T'" "card (tree_keys h' T') = n" "tree_keys h' T' \<subseteq> {0..<value_range}" "grown h2 T2 h' T'"
    using Suc.IH [OF _ h2(2), of "Suc r1"] by blast
  with r1(1) h2(1,4) card grown_trans show ?case by (metis (no_types, lifting) of_nat_Suc add.commute)
qed

subsection \<open>Filling all trees\<close>

lemma root_tree_frame:
  assumes "root_tree h rt T" "heap_ok h'" "\<And>a. a \<in> set (inorder T) \<Longrightarrow> load h' a = load h a"
  shows "root_tree h' rt T \<and> tree_keys h' T = tree_keys h T"
proof -
  have k: "tn.key_at h' a = tn.key_at h a" if "a \<in> set (inorder T)" for a
    using assms(3) [OF that] by (simp add: tn.key_at_def)
  have "tn.key_at h' ` set (inorder T) = tn.key_at h ` set (inorder T)"
    by (rule image_cong [OF refl k])
  moreover have "tn.keys_at h' (inorder T) = tn.keys_at h (inorder T)" using k by (simp add: map_eq_conv)
  moreover have "tn.tree_at h' rt T = tn.tree_at h rt T" using assms(3) by (rule tn.tree_at_frame)
  ultimately show ?thesis
    using assms(1,2) k root_tree_root [OF assms(1)]
    unfolding root_tree_def tree_keys_def tn.bst_at_def by metis
qed

definition filled_tree :: "int \<Rightarrow> nat \<Rightarrow> tree_mem \<Rightarrow> nat \<Rightarrow> bool" where
  "filled_tree value_range n m v \<longleftrightarrow> (\<exists>rt T. tree_rep m v rt T \<and>
     card (tree_keys (tnodes m) T) = n \<and> tree_keys (tnodes m) T \<subseteq> {0..<value_range})"

lemma filled_tree_ok:
  "filled_tree value_range n m v \<Longrightarrow>
   tree_ok v m \<and> card (tree_abs v m) = n \<and> tree_abs v m \<subseteq> {0..<value_range}"
  using tree_abs_eq by (auto simp: filled_tree_def tree_ok_def)

lemma filled_tree_frame:
  assumes "filled_tree value_range n m v" and "heap_ok (tnodes m')"
    and "load (rlu_trees m') (tree m' v) = load (rlu_trees m) (tree m v)"
    and "\<And>a. a \<in> dom (cells (tnodes m)) \<Longrightarrow> load (tnodes m') a = load (tnodes m) a"
  shows "filled_tree value_range n m' v"
proof -
  from assms(1) obtain rt T where T: "tree_rep m v rt T" "card (tree_keys (tnodes m) T) = n"
    "tree_keys (tnodes m) T \<subseteq> {0..<value_range}" by (auto simp: filled_tree_def)
  then have rt: "root_tree (tnodes m) rt T" by (simp add: tree_rep_def)
  have "a \<in> dom (cells (tnodes m))" if "a \<in> set (inorder T)" for a
    using rt that tn.tree_at_loaded [of "tnodes m" rt T a] load_cells [of "tnodes m" a]
    by (auto simp: root_tree_def tn.bst_at_def)
  with root_tree_frame [OF rt assms(2)] assms(4)
  have "root_tree (tnodes m') rt T" "tree_keys (tnodes m') T = tree_keys (tnodes m) T" by blast+
  with T assms(3) show ?thesis unfolding filled_tree_def tree_rep_def by metis
qed

lemma new_root:
  assumes "heap_ok h" "malloc_succeeds h"
  obtains rt h1 where "rlu_new_node INT_MAX h = Some (rt, h1)" "root_tree h1 rt (Node Leaf rt Leaf)"
    "tree_keys h1 (Node Leaf rt Leaf) = {}" "rt \<notin> dom (cells h)" "dom (cells h1) = insert rt (dom (cells h))"
    "policy h1 = policy h" "\<And>a. a \<in> dom (cells h) \<Longrightarrow> load h1 a = load h a"
proof -
  obtain rt h' where m: "malloc h = (rt, h')" by fastforce
  note x = malloc_succeedsD [OF assms(2) m]
  note new = rlu_new_node_eq(1) [OF assms(1) m x, of INT_MAX] rlu_new_node_eq(2) [OF assms(1) m x]
  have key: "tn.key_at (upd h rt \<lparr> tvalue = INT_MAX, tchild = (\<lambda>_. NULL) \<rparr>) rt = INT_MAX"
    using x by (simp add: tn.key_at_def heap_simps)
  have fresh: "rt \<notin> dom (cells h)" using new(2) assms(1) by (auto simp: load_cells)
  show ?thesis
  proof (rule that [OF new(1)])
    show "root_tree (upd h rt \<lparr> tvalue = INT_MAX, tchild = (\<lambda>_. NULL) \<rparr>) rt (Node Leaf rt Leaf)"
      using x key assms(1) by (auto simp: root_tree_def tn.bst_at_def heap_simps)
  qed (use key fresh x in \<open>auto simp: tree_keys_def heap_simps\<close>)
qed

lemma tree_init_loop_spec:
  assumes v: "0 < value_range" "value_range \<le> INT_MAX" and fair: "fair_rand rand value_range"
    and n: "c_div init_size (int ms) = int n" "int n \<le> value_range"
    and m: "heap_ok (tnodes m)" "heap_ok (rlu_trees m)" "capacity (tnodes m) N" "finite (dom (cells (tnodes m)))"
      "card (dom (cells (tnodes m))) + k * Suc n \<le> N"
    and filled: "\<forall>v < j. filled_tree value_range n m v"
  shows "\<exists>b m'. tree_init_loop ms rand init_size value_range j k r m = Some (b, m') \<and>
    (b \<longrightarrow> (\<forall>v < j + k. filled_tree value_range n m' v))"
  using m filled
proof (induction k arbitrary: j r m)
  case 0
  then show ?case by auto
next
  case (Suc k)
  obtain t ts1 where t: "malloc (rlu_trees m) = (t, ts1)" by fastforce
  show ?case
  proof (cases "t = NULL")
    case True
    with t show ?thesis by auto
  next
    case False
    let ?h = "tnodes m"
    have t1: "load (rlu_trees m) t = None" "ts1 = upd (rlu_trees m) t (junk (rlu_trees m) t)"
      using malloc_cases [OF Suc.prems(2) t] False by auto
    have mal: "malloc_succeeds ?h" using Suc.prems by (intro capacity_malloc) auto
    obtain rt h1 where h1: "rlu_new_node INT_MAX ?h = Some (rt, h1)" "root_tree h1 rt (Node Leaf rt Leaf)"
      "tree_keys h1 (Node Leaf rt Leaf) = {}" "rt \<notin> dom (cells ?h)" "dom (cells h1) = insert rt (dom (cells ?h))"
      "policy h1 = policy ?h" "\<And>a. a \<in> dom (cells ?h) \<Longrightarrow> load h1 a = load ?h a"
      using new_root [OF Suc.prems(1) mal] by metis
    have "capacity h1 N" using Suc.prems(3) h1(6) by (simp add: capacity_def)
    moreover have "card (dom (cells h1)) + n \<le> N" "finite (dom (cells h1))" using Suc.prems(4,5) h1(4,5) by auto
    ultimately obtain r' h2 T where h2: "tree_fill rand value_range rt (int n) 0 r h1 = Some (r', h2)" "root_tree h2 rt T"
      "card (tree_keys h2 T) = n" "tree_keys h2 T \<subseteq> {0..<value_range}" "grown h1 (Node Leaf rt Leaf) h2 T"
      using tree_fill_spec [OF v fair n(2) _ h1(2), where N = N and e = n and r = r] h1(3) by auto
    let ?ts2 = "upd ts1 t (junk (rlu_trees m) t\<lparr> troot := rt \<rparr>)"
    let ?m2 = "m\<lparr> tree := (tree m)(j := t), rlu_trees := ?ts2, tnodes := h2 \<rparr>"
    have step: "tree_init_loop ms rand init_size value_range j (Suc k) r m =
        tree_init_loop ms rand init_size value_range (Suc j) k r' ?m2"
      using t False h1(1) h2(1) n(1) by (simp add: t1(2) heap_simps)
    have ok2: "heap_ok h2" using h2(2) by (simp add: root_tree_def)
    have keep: "load h2 a = load ?h a" if "a \<in> dom (cells ?h)" for a
    proof -
      have "a \<in> dom (cells h1) - set (inorder (Node Leaf rt Leaf))" using that h1(4,5) by auto
      then have "load h2 a = load h1 a" using h2(5) unfolding grown_def by blast
      with h1(7) [OF that] show ?thesis by simp
    qed
    have old: "filled_tree value_range n ?m2 v" if "v < j" for v
    proof (rule filled_tree_frame [where m = m])
      show "filled_tree value_range n m v" using Suc.prems(6) that by blast
      then have "load (rlu_trees m) (tree m v) \<noteq> None" by (auto simp: filled_tree_def tree_rep_def)
      then have "tree m v \<noteq> t" using t1(1) by auto
      with that show "load (rlu_trees ?m2) (tree ?m2 v) = load (rlu_trees m) (tree m v)"
        by (simp add: t1(2) heap_simps)
    qed (use ok2 keep in simp_all)
    have "tree_rep ?m2 j rt T" using h2(2) False by (simp add: tree_rep_def heap_simps)
    with h2(3,4) have "filled_tree value_range n ?m2 j" unfolding filled_tree_def by auto
    with old have filled: "\<forall>v < Suc j. filled_tree value_range n ?m2 v" by (simp add: less_Suc_eq)
    have g: "policy h2 = policy h1" "finite (dom (cells h2))" "card (dom (cells h2)) = card (dom (cells h1)) + n"
      using h2(3,5) h1(3) by (auto simp: grown_def)
    have "capacity h2 N" using \<open>capacity h1 N\<close> g(1) by (simp add: capacity_def)
    moreover have "card (dom (cells h2)) + k * Suc n \<le> N" using Suc.prems(4,5) h1(4,5) g(3) by simp
    moreover have "heap_ok (rlu_trees ?m2)" using Suc.prems(2) False by (simp add: t1(2))
    ultimately show ?thesis using Suc.IH [of ?m2 "Suc j" r'] filled g(2) ok2 unfolding step by simp
  qed
qed

subsection \<open>The theorems\<close>

lemma int_arg_of_int: "c_int k \<Longrightarrow> int_arg (of_int k) = k"
  by (simp add: int_arg_def c_int_def INT_MIN_def INT_MAX_def unsigned_of_int signed_of_int
      signed_take_bit_take_bit signed_take_bit_int_eq_self)

text \<open>A run in which every call is made by one of the three client functions.\<close>

definition tree_trace :: "nat \<Rightarrow> list_fn event list \<Rightarrow> bool" where
  "tree_trace ms tr \<longleftrightarrow> (\<forall>c v f args. Invoke c v f args \<in> set tr \<longrightarrow>
     (\<exists>k. c_int k \<and> k < INT_MAX \<and>
        Some (v, f, args) \<in> {list_ins_tree ms k, list_del_tree ms k, list_find_tree ms k}))"

lemma tree_request_valid:
  assumes "Some (v, f, args) \<in> {list_ins_tree ms k, list_del_tree ms k, list_find_tree ms k}" "c_int k" "k < INT_MAX"
  shows "tree_valid ms v f args"
  using assms int_arg_of_int [of k]
  by (auto simp: list_ins_tree_def list_del_tree_def list_find_tree_def tree_request_def tree_valid_def own_key_def
      split: if_splits)

text \<open>
  C9: The delegated search trees are sets, distributed over the servers by the residue of the key:
  in every run whose calls come from \<open>list_ins\<close>, \<open>list_del\<close> and \<open>list_find\<close> with keys below
  the sentinel, the tree of every server stays a search tree below its sentinel, and its keys and the results
  are those of executing the server's calls one after the other on a set of integers.
\<close>

theorem tree_ffwd_linearizes:
  assumes "ffwd_run t64 (tree_call ms) \<sigma>0 tr \<sigma>" and "initial t64 \<sigma>0" and "tree_ok v (sdata (servers \<sigma>0 v))"
    and "tree_trace ms tr"
  shows "tree_ok v (sdata (servers \<sigma> v)) \<and>
    spec_replay set_spec (tree_abs v (sdata (servers \<sigma>0 v))) (execs v tr) = Some (tree_abs v (sdata (servers \<sigma> v)))"
proof (rule tree_ffwd.delegated [OF assms(1-3)])
  show "\<forall>c f args. Invoke c v f args \<in> set tr \<longrightarrow> tree_valid ms v f args"
    using assms(4) tree_request_valid unfolding tree_trace_def by blast
qed


subsection \<open>Runs\<close>

definition tree_mem0 :: tree_mem where
  "tree_mem0 = \<lparr> tnodes = \<lparr> cells = Map.empty, policy = first_fit 6, junk = (\<lambda>_. \<lparr> tvalue = 99, tchild = (\<lambda>_. 98) \<rparr>) \<rparr>,
     rlu_trees = \<lparr> cells = Map.empty, policy = first_fit 4, junk = (\<lambda>_. \<lparr> troot = 97 \<rparr>) \<rparr>, tree = (\<lambda>_. NULL) \<rparr>"

lemma tree_mem0_ok: "heap_ok (tnodes tree_mem0)" "heap_ok (rlu_trees tree_mem0)" "cells (tnodes tree_mem0) = Map.empty"
    "capacity (tnodes tree_mem0) 6"
  by (auto simp: tree_mem0_def heap_ok_def first_fit_ok intro: first_fit_capacity)

lemma fair_int: "0 < v \<Longrightarrow> fair_rand int v"
  unfolding fair_rand_def
proof (intro conjI allI impI)
  fix r :: nat and k assume v: "0 < v" and k: "0 \<le> k \<and> k < v"
  have "int (nat (int r * v + k)) mod v = k" using k v by simp
  moreover have "r \<le> nat (int r * v + k)" using k v mult_left_mono [of 1 v "int r"] by (simp add: le_nat_iff)
  ultimately show "\<exists>r' \<ge> r. int r' mod v = k" by blast
qed simp


definition tree_mem1 :: tree_mem where
  "tree_mem1 = (case list_global_init_tree 2 int 4 10 tree_mem0 of Some (l, m) \<Rightarrow> m | None \<Rightarrow> tree_mem0)"

lemma tree_mem1_runs: "map_option fst (list_global_init_tree 2 int 4 10 tree_mem0) = Some 1"
  "map_option fst (list_find_ffwd 1 1 tree_mem1) = Some 1" "map_option fst (list_find_ffwd 2 1 tree_mem1) = Some 0"
  by code_simp+

lemma tree_mem1_ok:
  shows "list_global_init_tree 2 int 4 10 tree_mem0 = Some (1, tree_mem1)" "tree_ok 0 tree_mem1" "tree_ok 1 tree_mem1"
proof -
  let ?I = "list_global_init_tree 2 int 4 10 tree_mem0"
  obtain m' where m': "?I = Some (1, m')" using tree_mem1_runs(1) by (auto simp del: list_global_init_tree_def)
  then show I: "?I = Some (1, tree_mem1)" unfolding tree_mem1_def m' by simp
  have "tree_init_loop 2 int 4 10 0 2 0 tree_mem0 = Some (True, tree_mem1)"
    using I by (auto simp: list_global_init_tree_def bind_eq_Some_conv split: prod.splits if_splits)
  moreover have "\<exists>b m'. tree_init_loop 2 int 4 10 0 2 0 tree_mem0 = Some (b, m') \<and>
      (b \<longrightarrow> (\<forall>v < 0 + 2. filled_tree 10 2 m' v))"
    by (rule tree_init_loop_spec [where N = 6])
       (use tree_mem0_ok in \<open>auto simp: INT_MAX_def c_div_def intro: fair_int\<close>)
  ultimately show "tree_ok 0 tree_mem1" "tree_ok 1 tree_mem1" using filled_tree_ok [of 10 2 tree_mem1] by auto
qed


definition tree_sys :: "(list_fn, tree_mem) sys" where
  "tree_sys = \<lparr> servers = (\<lambda>v. \<lparr> chips = (\<lambda>s k. \<lparr> flag = 0, argc = 0, fptr = Find, argv = [0, 0, 0, 0, 0] \<rparr>),
       responses = (\<lambda>i. \<lparr> return_values = replicate 7 0, flags = 0 \<rparr>),
       old_client_flags = (\<lambda>s. 0), socket_client_flags = (\<lambda>s. 0),
       local_return_values = (\<lambda>i. replicate 8 0), spc = Head, sdata = tree_mem1 \<rparr>),
     clients = (\<lambda>c. \<lparr> chip = 0, slot = c, cmask = push_bit c 1, lflag = (\<lambda>v. 0), cpc = Idle \<rparr>),
     nservers = 2, nclients = 2, stop_flag = 0 \<rparr>"

lemma tree_sys_initial: "initial True tree_sys"
  by (auto simp: initial_def tree_sys_def NCLIENTS_def inj_on_def)

theorem tree_ffwd_linearizes_witness:
  "\<exists>\<sigma>. ffwd_run True (tree_call 2) tree_sys [Invoke 0 1 Del [3], Exec 1 0 0 Del [3, 0, 0, 0, 0] 1] \<sigma> \<and>
     tree_ok 1 (sdata (servers \<sigma> 1)) \<and> 3 \<notin> tree_abs 1 (sdata (servers \<sigma> 1))"
proof -
  let ?tr = "[Invoke 0 1 Del [3], Exec 1 0 0 Del [3, 0, 0, 0, 0] 1]"
  let ?sched = "Call_from 0 1 Del [3] # replicate 6 (Client 0) @ replicate 3 (Server 1)"
  have "map_option fst (sched_run True (tree_call 2) ?sched ([], tree_sys)) = Some ?tr" by code_simp
  then obtain \<sigma> where "sched_run True (tree_call 2) ?sched ([], tree_sys) = Some (?tr, \<sigma>)"
    by (auto simp del: sched_run.simps)
  then have run: "ffwd_run True (tree_call 2) tree_sys ?tr \<sigma>" using sched_run_sound ffwd_run.start by blast
  have "\<exists>k. c_int k \<and> k < INT_MAX \<and>
      Some (1, Del, [3]) \<in> {list_ins_tree 2 k, list_del_tree 2 k, list_find_tree 2 k}"
    by (rule exI [of _ 3]) (simp add: list_del_tree_def tree_request_def c_int_def INT_MIN_def INT_MAX_def)
  then have tr: "tree_trace 2 ?tr" unfolding tree_trace_def by (auto simp del: insert_iff)
  have d: "sdata (servers tree_sys 1) = tree_mem1" by (simp add: tree_sys_def)
  from tree_ffwd_linearizes [OF run tree_sys_initial _ tr, of 1, unfolded d, OF tree_mem1_ok(3)]
  have "tree_ok 1 (sdata (servers \<sigma> 1))" "tree_abs 1 (sdata (servers \<sigma> 1)) = tree_abs 1 tree_mem1 - {3}"
    by (auto simp: int_arg_def Let_def split: if_splits)
  with run show ?thesis by blast
qed

end
