(* ===== verification/Tree_Single.thy ===== *)
theory Tree_Single
  imports Tree_Ffwd
begin

text \<open>
  \<open>micro-benchmarks/versioning/tree_single_thread.c\<close>: the search tree without servers, the base
  line of the tree benchmark. The global pointer \<open>tree\<close> is entry 0 of the table of the memory; the
  code is that of the delegated tree on this one tree.
\<close>

definition single_root :: "tree_mem \<Rightarrow> addr option" where
  "single_root m = map_option troot (load (rlu_trees m) (tree m 0))"

definition list_global_init_single :: "(nat \<Rightarrow> int) \<Rightarrow> int \<Rightarrow> int \<Rightarrow> tree_mem \<Rightarrow> (addr \<times> tree_mem) option" where
  "list_global_init_single rand init_size value_range m =
     (let (t, ts1) = malloc (rlu_trees m); m1 = m\<lparr> tree := (tree m)(0 := t), rlu_trees := ts1 \<rparr> in
      if t = NULL then Some (NULL, m1)
      else do {
        (root, h1) \<leftarrow> rlu_new_node INT_MAX (tnodes m1);
        ts2 \<leftarrow> modify (rlu_trees m1) t (troot_update (\<lambda>_. root));
        (r', h2) \<leftarrow> tree_fill rand value_range root init_size 0 0 h1;
        Some (t, m1\<lparr> rlu_trees := ts2, tnodes := h2 \<rparr>) })"

definition list_ins_single :: "int \<Rightarrow> tree_mem \<Rightarrow> (u64 \<times> tree_mem) option" where
  "list_ins_single key m = do {
     root \<leftarrow> single_root m;
     p \<leftarrow> load (tnodes m) root;
     (prev, direction, cur) \<leftarrow> descend (tnodes m) key root False (tchild p False);
     if cur = NULL then do {
       (new_node, h1) \<leftarrow> rlu_new_node key (tnodes m);
       h2 \<leftarrow> modify h1 prev (set_tchild direction new_node);
       Some (1, m\<lparr> tnodes := h2 \<rparr>) }
     else Some (0, m) }"

definition list_del_single :: "int \<Rightarrow> tree_mem \<Rightarrow> (u64 \<times> tree_mem) option" where
  "list_del_single key m = do {
     root \<leftarrow> single_root m;
     p \<leftarrow> load (tnodes m) root;
     (prev, direction, cur) \<leftarrow> descend (tnodes m) key root False (tchild p False);
     h1 \<leftarrow> (if cur = NULL then Some (tnodes m) else unlink_node (tnodes m) prev direction cur);
     h2 \<leftarrow> free h1 cur;
     Some (if cur = NULL then 0 else 1, m\<lparr> tnodes := h2 \<rparr>) }"

definition list_find_single :: "int \<Rightarrow> tree_mem \<Rightarrow> (u64 \<times> tree_mem) option" where
  "list_find_single key m = do {
     root \<leftarrow> single_root m;
     p \<leftarrow> load (tnodes m) root;
     cur \<leftarrow> tree_find_loop (tnodes m) key (tchild p False);
     Some (if cur = NULL then 0 else 1, m) }"

lemma c_mod_1 [simp]: "c_mod k 1 = 0" and c_div_1 [simp]: "c_div k 1 = k"
  by (simp_all add: c_mod_def c_div_def sgn_mult_abs)

lemma tree_root_1: "tree_root 1 key m = single_root m"
  by (simp add: tree_root_def single_root_def)

lemma own_key_1: "k < INT_MAX \<Longrightarrow> own_key 1 0 k"
  by (simp add: own_key_def)

lemma single_eqs:
  "list_ins_single key m = list_ins_ffwd 1 key m"
  "list_del_single key m = list_del_ffwd 1 key m"
  "list_find_single key m = list_find_ffwd 1 key m"
  by (simp_all only: list_ins_single_def list_ins_ffwd_def list_del_single_def list_del_ffwd_def
      list_find_single_def list_find_ffwd_def tree_root_1)

text \<open>
  The tree without servers computes what the delegated tree computes with one server: the
  three operations and the initialisation are equal functions of the memory.
\<close>

theorem tree_single_is_one_server:
  "list_ins_single key m = list_ins_ffwd 1 key m \<and>
   list_del_single key m = list_del_ffwd 1 key m \<and>
   list_find_single key m = list_find_ffwd 1 key m \<and>
   list_global_init_single rand init_size value_range m = list_global_init_tree 1 rand init_size value_range m"
proof -
  have "list_global_init_single rand init_size value_range m = list_global_init_tree 1 rand init_size value_range m"
    by (auto simp: list_global_init_single_def list_global_init_tree_def Let_def Option.bind_assoc
        case_prod_unfold split: prod.splits intro!: Option.bind_cong)
  then show ?thesis by (simp add: single_eqs)
qed

text \<open>
  The operations of the tree are total and correct on every key below the sentinel, negative
  ones included: insertion and deletion return whether they changed the set of keys, deletion
  releases exactly the node of the key, and only the insertion of a new key needs memory.
\<close>

theorem tree_single_operations:
  assumes "tree_ok 0 m" "k < INT_MAX"
  shows "(k \<in> tree_abs 0 m \<longrightarrow> list_ins_single k m = Some (0, m)) \<and>
    (k \<notin> tree_abs 0 m \<and> malloc_succeeds (tnodes m) \<longrightarrow>
       (\<exists>m'. list_ins_single k m = Some (1, m') \<and> tree_ok 0 m' \<and> tree_abs 0 m' = insert k (tree_abs 0 m))) \<and>
    (k \<in> tree_abs 0 m \<longrightarrow>
       (\<exists>m'. list_del_single k m = Some (1, m') \<and> tree_ok 0 m' \<and> tree_abs 0 m' = tree_abs 0 m - {k})) \<and>
    (k \<notin> tree_abs 0 m \<longrightarrow> list_del_single k m = Some (0, m)) \<and>
    list_find_single k m = Some (if k \<in> tree_abs 0 m then 1 else 0, m)"
  unfolding single_eqs
  using tree_ins [OF assms(1) own_key_1 [OF assms(2)]] tree_del [OF assms(1) own_key_1 [OF assms(2)]]
    tree_find [OF assms(1) own_key_1 [OF assms(2)]] by blast

theorem tree_single_operations_witness:
  "tree_ok 0 tree_mem1 \<and> list_find_single (-7) tree_mem1 = Some (if -7 \<in> tree_abs 0 tree_mem1 then 1 else 0, tree_mem1)"
  using tree_single_operations [OF tree_mem1_ok(2), of "-7"] tree_mem1_ok(2) by (simp add: INT_MAX_def)

end
