(* ===== verification/Bonsai.thy ===== *)
theory Bonsai
  imports Tree_Heap
begin

text \<open>
  \<open>micro-benchmarks/versioning/tree_bonsai.c\<close> (\<open>tree_bonsai_ffwd.c\<close> is the same text): a
  weight-balanced search tree whose rotations copy nodes and hand the old ones to RCU. The state is
  the heap of nodes and the list of nodes waiting to be released, \<open>free_ptrs\<close> with its length
  \<open>f_size\<close>. \<open>None\<close> is an invalid access, a failed \<open>assert\<close> or a recursion without end.

  The writers hold a spin lock, so that their operations are sequential; the grace period
  (\<open>urcu_synchronize\<close>) waits for the readers and changes no memory of the tree.
\<close>

record bnode =
  bvalue :: int
  bleft :: addr
  bright :: addr
  bsize :: u32

record bonsai =
  bnodes :: "bnode heap"
  free_ptrs :: "addr list"

definition URCU_MAX_FREE_PTRS :: nat where "URCU_MAX_FREE_PTRS = 1000"
definition URCU_FREE_PTRS_SIZE :: nat where "URCU_FREE_PTRS_SIZE = 2000"
definition WEIGHT :: u32 where "WEIGHT = 4"
definition INPLACE :: bool where "INPLACE = True"

text \<open>The write to \<open>free_ptrs[f_size]\<close> is out of range once the array is full.\<close>

definition rcu_free :: "addr \<Rightarrow> bonsai \<Rightarrow> bonsai option" where
  "rcu_free ptr st =
     (if length (free_ptrs st) < URCU_FREE_PTRS_SIZE then Some (st\<lparr> free_ptrs := free_ptrs st @ [ptr] \<rparr>) else None)"

fun free_all :: "addr list \<Rightarrow> bnode heap \<Rightarrow> bnode heap option" where
  "free_all [] h = Some h"
| "free_all (p # ps) h = do { h' \<leftarrow> free h p; free_all ps h' }"

definition rcu_maybe_free_ptrs :: "bonsai \<Rightarrow> bonsai option" where
  "rcu_maybe_free_ptrs st =
     (if URCU_MAX_FREE_PTRS \<le> length (free_ptrs st)
      then do { h \<leftarrow> free_all (free_ptrs st) (bnodes st); Some (st\<lparr> bnodes := h, free_ptrs := [] \<rparr>) }
      else Some st)"

subsection \<open>Nodes and rotations\<close>

definition bonsai_get_size :: "addr \<Rightarrow> bonsai \<Rightarrow> u32 option" where
  "bonsai_get_size node st = (if node \<noteq> NULL then map_option bsize (load (bnodes st) node) else Some 0)"

definition bonsai_mknode :: "addr \<Rightarrow> addr \<Rightarrow> int \<Rightarrow> bonsai \<Rightarrow> (addr \<times> bonsai) option" where
  "bonsai_mknode lft rgt key st =
     (let (node, h1) = malloc (bnodes st) in
      if node = NULL then None
      else do {
        h2 \<leftarrow> modify h1 node (bleft_update (\<lambda>_. lft));
        h3 \<leftarrow> modify h2 node (bright_update (\<lambda>_. rgt));
        ln \<leftarrow> bonsai_get_size lft (st\<lparr> bnodes := h3 \<rparr>);
        rn \<leftarrow> bonsai_get_size rgt (st\<lparr> bnodes := h3 \<rparr>);
        h4 \<leftarrow> modify h3 node (bsize_update (\<lambda>_. ln + rn + 1));
        h5 \<leftarrow> modify h4 node (bvalue_update (\<lambda>_. key));
        Some (node, st\<lparr> bnodes := h5 \<rparr>) })"

definition bonsai_singleL :: "addr \<Rightarrow> addr \<Rightarrow> int \<Rightarrow> bonsai \<Rightarrow> (addr \<times> bonsai) option" where
  "bonsai_singleL lft rgt key st = do {
     r \<leftarrow> load (bnodes st) rgt;
     (res1, st1) \<leftarrow> bonsai_mknode lft (bleft r) key st;
     r1 \<leftarrow> load (bnodes st1) rgt;
     (res2, st2) \<leftarrow> bonsai_mknode res1 (bright r1) (bvalue r1) st1;
     st3 \<leftarrow> rcu_free rgt st2;
     Some (res2, st3) }"

definition bonsai_doubleL :: "addr \<Rightarrow> addr \<Rightarrow> int \<Rightarrow> bonsai \<Rightarrow> (addr \<times> bonsai) option" where
  "bonsai_doubleL lft rgt key st = do {
     r \<leftarrow> load (bnodes st) rgt;
     rl \<leftarrow> load (bnodes st) (bleft r);
     (new_left, st1) \<leftarrow> bonsai_mknode lft (bleft rl) key st;
     r1 \<leftarrow> load (bnodes st1) rgt;
     rl1 \<leftarrow> load (bnodes st1) (bleft r1);
     (new_right, st2) \<leftarrow> bonsai_mknode (bright rl1) (bright r1) (bvalue r1) st1;
     r2 \<leftarrow> load (bnodes st2) rgt;
     rl2 \<leftarrow> load (bnodes st2) (bleft r2);
     (res, st3) \<leftarrow> bonsai_mknode new_left new_right (bvalue rl2) st2;
     r3 \<leftarrow> load (bnodes st3) rgt;
     st4 \<leftarrow> rcu_free (bleft r3) st3;
     st5 \<leftarrow> rcu_free rgt st4;
     Some (res, st5) }"

definition bonsai_singleR :: "addr \<Rightarrow> addr \<Rightarrow> int \<Rightarrow> bonsai \<Rightarrow> (addr \<times> bonsai) option" where
  "bonsai_singleR lft rgt key st = do {
     l \<leftarrow> load (bnodes st) lft;
     (res1, st1) \<leftarrow> bonsai_mknode (bright l) rgt key st;
     l1 \<leftarrow> load (bnodes st1) lft;
     (res2, st2) \<leftarrow> bonsai_mknode (bleft l1) res1 (bvalue l1) st1;
     st3 \<leftarrow> rcu_free lft st2;
     Some (res2, st3) }"

definition bonsai_doubleR :: "addr \<Rightarrow> addr \<Rightarrow> int \<Rightarrow> bonsai \<Rightarrow> (addr \<times> bonsai) option" where
  "bonsai_doubleR lft rgt key st = do {
     l \<leftarrow> load (bnodes st) lft;
     lr \<leftarrow> load (bnodes st) (bright l);
     (new_left, st1) \<leftarrow> bonsai_mknode (bleft l) (bleft lr) (bvalue l) st;
     l1 \<leftarrow> load (bnodes st1) lft;
     lr1 \<leftarrow> load (bnodes st1) (bright l1);
     (new_right, st2) \<leftarrow> bonsai_mknode (bright lr1) rgt key st1;
     l2 \<leftarrow> load (bnodes st2) lft;
     lr2 \<leftarrow> load (bnodes st2) (bright l2);
     (res, st3) \<leftarrow> bonsai_mknode new_left new_right (bvalue lr2) st2;
     l3 \<leftarrow> load (bnodes st3) lft;
     st4 \<leftarrow> rcu_free (bright l3) st3;
     st5 \<leftarrow> rcu_free lft st4;
     Some (res, st5) }"

definition bonsai_mkbalancedL :: "addr \<Rightarrow> addr \<Rightarrow> int \<Rightarrow> bonsai \<Rightarrow> (addr \<times> bonsai) option" where
  "bonsai_mkbalancedL lft rgt key st = do {
     r \<leftarrow> load (bnodes st) rgt;
     rln \<leftarrow> bonsai_get_size (bleft r) st;
     rrn \<leftarrow> bonsai_get_size (bright r) st;
     if rln < rrn then bonsai_singleL lft rgt key st else bonsai_doubleL lft rgt key st }"

definition bonsai_mkbalancedR :: "addr \<Rightarrow> addr \<Rightarrow> int \<Rightarrow> bonsai \<Rightarrow> (addr \<times> bonsai) option" where
  "bonsai_mkbalancedR lft rgt key st = do {
     l \<leftarrow> load (bnodes st) lft;
     lln \<leftarrow> bonsai_get_size (bleft l) st;
     lrn \<leftarrow> bonsai_get_size (bright l) st;
     if lrn < lln then bonsai_singleR lft rgt key st else bonsai_doubleR lft rgt key st }"

text \<open>The code below the label \<open>balanced\<close>, and the function around it.\<close>

definition bonsai_keep :: "addr \<Rightarrow> addr \<Rightarrow> addr \<Rightarrow> int \<Rightarrow> bool \<Rightarrow> bool \<Rightarrow> bonsai \<Rightarrow> (addr \<times> bonsai) option" where
  "bonsai_keep cur lft rgt key replace inplace st =
     (if inplace then do {
        c \<leftarrow> load (bnodes st) cur;
        h1 \<leftarrow> (if \<not> replace
               then (if bright c = rgt then modify (bnodes st) cur (bleft_update (\<lambda>_. lft)) else None)
               else (if bleft c = lft then modify (bnodes st) cur (bright_update (\<lambda>_. rgt)) else None));
        ln \<leftarrow> bonsai_get_size lft (st\<lparr> bnodes := h1 \<rparr>);
        rn \<leftarrow> bonsai_get_size rgt (st\<lparr> bnodes := h1 \<rparr>);
        h2 \<leftarrow> modify h1 cur (bsize_update (\<lambda>_. ln + rn + 1));
        Some (cur, st\<lparr> bnodes := h2 \<rparr>) }
      else do {
        (res, st1) \<leftarrow> bonsai_mknode lft rgt key st;
        st2 \<leftarrow> rcu_free cur st1;
        Some (res, st2) })"

definition bonsai_mkbalanced :: "addr \<Rightarrow> addr \<Rightarrow> addr \<Rightarrow> bool \<Rightarrow> bool \<Rightarrow> bonsai \<Rightarrow> (addr \<times> bonsai) option" where
  "bonsai_mkbalanced cur lft rgt replace inplace st = do {
     ln \<leftarrow> bonsai_get_size lft st;
     rn \<leftarrow> bonsai_get_size rgt st;
     c \<leftarrow> load (bnodes st) cur;
     if ln + rn < 2 then bonsai_keep cur lft rgt (bvalue c) replace inplace st
     else if WEIGHT * ln < rn then do {
       (res, st1) \<leftarrow> bonsai_mkbalancedL lft rgt (bvalue c) st;
       st2 \<leftarrow> rcu_free cur st1;
       Some (res, st2) }
     else if WEIGHT * rn < ln then do {
       (res, st1) \<leftarrow> bonsai_mkbalancedR lft rgt (bvalue c) st;
       st2 \<leftarrow> rcu_free cur st1;
       Some (res, st2) }
     else bonsai_keep cur lft rgt (bvalue c) replace inplace st }"

subsection \<open>Insertion, deletion and search\<close>

partial_function (option) bonsai_insert :: "addr \<Rightarrow> int \<Rightarrow> bonsai \<Rightarrow> (addr \<times> int \<times> bonsai) option" where
  "bonsai_insert node key st =
     (if node = NULL then do { (n, st1) \<leftarrow> bonsai_mknode NULL NULL key st; Some (n, 1, st1) }
      else do {
        n \<leftarrow> load (bnodes st) node;
        if key < bvalue n then do {
          (child, rv, st1) \<leftarrow> bonsai_insert (bleft n) key st;
          n1 \<leftarrow> load (bnodes st1) node;
          (q, st2) \<leftarrow> bonsai_mkbalanced node child (bright n1) False INPLACE st1;
          Some (q, rv, st2) }
        else if bvalue n < key then do {
          (child, rv, st1) \<leftarrow> bonsai_insert (bright n) key st;
          n1 \<leftarrow> load (bnodes st1) node;
          (q, st2) \<leftarrow> bonsai_mkbalanced node (bleft n1) child True INPLACE st1;
          Some (q, rv, st2) }
        else Some (node, 0, st) })"

partial_function (option) bonsai_delete_succ :: "addr \<Rightarrow> bonsai \<Rightarrow> (addr \<times> addr \<times> bonsai) option" where
  "bonsai_delete_succ node st = do {
     n \<leftarrow> load (bnodes st) node;
     if bleft n = NULL then Some (bright n, node, st)
     else do {
       (child, succ, st1) \<leftarrow> bonsai_delete_succ (bleft n) st;
       (q, st2) \<leftarrow> bonsai_mkbalanced node child (bright n) False (\<not> INPLACE) st1;
       Some (q, succ, st2) } }"

partial_function (option) bonsai_delete :: "addr \<Rightarrow> int \<Rightarrow> bonsai \<Rightarrow> (addr \<times> addr \<times> bonsai) option" where
  "bonsai_delete node key st =
     (if node = NULL then Some (NULL, NULL, st)
      else do {
        n \<leftarrow> load (bnodes st) node;
        if key < bvalue n then do {
          (child, deleted, st1) \<leftarrow> bonsai_delete (bleft n) key st;
          (q, st2) \<leftarrow> bonsai_mkbalanced node child (bright n) False INPLACE st1;
          Some (q, deleted, st2) }
        else if bvalue n < key then do {
          (child, deleted, st1) \<leftarrow> bonsai_delete (bright n) key st;
          (q, st2) \<leftarrow> bonsai_mkbalanced node (bleft n) child True INPLACE st1;
          Some (q, deleted, st2) }
        else do {
          st1 \<leftarrow> rcu_free node st;
          if bleft n = NULL then Some (bright n, node, st1)
          else if bright n = NULL then Some (bleft n, node, st1)
          else do {
            (rgt, succ, st2) \<leftarrow> bonsai_delete_succ (bright n) st1;
            (q, st3) \<leftarrow> bonsai_mkbalanced succ (bleft n) rgt True (\<not> INPLACE) st2;
            Some (q, node, st3) } } })"

text \<open>The operations of the benchmark; \<open>root\<close> is \<open>tree->root\<close>, the sentinel.\<close>

definition bonsai_list_ins :: "addr \<Rightarrow> int \<Rightarrow> bonsai \<Rightarrow> (int \<times> bonsai) option" where
  "bonsai_list_ins root key st = do {
     t \<leftarrow> load (bnodes st) root;
     (q, ret, st1) \<leftarrow> bonsai_insert (bleft t) key st;
     h2 \<leftarrow> modify (bnodes st1) root (bleft_update (\<lambda>_. q));
     st3 \<leftarrow> rcu_maybe_free_ptrs (st1\<lparr> bnodes := h2 \<rparr>);
     Some (ret, st3) }"

definition bonsai_list_del :: "addr \<Rightarrow> int \<Rightarrow> bonsai \<Rightarrow> (int \<times> bonsai) option" where
  "bonsai_list_del root key st = do {
     t \<leftarrow> load (bnodes st) root;
     (q, deleted, st1) \<leftarrow> bonsai_delete (bleft t) key st;
     h2 \<leftarrow> modify (bnodes st1) root (bleft_update (\<lambda>_. q));
     st3 \<leftarrow> rcu_maybe_free_ptrs (st1\<lparr> bnodes := h2 \<rparr>);
     Some (if deleted \<noteq> NULL then 1 else 0, st3) }"

partial_function (option) bonsai_find_loop :: "bnode heap \<Rightarrow> int \<Rightarrow> addr \<Rightarrow> addr option" where
  "bonsai_find_loop h key cur =
     (if cur = NULL then Some cur
      else do { n \<leftarrow> load h cur;
        if key < bvalue n then bonsai_find_loop h key (bleft n)
        else if bvalue n < key then bonsai_find_loop h key (bright n)
        else Some cur })"

definition bonsai_list_find :: "addr \<Rightarrow> int \<Rightarrow> bonsai \<Rightarrow> int option" where
  "bonsai_list_find root key st = do {
     t \<leftarrow> load (bnodes st) root;
     cur \<leftarrow> bonsai_find_loop (bnodes st) key (bleft t);
     Some (if cur \<noteq> NULL then 1 else 0) }"

declare bonsai_insert.simps [code] bonsai_delete_succ.simps [code] bonsai_delete.simps [code] bonsai_find_loop.simps [code]

definition bchild :: "bnode \<Rightarrow> bool \<Rightarrow> addr" where "bchild n d = (if d then bright n else bleft n)"

definition set_bchild :: "bool \<Rightarrow> addr \<Rightarrow> bnode \<Rightarrow> bnode" where
  "set_bchild d q n = (if d then n\<lparr> bright := q \<rparr> else n\<lparr> bleft := q \<rparr>)"

lemma bchild_simps [simp]: "bchild n False = bleft n" "bchild n True = bright n"
  by (simp_all add: bchild_def)

interpretation bn: tree_nodes bchild set_bchild bvalue
  by unfold_locales (auto simp: bchild_def set_bchild_def)

subsection \<open>Trees with correct sizes\<close>

fun sized :: "bnode heap \<Rightarrow> addr tree \<Rightarrow> bool" where
  "sized h Leaf \<longleftrightarrow> True"
| "sized h (Node l a r) \<longleftrightarrow> bsize (the (load h a)) = of_nat (size (Node l a r)) \<and> sized h l \<and> sized h r"

definition btree :: "bnode heap \<Rightarrow> addr \<Rightarrow> addr tree \<Rightarrow> bool" where
  "btree h p t \<longleftrightarrow> bn.bst_at h p t \<and> sized h t"

lemma sized_frame: "(\<And>a. a \<in> set (inorder t) \<Longrightarrow> load h' a = load h a) \<Longrightarrow> sized h' t = sized h t"
  by (induction t) auto

lemma btree_frame:
  assumes "btree h p t" "\<And>a. a \<in> set (inorder t) \<Longrightarrow> load h' a = load h a"
  shows "btree h' p t" "bn.keys_at h' (inorder t) = bn.keys_at h (inorder t)"
proof -
  show k: "bn.keys_at h' (inorder t) = bn.keys_at h (inorder t)" by (rule bn.keys_at_frame) (rule assms(2))
  have "bn.tree_at h' p t = bn.tree_at h p t" by (rule bn.tree_at_frame) (rule assms(2))
  moreover have "sized h' t = sized h t" by (rule sized_frame) (rule assms(2))
  ultimately show "btree h' p t" using assms(1) unfolding btree_def bn.bst_at_def k by simp
qed

lemma btree_nodes: "btree h p t \<Longrightarrow> heap_ok h \<Longrightarrow> set (inorder t) \<subseteq> dom (cells h)"
  using bn.tree_at_loaded [of h p t] load_cells [of h] unfolding btree_def bn.bst_at_def by fastforce

lemma btree_Leaf: "btree h p Leaf \<longleftrightarrow> p = NULL"
  by (simp add: btree_def bn.bst_at_def)

lemma btree_Node:
  "btree h p (Node l a r) \<longleftrightarrow> p = a \<and> (\<exists>n. load h a = Some n \<and> bsize n = of_nat (size (Node l a r)) \<and>
     btree h (bleft n) l \<and> btree h (bright n) r \<and>
     (\<forall>x \<in> set (inorder l). bn.key_at h x < bvalue n) \<and> (\<forall>x \<in> set (inorder r). bvalue n < bn.key_at h x))"
  (is "?L \<longleftrightarrow> ?R")
proof
  assume ?L
  then obtain n where n: "p = a" "load h a = Some n" "bn.tree_at h (bleft n) l" "bn.tree_at h (bright n) r"
    by (auto simp: btree_def bn.bst_at_def split: option.splits)
  then have "bn.key_at h a = bvalue n" by (simp add: bn.key_at_def)
  with \<open>?L\<close> n show ?R by (auto simp: btree_def bn.bst_at_def sorted_wrt_append)
next
  assume ?R
  then obtain n where n: "p = a" "load h a = Some n" "btree h (bleft n) l" "btree h (bright n) r"
    "\<forall>x \<in> set (inorder l). bn.key_at h x < bvalue n" "\<forall>x \<in> set (inorder r). bvalue n < bn.key_at h x"
    "bsize n = of_nat (size (Node l a r))" by blast
  then have "bn.key_at h a = bvalue n" by (simp add: bn.key_at_def)
  moreover have "\<forall>x \<in> set (inorder l). \<forall>y \<in> set (inorder r). bn.key_at h x < bn.key_at h y" using n(5,6) by force
  ultimately show ?L using n by (auto simp: btree_def bn.bst_at_def sorted_wrt_append)
qed

lemma get_size: "btree (bnodes st) p t \<Longrightarrow> bonsai_get_size p st = Some (of_nat (size t))"
  by (cases t) (auto simp: btree_Leaf btree_Node bonsai_get_size_def)

subsection \<open>New nodes\<close>

text \<open>\<open>h'\<close> is \<open>h\<close> with the new node \<open>x\<close>; \<open>room h n\<close>: \<open>n\<close> allocations will succeed.\<close>

definition extended :: "bnode heap \<Rightarrow> addr \<Rightarrow> bnode heap \<Rightarrow> bool" where
  "extended h x h' \<longleftrightarrow> x \<notin> dom (cells h) \<and> dom (cells h') = insert x (dom (cells h)) \<and> heap_ok h' \<and>
     policy h' = policy h \<and> (\<forall>a \<in> dom (cells h). load h' a = load h a)"

definition room :: "bnode heap \<Rightarrow> nat \<Rightarrow> bool" where
  "room h n \<longleftrightarrow> heap_ok h \<and> finite (dom (cells h)) \<and> (\<exists>N. capacity h N \<and> card (dom (cells h)) + n \<le> N)"

lemma room_malloc: "room h (Suc n) \<Longrightarrow> malloc_succeeds h"
  unfolding room_def using capacity_malloc by fastforce

lemma room_less: "room h n \<Longrightarrow> m \<le> n \<Longrightarrow> room h m"
  unfolding room_def by (meson add_left_mono le_trans)

lemma room_extended: "room h (Suc n) \<Longrightarrow> extended h x h' \<Longrightarrow> room h' n"
  by (auto simp: room_def extended_def capacity_def)

lemma extended_btree:
  assumes "extended h x h'" "heap_ok h" "btree h p t"
  shows "btree h' p t" "bn.keys_at h' (inorder t) = bn.keys_at h (inorder t)" "x \<notin> set (inorder t)"
proof -
  have d: "set (inorder t) \<subseteq> dom (cells h)" by (rule btree_nodes [OF assms(3,2)])
  then have keep: "load h' a = load h a" if "a \<in> set (inorder t)" for a
    using that assms(1) unfolding extended_def by blast
  show "btree h' p t" "bn.keys_at h' (inorder t) = bn.keys_at h (inorder t)"
    by (rule btree_frame [OF assms(3) keep], assumption)+
  show "x \<notin> set (inorder t)" using d assms(1) unfolding extended_def by blast
qed

lemma extended_load: "extended h x h' \<Longrightarrow> load h a = Some n \<Longrightarrow> load h' a = Some n"
proof -
  assume "extended h x h'" and n: "load h a = Some n"
  moreover have "a \<in> dom (cells h)" using n by (simp add: load_def dom_def split: if_splits)
  ultimately show ?thesis unfolding extended_def by metis
qed

lemma mknode:
  assumes "room (bnodes st) (Suc m)" and l: "btree (bnodes st) lp l" and r: "btree (bnodes st) rp r"
    and k: "\<forall>x \<in> set (bn.keys_at (bnodes st) (inorder l)). x < k" "\<forall>x \<in> set (bn.keys_at (bnodes st) (inorder r)). k < x"
  shows "\<exists>x h'. bonsai_mknode lp rp k st = Some (x, st\<lparr> bnodes := h' \<rparr>) \<and> extended (bnodes st) x h' \<and>
    btree h' x (Node l x r) \<and> bn.key_at h' x = k"
proof -
  let ?h = "bnodes st"
  have ok: "heap_ok ?h" using assms(1) by (simp add: room_def)
  obtain x h0 where m: "malloc ?h = (x, h0)" by fastforce
  have x: "x \<noteq> NULL" using malloc_succeedsD [OF room_malloc [OF assms(1)] m] .
  from malloc_cases [OF ok m] x have fresh: "load ?h x = None" and h0: "h0 = upd ?h x (junk ?h x)" by auto
  let ?n = "\<lparr> bvalue = k, bleft = lp, bright = rp, bsize = of_nat (size l) + of_nat (size r) + 1 \<rparr>"
  let ?h' = "upd ?h x ?n"
  have ext: "extended ?h x ?h'" using fresh ok x by (auto simp: extended_def heap_simps load_cells split: if_splits)
  have nx: "lp \<noteq> x" "rp \<noteq> x"
    using extended_btree(3) [OF ext ok l] extended_btree(3) [OF ext ok r] l r x
    by (cases l; cases r; auto simp: btree_Leaf btree_Node)+
  have rec: "n\<lparr> bleft := b, bright := c, bsize := d, bvalue := a \<rparr> = \<lparr> bvalue = a, bleft = b, bright = c, bsize = d \<rparr>"
    for n a b c d by (cases n) simp
  have gs: "bonsai_get_size lp (st\<lparr> bnodes := upd ?h x n \<rparr>) = Some (of_nat (size l))"
    "bonsai_get_size rp (st\<lparr> bnodes := upd ?h x n \<rparr>) = Some (of_nat (size r))" for n
    using get_size [OF l] get_size [OF r] nx by (auto simp: bonsai_get_size_def heap_simps)
  have "bonsai_mknode lp rp k st = Some (x, st\<lparr> bnodes := ?h' \<rparr>)"
    using m x fresh by (simp add: bonsai_mknode_def h0 heap_simps gs rec)
  moreover have "bn.key_at ?h' x = k" using x by (simp add: bn.key_at_def heap_simps)
  moreover have "btree ?h' x (Node l x r)"
  proof -
    note el = extended_btree [OF ext ok l] and er = extended_btree [OF ext ok r]
    have "\<forall>y \<in> set (inorder l). bn.key_at ?h' y < k" "\<forall>y \<in> set (inorder r). k < bn.key_at ?h' y"
      using k unfolding el(2) [symmetric] er(2) [symmetric] by auto
    moreover have "load ?h' x = Some ?n" using x by (simp add: heap_simps)
    ultimately show ?thesis using el(1) er(1) by (simp add: btree_Node)
  qed
  ultimately show ?thesis using ext by blast
qed

subsection \<open>Rotations\<close>

text \<open>
  \<open>rebuilt st A ks n q st'\<close>: from the nodes \<open>A\<close> the code has made a tree at \<open>q\<close> with the keys
  \<open>ks\<close>. Every node of \<open>A\<close> and every new node is now either in the tree or waiting to be released,
  never both and never twice; no other node has changed; at most \<open>n\<close> nodes are new and at most
  \<open>n\<close> are released.
\<close>

definition rebuilt :: "bonsai \<Rightarrow> addr set \<Rightarrow> int list \<Rightarrow> nat \<Rightarrow> addr \<Rightarrow> bonsai \<Rightarrow> bool" where
  "rebuilt st A ks n q st' \<longleftrightarrow> (\<exists>t fs X. btree (bnodes st') q t \<and> bn.keys_at (bnodes st') (inorder t) = ks \<and>
     free_ptrs st' = free_ptrs st @ fs \<and> length fs \<le> n \<and> distinct fs \<and> set fs \<inter> set (inorder t) = {} \<and>
     set (inorder t) \<union> set fs = A \<union> X \<and> finite X \<and> card X \<le> n \<and> X \<inter> dom (cells (bnodes st)) = {} \<and>
     dom (cells (bnodes st')) = X \<union> dom (cells (bnodes st)) \<and> heap_ok (bnodes st') \<and>
     policy (bnodes st') = policy (bnodes st) \<and>
     (\<forall>a \<in> dom (cells (bnodes st)) - A. load (bnodes st') a = load (bnodes st) a))"

definition grown_by :: "bnode heap \<Rightarrow> addr set \<Rightarrow> bnode heap \<Rightarrow> bool" where
  "grown_by h X h' \<longleftrightarrow> finite X \<and> X \<inter> dom (cells h) = {} \<and> dom (cells h') = X \<union> dom (cells h) \<and> heap_ok h' \<and>
     policy h' = policy h \<and> (\<forall>a \<in> dom (cells h). load h' a = load h a)"

lemma grown_by_1: "extended h x h' \<Longrightarrow> grown_by h {x} h'"
  by (simp add: extended_def grown_by_def)

lemma grown_by_more: "grown_by h X h1 \<Longrightarrow> extended h1 x h2 \<Longrightarrow> grown_by h (insert x X) h2"
  unfolding grown_by_def extended_def by (intro conjI ballI) auto

lemma rebuiltI:
  assumes "grown_by (bnodes st) X (bnodes st')" "btree (bnodes st') q t" "bn.keys_at (bnodes st') (inorder t) = ks"
    "free_ptrs st' = free_ptrs st @ fs" "length fs \<le> n" "card X \<le> n" "distinct fs" "set fs \<inter> set (inorder t) = {}"
    "set (inorder t) \<union> set fs = A \<union> X"
  shows "rebuilt st A ks n q st'"
proof -
  note g = assms(1) [unfolded grown_by_def]
  have "\<forall>a \<in> dom (cells (bnodes st)) - A. load (bnodes st') a = load (bnodes st) a" using g by blast
  with g assms show ?thesis unfolding rebuilt_def by blast
qed

lemma rebuilt_mono: "rebuilt st A ks n q st' \<Longrightarrow> n \<le> m \<Longrightarrow> rebuilt st A ks m q st'"
  unfolding rebuilt_def
  by (elim exE conjE, intro exI conjI) (assumption | erule order_trans, assumption)+

text \<open>The keys of a sorted row of trees do not repeat, hence neither do their nodes.\<close>

lemma sorted_keys_distinct:
  assumes "sorted_wrt (<) (bn.keys_at h as @ k # bn.keys_at h bs)"
  shows "distinct (as @ bs)"
proof -
  have "sorted_wrt (<) (bn.keys_at h (as @ bs))" using assms by (auto simp: sorted_wrt_append)
  then show ?thesis by (rule bn.sorted_distinct)
qed

lemma key_at_Node: "load h a = Some n \<Longrightarrow> bn.key_at h a = bvalue n"
  by (simp add: bn.key_at_def)

lemma singleL:
  assumes room: "room (bnodes st) (Suc (Suc m))" and l: "btree (bnodes st) lp l"
    and r: "btree (bnodes st) rp (Node rl ra rr)"
    and so: "sorted_wrt (<) (bn.keys_at (bnodes st) (inorder l) @ k # bn.keys_at (bnodes st) (inorder (Node rl ra rr)))"
    and free: "length (free_ptrs st) < URCU_FREE_PTRS_SIZE"
  shows "\<exists>q st'. bonsai_singleL lp rp k st = Some (q, st') \<and>
    rebuilt st (set (inorder l) \<union> set (inorder (Node rl ra rr)))
      (bn.keys_at (bnodes st) (inorder l) @ k # bn.keys_at (bnodes st) (inorder (Node rl ra rr))) 2 q st'"
proof -
  let ?h = "bnodes st" and ?K = "bn.keys_at (bnodes st)"
  have ok: "heap_ok ?h" using room by (simp add: room_def)
  from r obtain n where n: "rp = ra" "load ?h ra = Some n" "btree ?h (bleft n) rl" "btree ?h (bright n) rr"
    by (auto simp: btree_Node)
  note ka = key_at_Node [OF n(2)]
  obtain x1 h1 where x1: "bonsai_mknode lp (bleft n) k st = Some (x1, st\<lparr> bnodes := h1 \<rparr>)" "extended ?h x1 h1"
    "btree h1 x1 (Node l x1 rl)" "bn.key_at h1 x1 = k"
    using mknode [OF room l n(3), of k] so by (auto simp: sorted_wrt_append)
  let ?st1 = "st\<lparr> bnodes := h1 \<rparr>"
  note l1 = extended_btree [OF x1(2) ok l] and rl1 = extended_btree [OF x1(2) ok n(3)] and rr1 = extended_btree [OF x1(2) ok n(4)]
  have k1: "bn.keys_at h1 (inorder (Node l x1 rl)) = ?K (inorder l) @ k # ?K (inorder rl)"
    using l1(2) rl1(2) x1(4) by simp
  have ok1: "heap_ok h1" using x1(2) by (simp add: extended_def)
  have b1: "\<forall>x \<in> set (bn.keys_at h1 (inorder (Node l x1 rl))). x < bvalue n" "\<forall>x \<in> set (bn.keys_at h1 (inorder rr)). bvalue n < x"
    using so unfolding k1 rr1(2) by (auto simp: sorted_wrt_append ka)
  have room1: "room (bnodes ?st1) (Suc m)" using room_extended [OF room x1(2)] by simp
  obtain x2 h2 where x2: "bonsai_mknode x1 (bright n) (bvalue n) ?st1 = Some (x2, ?st1\<lparr> bnodes := h2 \<rparr>)" "extended h1 x2 h2"
    "btree h2 x2 (Node (Node l x1 rl) x2 rr)" "bn.key_at h2 x2 = bvalue n"
    using mknode [OF room1, of x1 "Node l x1 rl" "bright n" rr "bvalue n"] x1(3) rr1(1) b1 by auto
  let ?t = "Node (Node l x1 rl) x2 rr" and ?st3 = "st\<lparr> bnodes := h2, free_ptrs := free_ptrs st @ [ra] \<rparr>"
  note t1 = extended_btree [OF x2(2) ok1 x1(3)] and rr2 = extended_btree [OF x2(2) ok1 rr1(1)]
  have "bonsai_singleL lp rp k st = Some (x2, ?st3)"
    using n(1,2) x1(1) extended_load [OF x1(2) n(2)] x2(1) free by (simp add: bonsai_singleL_def rcu_free_def)
  moreover have "rebuilt st (set (inorder l) \<union> set (inorder (Node rl ra rr))) (?K (inorder l) @ k # ?K (inorder (Node rl ra rr))) 2 x2 ?st3"
  proof (rule rebuiltI [where X = "{x2, x1}" and fs = "[ra]" and t = ?t])
    show "grown_by ?h {x2, x1} (bnodes ?st3)" using grown_by_more [OF grown_by_1 [OF x1(2)] x2(2)] by simp
    show "btree (bnodes ?st3) x2 ?t" using x2(3) by simp
    have "bn.keys_at h2 (inorder ?t) = bn.keys_at h2 (inorder (Node l x1 rl)) @ bn.key_at h2 x2 # bn.keys_at h2 (inorder rr)"
      by simp
    also have "\<dots> = ?K (inorder l) @ k # ?K (inorder (Node rl ra rr))"
      unfolding t1(2) k1 x2(4) rr2(2) rr1(2) using ka by simp
    finally show "bn.keys_at (bnodes ?st3) (inorder ?t) = ?K (inorder l) @ k # ?K (inorder (Node rl ra rr))" by simp
    have "ra \<in> dom (cells ?h)" "x1 \<notin> dom (cells ?h)" "x2 \<notin> dom (cells ?h)"
      using n(2) ok x1(2) x2(2) by (auto simp: load_cells extended_def)
    then show "set [ra] \<inter> set (inorder ?t) = {}" using sorted_keys_distinct [OF so] by auto
  qed (auto simp: card_insert_if)
  ultimately show ?thesis by blast
qed

lemma doubleL:
  assumes room: "room (bnodes st) (Suc (Suc (Suc m)))" and l: "btree (bnodes st) lp l"
    and r: "btree (bnodes st) rp (Node (Node rll rla rlr) ra rr)"
    and so: "sorted_wrt (<) (bn.keys_at (bnodes st) (inorder l) @ k # bn.keys_at (bnodes st) (inorder (Node (Node rll rla rlr) ra rr)))"
    and free: "Suc (length (free_ptrs st)) < URCU_FREE_PTRS_SIZE"
  shows "\<exists>q st'. bonsai_doubleL lp rp k st = Some (q, st') \<and>
    rebuilt st (set (inorder l) \<union> set (inorder (Node (Node rll rla rlr) ra rr)))
      (bn.keys_at (bnodes st) (inorder l) @ k # bn.keys_at (bnodes st) (inorder (Node (Node rll rla rlr) ra rr))) 3 q st'"
proof -
  let ?h = "bnodes st" and ?K = "bn.keys_at (bnodes st)" and ?r = "Node (Node rll rla rlr) ra rr"
  have ok: "heap_ok ?h" using room by (simp add: room_def)
  from r obtain n nl where n: "rp = ra" "load ?h ra = Some n" "bleft n = rla" "load ?h rla = Some nl"
    "btree ?h (bleft nl) rll" "btree ?h (bright nl) rlr" "btree ?h (bright n) rr"
    by (auto simp: btree_Node)
  note ka = key_at_Node [OF n(2)] key_at_Node [OF n(4)]
  obtain x1 h1 where x1: "bonsai_mknode lp (bleft nl) k st = Some (x1, st\<lparr> bnodes := h1 \<rparr>)" "extended ?h x1 h1"
    "btree h1 x1 (Node l x1 rll)" "bn.key_at h1 x1 = k"
    using mknode [OF room l n(5), of k] so by (auto simp: sorted_wrt_append)
  let ?st1 = "st\<lparr> bnodes := h1 \<rparr>"
  have ok1: "heap_ok h1" using x1(2) by (simp add: extended_def)
  note l1 = extended_btree [OF x1(2) ok l] and rll1 = extended_btree [OF x1(2) ok n(5)]
    and rlr1 = extended_btree [OF x1(2) ok n(6)] and rr1 = extended_btree [OF x1(2) ok n(7)]
  have room1: "room (bnodes ?st1) (Suc (Suc m))" using room_extended [OF room x1(2)] by simp
  have b1: "\<forall>x \<in> set (bn.keys_at h1 (inorder rlr)). x < bvalue n" "\<forall>x \<in> set (bn.keys_at h1 (inorder rr)). bvalue n < x"
    using so unfolding rlr1(2) rr1(2) by (auto simp: sorted_wrt_append ka)
  obtain x2 h2 where x2: "bonsai_mknode (bright nl) (bright n) (bvalue n) ?st1 = Some (x2, ?st1\<lparr> bnodes := h2 \<rparr>)" "extended h1 x2 h2"
    "btree h2 x2 (Node rlr x2 rr)" "bn.key_at h2 x2 = bvalue n"
    using mknode [OF room1, of "bright nl" rlr "bright n" rr "bvalue n"] rlr1(1) rr1(1) b1 by auto
  let ?st2 = "st\<lparr> bnodes := h2 \<rparr>"
  have ok2: "heap_ok h2" using x2(2) by (simp add: extended_def)
  note tl = extended_btree [OF x2(2) ok1 x1(3)] and rlr2 = extended_btree [OF x2(2) ok1 rlr1(1)] and rr2 = extended_btree [OF x2(2) ok1 rr1(1)]
  have kl: "bn.keys_at h2 (inorder (Node l x1 rll)) = ?K (inorder l) @ k # ?K (inorder rll)"
    unfolding tl(2) using l1(2) rll1(2) x1(4) by simp
  have kr: "bn.keys_at h2 (inorder (Node rlr x2 rr)) = ?K (inorder rlr) @ bvalue n # ?K (inorder rr)"
    using rlr2(2) rlr1(2) rr2(2) rr1(2) x2(4) by simp
  have b2: "\<forall>x \<in> set (bn.keys_at h2 (inorder (Node l x1 rll))). x < bvalue nl"
    "\<forall>x \<in> set (bn.keys_at h2 (inorder (Node rlr x2 rr))). bvalue nl < x"
    using so unfolding kl kr by (auto simp: sorted_wrt_append ka)
  have room2: "room (bnodes ?st2) (Suc m)" using room_extended [OF _ x2(2), of "Suc m"] room1 by simp
  obtain x3 h3 where x3: "bonsai_mknode x1 x2 (bvalue nl) ?st2 = Some (x3, ?st2\<lparr> bnodes := h3 \<rparr>)" "extended h2 x3 h3"
    "btree h3 x3 (Node (Node l x1 rll) x3 (Node rlr x2 rr))" "bn.key_at h3 x3 = bvalue nl"
    using mknode [OF room2, of x1 "Node l x1 rll" x2 "Node rlr x2 rr" "bvalue nl"] tl(1) x2(3) b2 by auto
  let ?t = "Node (Node l x1 rll) x3 (Node rlr x2 rr)"
  let ?st3 = "st\<lparr> bnodes := h3, free_ptrs := free_ptrs st @ [rla, ra] \<rparr>"
  note tl3 = extended_btree [OF x3(2) ok2 tl(1)] and tr3 = extended_btree [OF x3(2) ok2 x2(3)]
  have "bonsai_doubleL lp rp k st = Some (x3, ?st3)"
    using n(1-4) x1(1) extended_load [OF x1(2) n(2)] extended_load [OF x1(2) n(4)] x2(1)
      extended_load [OF x2(2) extended_load [OF x1(2) n(2)]] extended_load [OF x2(2) extended_load [OF x1(2) n(4)]]
      extended_load [OF x3(2) extended_load [OF x2(2) extended_load [OF x1(2) n(2)]]] x3(1) free
    by (simp add: bonsai_doubleL_def rcu_free_def)
  moreover have "rebuilt st (set (inorder l) \<union> set (inorder ?r)) (?K (inorder l) @ k # ?K (inorder ?r)) 3 x3 ?st3"
  proof (rule rebuiltI [where X = "{x3, x2, x1}" and fs = "[rla, ra]" and t = ?t])
    show "grown_by ?h {x3, x2, x1} (bnodes ?st3)"
      using grown_by_more [OF grown_by_more [OF grown_by_1 [OF x1(2)] x2(2)] x3(2)] by simp
    show "btree (bnodes ?st3) x3 ?t" using x3(3) by simp
    have "bn.keys_at h3 (inorder ?t) = bn.keys_at h3 (inorder (Node l x1 rll)) @ bn.key_at h3 x3 # bn.keys_at h3 (inorder (Node rlr x2 rr))"
      by simp
    also have "\<dots> = ?K (inorder l) @ k # ?K (inorder ?r)"
      unfolding tl3(2) tr3(2) kl kr x3(4) using ka by simp
    finally show "bn.keys_at (bnodes ?st3) (inorder ?t) = ?K (inorder l) @ k # ?K (inorder ?r)" by simp
    have "ra \<in> dom (cells ?h)" "rla \<in> dom (cells ?h)" "x1 \<notin> dom (cells ?h)" "x2 \<notin> dom (cells ?h)" "x3 \<notin> dom (cells ?h)"
      using n(2,4) ok x1(2) x2(2) x3(2) by (auto simp: load_cells extended_def)
    then show "set [rla, ra] \<inter> set (inorder ?t) = {}" using sorted_keys_distinct [OF so] by auto
    show "distinct [rla, ra]" using sorted_keys_distinct [OF so] by auto
  qed (auto simp: card_insert_if)
  ultimately show ?thesis by blast
qed

lemma singleR:
  assumes room: "room (bnodes st) (Suc (Suc m))" and l: "btree (bnodes st) lp (Node ll la lr)"
    and r: "btree (bnodes st) rp r"
    and so: "sorted_wrt (<) (bn.keys_at (bnodes st) (inorder (Node ll la lr)) @ k # bn.keys_at (bnodes st) (inorder r))"
    and free: "length (free_ptrs st) < URCU_FREE_PTRS_SIZE"
  shows "\<exists>q st'. bonsai_singleR lp rp k st = Some (q, st') \<and>
    rebuilt st (set (inorder (Node ll la lr)) \<union> set (inorder r))
      (bn.keys_at (bnodes st) (inorder (Node ll la lr)) @ k # bn.keys_at (bnodes st) (inorder r)) 2 q st'"
proof -
  let ?h = "bnodes st" and ?K = "bn.keys_at (bnodes st)"
  have ok: "heap_ok ?h" using room by (simp add: room_def)
  from l obtain n where n: "lp = la" "load ?h la = Some n" "btree ?h (bleft n) ll" "btree ?h (bright n) lr"
    by (auto simp: btree_Node)
  note ka = key_at_Node [OF n(2)]
  obtain x1 h1 where x1: "bonsai_mknode (bright n) rp k st = Some (x1, st\<lparr> bnodes := h1 \<rparr>)" "extended ?h x1 h1"
    "btree h1 x1 (Node lr x1 r)" "bn.key_at h1 x1 = k"
    using mknode [OF room n(4) r, of k] so by (auto simp: sorted_wrt_append)
  let ?st1 = "st\<lparr> bnodes := h1 \<rparr>"
  note r1 = extended_btree [OF x1(2) ok r] and lr1 = extended_btree [OF x1(2) ok n(4)] and ll1 = extended_btree [OF x1(2) ok n(3)]
  have k1: "bn.keys_at h1 (inorder (Node lr x1 r)) = ?K (inorder lr) @ k # ?K (inorder r)"
    using r1(2) lr1(2) x1(4) by simp
  have ok1: "heap_ok h1" using x1(2) by (simp add: extended_def)
  have b1: "\<forall>x \<in> set (bn.keys_at h1 (inorder ll)). x < bvalue n" "\<forall>x \<in> set (bn.keys_at h1 (inorder (Node lr x1 r))). bvalue n < x"
    using so unfolding k1 ll1(2) by (auto simp: sorted_wrt_append ka)
  have room1: "room (bnodes ?st1) (Suc m)" using room_extended [OF room x1(2)] by simp
  obtain x2 h2 where x2: "bonsai_mknode (bleft n) x1 (bvalue n) ?st1 = Some (x2, ?st1\<lparr> bnodes := h2 \<rparr>)" "extended h1 x2 h2"
    "btree h2 x2 (Node ll x2 (Node lr x1 r))" "bn.key_at h2 x2 = bvalue n"
    using mknode [OF room1, of "bleft n" ll x1 "Node lr x1 r" "bvalue n"] x1(3) ll1(1) b1 by auto
  let ?t = "Node ll x2 (Node lr x1 r)" and ?st3 = "st\<lparr> bnodes := h2, free_ptrs := free_ptrs st @ [la] \<rparr>"
  note t1 = extended_btree [OF x2(2) ok1 x1(3)] and ll2 = extended_btree [OF x2(2) ok1 ll1(1)]
  have "bonsai_singleR lp rp k st = Some (x2, ?st3)"
    using n(1,2) x1(1) extended_load [OF x1(2) n(2)] x2(1) free by (simp add: bonsai_singleR_def rcu_free_def)
  moreover have "rebuilt st (set (inorder (Node ll la lr)) \<union> set (inorder r)) (?K (inorder (Node ll la lr)) @ k # ?K (inorder r)) 2 x2 ?st3"
  proof (rule rebuiltI [where X = "{x2, x1}" and fs = "[la]" and t = ?t])
    show "grown_by ?h {x2, x1} (bnodes ?st3)" using grown_by_more [OF grown_by_1 [OF x1(2)] x2(2)] by simp
    show "btree (bnodes ?st3) x2 ?t" using x2(3) by simp
    have "bn.keys_at h2 (inorder ?t) = bn.keys_at h2 (inorder ll) @ bn.key_at h2 x2 # bn.keys_at h2 (inorder (Node lr x1 r))"
      by simp
    also have "\<dots> = ?K (inorder (Node ll la lr)) @ k # ?K (inorder r)"
      unfolding t1(2) k1 x2(4) ll2(2) ll1(2) using ka by simp
    finally show "bn.keys_at (bnodes ?st3) (inorder ?t) = ?K (inorder (Node ll la lr)) @ k # ?K (inorder r)" by simp
    have "la \<in> dom (cells ?h)" "x1 \<notin> dom (cells ?h)" "x2 \<notin> dom (cells ?h)"
      using n(2) ok x1(2) x2(2) by (auto simp: load_cells extended_def)
    then show "set [la] \<inter> set (inorder ?t) = {}" using sorted_keys_distinct [OF so] by auto
  qed (auto simp: card_insert_if)
  ultimately show ?thesis by blast
qed

lemma doubleR:
  assumes room: "room (bnodes st) (Suc (Suc (Suc m)))" and l: "btree (bnodes st) lp (Node ll la (Node lrl lra lrr))"
    and r: "btree (bnodes st) rp r"
    and so: "sorted_wrt (<) (bn.keys_at (bnodes st) (inorder (Node ll la (Node lrl lra lrr))) @ k # bn.keys_at (bnodes st) (inorder r))"
    and free: "Suc (length (free_ptrs st)) < URCU_FREE_PTRS_SIZE"
  shows "\<exists>q st'. bonsai_doubleR lp rp k st = Some (q, st') \<and>
    rebuilt st (set (inorder (Node ll la (Node lrl lra lrr))) \<union> set (inorder r))
      (bn.keys_at (bnodes st) (inorder (Node ll la (Node lrl lra lrr))) @ k # bn.keys_at (bnodes st) (inorder r)) 3 q st'"
proof -
  let ?h = "bnodes st" and ?K = "bn.keys_at (bnodes st)" and ?l = "Node ll la (Node lrl lra lrr)"
  have ok: "heap_ok ?h" using room by (simp add: room_def)
  from l obtain n nr where n: "lp = la" "load ?h la = Some n" "bright n = lra" "load ?h lra = Some nr"
    "btree ?h (bleft nr) lrl" "btree ?h (bright nr) lrr" "btree ?h (bleft n) ll"
    by (auto simp: btree_Node)
  note ka = key_at_Node [OF n(2)] key_at_Node [OF n(4)]
  obtain x1 h1 where x1: "bonsai_mknode (bleft n) (bleft nr) (bvalue n) st = Some (x1, st\<lparr> bnodes := h1 \<rparr>)" "extended ?h x1 h1"
    "btree h1 x1 (Node ll x1 lrl)" "bn.key_at h1 x1 = bvalue n"
    using mknode [OF room n(7,5), of "bvalue n"] so by (auto simp: sorted_wrt_append ka)
  let ?st1 = "st\<lparr> bnodes := h1 \<rparr>"
  have ok1: "heap_ok h1" using x1(2) by (simp add: extended_def)
  note ll1 = extended_btree [OF x1(2) ok n(7)] and lrl1 = extended_btree [OF x1(2) ok n(5)]
    and lrr1 = extended_btree [OF x1(2) ok n(6)] and r1 = extended_btree [OF x1(2) ok r]
  have room1: "room (bnodes ?st1) (Suc (Suc m))" using room_extended [OF room x1(2)] by simp
  have b1: "\<forall>x \<in> set (bn.keys_at h1 (inorder lrr)). x < k" "\<forall>x \<in> set (bn.keys_at h1 (inorder r)). k < x"
    using so unfolding lrr1(2) r1(2) by (auto simp: sorted_wrt_append ka)
  obtain x2 h2 where x2: "bonsai_mknode (bright nr) rp k ?st1 = Some (x2, ?st1\<lparr> bnodes := h2 \<rparr>)" "extended h1 x2 h2"
    "btree h2 x2 (Node lrr x2 r)" "bn.key_at h2 x2 = k"
    using mknode [OF room1, of "bright nr" lrr rp r k] lrr1(1) r1(1) b1 by auto
  let ?st2 = "st\<lparr> bnodes := h2 \<rparr>"
  have ok2: "heap_ok h2" using x2(2) by (simp add: extended_def)
  note tl = extended_btree [OF x2(2) ok1 x1(3)] and lrr2 = extended_btree [OF x2(2) ok1 lrr1(1)] and r2 = extended_btree [OF x2(2) ok1 r1(1)]
  have kl: "bn.keys_at h2 (inorder (Node ll x1 lrl)) = ?K (inorder ll) @ bvalue n # ?K (inorder lrl)"
    unfolding tl(2) using ll1(2) lrl1(2) x1(4) by simp
  have kr: "bn.keys_at h2 (inorder (Node lrr x2 r)) = ?K (inorder lrr) @ k # ?K (inorder r)"
    using lrr2(2) lrr1(2) r2(2) r1(2) x2(4) by simp
  have b2: "\<forall>x \<in> set (bn.keys_at h2 (inorder (Node ll x1 lrl))). x < bvalue nr"
    "\<forall>x \<in> set (bn.keys_at h2 (inorder (Node lrr x2 r))). bvalue nr < x"
    using so unfolding kl kr by (auto simp: sorted_wrt_append ka)
  have room2: "room (bnodes ?st2) (Suc m)" using room_extended [OF _ x2(2), of "Suc m"] room1 by simp
  obtain x3 h3 where x3: "bonsai_mknode x1 x2 (bvalue nr) ?st2 = Some (x3, ?st2\<lparr> bnodes := h3 \<rparr>)" "extended h2 x3 h3"
    "btree h3 x3 (Node (Node ll x1 lrl) x3 (Node lrr x2 r))" "bn.key_at h3 x3 = bvalue nr"
    using mknode [OF room2, of x1 "Node ll x1 lrl" x2 "Node lrr x2 r" "bvalue nr"] tl(1) x2(3) b2 by auto
  let ?t = "Node (Node ll x1 lrl) x3 (Node lrr x2 r)"
  let ?st3 = "st\<lparr> bnodes := h3, free_ptrs := free_ptrs st @ [lra, la] \<rparr>"
  note tl3 = extended_btree [OF x3(2) ok2 tl(1)] and tr3 = extended_btree [OF x3(2) ok2 x2(3)]
  have "bonsai_doubleR lp rp k st = Some (x3, ?st3)"
    using n(1-4) x1(1) extended_load [OF x1(2) n(2)] extended_load [OF x1(2) n(4)] x2(1)
      extended_load [OF x2(2) extended_load [OF x1(2) n(2)]] extended_load [OF x2(2) extended_load [OF x1(2) n(4)]]
      extended_load [OF x3(2) extended_load [OF x2(2) extended_load [OF x1(2) n(2)]]] x3(1) free
    by (simp add: bonsai_doubleR_def rcu_free_def)
  moreover have "rebuilt st (set (inorder ?l) \<union> set (inorder r)) (?K (inorder ?l) @ k # ?K (inorder r)) 3 x3 ?st3"
  proof (rule rebuiltI [where X = "{x3, x2, x1}" and fs = "[lra, la]" and t = ?t])
    show "grown_by ?h {x3, x2, x1} (bnodes ?st3)"
      using grown_by_more [OF grown_by_more [OF grown_by_1 [OF x1(2)] x2(2)] x3(2)] by simp
    show "btree (bnodes ?st3) x3 ?t" using x3(3) by simp
    have "bn.keys_at h3 (inorder ?t) = bn.keys_at h3 (inorder (Node ll x1 lrl)) @ bn.key_at h3 x3 # bn.keys_at h3 (inorder (Node lrr x2 r))"
      by simp
    also have "\<dots> = ?K (inorder ?l) @ k # ?K (inorder r)"
      unfolding tl3(2) tr3(2) kl kr x3(4) using ka by simp
    finally show "bn.keys_at (bnodes ?st3) (inorder ?t) = ?K (inorder ?l) @ k # ?K (inorder r)" by simp
    have "la \<in> dom (cells ?h)" "lra \<in> dom (cells ?h)" "x1 \<notin> dom (cells ?h)" "x2 \<notin> dom (cells ?h)" "x3 \<notin> dom (cells ?h)"
      using n(2,4) ok x1(2) x2(2) x3(2) by (auto simp: load_cells extended_def)
    then show "set [lra, la] \<inter> set (inorder ?t) = {}" using sorted_keys_distinct [OF so] by auto
    show "distinct [lra, la]" using sorted_keys_distinct [OF so] by auto
  qed (auto simp: card_insert_if)
  ultimately show ?thesis by blast
qed

subsection \<open>Balancing\<close>

lemma of_nat_u32_less: "a < 2 ^ 32 \<Longrightarrow> b < 2 ^ 32 \<Longrightarrow> (of_nat a < (of_nat b :: u32)) = (a < b)"
  by (simp add: word_less_nat_alt unat_of_nat)

lemma size_tests:
  assumes "a < 2 ^ 29" "b < 2 ^ 29"
  shows "(of_nat a + of_nat b < (2 :: u32)) = (a + b < 2)" "(WEIGHT * of_nat a < of_nat b) = (4 * a < b)"
    "((of_nat a :: u32) < of_nat b) = (a < b)"
  using of_nat_u32_less [of "a + b" 2] of_nat_u32_less [of "4 * a" b] of_nat_u32_less [of a b] assms
  by (simp_all add: WEIGHT_def)

lemma mkbalancedL:
  assumes room: "room (bnodes st) (Suc (Suc (Suc m)))" and l: "btree (bnodes st) lp l" and r: "btree (bnodes st) rp r"
    and so: "sorted_wrt (<) (bn.keys_at (bnodes st) (inorder l) @ k # bn.keys_at (bnodes st) (inorder r))"
    and free: "Suc (length (free_ptrs st)) < URCU_FREE_PTRS_SIZE" and sz: "2 \<le> size r" "size r < 2 ^ 29"
  shows "\<exists>q st'. bonsai_mkbalancedL lp rp k st = Some (q, st') \<and>
    rebuilt st (set (inorder l) \<union> set (inorder r))
      (bn.keys_at (bnodes st) (inorder l) @ k # bn.keys_at (bnodes st) (inorder r)) 3 q st'"
proof -
  from r sz(1) obtain rl ra rr n where R: "r = Node rl ra rr" and n: "load (bnodes st) rp = Some n"
    "btree (bnodes st) (bleft n) rl" "btree (bnodes st) (bright n) rr" by (cases r) (auto simp: btree_Node)
  have t: "((of_nat (size rl) :: u32) < of_nat (size rr)) = (size rl < size rr)" using sz(2) R by (intro size_tests(3)) auto
  have step: "bonsai_mkbalancedL lp rp k st =
      (if size rl < size rr then bonsai_singleL lp rp k st else bonsai_doubleL lp rp k st)"
    using n get_size [OF n(2)] get_size [OF n(3)] t by (simp add: bonsai_mkbalancedL_def)
  show ?thesis
  proof (cases "size rl < size rr")
    case True
    from singleL [OF room l r [unfolded R] so [unfolded R]] free show ?thesis
      unfolding step R using True rebuilt_mono [of st _ _ 2 _ _ 3] by auto
  next
    case False
    with sz(1) R obtain rll rla rlr where "rl = Node rll rla rlr" by (cases rl) auto
    with doubleL [OF room l r [unfolded R this] so [unfolded R this] free] False show ?thesis unfolding step R by auto
  qed
qed

lemma mkbalancedR:
  assumes room: "room (bnodes st) (Suc (Suc (Suc m)))" and l: "btree (bnodes st) lp l" and r: "btree (bnodes st) rp r"
    and so: "sorted_wrt (<) (bn.keys_at (bnodes st) (inorder l) @ k # bn.keys_at (bnodes st) (inorder r))"
    and free: "Suc (length (free_ptrs st)) < URCU_FREE_PTRS_SIZE" and sz: "2 \<le> size l" "size l < 2 ^ 29"
  shows "\<exists>q st'. bonsai_mkbalancedR lp rp k st = Some (q, st') \<and>
    rebuilt st (set (inorder l) \<union> set (inorder r))
      (bn.keys_at (bnodes st) (inorder l) @ k # bn.keys_at (bnodes st) (inorder r)) 3 q st'"
proof -
  from l sz(1) obtain ll la lr n where L: "l = Node ll la lr" and n: "load (bnodes st) lp = Some n"
    "btree (bnodes st) (bleft n) ll" "btree (bnodes st) (bright n) lr" by (cases l) (auto simp: btree_Node)
  have t: "((of_nat (size lr) :: u32) < of_nat (size ll)) = (size lr < size ll)" using sz(2) L by (intro size_tests(3)) auto
  have step: "bonsai_mkbalancedR lp rp k st =
      (if size lr < size ll then bonsai_singleR lp rp k st else bonsai_doubleR lp rp k st)"
    using n get_size [OF n(2)] get_size [OF n(3)] t by (simp add: bonsai_mkbalancedR_def)
  show ?thesis
  proof (cases "size lr < size ll")
    case True
    from singleR [OF room l [unfolded L] r so [unfolded L]] free show ?thesis
      unfolding step L using True rebuilt_mono [of st _ _ 2 _ _ 3] by auto
  next
    case False
    with sz(1) L obtain lrl lra lrr where "lr = Node lrl lra lrr" by (cases lr) auto
    with doubleR [OF room l [unfolded L this] r so [unfolded L this] free] False show ?thesis unfolding step L by auto
  qed
qed

lemma rebuilt_free:
  assumes r: "rebuilt st A ks n q st1" and c: "cur \<notin> A" "cur \<in> dom (cells (bnodes st))"
    and free: "length (free_ptrs st) + n < URCU_FREE_PTRS_SIZE"
  shows "\<exists>st2. rcu_free cur st1 = Some st2 \<and> rebuilt st (insert cur A) ks (Suc n) q st2"
proof -
  from r obtain t fs X where t: "btree (bnodes st1) q t" "bn.keys_at (bnodes st1) (inorder t) = ks"
    "free_ptrs st1 = free_ptrs st @ fs" "length fs \<le> n" "distinct fs" "set fs \<inter> set (inorder t) = {}"
    "set (inorder t) \<union> set fs = A \<union> X" "finite X" "card X \<le> n" "X \<inter> dom (cells (bnodes st)) = {}"
    "dom (cells (bnodes st1)) = X \<union> dom (cells (bnodes st))" "heap_ok (bnodes st1)" "policy (bnodes st1) = policy (bnodes st)"
    "\<forall>a \<in> dom (cells (bnodes st)) - A. load (bnodes st1) a = load (bnodes st) a" unfolding rebuilt_def by blast
  let ?st2 = "st1\<lparr> free_ptrs := free_ptrs st1 @ [cur] \<rparr>"
  have "cur \<notin> set (inorder t) \<union> set fs" unfolding t(7) using c t(10) by blast
  then have "rebuilt st (insert cur A) ks (Suc n) q ?st2"
    unfolding rebuilt_def
    by (intro exI [of _ t] exI [of _ "fs @ [cur]"] exI [of _ X]) (use t in auto)
  moreover have "rcu_free cur st1 = Some ?st2" using t(3,4) free by (simp add: rcu_free_def)
  ultimately show ?thesis by blast
qed

lemma keep_balanced:
  assumes room: "room (bnodes st) (Suc m)" and l: "btree (bnodes st) lp l" and r: "btree (bnodes st) rp r"
    and n: "load (bnodes st) cur = Some n" and c: "cur \<notin> set (inorder l)" "cur \<notin> set (inorder r)"
    and so: "sorted_wrt (<) (bn.keys_at (bnodes st) (inorder l) @ bvalue n # bn.keys_at (bnodes st) (inorder r))"
    and free: "Suc (length (free_ptrs st)) < URCU_FREE_PTRS_SIZE"
    and place: "inplace \<Longrightarrow> (if replace then bleft n = lp else bright n = rp)"
  shows "\<exists>q st'. bonsai_keep cur lp rp (bvalue n) replace inplace st = Some (q, st') \<and>
    rebuilt st (insert cur (set (inorder l) \<union> set (inorder r)))
      (bn.keys_at (bnodes st) (inorder l) @ bvalue n # bn.keys_at (bnodes st) (inorder r)) 2 q st'"
proof (cases inplace)
  case True
  let ?h = "bnodes st"
  have ok: "heap_ok ?h" using room by (simp add: room_def)
  have cz: "cur \<noteq> NULL" using n by auto
  let ?n = "n\<lparr> bleft := lp, bright := rp, bsize := of_nat (size l) + of_nat (size r) + 1 \<rparr>"
  let ?h' = "upd ?h cur ?n"
  have nc: "lp \<noteq> cur" "rp \<noteq> cur" using l r c cz by (cases l; cases r; auto simp: btree_Leaf btree_Node)+
  have gs: "bonsai_get_size lp (st\<lparr> bnodes := upd ?h cur x \<rparr>) = Some (of_nat (size l))"
    "bonsai_get_size rp (st\<lparr> bnodes := upd ?h cur x \<rparr>) = Some (of_nat (size r))" for x
    using get_size [OF l] get_size [OF r] nc by (auto simp: bonsai_get_size_def heap_simps)
  have upd_eq: "n\<lparr> bleft := lp, bsize := s \<rparr> = n\<lparr> bleft := lp, bright := rp, bsize := s \<rparr>" if "bright n = rp" for s
    using that by (cases n) simp
  have upd_eq': "n\<lparr> bright := rp, bsize := s \<rparr> = n\<lparr> bleft := lp, bright := rp, bsize := s \<rparr>" if "bleft n = lp" for s
    using that by (cases n) simp
  have "bonsai_keep cur lp rp (bvalue n) replace inplace st = Some (cur, st\<lparr> bnodes := ?h' \<rparr>)"
    using True n cz place by (cases replace) (simp_all add: bonsai_keep_def heap_simps gs upd_eq upd_eq')
  moreover have "rebuilt st (insert cur (set (inorder l) \<union> set (inorder r)))
      (bn.keys_at ?h (inorder l) @ bvalue n # bn.keys_at ?h (inorder r)) 2 cur (st\<lparr> bnodes := ?h' \<rparr>)"
  proof -
    have keep: "load ?h' a = load ?h a" if "a \<noteq> cur" for a using that by (simp add: heap_simps)
    have l': "btree ?h' lp l" "bn.keys_at ?h' (inorder l) = bn.keys_at ?h (inorder l)"
      by (rule btree_frame [OF l]; metis keep c(1))+
    have r': "btree ?h' rp r" "bn.keys_at ?h' (inorder r) = bn.keys_at ?h (inorder r)"
      by (rule btree_frame [OF r]; metis keep c(2))+
    have ln: "load ?h' cur = Some ?n" using cz by (simp add: heap_simps)
    have "\<forall>y \<in> set (inorder l). bn.key_at ?h' y < bvalue n" "\<forall>y \<in> set (inorder r). bvalue n < bn.key_at ?h' y"
      using so unfolding l'(2) [symmetric] r'(2) [symmetric] by (auto simp: sorted_wrt_append)
    then have "btree ?h' cur (Node l cur r)" using l'(1) r'(1) ln by (simp add: btree_Node)
    moreover have "bn.keys_at ?h' (inorder (Node l cur r)) = bn.keys_at ?h (inorder l) @ bvalue n # bn.keys_at ?h (inorder r)"
      using l'(2) r'(2) key_at_Node [OF ln] by simp
    moreover have "dom (cells ?h') = dom (cells ?h)" using n by (auto simp: heap_simps load_def split: if_splits)
    moreover have "\<forall>a \<in> dom (cells ?h) - insert cur (set (inorder l) \<union> set (inorder r)). load ?h' a = load ?h a" using keep by blast
    ultimately show ?thesis unfolding rebuilt_def
      by (intro exI [of _ "Node l cur r"] exI [of _ "[]"] exI [of _ "{}"]) (use ok cz in auto)
  qed
  ultimately show ?thesis by blast
next
  case False
  let ?h = "bnodes st"
  have ok: "heap_ok ?h" using room by (simp add: room_def)
  obtain x h' where x: "bonsai_mknode lp rp (bvalue n) st = Some (x, st\<lparr> bnodes := h' \<rparr>)" "extended ?h x h'"
    "btree h' x (Node l x r)" "bn.key_at h' x = bvalue n"
    using mknode [OF room l r, of "bvalue n"] so by (auto simp: sorted_wrt_append)
  have "rebuilt st (set (inorder l) \<union> set (inorder r)) (bn.keys_at ?h (inorder l) @ bvalue n # bn.keys_at ?h (inorder r)) 1 x
      (st\<lparr> bnodes := h' \<rparr>)"
    by (rule rebuiltI [where X = "{x}" and fs = "[]" and t = "Node l x r"])
       (use x grown_by_1 [OF x(2)] extended_btree(2) [OF x(2) ok l] extended_btree(2) [OF x(2) ok r] in auto)
  moreover have "cur \<in> dom (cells ?h)" using n ok by (auto simp: load_cells)
  ultimately obtain st2 where "rcu_free cur (st\<lparr> bnodes := h' \<rparr>) = Some st2"
    "rebuilt st (insert cur (set (inorder l) \<union> set (inorder r)))
      (bn.keys_at ?h (inorder l) @ bvalue n # bn.keys_at ?h (inorder r)) (Suc 1) x st2"
    using rebuilt_free [of st _ _ 1 x "st\<lparr> bnodes := h' \<rparr>" cur] c free by auto
  with x(1) False show ?thesis by (auto simp: bonsai_keep_def numeral_2_eq_2)
qed

lemma mkbalanced:
  assumes room: "room (bnodes st) (Suc (Suc (Suc m)))" and l: "btree (bnodes st) lp l" and r: "btree (bnodes st) rp r"
    and n: "load (bnodes st) cur = Some n" and c: "cur \<notin> set (inorder l)" "cur \<notin> set (inorder r)"
    and so: "sorted_wrt (<) (bn.keys_at (bnodes st) (inorder l) @ bvalue n # bn.keys_at (bnodes st) (inorder r))"
    and free: "length (free_ptrs st) + 3 < URCU_FREE_PTRS_SIZE"
    and place: "inplace \<Longrightarrow> (if replace then bleft n = lp else bright n = rp)"
    and sz: "size l + size r < 2 ^ 29"
  shows "\<exists>q st'. bonsai_mkbalanced cur lp rp replace inplace st = Some (q, st') \<and>
    rebuilt st (insert cur (set (inorder l) \<union> set (inorder r)))
      (bn.keys_at (bnodes st) (inorder l) @ bvalue n # bn.keys_at (bnodes st) (inorder r)) 4 q st'"
proof -
  note g = get_size [OF l] get_size [OF r]
  have s: "size l < 2 ^ 29" "size r < 2 ^ 29" using sz by auto
  note t = size_tests(1,2) [OF s] size_tests(2) [OF s(2,1)]
  have dom: "cur \<in> dom (cells (bnodes st))" using n room by (auto simp: room_def load_cells)
  have cA: "cur \<notin> set (inorder l) \<union> set (inorder r)" using c by blast
  have free2: "Suc (length (free_ptrs st)) < URCU_FREE_PTRS_SIZE" using free by simp
  have room1: "room (bnodes st) (Suc m)" using room by (rule room_less) simp
  obtain q0 st0 where keep0: "bonsai_keep cur lp rp (bvalue n) replace inplace st = Some (q0, st0)"
    "rebuilt st (insert cur (set (inorder l) \<union> set (inorder r)))
      (bn.keys_at (bnodes st) (inorder l) @ bvalue n # bn.keys_at (bnodes st) (inorder r)) 2 q0 st0"
    using keep_balanced [where inplace = inplace and replace = replace, OF room1 l r n c so free2] place by blast
  have keep: "bonsai_keep cur lp rp (bvalue n) replace inplace st = Some (q0, st0)"
    "rebuilt st (insert cur (set (inorder l) \<union> set (inorder r)))
      (bn.keys_at (bnodes st) (inorder l) @ bvalue n # bn.keys_at (bnodes st) (inorder r)) 4 q0 st0"
    using keep0(1) rebuilt_mono [OF keep0(2), of 4] by simp_all
  consider (small) "size l + size r < 2" | (L) "\<not> size l + size r < 2" "4 * size l < size r"
    | (R) "\<not> size l + size r < 2" "\<not> 4 * size l < size r" "4 * size r < size l"
    | (even) "\<not> size l + size r < 2" "\<not> 4 * size l < size r" "\<not> 4 * size r < size l" by blast
  then show ?thesis
  proof cases
    case small
    then show ?thesis using keep n by (simp add: bonsai_mkbalanced_def g t)
  next
    case L
    then obtain q1 st1 where L1: "bonsai_mkbalancedL lp rp (bvalue n) st = Some (q1, st1)"
      "rebuilt st (set (inorder l) \<union> set (inorder r))
        (bn.keys_at (bnodes st) (inorder l) @ bvalue n # bn.keys_at (bnodes st) (inorder r)) 3 q1 st1"
      using mkbalancedL [OF room l r so free2] s by auto
    from rebuilt_free [OF L1(2) cA dom free] L1(1) L n show ?thesis
      by (auto simp: bonsai_mkbalanced_def g t)
  next
    case R
    then obtain q1 st1 where R1: "bonsai_mkbalancedR lp rp (bvalue n) st = Some (q1, st1)"
      "rebuilt st (set (inorder l) \<union> set (inorder r))
        (bn.keys_at (bnodes st) (inorder l) @ bvalue n # bn.keys_at (bnodes st) (inorder r)) 3 q1 st1"
      using mkbalancedR [OF room l r so free2] s by auto
    from rebuilt_free [OF R1(2) cA dom free] R1(1) R n show ?thesis
      by (auto simp: bonsai_mkbalanced_def g t)
  next
    case even
    then show ?thesis using keep n by (simp add: bonsai_mkbalanced_def g t)
  qed
qed

subsection \<open>Composing the steps of a recursion\<close>

lemma rebuilt_btree:
  assumes "rebuilt st A ks n q st'"
  obtains t where "btree (bnodes st') q t" "bn.keys_at (bnodes st') (inorder t) = ks" "size t = length ks"
    "sorted_wrt (<) ks"
proof -
  from assms obtain t where "btree (bnodes st') q t" "bn.keys_at (bnodes st') (inorder t) = ks" unfolding rebuilt_def by blast
  moreover from this have "size t = length ks" by (metis length_inorder length_map)
  ultimately show ?thesis using that by (auto simp: btree_def bn.bst_at_def)
qed

lemma rebuilt_keep:
  assumes "rebuilt st A ks n q st'" "a \<in> dom (cells (bnodes st))" "a \<notin> A"
  shows "load (bnodes st') a = load (bnodes st) a"
  using assms unfolding rebuilt_def by blast

lemma rebuilt_free_ptrs: "rebuilt st A ks n q st' \<Longrightarrow> length (free_ptrs st') \<le> length (free_ptrs st) + n"
  unfolding rebuilt_def by auto

lemma rebuilt_room:
  assumes "rebuilt st A ks n q st'" "room (bnodes st) (n + m)"
  shows "room (bnodes st') m"
proof -
  let ?h = "bnodes st" and ?h' = "bnodes st'"
  from assms(1) obtain X where X: "finite X" "card X \<le> n" "X \<inter> dom (cells ?h) = {}" "dom (cells ?h') = X \<union> dom (cells ?h)"
    "heap_ok ?h'" "policy ?h' = policy ?h" unfolding rebuilt_def by blast
  from assms(2) obtain N where N: "finite (dom (cells ?h))" "capacity ?h N" "card (dom (cells ?h)) + (n + m) \<le> N"
    by (auto simp: room_def)
  have "card (dom (cells ?h')) = card X + card (dom (cells ?h))"
    unfolding X(4) by (rule card_Un_disjoint [OF X(1) N(1) X(3)])
  moreover have "capacity ?h' N" using N(2) X(6) by (simp add: capacity_def)
  moreover have "finite (dom (cells ?h'))" unfolding X(4) using X(1) N(1) by blast
  ultimately have "capacity ?h' N \<and> card (dom (cells ?h')) + m \<le> N" using X(2) N(3) by linarith
  with \<open>finite (dom (cells ?h'))\<close> X(5) show ?thesis unfolding room_def by blast
qed

lemma rebuilt_refl: "btree (bnodes st) q t \<Longrightarrow> heap_ok (bnodes st) \<Longrightarrow>
    rebuilt st (set (inorder t)) (bn.keys_at (bnodes st) (inorder t)) 0 q st"
  unfolding rebuilt_def by (intro exI [of _ t] exI [of _ "[]"] exI [of _ "{}"]) auto

lemma rebuilt_trans:
  assumes r1: "rebuilt st A ks1 n1 q1 st1" and t1: "btree (bnodes st1) q1 t1"
    and r2: "rebuilt st1 (B \<union> set (inorder t1)) ks n2 q st2"
    and sub: "A \<subseteq> dom (cells (bnodes st))" "B \<subseteq> dom (cells (bnodes st))" "A \<inter> B = {}"
  shows "rebuilt st (A \<union> B) ks (n1 + n2) q st2"
proof -
  let ?h = "bnodes st" and ?h1 = "bnodes st1" and ?h2 = "bnodes st2"
  from r1 obtain t fs1 X1 where R1: "btree ?h1 q1 t" "free_ptrs st1 = free_ptrs st @ fs1" "length fs1 \<le> n1" "distinct fs1"
    "set fs1 \<inter> set (inorder t) = {}" "set (inorder t) \<union> set fs1 = A \<union> X1" "finite X1" "card X1 \<le> n1"
    "X1 \<inter> dom (cells ?h) = {}" "dom (cells ?h1) = X1 \<union> dom (cells ?h)" "policy ?h1 = policy ?h"
    "\<forall>a \<in> dom (cells ?h) - A. load ?h1 a = load ?h a" unfolding rebuilt_def by blast
  have t: "t = t1" using R1(1) t1 bn.tree_at_det unfolding btree_def bn.bst_at_def by blast
  from r2 obtain t2 fs2 X2 where R2: "btree ?h2 q t2" "bn.keys_at ?h2 (inorder t2) = ks" "free_ptrs st2 = free_ptrs st1 @ fs2"
    "length fs2 \<le> n2" "distinct fs2" "set fs2 \<inter> set (inorder t2) = {}" "set (inorder t2) \<union> set fs2 = B \<union> set (inorder t1) \<union> X2"
    "finite X2" "card X2 \<le> n2" "X2 \<inter> dom (cells ?h1) = {}" "dom (cells ?h2) = X2 \<union> dom (cells ?h1)" "heap_ok ?h2"
    "policy ?h2 = policy ?h1" "\<forall>a \<in> dom (cells ?h1) - (B \<union> set (inorder t1)). load ?h2 a = load ?h1 a"
    unfolding rebuilt_def by blast
  have f1: "set fs1 \<inter> (B \<union> set (inorder t1) \<union> X2) = {}"
  proof -
    have s1: "set fs1 \<subseteq> A \<union> X1" using R1(6) by blast
    have "set fs1 \<inter> B = {}" using s1 R1(9) sub(2,3) by blast
    moreover have "set fs1 \<inter> X2 = {}" using s1 sub(1) R1(10) R2(10) by blast
    ultimately show ?thesis using R1(5) unfolding t by blast
  qed
  have keep: "load ?h2 a = load ?h a" if "a \<in> dom (cells ?h) - (A \<union> B)" for a
  proof -
    have "a \<notin> set (inorder t1)" using that R1(6,9) unfolding t by blast
    then have "load ?h2 a = load ?h1 a" using that R2(14) R1(10) by blast
    with that R1(12) show ?thesis by simp
  qed
  show ?thesis
    unfolding rebuilt_def
  proof (intro exI [of _ t2] exI [of _ "fs1 @ fs2"] exI [of _ "X1 \<union> X2"] conjI)
    show "distinct (fs1 @ fs2)" using R1(4) R2(5,7) f1 by auto
    show "set (fs1 @ fs2) \<inter> set (inorder t2) = {}" using R2(6,7) f1 by auto
    show "set (inorder t2) \<union> set (fs1 @ fs2) = A \<union> B \<union> (X1 \<union> X2)" using R1(6) R2(7) unfolding t by auto
    show "card (X1 \<union> X2) \<le> n1 + n2" using card_Un_le [of X1 X2] R1(8) R2(9) by linarith
    show "(X1 \<union> X2) \<inter> dom (cells ?h) = {}" using R1(9,10) R2(10) by blast
    show "free_ptrs st2 = free_ptrs st @ fs1 @ fs2" "length (fs1 @ fs2) \<le> n1 + n2" using R1(2,3) R2(3,4) by simp_all
    show "dom (cells ?h2) = X1 \<union> X2 \<union> dom (cells ?h)" using R1(10) R2(11) by blast
    show "policy ?h2 = policy ?h" using R1(11) R2(13) by simp
    show "\<forall>a \<in> dom (cells ?h) - (A \<union> B). load ?h2 a = load ?h a" using keep by blast
  qed (use R1(7) R2(1,2,8,12) in \<open>simp_all\<close>)
qed

lemma rebuilt_after_free:
  assumes "rcu_free a st = Some st1" "rebuilt st1 A ks n q st2" "a \<notin> A" "a \<in> dom (cells (bnodes st))"
  shows "rebuilt st (insert a A) ks (Suc n) q st2"
proof -
  have st1: "st1 = st\<lparr> free_ptrs := free_ptrs st @ [a] \<rparr>" using assms(1) by (auto simp: rcu_free_def split: if_splits)
  from assms(2) obtain t fs X where R: "btree (bnodes st2) q t" "bn.keys_at (bnodes st2) (inorder t) = ks"
    "free_ptrs st2 = free_ptrs st1 @ fs" "length fs \<le> n" "distinct fs" "set fs \<inter> set (inorder t) = {}"
    "set (inorder t) \<union> set fs = A \<union> X" "finite X" "card X \<le> n" "X \<inter> dom (cells (bnodes st)) = {}"
    "dom (cells (bnodes st2)) = X \<union> dom (cells (bnodes st))" "heap_ok (bnodes st2)" "policy (bnodes st2) = policy (bnodes st)"
    "\<forall>b \<in> dom (cells (bnodes st)) - A. load (bnodes st2) b = load (bnodes st) b" unfolding rebuilt_def st1 by auto
  have "a \<notin> set (inorder t) \<union> set fs" unfolding R(7) using assms(3,4) R(10) by blast
  then show ?thesis
    unfolding rebuilt_def
    by (intro exI [of _ t] exI [of _ "a # fs"] exI [of _ X]) (use R in \<open>auto simp: st1\<close>)
qed

text \<open>One step up from a rebuilt child: the sibling and the parent are as they were.\<close>

lemma rebuilt_sibling:
  assumes "rebuilt st A ks n q st1" "heap_ok (bnodes st)" "btree (bnodes st) p t" "A \<inter> set (inorder t) = {}"
  shows "btree (bnodes st1) p t" "bn.keys_at (bnodes st1) (inorder t) = bn.keys_at (bnodes st) (inorder t)"
proof -
  have keep: "load (bnodes st1) a = load (bnodes st) a" if "a \<in> set (inorder t)" for a
    using that btree_nodes [OF assms(3,2)] assms(4) by (intro rebuilt_keep [OF assms(1)]) blast+
  show "btree (bnodes st1) p t" "bn.keys_at (bnodes st1) (inorder t) = bn.keys_at (bnodes st) (inorder t)"
    by (rule btree_frame [OF assms(3) keep], assumption)+
qed

lemma rebuilt_outside:
  assumes "rebuilt st A ks n q st1" "btree (bnodes st1) q t" "a \<in> dom (cells (bnodes st))" "a \<notin> A"
  shows "a \<notin> set (inorder t)"
proof -
  from assms(1) obtain t' fs X where t': "btree (bnodes st1) q t'" "set (inorder t') \<union> set fs = A \<union> X"
    "X \<inter> dom (cells (bnodes st)) = {}" unfolding rebuilt_def by blast
  have "t' = t" using t'(1) assms(2) bn.tree_at_det unfolding btree_def bn.bst_at_def by blast
  with t' assms(3,4) show ?thesis by blast
qed

lemma mkbalanced_left:
  assumes R: "rebuilt st A ks n q st1" and A: "A \<subseteq> dom (cells (bnodes st))" and r: "btree (bnodes st) rp r"
    and dis: "A \<inter> set (inorder r) = {}" and c: "load (bnodes st) cur = Some c" "cur \<notin> A" "cur \<notin> set (inorder r)"
    and so: "sorted_wrt (<) (ks @ bvalue c # bn.keys_at (bnodes st) (inorder r))"
    and room: "room (bnodes st) (n + 3)" and free: "length (free_ptrs st) + n + 3 < URCU_FREE_PTRS_SIZE"
    and place: "inplace \<Longrightarrow> bright c = rp" and sz: "length ks + size r < 2 ^ 29"
  shows "\<exists>q' st2. bonsai_mkbalanced cur q rp False inplace st1 = Some (q', st2) \<and>
    rebuilt st (insert cur (A \<union> set (inorder r))) (ks @ bvalue c # bn.keys_at (bnodes st) (inorder r)) (n + 4) q' st2"
proof -
  have ok: "heap_ok (bnodes st)" using room by (simp add: room_def)
  obtain t where t: "btree (bnodes st1) q t" "bn.keys_at (bnodes st1) (inorder t) = ks" "size t = length ks"
    using rebuilt_btree [OF R] .
  note r1 = rebuilt_sibling [OF R ok r dis]
  have dom: "cur \<in> dom (cells (bnodes st))" using c(1) ok by (auto simp: load_cells)
  have c1: "load (bnodes st1) cur = Some c" using rebuilt_keep [OF R dom c(2)] c(1) by simp
  have ct: "cur \<notin> set (inorder t)" by (rule rebuilt_outside [OF R t(1) dom c(2)])
  have room1: "room (bnodes st1) (Suc (Suc (Suc 0)))" using rebuilt_room [OF R room] by (simp add: numeral_3_eq_3)
  have so1: "sorted_wrt (<) (bn.keys_at (bnodes st1) (inorder t) @ bvalue c # bn.keys_at (bnodes st1) (inorder r))"
    unfolding t(2) r1(2) by (rule so)
  have free1: "length (free_ptrs st1) + 3 < URCU_FREE_PTRS_SIZE" using rebuilt_free_ptrs [OF R] free by linarith
  have sz1: "size t + size r < 2 ^ 29" unfolding t(3) by (rule sz)
  obtain q' st2 where q': "bonsai_mkbalanced cur q rp False inplace st1 = Some (q', st2)"
    "rebuilt st1 (insert cur (set (inorder t) \<union> set (inorder r))) (ks @ bvalue c # bn.keys_at (bnodes st) (inorder r)) 4 q' st2"
    using mkbalanced [OF room1 t(1) r1(1) c1 ct c(3) so1 free1 _ sz1, of inplace False] place unfolding t(2) r1(2) by auto
  have "insert cur (set (inorder t) \<union> set (inorder r)) = insert cur (set (inorder r)) \<union> set (inorder t)" by blast
  then have "rebuilt st (A \<union> insert cur (set (inorder r))) (ks @ bvalue c # bn.keys_at (bnodes st) (inorder r)) (n + 4) q' st2"
    using q'(2) A dom btree_nodes [OF r ok] dis c(2) by (intro rebuilt_trans [OF R t(1)]) auto
  with q'(1) show ?thesis by simp
qed

lemma mkbalanced_right:
  assumes R: "rebuilt st A ks n q st1" and A: "A \<subseteq> dom (cells (bnodes st))" and l: "btree (bnodes st) lp l"
    and dis: "A \<inter> set (inorder l) = {}" and c: "load (bnodes st) cur = Some c" "cur \<notin> A" "cur \<notin> set (inorder l)"
    and so: "sorted_wrt (<) (bn.keys_at (bnodes st) (inorder l) @ bvalue c # ks)"
    and room: "room (bnodes st) (n + 3)" and free: "length (free_ptrs st) + n + 3 < URCU_FREE_PTRS_SIZE"
    and place: "inplace \<Longrightarrow> bleft c = lp" and sz: "size l + length ks < 2 ^ 29"
  shows "\<exists>q' st2. bonsai_mkbalanced cur lp q True inplace st1 = Some (q', st2) \<and>
    rebuilt st (insert cur (A \<union> set (inorder l))) (bn.keys_at (bnodes st) (inorder l) @ bvalue c # ks) (n + 4) q' st2"
proof -
  have ok: "heap_ok (bnodes st)" using room by (simp add: room_def)
  obtain t where t: "btree (bnodes st1) q t" "bn.keys_at (bnodes st1) (inorder t) = ks" "size t = length ks"
    using rebuilt_btree [OF R] .
  note l1 = rebuilt_sibling [OF R ok l dis]
  have dom: "cur \<in> dom (cells (bnodes st))" using c(1) ok by (auto simp: load_cells)
  have c1: "load (bnodes st1) cur = Some c" using rebuilt_keep [OF R dom c(2)] c(1) by simp
  have ct: "cur \<notin> set (inorder t)" by (rule rebuilt_outside [OF R t(1) dom c(2)])
  have room1: "room (bnodes st1) (Suc (Suc (Suc 0)))" using rebuilt_room [OF R room] by (simp add: numeral_3_eq_3)
  have so1: "sorted_wrt (<) (bn.keys_at (bnodes st1) (inorder l) @ bvalue c # bn.keys_at (bnodes st1) (inorder t))"
    unfolding t(2) l1(2) by (rule so)
  have free1: "length (free_ptrs st1) + 3 < URCU_FREE_PTRS_SIZE" using rebuilt_free_ptrs [OF R] free by linarith
  have sz1: "size l + size t < 2 ^ 29" unfolding t(3) by (rule sz)
  obtain q' st2 where q': "bonsai_mkbalanced cur lp q True inplace st1 = Some (q', st2)"
    "rebuilt st1 (insert cur (set (inorder l) \<union> set (inorder t))) (bn.keys_at (bnodes st) (inorder l) @ bvalue c # ks) 4 q' st2"
    using mkbalanced [OF room1 l1(1) t(1) c1 c(3) ct so1 free1 _ sz1, of inplace True] place unfolding t(2) l1(2) by auto
  have "insert cur (set (inorder l) \<union> set (inorder t)) = insert cur (set (inorder l)) \<union> set (inorder t)" by blast
  then have "rebuilt st (A \<union> insert cur (set (inorder l))) (bn.keys_at (bnodes st) (inorder l) @ bvalue c # ks) (n + 4) q' st2"
    using q'(2) A dom btree_nodes [OF l ok] dis c(2) by (intro rebuilt_trans [OF R t(1)]) auto
  with q'(1) show ?thesis by simp
qed

subsection \<open>The recursive operations\<close>

lemma btree_sorted: "btree h p t \<Longrightarrow> sorted_wrt (<) (bn.keys_at h (inorder t))"
  by (simp add: btree_def bn.bst_at_def)

lemma sorted_length: "sorted_wrt (<) (ks :: int list) \<Longrightarrow> length ks = card (set ks)"
  by (simp add: strict_sorted_iff distinct_card)

lemma btree_Node_split:
  assumes "btree h p (Node l a r)"
  obtains n where "p = a" "a \<noteq> NULL" "load h a = Some n" "btree h (bleft n) l" "btree h (bright n) r"
    "\<forall>x \<in> set (bn.keys_at h (inorder l)). x < bvalue n" "\<forall>x \<in> set (bn.keys_at h (inorder r)). bvalue n < x"
    "bn.key_at h a = bvalue n" "distinct (inorder l @ a # inorder r)"
proof -
  from assms obtain n where n: "p = a" "load h a = Some n" "btree h (bleft n) l" "btree h (bright n) r"
    "\<forall>x \<in> set (bn.keys_at h (inorder l)). x < bvalue n" "\<forall>x \<in> set (bn.keys_at h (inorder r)). bvalue n < x"
    by (auto simp: btree_Node)
  moreover have "distinct (inorder l @ a # inorder r)" using bn.sorted_distinct [OF btree_sorted [OF assms]] by simp
  ultimately show ?thesis using that [of n] key_at_Node [of h a n] load_Some_NULL by blast
qed

lemma insert_spec:
  assumes ok: "room (bnodes st) (4 * height t + 1)" and free: "length (free_ptrs st) + 4 * height t < URCU_FREE_PTRS_SIZE"
    and "btree (bnodes st) p t" and "size t + 1 < 2 ^ 29"
  shows "\<exists>q rv st' ks. bonsai_insert p k st = Some (q, rv, st') \<and>
    rebuilt st (set (inorder t)) ks (4 * height t + 1) q st' \<and> set ks = insert k (set (bn.keys_at (bnodes st) (inorder t))) \<and>
    rv = (if k \<in> set (bn.keys_at (bnodes st) (inorder t)) then 0 else 1)"
  using assms
proof (induction t arbitrary: p)
  case Leaf
  then have p: "p = NULL" by (simp add: btree_Leaf)
  obtain x h' where x: "bonsai_mknode NULL NULL k st = Some (x, st\<lparr> bnodes := h' \<rparr>)" "extended (bnodes st) x h'"
    "btree h' x (Node Leaf x Leaf)" "bn.key_at h' x = k"
    using mknode [of st 0 NULL Leaf NULL Leaf k] Leaf.prems(1) by (auto simp: btree_Leaf)
  have "rebuilt st {} [k] 1 x (st\<lparr> bnodes := h' \<rparr>)"
    by (rule rebuiltI [where X = "{x}" and fs = "[]" and t = "Node Leaf x Leaf"]) (use x grown_by_1 [OF x(2)] in auto)
  with x(1) show ?case by (subst bonsai_insert.simps) (auto simp: p intro!: exI [of _ "[k]"])
next
  case (Node l a r)
  let ?h = "bnodes st" and ?t = "Node l a r" and ?K = "\<lambda>t. set (bn.keys_at (bnodes st) (inorder t))"
  from btree_Node_split [OF Node.prems(3)] obtain n where n: "p = a" "a \<noteq> NULL" "load ?h a = Some n"
    "btree ?h (bleft n) l" "btree ?h (bright n) r" "\<forall>x \<in> ?K l. x < bvalue n" "\<forall>x \<in> ?K r. bvalue n < x"
    "bn.key_at ?h a = bvalue n" "distinct (inorder l @ a # inorder r)" .
  have hok: "heap_ok ?h" using Node.prems(1) by (simp add: room_def)
  have dom: "a \<in> dom (cells ?h)" using n(3) hok by (auto simp: load_cells)
  note D = btree_nodes [OF n(4) hok] btree_nodes [OF n(5) hok]
  have hl: "4 * height l + 4 \<le> 4 * height ?t" and hr: "4 * height r + 4 \<le> 4 * height ?t" by auto
  consider (less) "k < bvalue n" | (greater) "bvalue n < k" | (same) "k = bvalue n" by linarith
  then show ?case
  proof cases
    case less
    then have kr: "k \<notin> ?K r" "k \<noteq> bvalue n" using n(7) by auto
    have pre: "room ?h (4 * height l + 1)" "length (free_ptrs st) + 4 * height l < URCU_FREE_PTRS_SIZE" "size l + 1 < 2 ^ 29"
      "room ?h (4 * height l + 1 + 3)" "length (free_ptrs st) + (4 * height l + 1) + 3 < URCU_FREE_PTRS_SIZE"
      using room_less [OF Node.prems(1)] Node.prems(2,4) hl by auto
    from Node.IH(1) [OF pre(1,2) n(4) pre(3)] obtain q rv st1 ks where I: "bonsai_insert (bleft n) k st = Some (q, rv, st1)"
      "rebuilt st (set (inorder l)) ks (4 * height l + 1) q st1" "set ks = insert k (?K l)" "rv = (if k \<in> ?K l then 0 else 1)" by blast
    have "sorted_wrt (<) ks" using rebuilt_btree [OF I(2)] .
    then have ln: "length ks \<le> size l + 1" using sorted_length [of ks] I(3) card_length [of "bn.keys_at ?h (inorder l)"]
      by (simp add: card_insert_if)
    have so: "sorted_wrt (<) (ks @ bvalue n # bn.keys_at ?h (inorder r))"
      using \<open>sorted_wrt (<) ks\<close> btree_sorted [OF n(5)] less n(6,7) I(3) by (fastforce simp: sorted_wrt_append)
    obtain q' st2 where q': "bonsai_mkbalanced a q (bright n) False INPLACE st1 = Some (q', st2)"
      "rebuilt st (insert a (set (inorder l) \<union> set (inorder r))) (ks @ bvalue n # bn.keys_at ?h (inorder r)) (4 * height l + 1 + 4) q' st2"
      using mkbalanced_left [OF I(2) D(1) n(5) _ n(3) _ _ so pre(4,5), of INPLACE] n(9) ln Node.prems(4) by auto
    have "load (bnodes st1) a = Some n" using rebuilt_keep [OF I(2) dom] n(3,9) by auto
    then have "bonsai_insert p k st = Some (q', rv, st2)"
      using n(1-3) less I(1) q'(1) by (subst bonsai_insert.simps) simp
    moreover have "rebuilt st (set (inorder ?t)) (ks @ bvalue n # bn.keys_at ?h (inorder r)) (4 * height ?t + 1) q' st2"
      using rebuilt_mono [OF q'(2), of "4 * height ?t + 1"] hl by simp
    ultimately show ?thesis
      using I(3,4) kr n(8) by (intro exI conjI) (assumption | auto)+
  next
    case greater
    then have kl: "k \<notin> ?K l" "k \<noteq> bvalue n" using n(6) by auto
    have pre: "room ?h (4 * height r + 1)" "length (free_ptrs st) + 4 * height r < URCU_FREE_PTRS_SIZE" "size r + 1 < 2 ^ 29"
      "room ?h (4 * height r + 1 + 3)" "length (free_ptrs st) + (4 * height r + 1) + 3 < URCU_FREE_PTRS_SIZE"
      using room_less [OF Node.prems(1)] Node.prems(2,4) hr by auto
    from Node.IH(2) [OF pre(1,2) n(5) pre(3)] obtain q rv st1 ks where I: "bonsai_insert (bright n) k st = Some (q, rv, st1)"
      "rebuilt st (set (inorder r)) ks (4 * height r + 1) q st1" "set ks = insert k (?K r)" "rv = (if k \<in> ?K r then 0 else 1)" by blast
    have "sorted_wrt (<) ks" using rebuilt_btree [OF I(2)] .
    then have ln: "length ks \<le> size r + 1" using sorted_length [of ks] I(3) card_length [of "bn.keys_at ?h (inorder r)"]
      by (simp add: card_insert_if)
    have so: "sorted_wrt (<) (bn.keys_at ?h (inorder l) @ bvalue n # ks)"
      using \<open>sorted_wrt (<) ks\<close> btree_sorted [OF n(4)] greater n(6,7) I(3) by (fastforce simp: sorted_wrt_append)
    obtain q' st2 where q': "bonsai_mkbalanced a (bleft n) q True INPLACE st1 = Some (q', st2)"
      "rebuilt st (insert a (set (inorder r) \<union> set (inorder l))) (bn.keys_at ?h (inorder l) @ bvalue n # ks) (4 * height r + 1 + 4) q' st2"
      using mkbalanced_right [OF I(2) D(2) n(4) _ n(3) _ _ so pre(4,5), of INPLACE] n(9) ln Node.prems(4) by auto
    have "load (bnodes st1) a = Some n" using rebuilt_keep [OF I(2) dom] n(3,9) by auto
    then have "bonsai_insert p k st = Some (q', rv, st2)"
      using n(1-3) greater I(1) q'(1) by (subst bonsai_insert.simps) simp
    moreover have "rebuilt st (set (inorder ?t)) (bn.keys_at ?h (inorder l) @ bvalue n # ks) (4 * height ?t + 1) q' st2"
      using rebuilt_mono [OF q'(2), of "4 * height ?t + 1"] hr by (simp add: Un_commute)
    ultimately show ?thesis
      using I(3,4) kl n(8) by (intro exI conjI) (assumption | auto)+
  next
    case same
    then show ?thesis
      using n(2,3) rebuilt_mono [OF rebuilt_refl [OF Node.prems(3) hok]] n(8)
      by (subst bonsai_insert.simps) (fastforce simp: n(1) simp del: inorder.simps(2))
  qed
qed

lemma delete_succ_spec:
  assumes "room (bnodes st) (4 * height t)" and "length (free_ptrs st) + 4 * height t < URCU_FREE_PTRS_SIZE"
    and "btree (bnodes st) p t" and "size t < 2 ^ 29" and "t \<noteq> Leaf"
  shows "\<exists>q succ st' rest. bonsai_delete_succ p st = Some (q, succ, st') \<and> inorder t = succ # rest \<and>
    rebuilt st (set rest) (bn.keys_at (bnodes st) rest) (4 * height t) q st'"
  using assms
proof (induction t arbitrary: p)
  case (Node l a r)
  let ?h = "bnodes st" and ?t = "Node l a r"
  from btree_Node_split [OF Node.prems(3)] obtain n where n: "p = a" "a \<noteq> NULL" "load ?h a = Some n"
    "btree ?h (bleft n) l" "btree ?h (bright n) r"
    "\<forall>x \<in> set (bn.keys_at ?h (inorder l)). x < bvalue n" "\<forall>x \<in> set (bn.keys_at ?h (inorder r)). bvalue n < x"
    "bn.key_at ?h a = bvalue n" "distinct (inorder l @ a # inorder r)" .
  have hok: "heap_ok ?h" using Node.prems(1) by (simp add: room_def)
  have hl: "4 * height l + 4 \<le> 4 * height ?t" by auto
  show ?case
  proof (cases l)
    case Leaf
    then have "bleft n = NULL" using n(4) by (simp add: btree_Leaf)
    then have "bonsai_delete_succ p st = Some (bright n, a, st)" using n(1,3) by (subst bonsai_delete_succ.simps) simp
    moreover have "rebuilt st (set (inorder r)) (bn.keys_at ?h (inorder r)) (4 * height ?t) (bright n) st"
      using rebuilt_mono [OF rebuilt_refl [OF n(5) hok]] by blast
    ultimately show ?thesis using Leaf by simp
  next
    case (Node ll la lr)
    then have bl: "bleft n \<noteq> NULL" "l \<noteq> Leaf" using n(4) by (auto simp: btree_Node)
    have pre: "room ?h (4 * height l)" "length (free_ptrs st) + 4 * height l < URCU_FREE_PTRS_SIZE" "size l < 2 ^ 29"
      "room ?h (4 * height l + 3)" "length (free_ptrs st) + 4 * height l + 3 < URCU_FREE_PTRS_SIZE"
      using room_less [OF Node.prems(1)] Node.prems(2,4) hl by auto
    from Node.IH(1) [OF pre(1,2) n(4) pre(3) bl(2)] obtain q succ st1 rest where
      I: "bonsai_delete_succ (bleft n) st = Some (q, succ, st1)" "inorder l = succ # rest"
      "rebuilt st (set rest) (bn.keys_at ?h rest) (4 * height l) q st1" by blast
    have D: "set rest \<subseteq> dom (cells ?h)" using btree_nodes [OF n(4) hok] I(2) by simp
    have so: "sorted_wrt (<) (bn.keys_at ?h rest @ bvalue n # bn.keys_at ?h (inorder r))"
      using btree_sorted [OF Node.prems(3)] I(2) n(8) by simp
    have sz: "length (bn.keys_at ?h rest) + size r < 2 ^ 29"
      using Node.prems(4) I(2) length_inorder [of l] by simp
    obtain q' st2 where q': "bonsai_mkbalanced a q (bright n) False (\<not> INPLACE) st1 = Some (q', st2)"
      "rebuilt st (insert a (set rest \<union> set (inorder r))) (bn.keys_at ?h rest @ bvalue n # bn.keys_at ?h (inorder r)) (4 * height l + 4) q' st2"
      using mkbalanced_left [OF I(3) D n(5) _ n(3) _ _ so pre(4,5) _ sz, of "\<not> INPLACE"] n(9) I(2) by (auto simp: INPLACE_def)
    have "bonsai_delete_succ p st = Some (q', succ, st2)"
      using n(1,3) bl(1) I(1) q'(1) by (subst bonsai_delete_succ.simps) simp
    moreover have "rebuilt st (set (rest @ a # inorder r)) (bn.keys_at ?h (rest @ a # inorder r)) (4 * height ?t) q' st2"
      using rebuilt_mono [OF q'(2), of "4 * height ?t"] hl n(8) by simp
    ultimately show ?thesis using I(2) by (intro exI conjI) (assumption | simp)+
  qed
qed simp

lemma delete_found:
  assumes t: "btree (bnodes st) p (Node l a r)" and room: "room (bnodes st) (4 * height (Node l a r) + 1)"
    and free: "length (free_ptrs st) + 4 * height (Node l a r) < URCU_FREE_PTRS_SIZE" and sz: "size (Node l a r) < 2 ^ 29"
  shows "\<exists>q st'. bonsai_delete p (bn.key_at (bnodes st) a) st = Some (q, a, st') \<and>
    rebuilt st (set (inorder (Node l a r))) (bn.keys_at (bnodes st) (inorder l @ inorder r)) (4 * height (Node l a r) + 1) q st'"
proof -
  let ?h = "bnodes st" and ?t = "Node l a r" and ?st1 = "st\<lparr> free_ptrs := free_ptrs st @ [a] \<rparr>"
  from btree_Node_split [OF t] obtain n where n: "p = a" "a \<noteq> NULL" "load ?h a = Some n"
    "btree ?h (bleft n) l" "btree ?h (bright n) r"
    "\<forall>x \<in> set (bn.keys_at ?h (inorder l)). x < bvalue n" "\<forall>x \<in> set (bn.keys_at ?h (inorder r)). bvalue n < x"
    "bn.key_at ?h a = bvalue n" "distinct (inorder l @ a # inorder r)" .
  have hok: "heap_ok ?h" using room by (simp add: room_def)
  have dom: "a \<in> dom (cells ?h)" using n(3) hok by (auto simp: load_cells)
  have hr: "4 * height r + 4 \<le> 4 * height ?t" by auto
  have f: "rcu_free a st = Some ?st1" using free by (simp add: rcu_free_def)
  have upTo: "rebuilt st (insert a A) ks (4 * height ?t + 1) q st'" if "rebuilt ?st1 A ks i q st'" "a \<notin> A" "i \<le> 4 * height ?t" for A ks i q st'
    using rebuilt_mono [OF rebuilt_after_free [OF f that(1,2) dom], of "4 * height ?t + 1"] that(3) by simp
  consider (L) "l = Leaf" | (R) "l \<noteq> Leaf" "r = Leaf" | (LR) "l \<noteq> Leaf" "r \<noteq> Leaf" by blast
  then show ?thesis
  proof cases
    case L
    then have "bonsai_delete p (bn.key_at ?h a) st = Some (bright n, a, ?st1)"
      using n(1-4,8) f by (subst bonsai_delete.simps) (simp add: btree_Leaf)
    moreover have "rebuilt ?st1 (set (inorder r)) (bn.keys_at ?h (inorder r)) 0 (bright n) ?st1"
      using rebuilt_refl [of ?st1 "bright n" r] n(5) hok by simp
    ultimately show ?thesis using upTo n(9) L by fastforce
  next
    case R
    then have "bleft n \<noteq> NULL" "bright n = NULL" using n(4,5) by (cases l; auto simp: btree_Leaf btree_Node)+
    then have "bonsai_delete p (bn.key_at ?h a) st = Some (bleft n, a, ?st1)"
      using n(1-3,8) f by (subst bonsai_delete.simps) simp
    moreover have "rebuilt ?st1 (set (inorder l)) (bn.keys_at ?h (inorder l)) 0 (bleft n) ?st1"
      using rebuilt_refl [of ?st1 "bleft n" l] n(4) hok by simp
    ultimately show ?thesis using upTo n(9) R by fastforce
  next
    case LR
    then have nz: "bleft n \<noteq> NULL" "bright n \<noteq> NULL" using n(4,5) by (cases l; cases r; auto simp: btree_Node)+
    have pre: "room ?h (4 * height r)" "room ?h (4 * height r + 3)" "length (free_ptrs ?st1) + 4 * height r + 3 < URCU_FREE_PTRS_SIZE"
      using room_less [OF room] free hr by auto
    obtain q succ st2 rest where S: "bonsai_delete_succ (bright n) ?st1 = Some (q, succ, st2)" "inorder r = succ # rest"
      "rebuilt ?st1 (set rest) (bn.keys_at ?h rest) (4 * height r) q st2"
      using delete_succ_spec [of ?st1 r "bright n"] pre n(5) LR(2) sz by auto
    obtain sn where sn: "load ?h succ = Some sn" "bn.key_at ?h succ = bvalue sn"
      using btree_nodes [OF n(5) hok] S(2) hok key_at_Node by (fastforce simp: load_cells)
    have D: "set rest \<subseteq> dom (cells ?h)" using btree_nodes [OF n(5) hok] S(2) by simp
    have so: "sorted_wrt (<) (bn.keys_at ?h (inorder l) @ bvalue sn # bn.keys_at ?h rest)"
      using btree_sorted [OF t] S(2) sn(2) by (auto simp: sorted_wrt_append)
    have dis: "set rest \<inter> set (inorder l) = {}" "succ \<notin> set rest" "succ \<notin> set (inorder l)" using n(9) S(2) by auto
    have szr: "size l + length (bn.keys_at ?h rest) < 2 ^ 29" using sz S(2) length_inorder [of r] by simp
    obtain q' st3 where q': "bonsai_mkbalanced succ (bleft n) q True (\<not> INPLACE) st2 = Some (q', st3)"
      "rebuilt ?st1 (insert succ (set rest \<union> set (inorder l))) (bn.keys_at ?h (inorder l) @ bvalue sn # bn.keys_at ?h rest) (4 * height r + 4) q' st3"
      using mkbalanced_right [where inplace = "\<not> INPLACE" and l = l and lp = "bleft n" and cur = succ and c = sn, OF S(3)]
        D n(4) dis sn(1) so pre szr by (auto simp: INPLACE_def)
    have "bonsai_delete p (bn.key_at ?h a) st = Some (q', a, st3)"
      using n(1-3,8) f nz S(1) q'(1) by (subst bonsai_delete.simps) simp
    moreover have "insert a (insert succ (set rest \<union> set (inorder l))) = set (inorder ?t)" using S(2) by auto
    ultimately show ?thesis using upTo [OF q'(2)] n(9) S(2) sn(2) hr by (intro exI conjI) (assumption | auto)+
  qed
qed

lemma delete_spec:
  assumes "room (bnodes st) (4 * height t + 1)" and "length (free_ptrs st) + 4 * height t < URCU_FREE_PTRS_SIZE"
    and "btree (bnodes st) p t" and "size t < 2 ^ 29"
  shows "\<exists>q d st' ks. bonsai_delete p k st = Some (q, d, st') \<and>
    rebuilt st (set (inorder t)) ks (4 * height t + 1) q st' \<and> set ks = set (bn.keys_at (bnodes st) (inorder t)) - {k} \<and>
    (d \<noteq> NULL) = (k \<in> set (bn.keys_at (bnodes st) (inorder t)))"
  using assms
proof (induction t arbitrary: p)
  case Leaf
  then have "p = NULL" "rebuilt st {} [] 1 p st"
    using rebuilt_mono [OF rebuilt_refl, of st p Leaf 1] by (auto simp: btree_Leaf room_def)
  then show ?case by (subst bonsai_delete.simps) (auto intro!: exI [of _ "[]"])
next
  case (Node l a r)
  let ?h = "bnodes st" and ?t = "Node l a r" and ?K = "\<lambda>t. set (bn.keys_at (bnodes st) (inorder t))"
  from btree_Node_split [OF Node.prems(3)] obtain n where n: "p = a" "a \<noteq> NULL" "load ?h a = Some n"
    "btree ?h (bleft n) l" "btree ?h (bright n) r" "\<forall>x \<in> ?K l. x < bvalue n" "\<forall>x \<in> ?K r. bvalue n < x"
    "bn.key_at ?h a = bvalue n" "distinct (inorder l @ a # inorder r)" .
  have hok: "heap_ok ?h" using Node.prems(1) by (simp add: room_def)
  have dom: "a \<in> dom (cells ?h)" using n(3) hok by (auto simp: load_cells)
  note D = btree_nodes [OF n(4) hok] btree_nodes [OF n(5) hok]
  have hl: "4 * height l + 4 \<le> 4 * height ?t" and hr: "4 * height r + 4 \<le> 4 * height ?t" by auto
  consider (less) "k < bvalue n" | (greater) "bvalue n < k" | (same) "k = bn.key_at ?h a" using n(8) by linarith
  then show ?case
  proof cases
    case less
    then have kr: "k \<notin> ?K r" "k \<noteq> bvalue n" using n(7) by auto
    have pre: "room ?h (4 * height l + 1)" "length (free_ptrs st) + 4 * height l < URCU_FREE_PTRS_SIZE" "size l < 2 ^ 29"
      "room ?h (4 * height l + 1 + 3)" "length (free_ptrs st) + (4 * height l + 1) + 3 < URCU_FREE_PTRS_SIZE"
      using room_less [OF Node.prems(1)] Node.prems(2,4) hl by auto
    from Node.IH(1) [OF pre(1,2) n(4) pre(3)] obtain q d st1 ks where I: "bonsai_delete (bleft n) k st = Some (q, d, st1)"
      "rebuilt st (set (inorder l)) ks (4 * height l + 1) q st1" "set ks = ?K l - {k}" "(d \<noteq> NULL) = (k \<in> ?K l)" by blast
    have "sorted_wrt (<) ks" using rebuilt_btree [OF I(2)] .
    then have ln: "length ks \<le> size l" using sorted_length [of ks] I(3) card_length [of "bn.keys_at ?h (inorder l)"]
        card_mono [of "?K l" "set ks"] by auto
    have so: "sorted_wrt (<) (ks @ bvalue n # bn.keys_at ?h (inorder r))"
      using \<open>sorted_wrt (<) ks\<close> btree_sorted [OF n(5)] less n(6,7) I(3) by (fastforce simp: sorted_wrt_append)
    obtain q' st2 where q': "bonsai_mkbalanced a q (bright n) False INPLACE st1 = Some (q', st2)"
      "rebuilt st (insert a (set (inorder l) \<union> set (inorder r))) (ks @ bvalue n # bn.keys_at ?h (inorder r)) (4 * height l + 1 + 4) q' st2"
      using mkbalanced_left [OF I(2) D(1) n(5) _ n(3) _ _ so pre(4,5), of INPLACE] n(9) ln Node.prems(4) by auto
    have "bonsai_delete p k st = Some (q', d, st2)"
      using n(1-3) less I(1) q'(1) by (subst bonsai_delete.simps) simp
    moreover have "rebuilt st (set (inorder ?t)) (ks @ bvalue n # bn.keys_at ?h (inorder r)) (4 * height ?t + 1) q' st2"
      using rebuilt_mono [OF q'(2), of "4 * height ?t + 1"] hl by simp
    ultimately show ?thesis
      using I(3,4) kr n(8) by (intro exI conjI) (assumption | auto)+
  next
    case greater
    then have kl: "k \<notin> ?K l" "k \<noteq> bvalue n" using n(6) by auto
    have pre: "room ?h (4 * height r + 1)" "length (free_ptrs st) + 4 * height r < URCU_FREE_PTRS_SIZE" "size r < 2 ^ 29"
      "room ?h (4 * height r + 1 + 3)" "length (free_ptrs st) + (4 * height r + 1) + 3 < URCU_FREE_PTRS_SIZE"
      using room_less [OF Node.prems(1)] Node.prems(2,4) hr by auto
    from Node.IH(2) [OF pre(1,2) n(5) pre(3)] obtain q d st1 ks where I: "bonsai_delete (bright n) k st = Some (q, d, st1)"
      "rebuilt st (set (inorder r)) ks (4 * height r + 1) q st1" "set ks = ?K r - {k}" "(d \<noteq> NULL) = (k \<in> ?K r)" by blast
    have "sorted_wrt (<) ks" using rebuilt_btree [OF I(2)] .
    then have ln: "length ks \<le> size r" using sorted_length [of ks] I(3) card_length [of "bn.keys_at ?h (inorder r)"]
        card_mono [of "?K r" "set ks"] by auto
    have so: "sorted_wrt (<) (bn.keys_at ?h (inorder l) @ bvalue n # ks)"
      using \<open>sorted_wrt (<) ks\<close> btree_sorted [OF n(4)] greater n(6,7) I(3) by (fastforce simp: sorted_wrt_append)
    obtain q' st2 where q': "bonsai_mkbalanced a (bleft n) q True INPLACE st1 = Some (q', st2)"
      "rebuilt st (insert a (set (inorder r) \<union> set (inorder l))) (bn.keys_at ?h (inorder l) @ bvalue n # ks) (4 * height r + 1 + 4) q' st2"
      using mkbalanced_right [OF I(2) D(2) n(4) _ n(3) _ _ so pre(4,5), of INPLACE] n(9) ln Node.prems(4) by auto
    have "bonsai_delete p k st = Some (q', d, st2)"
      using n(1-3) greater I(1) q'(1) by (subst bonsai_delete.simps) simp
    moreover have "rebuilt st (set (inorder ?t)) (bn.keys_at ?h (inorder l) @ bvalue n # ks) (4 * height ?t + 1) q' st2"
      using rebuilt_mono [OF q'(2), of "4 * height ?t + 1"] hr by (simp add: Un_commute)
    ultimately show ?thesis
      using I(3,4) kl n(8) by (intro exI conjI) (assumption | auto)+
  next
    case same
    from delete_found [OF Node.prems(3,1,2,4)] obtain q st' where
      q: "bonsai_delete p k st = Some (q, a, st')"
      "rebuilt st (set (inorder ?t)) (bn.keys_at ?h (inorder l @ inorder r)) (4 * height ?t + 1) q st'" unfolding same by blast
    have "set (bn.keys_at ?h (inorder l @ inorder r)) = ?K ?t - {k}" using n(6,7,8) same by auto
    then show ?thesis using q same n(2) by (intro exI conjI) (assumption | auto)+
  qed
qed

lemma find_spec:
  "btree h p t \<Longrightarrow> \<exists>q. bonsai_find_loop h k p = Some q \<and> (q \<noteq> NULL) = (k \<in> set (bn.keys_at h (inorder t)))"
proof (induction t arbitrary: p)
  case Leaf
  then show ?case by (subst bonsai_find_loop.simps) (simp add: btree_Leaf)
next
  case (Node l a r)
  from btree_Node_split [OF Node.prems] obtain n where n: "p = a" "a \<noteq> NULL" "load h a = Some n"
    "btree h (bleft n) l" "btree h (bright n) r"
    "\<forall>x \<in> set (bn.keys_at h (inorder l)). x < bvalue n" "\<forall>x \<in> set (bn.keys_at h (inorder r)). bvalue n < x"
    "bn.key_at h a = bvalue n" .
  consider (less) "k < bvalue n" | (greater) "bvalue n < k" | (same) "k = bvalue n" by linarith
  then show ?case
  proof cases
    case less
    then have "k \<notin> set (bn.keys_at h (a # inorder r))" using n(7,8) by auto
    with Node.IH(1) [OF n(4)] less n(1-3) show ?thesis by (subst bonsai_find_loop.simps) auto
  next
    case greater
    then have "k \<notin> set (bn.keys_at h (inorder l @ [a]))" using n(6,8) by auto
    with Node.IH(2) [OF n(5)] greater n(1-3) show ?thesis by (subst bonsai_find_loop.simps) auto
  next
    case same
    with n(1-3,8) show ?thesis by (subst bonsai_find_loop.simps) auto
  qed
qed

subsection \<open>The operations of the benchmark\<close>

text \<open>
  The sentinel points to a search tree with correct sizes; the nodes that wait for their release
  are allocated, are not waiting twice and cannot be reached; every allocated node is one of
  these, so that nothing has leaked.
\<close>

definition bonsai_ok :: "addr \<Rightarrow> addr tree \<Rightarrow> bonsai \<Rightarrow> bool" where
  "bonsai_ok root t st \<longleftrightarrow> heap_ok (bnodes st) \<and>
     (\<exists>n. load (bnodes st) root = Some n \<and> btree (bnodes st) (bleft n) t) \<and>
     root \<notin> set (inorder t) \<union> set (free_ptrs st) \<and> distinct (free_ptrs st) \<and>
     set (free_ptrs st) \<inter> set (inorder t) = {} \<and>
     dom (cells (bnodes st)) = insert root (set (inorder t) \<union> set (free_ptrs st))"

definition bonsai_keys :: "addr tree \<Rightarrow> bonsai \<Rightarrow> int set" where
  "bonsai_keys t st = bn.key_at (bnodes st) ` set (inorder t)"

lemma free_all_spec:
  assumes "heap_ok h" "distinct ps" "set ps \<subseteq> dom (cells h)"
  shows "\<exists>h'. free_all ps h = Some h' \<and> heap_ok h' \<and> dom (cells h') = dom (cells h) - set ps \<and> policy h' = policy h \<and>
    (\<forall>a. a \<notin> set ps \<longrightarrow> load h' a = load h a)"
  using assms
proof (induction ps arbitrary: h)
  case (Cons p ps)
  then obtain x where x: "load h p = Some x" by (auto simp: load_cells)
  have "\<exists>h'. free_all ps (del h p) = Some h' \<and> heap_ok h' \<and> dom (cells h') = dom (cells (del h p)) - set ps \<and>
      policy h' = policy (del h p) \<and> (\<forall>a. a \<notin> set ps \<longrightarrow> load h' a = load (del h p) a)"
    using Cons.prems by (intro Cons.IH) (auto simp: heap_simps)
  with x show ?case by (auto simp: heap_simps free_eq [OF x])
qed simp

lemma maybe_free_spec:
  assumes ok: "bonsai_ok root t st"
  shows "\<exists>st'. rcu_maybe_free_ptrs st = Some st' \<and> bonsai_ok root t st' \<and> bonsai_keys t st' = bonsai_keys t st \<and>
    length (free_ptrs st') < URCU_MAX_FREE_PTRS \<and> policy (bnodes st') = policy (bnodes st)"
proof (cases "URCU_MAX_FREE_PTRS \<le> length (free_ptrs st)")
  case True
  from ok obtain n where n: "load (bnodes st) root = Some n" "btree (bnodes st) (bleft n) t" by (auto simp: bonsai_ok_def)
  have o: "heap_ok (bnodes st)" "distinct (free_ptrs st)" "set (free_ptrs st) \<inter> set (inorder t) = {}"
    "root \<notin> set (inorder t) \<union> set (free_ptrs st)"
    "dom (cells (bnodes st)) = insert root (set (inorder t) \<union> set (free_ptrs st))" using ok by (auto simp: bonsai_ok_def)
  have "set (free_ptrs st) \<subseteq> dom (cells (bnodes st))" unfolding o(5) by blast
  from free_all_spec [OF o(1,2) this] obtain h' where h': "free_all (free_ptrs st) (bnodes st) = Some h'" "heap_ok h'"
    "dom (cells h') = dom (cells (bnodes st)) - set (free_ptrs st)" "policy h' = policy (bnodes st)"
    "\<And>a. a \<notin> set (free_ptrs st) \<Longrightarrow> load h' a = load (bnodes st) a" by blast
  have keep: "load h' a = load (bnodes st) a" if "a \<in> set (inorder t)" for a using that o(3) by (intro h'(5)) blast
  note t' = btree_frame [OF n(2) keep]
  have "bonsai_ok root t (st\<lparr> bnodes := h', free_ptrs := [] \<rparr>)"
    unfolding bonsai_ok_def using h'(2,3) h'(5) [of root] n(1) t'(1) o by auto
  moreover have "bn.key_at h' ` set (inorder t) = bn.key_at (bnodes st) ` set (inorder t)"
    using t'(2) by (metis list.set_map)
  ultimately show ?thesis using True h'(1,4)
    by (simp add: rcu_maybe_free_ptrs_def bonsai_keys_def URCU_MAX_FREE_PTRS_def)
next
  case False
  with ok show ?thesis by (simp add: rcu_maybe_free_ptrs_def)
qed

text \<open>The step that both writers take: the rebuilt tree is hung below the sentinel.\<close>

lemma publish_tree:
  assumes ok: "bonsai_ok root t st" and n: "load (bnodes st) root = Some n"
    and R: "rebuilt st (set (inorder t)) ks i q st1"
  shows "\<exists>h2 st3 t'. modify (bnodes st1) root (bleft_update (\<lambda>_. q)) = Some h2 \<and>
    rcu_maybe_free_ptrs (st1\<lparr> bnodes := h2 \<rparr>) = Some st3 \<and> bonsai_ok root t' st3 \<and> bonsai_keys t' st3 = set ks \<and>
    length (free_ptrs st3) < URCU_MAX_FREE_PTRS \<and> policy (bnodes st3) = policy (bnodes st)"
proof -
  from R obtain t' fs X where r: "btree (bnodes st1) q t'" "bn.keys_at (bnodes st1) (inorder t') = ks"
    "free_ptrs st1 = free_ptrs st @ fs" "distinct fs" "set fs \<inter> set (inorder t') = {}"
    "set (inorder t') \<union> set fs = set (inorder t) \<union> X" "X \<inter> dom (cells (bnodes st)) = {}"
    "dom (cells (bnodes st1)) = X \<union> dom (cells (bnodes st))" "heap_ok (bnodes st1)" "policy (bnodes st1) = policy (bnodes st)"
    unfolding rebuilt_def by blast
  have o: "root \<notin> set (inorder t) \<union> set (free_ptrs st)" "distinct (free_ptrs st)" "set (free_ptrs st) \<inter> set (inorder t) = {}"
    "dom (cells (bnodes st)) = insert root (set (inorder t) \<union> set (free_ptrs st))" using ok by (auto simp: bonsai_ok_def)
  have root: "load (bnodes st1) root = Some n" using rebuilt_keep [OF R, of root] o(1,4) n by simp
  let ?h2 = "upd (bnodes st1) root (n\<lparr> bleft := q \<rparr>)" and ?st2 = "st1\<lparr> bnodes := upd (bnodes st1) root (n\<lparr> bleft := q \<rparr>) \<rparr>"
  have rz: "root \<noteq> NULL" using n by auto
  have rX: "root \<notin> X" using r(7) o(4) by blast
  then have rt: "root \<notin> set (inorder t') \<union> set fs" unfolding r(6) using o(1) by blast
  have keep: "load ?h2 a = load (bnodes st1) a" if "a \<in> set (inorder t')" for a using that rt by (auto simp: heap_simps)
  note t2 = btree_frame [OF r(1) keep]
  have F: "set (free_ptrs st) \<inter> (set (inorder t') \<union> set fs) = {}" unfolding r(6) using o(3,4) r(7) by blast
  have dom: "dom (cells ?h2) = insert root (set (inorder t') \<union> set fs \<union> set (free_ptrs st))"
    unfolding dom_cells r(8) o(4) r(6) by blast
  have "bonsai_ok root t' ?st2"
    unfolding bonsai_ok_def
  proof (intro conjI exI)
    show "load (bnodes ?st2) root = Some (n\<lparr> bleft := q \<rparr>)" using rz by (simp add: heap_simps)
    show "btree (bnodes ?st2) (bleft (n\<lparr> bleft := q \<rparr>)) t'" using t2(1) by simp
    show "root \<notin> set (inorder t') \<union> set (free_ptrs ?st2)" using rt o(1) by (simp add: r(3))
    show "distinct (free_ptrs ?st2)" using o(2) r(4) F by (auto simp: r(3))
    show "set (free_ptrs ?st2) \<inter> set (inorder t') = {}" using F r(5) by (auto simp: r(3))
    show "dom (cells (bnodes ?st2)) = insert root (set (inorder t') \<union> set (free_ptrs ?st2))"
      using dom by (simp add: r(3)) blast
  qed (use r(9) rz in simp)
  moreover have "bonsai_keys t' ?st2 = set ks"
    using arg_cong [OF t2(2), of set] arg_cong [OF r(2), of set] by (simp add: bonsai_keys_def)
  moreover have "modify (bnodes st1) root (bleft_update (\<lambda>_. q)) = Some ?h2" using root by (simp add: heap_simps)
  ultimately show ?thesis using maybe_free_spec [of root t' ?st2] r(10) by auto
qed

text \<open>
  C21: On a tree of at most 250 levels with memory for the copies, \<open>list_ins\<close>, \<open>list_del\<close> and
  \<open>list_find\<close> make no invalid access, fail no assertion and behave as insertion, deletion and
  membership of a set of keys. The writers keep the tree a search tree with correct sizes, hand
  over for release exactly the nodes that are no longer reachable, each once, and leak none; they
  leave fewer than \<open>URCU_MAX_FREE_PTRS\<close> nodes waiting.
\<close>

theorem bonsai_operations:
  assumes ok: "bonsai_ok root t st" and wait: "length (free_ptrs st) < URCU_MAX_FREE_PTRS"
    and mem: "room (bnodes st) (4 * height t + 1)" and levels: "height t \<le> 250" and sz: "size t + 1 < 2 ^ 29"
  shows "(\<exists>st' t'. bonsai_list_ins root k st = Some (if k \<in> bonsai_keys t st then 0 else 1, st') \<and> bonsai_ok root t' st' \<and>
       bonsai_keys t' st' = insert k (bonsai_keys t st) \<and> length (free_ptrs st') < URCU_MAX_FREE_PTRS) \<and>
    (\<exists>st' t'. bonsai_list_del root k st = Some (if k \<in> bonsai_keys t st then 1 else 0, st') \<and> bonsai_ok root t' st' \<and>
       bonsai_keys t' st' = bonsai_keys t st - {k} \<and> length (free_ptrs st') < URCU_MAX_FREE_PTRS) \<and>
    bonsai_list_find root k st = Some (if k \<in> bonsai_keys t st then 1 else 0)"
proof (intro conjI)
  from ok obtain n where n: "load (bnodes st) root = Some n" "btree (bnodes st) (bleft n) t" by (auto simp: bonsai_ok_def)
  have free: "length (free_ptrs st) + 4 * height t < URCU_FREE_PTRS_SIZE"
    using wait levels by (simp add: URCU_MAX_FREE_PTRS_def URCU_FREE_PTRS_SIZE_def)
  have K: "set (bn.keys_at (bnodes st) (inorder t)) = bonsai_keys t st" by (simp add: bonsai_keys_def)
  from insert_spec [OF mem free n(2) sz, of k] obtain q rv st1 ks where I: "bonsai_insert (bleft n) k st = Some (q, rv, st1)"
    "rebuilt st (set (inorder t)) ks (4 * height t + 1) q st1" "set ks = insert k (bonsai_keys t st)"
    "rv = (if k \<in> bonsai_keys t st then 0 else 1)" unfolding K by blast
  from publish_tree [OF ok n(1) I(2)] obtain h2 st3 t' where
    P: "modify (bnodes st1) root (bleft_update (\<lambda>_. q)) = Some h2" "rcu_maybe_free_ptrs (st1\<lparr> bnodes := h2 \<rparr>) = Some st3"
    "bonsai_ok root t' st3" "bonsai_keys t' st3 = set ks" "length (free_ptrs st3) < URCU_MAX_FREE_PTRS" by blast
  have "bonsai_list_ins root k st = Some (rv, st3)" using n(1) I(1) P(1,2) by (simp add: bonsai_list_ins_def)
  with I(3,4) P(3-5) show "\<exists>st' t'. bonsai_list_ins root k st = Some (if k \<in> bonsai_keys t st then 0 else 1, st') \<and>
      bonsai_ok root t' st' \<and> bonsai_keys t' st' = insert k (bonsai_keys t st) \<and> length (free_ptrs st') < URCU_MAX_FREE_PTRS"
    by metis
  from delete_spec [OF mem free n(2), of k] sz obtain q d st1 ks where D: "bonsai_delete (bleft n) k st = Some (q, d, st1)"
    "rebuilt st (set (inorder t)) ks (4 * height t + 1) q st1" "set ks = bonsai_keys t st - {k}"
    "(d \<noteq> NULL) = (k \<in> bonsai_keys t st)" unfolding K by (metis Suc_lessD Suc_eq_plus1)
  from publish_tree [OF ok n(1) D(2)] obtain h2 st3 t' where
    P: "modify (bnodes st1) root (bleft_update (\<lambda>_. q)) = Some h2" "rcu_maybe_free_ptrs (st1\<lparr> bnodes := h2 \<rparr>) = Some st3"
    "bonsai_ok root t' st3" "bonsai_keys t' st3 = set ks" "length (free_ptrs st3) < URCU_MAX_FREE_PTRS" by blast
  have "bonsai_list_del root k st = Some (if k \<in> bonsai_keys t st then 1 else 0, st3)"
    using n(1) D(1,4) P(1,2) by (simp add: bonsai_list_del_def)
  with D(3) P(3-5) show "\<exists>st' t'. bonsai_list_del root k st = Some (if k \<in> bonsai_keys t st then 1 else 0, st') \<and>
      bonsai_ok root t' st' \<and> bonsai_keys t' st' = bonsai_keys t st - {k} \<and> length (free_ptrs st') < URCU_MAX_FREE_PTRS"
    by metis
  from find_spec [OF n(2), of k] n(1) show "bonsai_list_find root k st = Some (if k \<in> bonsai_keys t st then 1 else 0)"
    unfolding K by (auto simp: bonsai_list_find_def)
qed

subsection \<open>Runs\<close>

definition bonsai_mem0 :: "nat \<Rightarrow> bonsai" where
  "bonsai_mem0 N = \<lparr> bnodes = \<lparr> cells = [1 \<mapsto> \<lparr> bvalue = INT_MAX, bleft = NULL, bright = NULL, bsize = 1 \<rparr>],
     policy = first_fit N, junk = (\<lambda>_. \<lparr> bvalue = 99, bleft = 98, bright = 97, bsize = 96 \<rparr>) \<rparr>, free_ptrs = [] \<rparr>"

lemma bonsai_mem0_ok: "bonsai_ok 1 Leaf (bonsai_mem0 N)" "0 < N \<Longrightarrow> room (bnodes (bonsai_mem0 N)) (N - 1)"
  by (auto simp: bonsai_mem0_def bonsai_ok_def room_def heap_ok_def first_fit_ok load_def btree_Leaf
      intro!: exI [of _ N] first_fit_capacity)

theorem bonsai_operations_witness:
  "bonsai_ok 1 Leaf (bonsai_mem0 2) \<and> bonsai_list_find 1 7 (bonsai_mem0 2) = Some (if 7 \<in> bonsai_keys Leaf (bonsai_mem0 2) then 1 else 0)"
  using bonsai_operations [OF bonsai_mem0_ok(1) [of 2], of 7] bonsai_mem0_ok [of 2]
  by (simp add: bonsai_mem0_def URCU_MAX_FREE_PTRS_def)

fun bonsai_inserts :: "addr \<Rightarrow> int list \<Rightarrow> bonsai \<Rightarrow> bonsai option" where
  "bonsai_inserts root [] st = Some st"
| "bonsai_inserts root (k # ks) st = do { (_, st1) \<leftarrow> bonsai_list_ins root k st; bonsai_inserts root ks st1 }"

text \<open>The node at the end of a path (\<open>True\<close> goes right), and the test of \<open>bonsai_mkbalanced\<close> on it.\<close>

fun follow :: "bool list \<Rightarrow> addr \<Rightarrow> bonsai \<Rightarrow> addr option" where
  "follow [] a st = Some a"
| "follow (d # ds) a st = do { n \<leftarrow> load (bnodes st) a; follow ds (if d then bright n else bleft n) st }"

definition needs_rotation :: "addr \<Rightarrow> bonsai \<Rightarrow> bool option" where
  "needs_rotation a st = do {
     n \<leftarrow> load (bnodes st) a;
     ln \<leftarrow> bonsai_get_size (bleft n) st;
     rn \<leftarrow> bonsai_get_size (bright n) st;
     Some (\<not> ln + rn < 2 \<and> (WEIGHT * ln < rn \<or> WEIGHT * rn < ln)) }"


end
