(* ===== verification/Urcu.thy ===== *)
theory Urcu
  imports Prelude
begin

text \<open>
  The grace period of \<open>micro-benchmarks/versioning/tree_bonsai.c\<close>: the readers' counters
  (\<open>rcu_reader_lock\<close>, \<open>rcu_reader_unlock\<close>), which are even inside a critical section, and
  \<open>urcu_synchronize\<close>, which a writer runs before it releases nodes. The state has one counter per
  thread and the writer's copy of them with its program counter; every step is one access to a
  shared counter, and the steps of the readers and of the writer interleave freely. The counters
  are \<open>long\<close>s that grow by one per call, so they are natural numbers here.
\<close>

datatype sync_pc = Snap nat | Check nat | Spin nat | Returned

record urcu =
  time :: "nat \<Rightarrow> nat"
  sync_time :: "nat \<Rightarrow> nat"
  sync_pc :: sync_pc

definition rcu_reader_lock :: "nat \<Rightarrow> urcu \<Rightarrow> urcu" where
  "rcu_reader_lock i st = st\<lparr> time := (time st)(i := time st i + 1) \<rparr>"

definition rcu_reader_unlock :: "nat \<Rightarrow> urcu \<Rightarrow> urcu" where
  "rcu_reader_unlock i st = st\<lparr> time := (time st)(i := time st i OR 1) \<rparr>"

text \<open>
  The writer: the loop that copies the counters (\<open>Snap i\<close>), the test at the head of the second
  loop (\<open>Check i\<close>) and one round of the inner loop (\<open>Spin i\<close>).
\<close>

definition urcu_synchronize :: "nat \<Rightarrow> urcu \<Rightarrow> urcu" where
  "urcu_synchronize nr_threads st = (case sync_pc st of
     Snap i \<Rightarrow> if i < nr_threads then st\<lparr> sync_time := (sync_time st)(i := time st i), sync_pc := Snap (Suc i) \<rparr>
              else st\<lparr> sync_pc := Check 0 \<rparr>
   | Check i \<Rightarrow> if i < nr_threads
               then st\<lparr> sync_pc := if sync_time st i AND 1 \<noteq> 0 then Check (Suc i) else Spin i \<rparr>
               else st\<lparr> sync_pc := Returned \<rparr>
   | Spin i \<Rightarrow> let t = time st i in
               if t AND 1 \<noteq> 0 \<or> sync_time st i < t then st\<lparr> sync_pc := Check (Suc i) \<rparr> else st
   | Returned \<Rightarrow> st)"

text \<open>
  A reader calls \<open>rcu_reader_lock\<close> and \<open>rcu_reader_unlock\<close> in turn, as \<open>list_find\<close> does.
\<close>

inductive urcu_step :: "nat \<Rightarrow> urcu \<Rightarrow> urcu \<Rightarrow> bool" for nr_threads where
  lock: "odd (time st i) \<Longrightarrow> urcu_step nr_threads st (rcu_reader_lock i st)"
| unlock: "even (time st i) \<Longrightarrow> urcu_step nr_threads st (rcu_reader_unlock i st)"
| sync: "urcu_step nr_threads st (urcu_synchronize nr_threads st)"

definition urcu_call :: "urcu \<Rightarrow> bool" where
  "urcu_call st \<longleftrightarrow> sync_pc st = Snap 0"

subsection \<open>The invariant of a grace period\<close>

lemma and_1: "(n AND 1 \<noteq> 0) = odd (n :: nat)"
  by (simp add: and_one_eq even_iff_mod_2_eq_zero)

lemma reader_unlock_time: "even (time st i) \<Longrightarrow> rcu_reader_unlock i st = st\<lparr> time := (time st)(i := time st i + 1) \<rparr>"
  by (simp only: rcu_reader_unlock_def or_one_eq) simp

lemmas synchronize_eq = urcu_synchronize_def [unfolded and_1 Let_def]

text \<open>What the program counter says of thread \<open>i\<close>: its counter has been copied, its wait is over.\<close>

fun copied :: "sync_pc \<Rightarrow> nat \<Rightarrow> bool" where
  "copied (Snap j) i \<longleftrightarrow> i < j"
| "copied _ i \<longleftrightarrow> True"

fun waited :: "nat \<Rightarrow> sync_pc \<Rightarrow> nat \<Rightarrow> bool" where
  "waited n (Snap j) i \<longleftrightarrow> False"
| "waited n (Check j) i \<longleftrightarrow> i < j"
| "waited n (Spin j) i \<longleftrightarrow> i < j"
| "waited n Returned i \<longleftrightarrow> i < n"

definition left_section :: "nat \<Rightarrow> nat \<Rightarrow> bool" where
  "left_section s t \<longleftrightarrow> odd s \<or> s < t"

definition urcu_inv :: "nat \<Rightarrow> (nat \<Rightarrow> nat) \<Rightarrow> urcu \<Rightarrow> bool" where
  "urcu_inv n \<tau> st \<longleftrightarrow> (\<forall>i. \<tau> i \<le> time st i \<and>
     (i < n \<and> copied (sync_pc st) i \<longrightarrow> \<tau> i \<le> sync_time st i \<and> sync_time st i \<le> time st i) \<and>
     (i < n \<and> waited n (sync_pc st) i \<longrightarrow> left_section (\<tau> i) (time st i))) \<and>
     (case sync_pc st of Snap j \<Rightarrow> j \<le> n | Check j \<Rightarrow> j \<le> n | Spin j \<Rightarrow> j < n \<and> even (sync_time st j) | Returned \<Rightarrow> True)"

lemma urcu_inv_call: "urcu_call st \<Longrightarrow> urcu_inv n (time st) st"
  by (auto simp: urcu_call_def urcu_inv_def)

lemma urcu_inv_time:
  assumes "urcu_inv n \<tau> st" "time st i \<le> t"
  shows "urcu_inv n \<tau> (st\<lparr> time := (time st)(i := t) \<rparr>)"
  using assms unfolding urcu_inv_def left_section_def by (auto split: sync_pc.splits intro: order_trans less_le_trans)

lemma urcu_inv_sync:
  assumes "urcu_inv n \<tau> st"
  shows "urcu_inv n \<tau> (urcu_synchronize n st)"
proof (cases "sync_pc st")
  case (Snap j)
  with assms show ?thesis by (auto simp: synchronize_eq urcu_inv_def less_Suc_eq)
next
  case (Check j)
  have "left_section (\<tau> j) (time st j)" if "j < n" "odd (sync_time st j)"
  proof -
    have "\<tau> j \<le> sync_time st j" "sync_time st j \<le> time st j" using assms Check that by (auto simp: urcu_inv_def)
    with that show ?thesis unfolding left_section_def by (metis le_neq_implies_less less_le_trans)
  qed
  with Check assms show ?thesis by (auto simp: synchronize_eq urcu_inv_def less_Suc_eq)
next
  case (Spin j)
  have "left_section (\<tau> j) (time st j)" if "odd (time st j) \<or> sync_time st j < time st j"
  proof -
    have "\<tau> j \<le> sync_time st j" "\<tau> j \<le> time st j" using assms Spin by (auto simp: urcu_inv_def)
    with that show ?thesis unfolding left_section_def by (metis le_neq_implies_less le_less_trans)
  qed
  with Spin assms show ?thesis by (auto simp: synchronize_eq urcu_inv_def less_Suc_eq)
qed (use assms in \<open>simp add: urcu_synchronize_def\<close>)

lemma urcu_inv_step: "urcu_step n st st' \<Longrightarrow> urcu_inv n \<tau> st \<Longrightarrow> urcu_inv n \<tau> st'"
  by (induction rule: urcu_step.induct)
     (simp_all add: rcu_reader_lock_def reader_unlock_time urcu_inv_time urcu_inv_sync)

lemma urcu_inv_steps: "(urcu_step n)\<^sup>*\<^sup>* st st' \<Longrightarrow> urcu_inv n \<tau> st \<Longrightarrow> urcu_inv n \<tau> st'"
  by (induction rule: rtranclp_induct) (auto dest: urcu_inv_step)

text \<open>
  C22: Safety of the grace period. When \<open>urcu_synchronize\<close> returns, every thread that was in a
  critical section when it was called has left that section, however the accesses of the readers
  and of the writer interleave: a thread's counter was even then and has grown. No reader can
  therefore still hold a pointer to a node that was unlinked before the call.
\<close>

theorem urcu_grace_period:
  assumes "urcu_call st" and "(urcu_step nr_threads)\<^sup>*\<^sup>* st st'" and "sync_pc st' = Returned"
    and "i < nr_threads" and "even (time st i)"
  shows "time st i < time st' i"
  using urcu_inv_steps [OF assms(2) urcu_inv_call [OF assms(1)]] assms(3-5)
  by (auto simp: urcu_inv_def left_section_def)

subsection \<open>Progress\<close>

lemma sync_snap:
  "sync_pc st = Snap i \<Longrightarrow> i \<le> n \<Longrightarrow>
   \<exists>st'. (urcu_synchronize n ^^ (n - i)) st = st' \<and> sync_pc st' = Snap n \<and> time st' = time st"
proof (induction "n - i" arbitrary: i st)
  case (Suc d)
  let ?st = "urcu_synchronize n st"
  have "sync_pc ?st = Snap (Suc i)" "time ?st = time st" using Suc.hyps(2) Suc.prems(1) by (simp_all add: synchronize_eq)
  moreover have "d = n - Suc i" "Suc i \<le> n" using Suc.hyps(2) by auto
  ultimately have "sync_pc ((urcu_synchronize n ^^ d) ?st) = Snap n \<and> time ((urcu_synchronize n ^^ d) ?st) = time st"
    using Suc.hyps(1) [of "Suc i" ?st] by auto
  then show ?case unfolding Suc.hyps(2) [symmetric] funpow_Suc_right by simp
qed auto

lemma sync_check:
  assumes "sync_pc st = Check i" "i \<le> n" "\<And>i. i < n \<Longrightarrow> odd (time st i)"
  shows "\<exists>k \<le> 2 * (n - i). sync_pc ((urcu_synchronize n ^^ k) st) = Check n"
  using assms
proof (induction "n - i" arbitrary: i st)
  case 0
  then show ?case by (intro exI [of _ 0]) auto
next
  case (Suc d)
  let ?k = "if odd (sync_time st i) then 1 else 2 :: nat" and ?s = "urcu_synchronize n"
  have i: "i < n" using Suc.hyps(2) by simp
  have st: "sync_pc ((?s ^^ ?k) st) = Check (Suc i)" "time ((?s ^^ ?k) st) = time st"
    using Suc.prems i by (auto simp: synchronize_eq numeral_2_eq_2)
  have d: "d = n - Suc i" using Suc.hyps(2) by simp
  obtain k where "k \<le> 2 * (n - Suc i)" "sync_pc ((?s ^^ k) ((?s ^^ ?k) st)) = Check n"
    using Suc.hyps(1) [of "Suc i" "(?s ^^ ?k) st", OF d] Suc.prems(3) st i by auto
  then have "k + ?k \<le> 2 * (n - i)" "sync_pc ((?s ^^ (k + ?k)) st) = Check n" using i by (auto simp: funpow_add)
  then show ?case by blast
qed


subsection \<open>Runs\<close>

definition urcu0 :: "nat \<Rightarrow> urcu" where
  "urcu0 t = \<lparr> time = (\<lambda>_. t), sync_time = (\<lambda>_. 1), sync_pc = Snap 0 \<rparr>"

lemma urcu0_run:
  defines "s \<equiv> urcu_synchronize 1"
  defines "st \<equiv> s (s (rcu_reader_unlock 0 (s (s (s (s (urcu0 2)))))))"
  shows "(urcu_step 1)\<^sup>*\<^sup>* (urcu0 2) st" "sync_pc st = Returned"
proof -
  have sync: "(urcu_step 1)\<^sup>*\<^sup>* (urcu0 2) x \<Longrightarrow> (urcu_step 1)\<^sup>*\<^sup>* (urcu0 2) (s x)" for x
    unfolding s_def by (erule rtranclp.rtrancl_into_rtrancl) (rule urcu_step.sync)
  have t: "time (s (s (s (s (urcu0 2))))) 0 = 2" by (simp add: s_def urcu0_def synchronize_eq)
  have "(urcu_step 1)\<^sup>*\<^sup>* (urcu0 2) (rcu_reader_unlock 0 (s (s (s (s (urcu0 2))))))"
    by (rule rtranclp.rtrancl_into_rtrancl [where b = "s (s (s (s (urcu0 2))))"])
       (intro sync rtranclp.rtrancl_refl, rule urcu_step.unlock, simp add: t)
  then show "(urcu_step 1)\<^sup>*\<^sup>* (urcu0 2) st" unfolding st_def by (intro sync)
  show "sync_pc st = Returned"
    unfolding st_def using t by (simp add: reader_unlock_time) (simp add: s_def urcu0_def synchronize_eq)
qed

theorem urcu_grace_period_witness:
  "\<exists>st'. (urcu_step 1)\<^sup>*\<^sup>* (urcu0 2) st' \<and> sync_pc st' = Returned \<and> 2 < time st' 0"
  using urcu_grace_period [of "urcu0 2" 1 _ 0] urcu0_run by (fastforce simp: urcu_call_def urcu0_def)


end
