(* ===== verification/Ffwd_Ownership.thy ===== *)
theory Ffwd_Ownership
  imports Ffwd_Delegation "HOL-Library.Multiset"
begin

text \<open>
  Delegated functions that hand out references and take them back. A client may use in a call the
  references that it got in earlier calls and has not given back. The locale \<open>delegated_references\<close> is the
  interface: its laws speak of one call in a state with a multiset \<open>H\<close> of references in the
  hands of all clients; it derives that in every run the invariant holds for the references that
  the clients own together, and that the server is never stuck.
\<close>

text \<open>The references of the client with slot \<open>k\<close> of socket \<open>s\<close>: what the executions of its calls by server \<open>v\<close> gave and took.\<close>

fun owned :: "('f \<Rightarrow> u64 list \<Rightarrow> 'r multiset) \<Rightarrow> ('f \<Rightarrow> u64 list \<Rightarrow> u64 \<Rightarrow> 'r multiset) \<Rightarrow> nat \<Rightarrow> nat \<Rightarrow> nat \<Rightarrow> 'f event list \<Rightarrow> 'r multiset \<Rightarrow> 'r multiset" where
  "owned takes gives v s k [] M = M"
| "owned takes gives v s k (Exec v' s' k' f a r # es) M =
     owned takes gives v s k es (if v' = v \<and> s' = s \<and> k' = k then M - takes f a + gives f a r else M)"
| "owned takes gives v s k (_ # es) M = owned takes gives v s k es M"

lemma owned_append: "owned takes gives v s k (es @ es') M = owned takes gives v s k es' (owned takes gives v s k es M)"
  by (induction takes gives v s k es M rule: owned.induct) simp_all

definition held_by :: "('f \<Rightarrow> u64 list \<Rightarrow> 'r multiset) \<Rightarrow> ('f \<Rightarrow> u64 list \<Rightarrow> u64 \<Rightarrow> 'r multiset) \<Rightarrow> nat \<Rightarrow> ('f, 'd) sys \<Rightarrow> 'f event list \<Rightarrow> nat \<Rightarrow> 'r multiset" where
  "held_by takes gives v \<sigma>0 tr c = owned takes gives v (chip (clients \<sigma>0 c)) (slot (clients \<sigma>0 c)) tr {#}"

text \<open>The references of all clients.\<close>

definition held_refs :: "('f \<Rightarrow> u64 list \<Rightarrow> 'r multiset) \<Rightarrow> ('f \<Rightarrow> u64 list \<Rightarrow> u64 \<Rightarrow> 'r multiset) \<Rightarrow> nat \<Rightarrow> ('f, 'd) sys \<Rightarrow> 'f event list \<Rightarrow> 'r multiset" where
  "held_refs takes gives v \<sigma>0 tr = (\<Sum>c<nclients \<sigma>0. held_by takes gives v \<sigma>0 tr c)"

lemma held_by_quiet: "(\<And>s k f a r. e \<noteq> Exec v s k f a r) \<Longrightarrow> held_by takes gives v \<sigma>0 (tr @ [e]) = held_by takes gives v \<sigma>0 tr"
proof (cases e)
  case (Exec v' s k f a r)
  assume "\<And>s k f a r. e \<noteq> Exec v s k f a r"
  then have "v' \<noteq> v" using Exec by blast
  then show ?thesis using Exec by (simp add: held_by_def owned_append fun_eq_iff)
qed (simp_all add: held_by_def owned_append fun_eq_iff)

lemma held_by_exec:
  "held_by takes gives v \<sigma>0 (tr @ [Exec v s k f a r]) c =
     (if chip (clients \<sigma>0 c) = s \<and> slot (clients \<sigma>0 c) = k then held_by takes gives v \<sigma>0 tr c - takes f a + gives f a r else held_by takes gives v \<sigma>0 tr c)"
  by (auto simp: held_by_def owned_append)

lemma exchange:
  assumes "(t :: 'r multiset) \<subseteq># h"
  shows "h - t + g + rest = h + rest - t + g"
proof (rule multiset_eqI)
  fix x
  have "count t x \<le> count h x" using assms by (rule mset_subset_eq_count)
  then show "count (h - t + g + rest) x = count (h + rest - t + g) x" by simp
qed

lemma held_refs_exec:
  assumes inj: "inj_on (\<lambda>c. (chip (clients \<sigma>0 c), slot (clients \<sigma>0 c))) {..< nclients \<sigma>0}" and c: "c < nclients \<sigma>0" "chip (clients \<sigma>0 c) = s" "slot (clients \<sigma>0 c) = k"
    and t: "takes f a \<subseteq># held_by takes gives v \<sigma>0 tr c"
  shows "held_refs takes gives v \<sigma>0 (tr @ [Exec v s k f a r]) = held_refs takes gives v \<sigma>0 tr - takes f a + gives f a r"
proof -
  let ?h = "held_by takes gives v \<sigma>0 tr" and ?h' = "held_by takes gives v \<sigma>0 (tr @ [Exec v s k f a r])"
  have rest: "?h' d = ?h d" if "d \<in> {..< nclients \<sigma>0} - {c}" for d
    using that inj c by (auto simp: held_by_exec inj_on_def)
  have c': "finite {..< nclients \<sigma>0}" "c \<in> {..< nclients \<sigma>0}" using c(1) by simp_all
  have "sum ?h' ({..< nclients \<sigma>0} - {c}) = sum ?h ({..< nclients \<sigma>0} - {c})" by (rule sum.cong [OF refl rest])
  moreover have "?h' c = ?h c - takes f a + gives f a r" using c(2,3) by (simp add: held_by_exec)
  ultimately have "sum ?h' {..< nclients \<sigma>0} = ?h c - takes f a + gives f a r + sum ?h ({..< nclients \<sigma>0} - {c})"
    by (simp only: sum.remove [OF c', of ?h'])
  also have "\<dots> = sum ?h {..< nclients \<sigma>0} - takes f a + gives f a r"
    by (simp only: sum.remove [OF c', of ?h] exchange [OF t])
  finally show ?thesis by (simp add: held_refs_def)
qed

lemma held_by_le: "c < nclients \<sigma>0 \<Longrightarrow> held_by takes gives v \<sigma>0 tr c \<subseteq># held_refs takes gives v \<sigma>0 tr"
  unfolding held_refs_def by (metis finite_lessThan lessThan_iff mset_subset_eq_add_left sum.remove)

text \<open>
  The rule that clients keep to: a call uses references that the client owns when it makes it.
  \<open>valid\<close> restricts the arguments.
\<close>

definition polite :: "('f \<Rightarrow> u64 list \<Rightarrow> bool) \<Rightarrow> ('f \<Rightarrow> u64 list \<Rightarrow> 'r multiset) \<Rightarrow> ('f \<Rightarrow> u64 list \<Rightarrow> 'r multiset) \<Rightarrow> ('f \<Rightarrow> u64 list \<Rightarrow> u64 \<Rightarrow> 'r multiset) \<Rightarrow>
    nat \<Rightarrow> ('f, 'd) sys \<Rightarrow> 'f event list \<Rightarrow> bool" where
  "polite valid uses takes gives v \<sigma>0 tr \<longleftrightarrow>
     (\<forall>tr1 tr2 c f args. tr = tr1 @ Invoke c v f args # tr2 \<longrightarrow> valid f args \<and> uses f args \<subseteq># held_by takes gives v \<sigma>0 tr1 c)"

lemma polite_prefix: "polite valid uses takes gives v \<sigma>0 (tr @ es) \<Longrightarrow> polite valid uses takes gives v \<sigma>0 tr"
  unfolding polite_def by (metis append.assoc append_Cons)

lemma polite_called:
  assumes "polite valid uses takes gives v \<sigma>0 tr" "track c (chip (clients \<sigma>0 c)) (slot (clients \<sigma>0 c)) Free tr = Some (Called v f args)"
  shows "valid f args \<and> uses f args \<subseteq># held_by takes gives v \<sigma>0 tr c"
  using assms
proof (induction tr rule: rev_induct)
  case (snoc e tr)
  obtain w where w: "track c (chip (clients \<sigma>0 c)) (slot (clients \<sigma>0 c)) Free tr = Some w" "track1 c (chip (clients \<sigma>0 c)) (slot (clients \<sigma>0 c)) w e = Some (Called v f args)"
    using snoc.prems(2) by (auto simp: track_append split: option.splits)
  note IH = snoc.IH [OF polite_prefix [OF snoc.prems(1)]]
  show ?case
  proof (cases e)
    case (Invoke c' v' f' args')
    have q: "held_by takes gives v \<sigma>0 (tr @ [e]) = held_by takes gives v \<sigma>0 tr" by (rule held_by_quiet) (simp add: Invoke)
    show ?thesis
    proof (cases "c' = c")
      case True
      then have "v' = v" "f' = f" "args' = args" using w(2) Invoke by (auto split: if_splits)
      then show ?thesis using snoc.prems(1) Invoke True unfolding polite_def q by blast
    next
      case False
      then show ?thesis using w Invoke IH q by simp
    qed
  next
    case (Exec v' s' k' f' a' r')
    then have "s' \<noteq> chip (clients \<sigma>0 c) \<or> k' \<noteq> slot (clients \<sigma>0 c)" "w = Called v f args" using w(2) by (auto split: if_splits view.splits)
    then show ?thesis using w(1) IH Exec by (auto simp: held_by_def owned_append)
  next
    case (Return c' v' f' args' r')
    then have "w = Called v f args" using w(2) by (auto split: if_splits)
    moreover have "held_by takes gives v \<sigma>0 (tr @ [e]) = held_by takes gives v \<sigma>0 tr" by (rule held_by_quiet) (simp add: Return)
    ultimately show ?thesis using w(1) IH by simp
  qed
qed simp

lemma exec_owner:
  assumes run: "ffwd_run t64 call \<sigma>0 tr \<sigma>" and init: "initial t64 \<sigma>0" and st: "ffwd_step t64 call \<sigma> (Some (Exec v s k f a r)) \<sigma>'"
    and p: "polite valid uses takes gives v \<sigma>0 tr"
    and more: "\<And>args. valid f args \<Longrightarrow> take (length args) a = args \<Longrightarrow> valid f a \<and> uses f a = uses f args"
  obtains c where "c < nclients \<sigma>0" "chip (clients \<sigma>0 c) = s" "slot (clients \<sigma>0 c) = k" "valid f a" "uses f a \<subseteq># held_by takes gives v \<sigma>0 tr c"
proof -
  obtain c where c: "c < nclients \<sigma>0" "chip (clients \<sigma>0 c) = s" "slot (clients \<sigma>0 c) = k"
    using step_owned [OF sys_inv_run [OF run init] st] by (auto simp: owner_def run_static [OF run])
  have run': "ffwd_run t64 call \<sigma>0 (tr @ [Exec v s k f a r]) \<sigma>'" using ffwd_run.step [OF run st] by (simp add: ev_def)
  have "track c s k Free (tr @ [Exec v s k f a r]) \<noteq> None"
    using sys_inv_run [OF run' init] c run_static [OF run'] by (auto simp: sys_inv_def client_inv_def)
  then obtain args where "track c s k Free tr = Some (Called v f args)" "take (length args) a = args"
    by (auto simp: track_append split: option.splits view.splits if_splits)
  then have "valid f a \<and> uses f a \<subseteq># held_by takes gives v \<sigma>0 tr c" using polite_called [OF p, of c f args] more [of args] c by auto
  then show ?thesis using that c by blast
qed

subsection \<open>Runs on other data\<close>

text \<open>
  The protocol does not look at the data of the servers: a run is also a run of another system
  whose functions return the same results.
\<close>

definition set_data :: "'d \<Rightarrow> ('f, 'e) server \<Rightarrow> ('f, 'd) server" where
  "set_data d S = \<lparr> chips = chips S, responses = responses S, old_client_flags = old_client_flags S, socket_client_flags = socket_client_flags S,
     local_return_values = local_return_values S, spc = spc S, sdata = d \<rparr>"

definition sys_data :: "(nat \<Rightarrow> 'd) \<Rightarrow> ('f, 'e) sys \<Rightarrow> ('f, 'd) sys" where
  "sys_data D \<sigma> = \<lparr> servers = (\<lambda>v. set_data (D v) (servers \<sigma> v)), clients = clients \<sigma>, nservers = nservers \<sigma>, nclients = nclients \<sigma>, stop_flag = stop_flag \<sigma> \<rparr>"

lemma server_step_data:
  assumes "server_step t64 call1 fin pc S = Some (e, S')" "case e of None \<Rightarrow> d' = d | Some (s, k, f, a, r) \<Rightarrow> call2 f a d = Some (r, d')"
  shows "server_step t64 call2 fin pc (set_data d S) = Some (e, set_data d' S')"
  using assms by (cases pc) (auto simp: server_call_def server_test_def set_data_def Let_def split: option.splits if_splits)

lemma client_step_data: "client_step t64 pc C S = Some (e, C', S') \<Longrightarrow> client_step t64 pc C (set_data d S) = Some (e, C', set_data d S')"
  by (cases pc) (auto simp: set_data_def set_request_def split: if_splits)

lemma step_data:
  assumes st: "ffwd_step t64 call1 \<sigma> l \<sigma>'" and re: "\<And>v. replay call2 (D v) (execs v (ev l)) = Some (D' v)"
  shows "ffwd_step t64 call2 (sys_data D \<sigma>) l (sys_data D' \<sigma>')"
  using st
proof cases
  case (server v e S')
  have other: "D' u = D u" if "u \<noteq> v" for u using re [of u] server(1) that by (cases e) (auto simp: ev_def)
  have "case e of None \<Rightarrow> D' v = D v | Some (s, k, f, a, r) \<Rightarrow> call2 f a (D v) = Some (r, D' v)"
    using re [of v] server(1) by (cases e) (auto simp: ev_def split: option.splits if_splits)
  from server_step_data [where d = "D v" and d' = "D' v" and ?call2.0 = call2, OF server(4) this]
  have "server_step t64 call2 (stop_flag (sys_data D \<sigma>)) (spc (servers (sys_data D \<sigma>) v)) (servers (sys_data D \<sigma>) v) = Some (e, set_data (D' v) S')"
    by (simp add: sys_data_def) (simp add: set_data_def)
  moreover have "sys_data D' \<sigma>' = (sys_data D \<sigma>)\<lparr> servers := (servers (sys_data D \<sigma>))(v := set_data (D' v) S') \<rparr>"
    using server(2) other by (auto simp: sys_data_def)
  ultimately show ?thesis using ffwd_step.server [of v "sys_data D \<sigma>" t64 call2 e "set_data (D' v) S'"] server(1,3) by (simp add: sys_data_def)
next
  case (invoke c v args f)
  have "D' = D" using re invoke(1) by (auto simp: ev_def)
  then show ?thesis using invoke ffwd_step.invoke [of c "sys_data D \<sigma>" v args t64 call2 f] by (simp add: sys_data_def)
next
  case (client c v e C' S' f args)
  have D: "D' = D" using re client(1) by (cases e) (auto simp: ev_def)
  have "client_step t64 (cpc (clients (sys_data D \<sigma>) c)) (clients (sys_data D \<sigma>) c) (servers (sys_data D \<sigma>) v) = Some (e, C', set_data (D v) S')"
    using client_step_data [OF client(5)] by (simp add: sys_data_def)
  moreover have "sys_data D' \<sigma>' = (sys_data D \<sigma>)\<lparr> servers := (servers (sys_data D \<sigma>))(v := set_data (D v) S'), clients := (clients (sys_data D \<sigma>))(c := C') \<rparr>"
    using client(2) D by (auto simp: sys_data_def)
  ultimately show ?thesis using ffwd_step.client [of c "sys_data D \<sigma>" v t64 e C' "set_data (D v) S'" f args call2] client(1,3,4,6) by (simp add: sys_data_def)
next
  case finish
  have "D' = D" using re finish(1) by (auto simp: ev_def)
  then show ?thesis using finish ffwd_step.finish [of t64 call2 "sys_data D \<sigma>"] by (simp add: sys_data_def)
qed

lemma run_data:
  assumes "ffwd_run t64 call1 \<sigma>0 tr \<sigma>" "\<And>v. replay call2 (D v) (execs v tr) \<noteq> None"
  shows "\<exists>D'. ffwd_run t64 call2 (sys_data D \<sigma>0) tr (sys_data D' \<sigma>) \<and> (\<forall>v. replay call2 (D v) (execs v tr) = Some (D' v))"
  using assms
proof (induction rule: ffwd_run.induct)
  case start
  show ?case using ffwd_run.start [of t64 call2 "sys_data D \<sigma>0"] by (intro exI [of _ D]) simp
next
  case (step tr \<sigma> l \<sigma>')
  have "replay call2 (D v) (execs v tr) \<noteq> None" for v using step.prems [of v] by (auto simp: execs_append replay_append split: option.splits)
  from step.IH [OF this] obtain D1 where D1: "ffwd_run t64 call2 (sys_data D \<sigma>0) tr (sys_data D1 \<sigma>)" "\<And>v. replay call2 (D v) (execs v tr) = Some (D1 v)" by blast
  define D' where "D' = (\<lambda>v. the (replay call2 (D1 v) (execs v (ev l))))"
  have D': "replay call2 (D1 v) (execs v (ev l)) = Some (D' v)" for v
    using step.prems [of v] D1(2) [of v] by (auto simp: execs_append replay_append D'_def)
  then have "replay call2 (D v) (execs v (tr @ ev l)) = Some (D' v)" for v using D1(2) by (simp add: execs_append replay_append)
  with ffwd_run.step [OF D1(1) step_data [OF step.hyps(2) D']] show ?case by blast
qed

text \<open>The call that a server is about to make is made by another system whose functions always return, so its arguments are those of a client.\<close>

definition totalized :: "('f \<Rightarrow> u64 list \<Rightarrow> 'd \<Rightarrow> (u64 \<times> 'd) option) \<Rightarrow> 'f \<Rightarrow> u64 list \<Rightarrow> 'd \<Rightarrow> (u64 \<times> 'd) option" where
  "totalized call f a d = (case call f a d of None \<Rightarrow> Some (0, d) | Some x \<Rightarrow> Some x)"

lemma server_step_totalized: "server_step t64 call fin pc S = Some x \<Longrightarrow> server_step t64 (totalized call) fin pc S = Some x"
  by (cases pc) (auto simp: server_call_def totalized_def Let_def split: option.splits if_splits)

lemma run_totalized: "ffwd_run t64 call \<sigma>0 tr \<sigma> \<Longrightarrow> ffwd_run t64 (totalized call) \<sigma>0 tr \<sigma>"
proof (induction rule: ffwd_run.induct)
  case (step tr \<sigma> l \<sigma>')
  have "ffwd_step t64 (totalized call) \<sigma> l \<sigma>'"
    using step.hyps(2) by cases (auto intro: ffwd_step.intros dest: server_step_totalized)
  then show ?case by (rule ffwd_run.step [OF step.IH])
qed (rule ffwd_run.start)

text \<open>The states around an event of a run.\<close>

lemma run_split:
  assumes "ffwd_run t64 call \<sigma>0 tr \<sigma>" "tr = tr1 @ e # tr2"
  shows "\<exists>\<sigma>1 \<sigma>2. ffwd_run t64 call \<sigma>0 tr1 \<sigma>1 \<and> ffwd_step t64 call \<sigma>1 (Some e) \<sigma>2"
  using assms
proof (induction arbitrary: tr2 rule: ffwd_run.induct)
  case (step tr \<sigma> l \<sigma>')
  show ?case
  proof (cases l)
    case (Some e')
    then show ?thesis using step by (cases tr2 rule: rev_cases) (auto simp: ev_def)
  qed (use step in \<open>simp add: ev_def\<close>)
qed simp

locale delegated_references =
  fixes call :: "'f \<Rightarrow> u64 list \<Rightarrow> 'd \<Rightarrow> (u64 \<times> 'd) option"
    and inv :: "'d \<Rightarrow> 'r multiset \<Rightarrow> bool"
    and room :: "'d \<Rightarrow> 'r multiset \<Rightarrow> bool"
    and valid :: "'f \<Rightarrow> u64 list \<Rightarrow> bool"
    and uses takes :: "'f \<Rightarrow> u64 list \<Rightarrow> 'r multiset"
    and gives :: "'f \<Rightarrow> u64 list \<Rightarrow> u64 \<Rightarrow> 'r multiset"
  assumes call_inv: "\<lbrakk> inv d H; room d H; valid f a; uses f a \<subseteq># H; call f a d = Some (r, d'); room d' (H - takes f a + gives f a r) \<rbrakk> \<Longrightarrow>
      inv d' (H - takes f a + gives f a r)"
    and call_returns: "\<lbrakk> inv d H; room d H; valid f a; uses f a \<subseteq># H \<rbrakk> \<Longrightarrow> call f a d \<noteq> None"
    and takes_uses: "takes f a \<subseteq># uses f a"
    and more: "valid f args \<Longrightarrow> take (length args) a = args \<Longrightarrow> valid f a \<and> uses f a = uses f args"
begin

text \<open>The states of the run have room for the references, and the clients are polite.\<close>

definition proper :: "nat \<Rightarrow> ('f, 'd) sys \<Rightarrow> 'f event list \<Rightarrow> bool" where
  "proper v \<sigma>0 tr \<longleftrightarrow> polite valid uses takes gives v \<sigma>0 tr \<and>
     (\<forall>tr1 tr2 d. tr = tr1 @ tr2 \<and> replay call (sdata (servers \<sigma>0 v)) (execs v tr1) = Some d \<longrightarrow> room d (held_refs takes gives v \<sigma>0 tr1))"

lemma properD:
  assumes "proper v \<sigma>0 tr" and "ffwd_run t64 call \<sigma>0 tr \<sigma>"
  shows "polite valid uses takes gives v \<sigma>0 tr" "room (sdata (servers \<sigma> v)) (held_refs takes gives v \<sigma>0 tr)"
  using assms run_replay [OF assms(2), of v] unfolding proper_def by auto

lemma proper_prefix: "proper v \<sigma>0 (tr @ es) \<Longrightarrow> proper v \<sigma>0 tr"
  unfolding proper_def using polite_prefix by (metis append.assoc)

lemma references:
  assumes run: "ffwd_run t64 call \<sigma>0 tr \<sigma>" and init: "initial t64 \<sigma>0" and inv0: "inv (sdata (servers \<sigma>0 v)) {#}" and "proper v \<sigma>0 tr"
  shows "inv (sdata (servers \<sigma> v)) (held_refs takes gives v \<sigma>0 tr)"
  using run assms(4)
proof (induction rule: ffwd_run.induct)
  case start
  then show ?case using inv0 by (simp add: held_refs_def held_by_def)
next
  case (step tr \<sigma> l \<sigma>')
  note pre = proper_prefix [OF step.prems]
  note IH = step.IH [OF pre] and now = properD [OF pre step.hyps(1)] and after = properD [OF step.prems ffwd_run.step [OF step.hyps]]
  have re: "replay call (sdata (servers \<sigma> v)) (execs v (ev l)) = Some (sdata (servers \<sigma>' v))" by (rule step_replay [OF step.hyps(2)])
  show ?case
  proof (cases "\<exists>s k f a r. l = Some (Exec v s k f a r)")
    case True
    then obtain s k f a r where l: "l = Some (Exec v s k f a r)" by blast
    obtain c where c: "c < nclients \<sigma>0" "chip (clients \<sigma>0 c) = s" "slot (clients \<sigma>0 c) = k" "valid f a" "uses f a \<subseteq># held_by takes gives v \<sigma>0 tr c"
      using exec_owner [OF step.hyps(1) init _ now(1) more] step.hyps(2) l by metis
    have u: "uses f a \<subseteq># held_refs takes gives v \<sigma>0 tr" using c(5) held_by_le [OF c(1)] by (rule subset_mset.trans)
    have "takes f a \<subseteq># held_by takes gives v \<sigma>0 tr c" using takes_uses c(5) by (rule subset_mset.trans)
    moreover have "inj_on (\<lambda>c. (chip (clients \<sigma>0 c), slot (clients \<sigma>0 c))) {..< nclients \<sigma>0}" using init by (simp add: initial_def)
    ultimately have H: "held_refs takes gives v \<sigma>0 (tr @ ev l) = held_refs takes gives v \<sigma>0 tr - takes f a + gives f a r"
      using held_refs_exec [OF _ c(1-3)] l by (simp add: ev_def)
    have "call f a (sdata (servers \<sigma> v)) = Some (r, sdata (servers \<sigma>' v))" using re l by (auto simp: ev_def split: option.splits if_splits)
    from call_inv [OF IH now(2) c(4) u this] show ?thesis using after(2) H by simp
  next
    case False
    then have "execs v (ev l) = []" by (cases l; cases "the l") (auto simp: ev_def)
    moreover have "held_refs takes gives v \<sigma>0 (tr @ ev l) = held_refs takes gives v \<sigma>0 tr"
      using held_by_quiet [of "the l" v takes gives \<sigma>0 tr] False by (cases l) (auto simp: ev_def held_refs_def)
    ultimately show ?thesis using IH re by simp
  qed
qed

lemma never_stuck:
  assumes run: "ffwd_run t64 call \<sigma>0 tr \<sigma>" and init: "initial t64 \<sigma>0" and inv0: "inv (sdata (servers \<sigma>0 v)) {#}" and pr: "proper v \<sigma>0 tr"
    and v: "v < nservers \<sigma>"
  shows "server_step t64 call (stop_flag \<sigma>) (spc (servers \<sigma> v)) (servers \<sigma> v) = None \<longleftrightarrow> spc (servers \<sigma> v) = Stopped"
proof (cases "spc (servers \<sigma> v)")
  case (Call b k)
  let ?S = "servers \<sigma> v"
  obtain e S' where st: "server_step t64 (totalized call) (stop_flag \<sigma>) (spc ?S) ?S = Some (Some e, S')"
    using Call by (cases "totalized call (fptr (chips ?S (socket_of b) (slot_of t64 b k))) (argv (chips ?S (socket_of b) (slot_of t64 b k))) (sdata ?S)")
      (auto simp: server_call_def totalized_def Let_def split: option.splits)
  obtain s k' f a r where e: "e = (s, k', f, a, r)" by (cases e)
  have "ffwd_step t64 (totalized call) \<sigma> (Some (Exec v s k' f a r)) (\<sigma>\<lparr> servers := (servers \<sigma>)(v := S') \<rparr>)"
    using ffwd_step.server [OF v st] e by simp
  then obtain c where c: "c < nclients \<sigma>0" "valid f a" "uses f a \<subseteq># held_by takes gives v \<sigma>0 tr c"
    using exec_owner [OF run_totalized [OF run] init _ properD(1) [OF pr run] more] by metis
  have "uses f a \<subseteq># held_refs takes gives v \<sigma>0 tr" using c(3) held_by_le [OF c(1)] by (rule subset_mset.trans)
  from call_returns [OF references [OF run init inv0 pr] properD(2) [OF pr run] c(2) this]
  have "call f a (sdata ?S) \<noteq> None" .
  then show ?thesis using st e Call by (auto simp: server_call_def totalized_def Let_def split: option.splits if_splits)
qed (auto simp: Let_def)

lemma executed:
  assumes run: "ffwd_run t64 call \<sigma>0 tr \<sigma>" and init: "initial t64 \<sigma>0" and inv0: "inv (sdata (servers \<sigma>0 v)) {#}" and pr: "proper v \<sigma>0 tr"
    and ex: "tr = tr1 @ Exec v s k f a r # tr2" and d: "replay call (sdata (servers \<sigma>0 v)) (execs v tr1) = Some d"
  shows "inv d (held_refs takes gives v \<sigma>0 tr1)" "room d (held_refs takes gives v \<sigma>0 tr1)" "valid f a" "uses f a \<subseteq># held_refs takes gives v \<sigma>0 tr1"
    "\<exists>d'. call f a d = Some (r, d')"
proof -
  obtain \<sigma>1 \<sigma>2 where r: "ffwd_run t64 call \<sigma>0 tr1 \<sigma>1" "ffwd_step t64 call \<sigma>1 (Some (Exec v s k f a r)) \<sigma>2" using run_split [OF run ex] by blast
  have pr1: "proper v \<sigma>0 tr1" using pr ex proper_prefix by blast
  note now = properD [OF pr1 r(1)]
  have e: "sdata (servers \<sigma>1 v) = d" using run_replay [OF r(1), of v] d by simp
  show "inv d (held_refs takes gives v \<sigma>0 tr1)" using references [OF r(1) init inv0 pr1] e by simp
  show "room d (held_refs takes gives v \<sigma>0 tr1)" using now(2) e by simp
  obtain c where c: "c < nclients \<sigma>0" "valid f a" "uses f a \<subseteq># held_by takes gives v \<sigma>0 tr1 c"
    using exec_owner [OF r(1) init r(2) now(1) more] by metis
  then show "valid f a" "uses f a \<subseteq># held_refs takes gives v \<sigma>0 tr1" using held_by_le [OF c(1)] subset_mset.trans by blast+
  show "\<exists>d'. call f a d = Some (r, d')" using step_replay [OF r(2), of v] e by (auto simp: ev_def split: option.splits if_splits)
qed

end

end
