(* ===== verification/Workpool.thy ===== *)
theory Workpool
  imports Ffwd_Ownership Linked_Heap
begin

text \<open>
  \<open>splash2/splash2-ffwd/codes/apps/raytrace/workpool.c\<close>: the work pools of the ray tracer. Every
  process has a stack of pixel bundles; removing a bundle is delegated (\<open>func3\<close>), and a process whose
  stack is empty takes work from the others. \<open>INT\<close> is a \<open>long\<close>; the screen sizes are far from its bounds, so it
  is an \<open>int\<close> here. \<open>GlobalMalloc\<close> ends the program when there is no memory, which is \<open>None\<close>.
\<close>

record wpjob =
  xpix :: int
  ypix :: int
  xdim :: int
  ydim :: int
  wp_next :: addr

record rayjob =
  rx :: int
  ry :: int
  xlen :: int
  ylen :: int
  xcurr :: int
  ycurr :: int

record gmem =
  wp_heap :: "wpjob heap"
  workpool :: "nat \<Rightarrow> addr"
  wpstat :: "nat \<Rightarrow> int"

definition WPS_EMPTY :: int where "WPS_EMPTY = 0"
definition WPS_VALID :: int where "WPS_VALID = 1"

subsection \<open>Filling a pool\<close>

definition push_job :: "int \<Rightarrow> int \<Rightarrow> int \<Rightarrow> int \<Rightarrow> nat \<Rightarrow> gmem \<Rightarrow> gmem option" where
  "push_job x y w h pid gm = do {
     let (wpentry, hp) = malloc (wp_heap gm);
     hp \<leftarrow> modify hp wpentry (\<lambda>j. j\<lparr> xpix := x, ypix := y, xdim := w, ydim := h \<rparr>);
     hp \<leftarrow> modify hp wpentry (\<lambda>j. j\<lparr> wp_next := (if workpool gm pid = NULL then NULL else workpool gm pid) \<rparr>);
     Some (gm\<lparr> wp_heap := hp, workpool := (workpool gm)(pid := wpentry) \<rparr>) }"

definition bundle_size :: "int \<Rightarrow> int \<Rightarrow> int \<Rightarrow> int" where
  "bundle_size b_addr be b_end = (if b_addr + be - 1 \<le> b_end then be else b_end - b_addr + 1)"

partial_function (option) put_row :: "int \<Rightarrow> int \<Rightarrow> int \<Rightarrow> int \<Rightarrow> int \<Rightarrow> nat \<Rightarrow> int \<Rightarrow> int \<Rightarrow> int \<Rightarrow> gmem \<Rightarrow> gmem option" where
  "put_row xe xbe ybe xb_end yb_end pid j xb_addr yb_addr gm =
     (if j < xe then do {
        gm \<leftarrow> push_job xb_addr yb_addr (bundle_size xb_addr xbe xb_end) (bundle_size yb_addr ybe yb_end) pid gm;
        put_row xe xbe ybe xb_end yb_end pid (j + xbe) (xb_addr + xbe) yb_addr gm }
      else Some gm)"

partial_function (option) put_rows :: "int \<Rightarrow> int \<Rightarrow> int \<Rightarrow> int \<Rightarrow> int \<Rightarrow> int \<Rightarrow> int \<Rightarrow> nat \<Rightarrow> int \<Rightarrow> int \<Rightarrow> gmem \<Rightarrow> gmem option" where
  "put_rows xs xe ye xbe ybe xb_end yb_end pid i yb_addr gm =
     (if i < ye then do {
        gm \<leftarrow> put_row xe xbe ybe xb_end yb_end pid 0 xs yb_addr gm;
        put_rows xs xe ye xbe ybe xb_end yb_end pid (i + ybe) (yb_addr + ybe) gm }
      else Some gm)"

definition PutJob :: "int \<Rightarrow> int \<Rightarrow> int \<Rightarrow> int \<Rightarrow> int \<Rightarrow> int \<Rightarrow> nat \<Rightarrow> gmem \<Rightarrow> gmem option" where
  "PutJob xs ys xe ye xbe ybe pid gm = put_rows xs xe ye xbe ybe (xs + xe - 1) (ys + ye - 1) pid 0 ys gm"

text \<open>\<open>InitWorkPool\<close>: the screen is cut into blocks, which are dealt out to the processes in turn.\<close>

record screen =
  xres :: int
  yres :: int
  bundlex :: int
  bundley :: int
  blockx :: int
  blocky :: int
  nprocs :: nat

partial_function (option) init_row :: "screen \<Rightarrow> int \<Rightarrow> int \<Rightarrow> nat \<Rightarrow> int \<Rightarrow> int \<Rightarrow> nat \<Rightarrow> gmem \<Rightarrow> (nat \<times> gmem) option" where
  "init_row sc xsize ye pid y x i gm =
     (if x < xres sc then do {
        let xe = (if x + xsize > xres sc then xres sc - x else xsize);
        gm \<leftarrow> (if i = pid then PutJob x y xe ye (bundlex sc) (bundley sc) pid gm else Some gm);
        init_row sc xsize ye pid y (x + xsize) ((i + 1) mod nprocs sc) gm }
      else Some (i, gm))"

partial_function (option) init_rows :: "screen \<Rightarrow> int \<Rightarrow> int \<Rightarrow> nat \<Rightarrow> int \<Rightarrow> nat \<Rightarrow> gmem \<Rightarrow> gmem option" where
  "init_rows sc xsize ysize pid y i gm =
     (if y < yres sc then do {
        let ye = (if y + ysize > yres sc then yres sc - y else ysize);
        (i, gm) \<leftarrow> init_row sc xsize ye pid y 0 i gm;
        init_rows sc xsize ysize pid (y + ysize) i gm }
      else Some gm)"

definition InitWorkPool :: "screen \<Rightarrow> nat \<Rightarrow> gmem \<Rightarrow> gmem option" where
  "InitWorkPool sc pid gm =
     init_rows sc (c_div (xres sc) (blockx sc)) (c_div (yres sc) (blocky sc)) pid 0 0
       (gm\<lparr> wpstat := (wpstat gm)(pid := WPS_VALID), workpool := (workpool gm)(pid := NULL) \<rparr>)"

text \<open>All processes fill their pools before any of them takes a job.\<close>

fun init_pools :: "screen \<Rightarrow> nat list \<Rightarrow> gmem \<Rightarrow> gmem option" where
  "init_pools sc [] gm = Some gm"
| "init_pools sc (pid # pids) gm = do { gm \<leftarrow> InitWorkPool sc pid gm; init_pools sc pids gm }"

subsection \<open>Taking a job\<close>

definition func3_pool :: "nat \<Rightarrow> gmem \<Rightarrow> (addr \<times> gmem) option" where
  "func3_pool pid gm = do {
     let wpentry = workpool gm pid;
     if wpentry = NULL then Some (NULL, gm\<lparr> wpstat := (wpstat gm)(pid := WPS_EMPTY) \<rparr>)
     else do { j \<leftarrow> load (wp_heap gm) wpentry; Some (wpentry, gm\<lparr> workpool := (workpool gm)(pid := wp_next j) \<rparr>) } }"

text \<open>\<open>GetJob\<close> returns the job, or \<open>None\<close> for \<open>WPS_EMPTY\<close>.\<close>

definition GetJob :: "nat \<Rightarrow> gmem \<Rightarrow> (rayjob option \<times> gmem) option" where
  "GetJob pid gm = do {
     (wpentry, gm) \<leftarrow> func3_pool pid gm;
     if wpentry = NULL then Some (None, gm)
     else do {
       j \<leftarrow> load (wp_heap gm) wpentry;
       hp \<leftarrow> free (wp_heap gm) wpentry;
       Some (Some \<lparr> rx = xpix j, ry = ypix j, xlen = xdim j, ylen = ydim j, xcurr = xpix j, ycurr = ypix j \<rparr>, gm\<lparr> wp_heap := hp \<rparr>) } }"

definition try_pool :: "nat \<Rightarrow> gmem \<Rightarrow> (rayjob option \<times> gmem) option" where
  "try_pool i gm = (if wpstat gm i = WPS_VALID then GetJob i gm else Some (None, gm))"

partial_function (option) steal :: "nat \<Rightarrow> nat \<Rightarrow> nat \<Rightarrow> gmem \<Rightarrow> (rayjob option \<times> gmem) option" where
  "steal np pid i gm =
     (if i \<noteq> pid then do {
        (job, gm) \<leftarrow> try_pool i gm;
        if job \<noteq> None then Some (job, gm) else steal np pid ((i + 1) mod np) gm }
      else Some (None, gm))"

definition GetJobs :: "nat \<Rightarrow> nat \<Rightarrow> gmem \<Rightarrow> (rayjob option \<times> gmem) option" where
  "GetJobs np pid gm = do {
     (job, gm) \<leftarrow> try_pool pid gm;
     if job \<noteq> None then Some (job, gm) else steal np pid ((pid + 1) mod np) gm }"

subsection \<open>Pools as lists\<close>

type_synonym tile = "int \<times> int \<times> int \<times> int"

interpretation wj: linked wp_next "\<lambda>q. wp_next_update (\<lambda>_. q)" "\<lambda>j. (xpix j, ypix j, xdim j, ydim j)"
  by unfold_locales simp_all

definition pools :: "gmem \<Rightarrow> (nat \<Rightarrow> addr list) \<Rightarrow> bool" where
  "pools gm A \<longleftrightarrow> (\<forall>p. wj.path (wp_heap gm) (workpool gm p) (A p) NULL) \<and> (\<forall>p q. p \<noteq> q \<longrightarrow> set (A p) \<inter> set (A q) = {})"

text \<open>Memory that does not run out.\<close>

definition endless :: "'n heap \<Rightarrow> bool" where
  "endless h \<longleftrightarrow> heap_ok h \<and> finite (dom (cells h)) \<and> (\<forall>c. finite (dom c) \<longrightarrow> policy h c \<noteq> NULL)"

definition jobs :: "gmem \<Rightarrow> (nat \<Rightarrow> tile list) \<Rightarrow> bool" where
  "jobs gm W \<longleftrightarrow> endless (wp_heap gm) \<and> (\<exists>A. pools gm A \<and> W = (\<lambda>p. wj.keys_at (wp_heap gm) (A p)))"

lemma push_job_spec:
  assumes "jobs gm W"
  obtains gm' where "push_job x y w h pid gm = Some gm'" "jobs gm' (W(pid := (x, y, w, h) # W pid))" "wpstat gm' = wpstat gm"
proof -
  obtain A where A: "pools gm A" "W = (\<lambda>p. wj.keys_at (wp_heap gm) (A p))" and e: "endless (wp_heap gm)" using assms unfolding jobs_def by blast
  let ?hp = "wp_heap gm"
  obtain a hp1 where m: "malloc ?hp = (a, hp1)" by (cases "malloc ?hp")
  have nn: "a \<noteq> NULL" using m e by (auto simp: malloc_def endless_def Let_def split: if_splits)
  have hok: "heap_ok ?hp" using e by (simp add: endless_def)
  from malloc_cases [OF hok m] nn have f: "load ?hp a = None" "hp1 = upd ?hp a (junk ?hp a)" by auto
  define j where "j = (junk ?hp a)\<lparr> xpix := x, ypix := y, xdim := w, ydim := h, wp_next := workpool gm pid \<rparr>"
  let ?gm = "gm\<lparr> wp_heap := upd ?hp a j, workpool := (workpool gm)(pid := a) \<rparr>" and ?A = "A(pid := a # A pid)"
  have run: "push_job x y w h pid gm = Some ?gm" using nn m f(2) by (simp add: push_job_def j_def heap_simps)
  have fresh: "a \<notin> set (A p)" for p using wj.path_loaded [of ?hp _ "A p" NULL a] A(1) f(1) by (auto simp: pools_def)
  have P: "pools ?gm ?A" using A(1) fresh nn by (auto simp: pools_def heap_simps j_def)
  have "wj.keys_at (upd ?hp a j) (A p) = wj.keys_at ?hp (A p)" for p by (rule wj.keys_at_frame) (use fresh in \<open>auto simp: heap_simps\<close>)
  then have "W(pid := (x, y, w, h) # W pid) = (\<lambda>p. wj.keys_at (wp_heap ?gm) (?A p))"
    using nn by (auto simp: A(2) fun_eq_iff wj.key_at_def heap_simps j_def)
  moreover have "endless (upd ?hp a j)" using e nn by (simp add: endless_def heap_simps)
  ultimately have "jobs ?gm (W(pid := (x, y, w, h) # W pid))" using P unfolding jobs_def by auto
  then show ?thesis using that run by simp
qed

text \<open>Cutting an interval into pieces of length \<open>st\<close>.\<close>

function segs :: "int \<Rightarrow> int \<Rightarrow> int \<Rightarrow> (int \<times> int) list" where
  "segs lo hi st = (if st \<le> 0 \<or> hi \<le> lo then [] else (lo, min st (hi - lo)) # segs (lo + st) hi st)"
  by pat_completeness auto
termination by (relation "measure (\<lambda>(lo, hi, st). nat (hi - lo))") auto

declare segs.simps [simp del]

definition tiles :: "int \<Rightarrow> int \<Rightarrow> int \<Rightarrow> int \<Rightarrow> int \<Rightarrow> int \<Rightarrow> tile list" where
  "tiles xs xe xbe ys ye ybe = concat (map (\<lambda>(y, h). map (\<lambda>(x, w). (x, y, w, h)) (segs xs xe xbe)) (segs ys ye ybe))"

lemma bundle_size_min: "bundle_size b be (e - 1) = min be (e - b)"
  by (simp add: bundle_size_def min_def)

lemma put_row_spec:
  assumes "jobs gm W" "0 < xbe" "xe' = xb + (xe - j)"
  shows "\<exists>gm'. put_row xe xbe ybe (xe' - 1) (ye - 1) pid j xb yb gm = Some gm' \<and> wpstat gm' = wpstat gm \<and>
    jobs gm' (W(pid := rev (map (\<lambda>(x, w). (x, yb, w, min ybe (ye - yb))) (segs xb xe' xbe)) @ W pid))"
  using assms
proof (induction "nat (xe - j)" arbitrary: j xb gm W rule: less_induct)
  case less
  show ?case
  proof (cases "j < xe")
    case True
    obtain gm1 where g: "push_job xb yb (min xbe (xe' - xb)) (min ybe (ye - yb)) pid gm = Some gm1" "wpstat gm1 = wpstat gm"
      "jobs gm1 (W(pid := (xb, yb, min xbe (xe' - xb), min ybe (ye - yb)) # W pid))" by (rule push_job_spec [OF less.prems(1)])
    have lt: "nat (xe - (j + xbe)) < nat (xe - j)" "xe' = xb + xbe + (xe - (j + xbe))" using True less.prems(2,3) by auto
    from less.hyps [OF lt(1) g(3) less.prems(2) lt(2)] obtain gm' where
      r: "put_row xe xbe ybe (xe' - 1) (ye - 1) pid (j + xbe) (xb + xbe) yb gm1 = Some gm'" "wpstat gm' = wpstat gm1"
      "jobs gm' (W(pid := rev (map (\<lambda>(x, w). (x, yb, w, min ybe (ye - yb))) (segs (xb + xbe) xe' xbe)) @ (xb, yb, min xbe (xe' - xb), min ybe (ye - yb)) # W pid))"
      by auto
    have "segs xb xe' xbe = (xb, min xbe (xe' - xb)) # segs (xb + xbe) xe' xbe" using True less.prems(2,3) by (subst segs.simps) simp
    then show ?thesis using True g(1,2) r by (subst put_row.simps) (simp add: bundle_size_min)
  next
    case False
    then have "segs xb xe' xbe = []" using less.prems(3) by (subst segs.simps) simp
    then show ?thesis using False less.prems(1) by (subst put_row.simps) simp
  qed
qed

lemma put_rows_spec:
  assumes "jobs gm W" "0 < xbe" "0 < ybe" "ye' = yb + (ye - i)"
  shows "\<exists>gm'. put_rows xs xe ye xbe ybe (xs + xe - 1) (ye' - 1) pid i yb gm = Some gm' \<and> wpstat gm' = wpstat gm \<and>
    jobs gm' (W(pid := rev (tiles xs (xs + xe) xbe yb ye' ybe) @ W pid))"
  using assms
proof (induction "nat (ye - i)" arbitrary: i yb gm W rule: less_induct)
  case less
  show ?case
  proof (cases "i < ye")
    case True
    from put_row_spec [OF less.prems(1,2), of "xs + xe" xs xe 0 ybe ye' pid yb] obtain gm1 where
      g: "put_row xe xbe ybe (xs + xe - 1) (ye' - 1) pid 0 xs yb gm = Some gm1" "wpstat gm1 = wpstat gm"
      "jobs gm1 (W(pid := rev (map (\<lambda>(x, w). (x, yb, w, min ybe (ye' - yb))) (segs xs (xs + xe) xbe)) @ W pid))" by auto
    have lt: "nat (ye - (i + ybe)) < nat (ye - i)" "ye' = yb + ybe + (ye - (i + ybe))" using True less.prems(3,4) by auto
    from less.hyps [OF lt(1) g(3) less.prems(2,3) lt(2)] obtain gm' where
      r: "put_rows xs xe ye xbe ybe (xs + xe - 1) (ye' - 1) pid (i + ybe) (yb + ybe) gm1 = Some gm'" "wpstat gm' = wpstat gm1"
      "jobs gm' (W(pid := rev (tiles xs (xs + xe) xbe (yb + ybe) ye' ybe) @ rev (map (\<lambda>(x, w). (x, yb, w, min ybe (ye' - yb))) (segs xs (xs + xe) xbe)) @ W pid))"
      by auto
    have "segs yb ye' ybe = (yb, min ybe (ye' - yb)) # segs (yb + ybe) ye' ybe" using True less.prems(3,4) by (subst segs.simps) simp
    then show ?thesis using True g(1,2) r by (subst put_rows.simps) (simp add: tiles_def)
  next
    case False
    then have "segs yb ye' ybe = []" using less.prems(4) by (subst segs.simps) simp
    then show ?thesis using False less.prems(1) by (subst put_rows.simps) (simp add: tiles_def)
  qed
qed

lemma PutJob_spec:
  assumes "jobs gm W" "0 < xbe" "0 < ybe"
  shows "\<exists>gm'. PutJob xs ys xe ye xbe ybe pid gm = Some gm' \<and> wpstat gm' = wpstat gm \<and> jobs gm' (W(pid := rev (tiles xs (xs + xe) xbe ys (ys + ye) ybe) @ W pid))"
  using put_rows_spec [OF assms, of "ys + ye" ys ye 0 xs xe pid] by (simp add: PutJob_def)

text \<open>Dealing out blocks in turn: the blocks of \<open>pid\<close>, and whose turn it is afterwards.\<close>

fun dealt :: "nat \<Rightarrow> nat \<Rightarrow> nat \<Rightarrow> 'b list \<Rightarrow> 'b list" where
  "dealt np pid i [] = []"
| "dealt np pid i (b # bs) = (if i = pid then [b] else []) @ dealt np pid ((i + 1) mod np) bs"

fun turn :: "nat \<Rightarrow> nat \<Rightarrow> 'b list \<Rightarrow> nat" where
  "turn np i [] = i"
| "turn np i (b # bs) = turn np ((i + 1) mod np) bs"

lemma dealt_append: "dealt np pid i (bs @ cs) = dealt np pid i bs @ dealt np pid (turn np i bs) cs"
  by (induction bs arbitrary: i) auto

lemma turn_append: "turn np i (bs @ cs) = turn np (turn np i bs) cs"
  by (induction bs arbitrary: i) auto

definition cut :: "screen \<Rightarrow> tile \<Rightarrow> tile list" where
  "cut sc = (\<lambda>(x, y, w, h). tiles x (x + w) (bundlex sc) y (y + h) (bundley sc))"

definition pool_of :: "screen \<Rightarrow> tile list \<Rightarrow> tile list" where
  "pool_of sc bs = rev (concat (map (cut sc) bs))"

lemma pool_of_append: "pool_of sc (as @ bs) = pool_of sc bs @ pool_of sc as"
  by (simp add: pool_of_def)

lemma init_row_spec:
  assumes "jobs gm W" "0 < bundlex sc" "0 < bundley sc" "0 < xsize"
  shows "\<exists>gm'. init_row sc xsize ye pid y x i gm = Some (turn (nprocs sc) i (segs x (xres sc) xsize), gm') \<and> wpstat gm' = wpstat gm \<and>
    jobs gm' (W(pid := pool_of sc (dealt (nprocs sc) pid i (map (\<lambda>(x, w). (x, y, w, ye)) (segs x (xres sc) xsize))) @ W pid))"
  using assms(1)
proof (induction "nat (xres sc - x)" arbitrary: x i gm W rule: less_induct)
  case less
  show ?case
  proof (cases "x < xres sc")
    case True
    define xe where "xe = (if x + xsize > xres sc then xres sc - x else xsize)"
    have m: "xe = min xsize (xres sc - x)" by (auto simp: xe_def min_def)
    obtain gm1 where g: "(if i = pid then PutJob x y xe ye (bundlex sc) (bundley sc) pid gm else Some gm) = Some gm1" "wpstat gm1 = wpstat gm"
      "jobs gm1 (W(pid := (if i = pid then pool_of sc [(x, y, xe, ye)] else []) @ W pid))"
      using PutJob_spec [OF less.prems assms(2,3), of x y xe ye pid] less.prems by (cases "i = pid") (auto simp: pool_of_def cut_def)
    have lt: "nat (xres sc - (x + xsize)) < nat (xres sc - x)" using True assms(4) by simp
    from less.hyps [OF lt g(3), of "(i + 1) mod nprocs sc"] obtain gm' where
      r: "init_row sc xsize ye pid y (x + xsize) ((i + 1) mod nprocs sc) gm1 = Some (turn (nprocs sc) ((i + 1) mod nprocs sc) (segs (x + xsize) (xres sc) xsize), gm')"
      "wpstat gm' = wpstat gm1"
      "jobs gm' (W(pid := pool_of sc (dealt (nprocs sc) pid ((i + 1) mod nprocs sc) (map (\<lambda>(x, w). (x, y, w, ye)) (segs (x + xsize) (xres sc) xsize))) @
         (if i = pid then pool_of sc [(x, y, xe, ye)] else []) @ W pid))" by auto
    have sg: "segs x (xres sc) xsize = (x, xe) # segs (x + xsize) (xres sc) xsize" using True assms(4) m by (subst segs.simps) simp
    have "init_row sc xsize ye pid y x i gm = Some (turn (nprocs sc) i (segs x (xres sc) xsize), gm')"
      using True g(1) r(1) sg unfolding xe_def by (subst init_row.simps) (simp add: Let_def del: fun_upd_apply)
    moreover have "pool_of sc (dealt (nprocs sc) pid i (map (\<lambda>(x, w). (x, y, w, ye)) (segs x (xres sc) xsize))) =
        pool_of sc (dealt (nprocs sc) pid ((i + 1) mod nprocs sc) (map (\<lambda>(x, w). (x, y, w, ye)) (segs (x + xsize) (xres sc) xsize))) @ (if i = pid then pool_of sc [(x, y, xe, ye)] else [])"
      unfolding sg by (simp add: pool_of_def)
    ultimately show ?thesis using g(2) r(2,3) by (simp only: append_assoc) blast
  next
    case False
    then have "segs x (xres sc) xsize = []" by (subst segs.simps) simp
    then show ?thesis using False less.prems by (subst init_row.simps) (simp add: pool_of_def)
  qed
qed

lemma init_rows_spec:
  assumes "jobs gm W" "0 < bundlex sc" "0 < bundley sc" "0 < xsize" "0 < ysize"
  shows "\<exists>gm'. init_rows sc xsize ysize pid y i gm = Some gm' \<and> wpstat gm' = wpstat gm \<and>
    jobs gm' (W(pid := pool_of sc (dealt (nprocs sc) pid i (tiles 0 (xres sc) xsize y (yres sc) ysize)) @ W pid))"
  using assms(1)
proof (induction "nat (yres sc - y)" arbitrary: y i gm W rule: less_induct)
  case less
  show ?case
  proof (cases "y < yres sc")
    case True
    define ye where "ye = (if y + ysize > yres sc then yres sc - y else ysize)"
    have m: "ye = min ysize (yres sc - y)" by (auto simp: ye_def min_def)
    let ?row = "map (\<lambda>(x, w). (x, y, w, ye)) (segs 0 (xres sc) xsize)" and ?n = "nprocs sc"
    obtain gm1 where g: "init_row sc xsize ye pid y 0 i gm = Some (turn ?n i (segs 0 (xres sc) xsize), gm1)" "wpstat gm1 = wpstat gm"
      "jobs gm1 (W(pid := pool_of sc (dealt ?n pid i ?row) @ W pid))"
      using init_row_spec [OF less.prems assms(2-4), of ye pid y 0 i] by blast
    have t: "turn ?n i (segs 0 (xres sc) xsize) = turn ?n i ?row" for i
    proof -
      have "turn ?n i bs = turn ?n i (map f bs)" for f :: "int \<times> int \<Rightarrow> tile" and bs i by (induction bs arbitrary: i) simp_all
      then show ?thesis by blast
    qed
    have lt: "nat (yres sc - (y + ysize)) < nat (yres sc - y)" using True assms(5) by simp
    from less.hyps [OF lt g(3), of "turn ?n i ?row"] obtain gm' where
      r: "init_rows sc xsize ysize pid (y + ysize) (turn ?n i ?row) gm1 = Some gm'" "wpstat gm' = wpstat gm1"
      "jobs gm' (W(pid := pool_of sc (dealt ?n pid (turn ?n i ?row) (tiles 0 (xres sc) xsize (y + ysize) (yres sc) ysize)) @ pool_of sc (dealt ?n pid i ?row) @ W pid))" by auto
    have "segs y (yres sc) ysize = (y, ye) # segs (y + ysize) (yres sc) ysize" using True assms(5) m by (subst segs.simps) simp
    then have tl: "tiles 0 (xres sc) xsize y (yres sc) ysize = ?row @ tiles 0 (xres sc) xsize (y + ysize) (yres sc) ysize" by (simp add: tiles_def)
    have "init_rows sc xsize ysize pid y i gm = Some gm'"
      using True g(1) r(1) t unfolding ye_def by (subst init_rows.simps) (simp add: Let_def)
    then show ?thesis using g(2) r(2,3) by (simp add: tl dealt_append pool_of_append)
  next
    case False
    then have "segs y (yres sc) ysize = []" by (subst segs.simps) simp
    then show ?thesis using False less.prems by (subst init_rows.simps) (simp add: pool_of_def tiles_def)
  qed
qed

definition blocks_of :: "screen \<Rightarrow> tile list" where
  "blocks_of sc = tiles 0 (xres sc) (xres sc div blockx sc) 0 (yres sc) (yres sc div blocky sc)"

definition sizes_ok :: "screen \<Rightarrow> bool" where
  "sizes_ok sc \<longleftrightarrow> 0 < bundlex sc \<and> 0 < bundley sc \<and> 0 < blockx sc \<and> blockx sc \<le> xres sc \<and> 0 < blocky sc \<and> blocky sc \<le> yres sc"

lemma InitWorkPool_spec:
  assumes "jobs gm W" "sizes_ok sc"
  shows "\<exists>gm'. InitWorkPool sc pid gm = Some gm' \<and> wpstat gm' = (wpstat gm)(pid := WPS_VALID) \<and> jobs gm' (W(pid := pool_of sc (dealt (nprocs sc) pid 0 (blocks_of sc))))"
proof -
  let ?gm = "gm\<lparr> wpstat := (wpstat gm)(pid := WPS_VALID), workpool := (workpool gm)(pid := NULL) \<rparr>"
  obtain A where A: "pools gm A" "W = (\<lambda>p. wj.keys_at (wp_heap gm) (A p))" and e: "endless (wp_heap gm)" using assms(1) unfolding jobs_def by blast
  have "pools ?gm (A(pid := []))" using A(1) by (auto simp: pools_def)
  moreover have "W(pid := []) = (\<lambda>p. wj.keys_at (wp_heap ?gm) ((A(pid := [])) p))" by (auto simp: A(2))
  ultimately have j: "jobs ?gm (W(pid := []))" using e unfolding jobs_def by auto
  have sz: "0 < xres sc div blockx sc" "0 < yres sc div blocky sc" "c_div (xres sc) (blockx sc) = xres sc div blockx sc" "c_div (yres sc) (blocky sc) = yres sc div blocky sc"
    "0 < bundlex sc" "0 < bundley sc" using assms(2) by (simp_all add: sizes_ok_def pos_imp_zdiv_pos_iff)
  show ?thesis using init_rows_spec [OF j sz(5,6,1,2), of pid 0 0] sz(3,4) by (simp add: InitWorkPool_def blocks_of_def)
qed

lemma init_pools_spec:
  assumes "jobs gm W" "sizes_ok sc"
  shows "\<exists>gm'. init_pools sc pids gm = Some gm' \<and> (\<forall>p. wpstat gm' p = (if p \<in> set pids then WPS_VALID else wpstat gm p)) \<and>
    jobs gm' (\<lambda>p. if p \<in> set pids then pool_of sc (dealt (nprocs sc) p 0 (blocks_of sc)) else W p)"
  using assms(1)
proof (induction pids arbitrary: gm W)
  case (Cons pid pids)
  obtain gm1 where g: "InitWorkPool sc pid gm = Some gm1" "wpstat gm1 = (wpstat gm)(pid := WPS_VALID)" "jobs gm1 (W(pid := pool_of sc (dealt (nprocs sc) pid 0 (blocks_of sc))))"
    using InitWorkPool_spec [OF Cons.prems assms(2)] by blast
  obtain gm' where r: "init_pools sc pids gm1 = Some gm'" "\<forall>p. wpstat gm' p = (if p \<in> set pids then WPS_VALID else wpstat gm1 p)"
    "jobs gm' (\<lambda>p. if p \<in> set pids then pool_of sc (dealt (nprocs sc) p 0 (blocks_of sc)) else (W(pid := pool_of sc (dealt (nprocs sc) pid 0 (blocks_of sc)))) p)"
    using Cons.IH [OF g(3)] by blast
  have "(\<lambda>p. if p \<in> set (pid # pids) then pool_of sc (dealt (nprocs sc) p 0 (blocks_of sc)) else W p) =
     (\<lambda>p. if p \<in> set pids then pool_of sc (dealt (nprocs sc) p 0 (blocks_of sc)) else (W(pid := pool_of sc (dealt (nprocs sc) pid 0 (blocks_of sc)))) p)" by auto
  then show ?case using g r by auto
qed simp

subsection \<open>Every pixel once\<close>

fun covers :: "int \<times> int \<Rightarrow> tile \<Rightarrow> bool" where
  "covers (px, py) (x, y, w, h) \<longleftrightarrow> x \<le> px \<and> px < x + w \<and> y \<le> py \<and> py < y + h"

definition hits :: "int \<times> int \<Rightarrow> tile list \<Rightarrow> nat" where
  "hits P ts = length (filter (covers P) ts)"

lemma hits_simps [simp]: "hits P [] = 0" "hits P (t # ts) = (if covers P t then 1 else 0) + hits P ts" "hits P (ts @ us) = hits P ts + hits P us" "hits P (rev ts) = hits P ts"
  by (simp_all add: hits_def rev_filter [symmetric])

lemma segs_bounds: "(x, w) \<in> set (segs lo hi st) \<Longrightarrow> lo \<le> x \<and> 0 < w \<and> x + w \<le> hi"
proof (induction lo hi st rule: segs.induct)
  case (1 lo hi st)
  then show ?case by (subst (asm) (2) segs.simps) (auto split: if_splits)
qed

lemma segs_once: "0 < st \<Longrightarrow> length (filter (\<lambda>(x, w). x \<le> p \<and> p < x + w) (segs lo hi st)) = (if lo \<le> p \<and> p < hi then 1 else 0)"
proof (induction lo hi st rule: segs.induct)
  case (1 lo hi st)
  show ?case
  proof (cases "hi \<le> lo")
    case True
    then show ?thesis by (subst segs.simps) simp
  next
    case False
    then show ?thesis using 1 by (subst segs.simps) (auto simp: min_def)
  qed
qed

lemma tiles_bounds: "(x, y, w, h) \<in> set (tiles xs xe xbe ys ye ybe) \<Longrightarrow> xs \<le> x \<and> 0 < w \<and> x + w \<le> xe \<and> ys \<le> y \<and> 0 < h \<and> y + h \<le> ye"
  by (auto simp: tiles_def dest!: segs_bounds)

lemma hits_row: "0 < xbe \<Longrightarrow> hits (px, py) (map (\<lambda>(x, w). (x, y, w, h)) (segs xs xe xbe)) = (if xs \<le> px \<and> px < xe \<and> y \<le> py \<and> py < y + h then 1 else 0)"
proof -
  assume x: "0 < xbe"
  have "filter (covers (px, py)) (map (\<lambda>(x, w). (x, y, w, h)) ws) =
      (if y \<le> py \<and> py < y + h then map (\<lambda>(x, w). (x, y, w, h)) (filter (\<lambda>(x, w). x \<le> px \<and> px < x + w) ws) else [])" for ws
    by (induction ws) auto
  then show ?thesis using segs_once [OF x, of px xs xe] by (cases "xs \<le> px \<and> px < xe") (auto simp: hits_def)
qed

lemma hits_concat: "hits P (concat tss) = sum_list (map (hits P) tss)"
  by (induction tss) simp_all

lemma sum_filter: "sum_list (map (\<lambda>x. if Q x then 1 else 0) xs) = length (filter Q xs)"
  by (induction xs) simp_all

lemma tiles_once: "0 < xbe \<Longrightarrow> 0 < ybe \<Longrightarrow> hits (px, py) (tiles xs xe xbe ys ye ybe) = (if xs \<le> px \<and> px < xe \<and> ys \<le> py \<and> py < ye then 1 else 0)"
proof -
  assume b: "0 < xbe" "0 < ybe"
  have "hits (px, py) (tiles xs xe xbe ys ye ybe) = sum_list (map (\<lambda>z. if xs \<le> px \<and> px < xe \<and> (case z of (y, h) \<Rightarrow> y \<le> py \<and> py < y + h) then 1 else 0) (segs ys ye ybe))"
    unfolding tiles_def hits_concat map_map by (rule arg_cong [of _ _ sum_list], rule map_cong [OF refl]) (clarify, simp only: hits_row [OF b(1)] prod.case o_apply)
  also have "\<dots> = length (filter (\<lambda>z. xs \<le> px \<and> px < xe \<and> (case z of (y, h) \<Rightarrow> y \<le> py \<and> py < y + h)) (segs ys ye ybe))" by (rule sum_filter)
  also have "\<dots> = (if xs \<le> px \<and> px < xe \<and> ys \<le> py \<and> py < ye then 1 else 0)" using segs_once [OF b(2), of py ys ye] by (cases "xs \<le> px \<and> px < xe") auto
  finally show ?thesis .
qed

lemma cut_once: "sizes_ok sc \<Longrightarrow> hits P (cut sc b) = (if covers P b then 1 else 0)"
  by (cases P; cases b) (simp add: cut_def tiles_once sizes_ok_def)

lemma pool_of_hits: "sizes_ok sc \<Longrightarrow> hits P (pool_of sc bs) = hits P bs"
  by (induction bs) (simp_all add: pool_of_def cut_once)

lemma dealt_hits: "i < np \<Longrightarrow> (\<Sum>p<np. hits P (dealt np p i bs)) = hits P bs"
proof (induction bs arbitrary: i)
  case (Cons b bs)
  have "(\<Sum>p<np. hits P (dealt np p i (b # bs))) = (\<Sum>p<np. (if i = p then hits P [b] else 0)) + (\<Sum>p<np. hits P (dealt np p ((i + 1) mod np) bs))"
    unfolding sum.distrib [symmetric] by (rule sum.cong) auto
  also have "(\<Sum>p<np. (if i = p then hits P [b] else 0)) = hits P [b]" using Cons.prems by simp
  finally show ?case using Cons by simp
qed simp

text \<open>
  C11: The work pools hold every pixel of the screen exactly once. When every process has filled its pool, for every
  pixel there is exactly one bundle in exactly one pool that contains it, and no bundle is empty or reaches beyond the
  screen; every pool is marked as valid. The hypotheses ask for at least one pixel in a block and in a bundle.
\<close>

theorem work_pools_tile_screen:
  assumes "jobs gm W" "sizes_ok sc" "0 < nprocs sc"
  shows "\<exists>gm' W'. init_pools sc [0..<nprocs sc] gm = Some gm' \<and> jobs gm' W' \<and> (\<forall>p < nprocs sc. wpstat gm' p = WPS_VALID) \<and>
    (\<forall>px py. 0 \<le> px \<and> px < xres sc \<and> 0 \<le> py \<and> py < yres sc \<longrightarrow> (\<Sum>p<nprocs sc. hits (px, py) (W' p)) = 1) \<and>
    (\<forall>p < nprocs sc. \<forall>(x, y, w, h) \<in> set (W' p). 0 \<le> x \<and> 0 < w \<and> x + w \<le> xres sc \<and> 0 \<le> y \<and> 0 < h \<and> y + h \<le> yres sc)"
proof -
  let ?W = "\<lambda>p. if p \<in> set [0..<nprocs sc] then pool_of sc (dealt (nprocs sc) p 0 (blocks_of sc)) else W p"
  obtain gm' where g: "init_pools sc [0..<nprocs sc] gm = Some gm'" "\<forall>p. wpstat gm' p = (if p \<in> set [0..<nprocs sc] then WPS_VALID else wpstat gm p)" "jobs gm' ?W"
    using init_pools_spec [OF assms(1,2), of "[0..<nprocs sc]"] by blast
  have sz: "0 < xres sc div blockx sc" "0 < yres sc div blocky sc" using assms(2) by (simp_all add: sizes_ok_def pos_imp_zdiv_pos_iff)
  have "(\<Sum>p<nprocs sc. hits (px, py) (?W p)) = 1" if "0 \<le> px" "px < xres sc" "0 \<le> py" "py < yres sc" for px py
  proof -
    have "(\<Sum>p<nprocs sc. hits (px, py) (?W p)) = (\<Sum>p<nprocs sc. hits (px, py) (dealt (nprocs sc) p 0 (blocks_of sc)))"
      by (rule sum.cong) (simp_all add: pool_of_hits [OF assms(2)])
    also have "\<dots> = 1" using dealt_hits [OF assms(3)] tiles_once [OF sz, of px py 0 "xres sc" 0 "yres sc"] that by (simp add: blocks_of_def)
    finally show ?thesis .
  qed
  moreover have "0 \<le> x \<and> 0 < w \<and> x + w \<le> xres sc \<and> 0 \<le> y \<and> 0 < h \<and> y + h \<le> yres sc" if t: "p < nprocs sc" "(x, y, w, h) \<in> set (?W p)" for p x y w h
  proof -
    have sub: "set (dealt np p i bs) \<subseteq> set bs" for np i and bs :: "tile list" by (induction bs arbitrary: i) auto
    obtain z where z: "z \<in> set (blocks_of sc)" "(x, y, w, h) \<in> set (cut sc z)"
      using t sub [of "nprocs sc" 0 "blocks_of sc"] by (auto simp: pool_of_def)
    obtain bx b_y bw bh where "z = (bx, b_y, bw, bh)" by (cases z)
    note b = z [unfolded this]
    have "0 \<le> bx \<and> 0 < bw \<and> bx + bw \<le> xres sc \<and> 0 \<le> b_y \<and> 0 < bh \<and> b_y + bh \<le> yres sc" using tiles_bounds b(1) by (simp add: blocks_of_def)
    moreover have "bx \<le> x \<and> 0 < w \<and> x + w \<le> bx + bw \<and> b_y \<le> y \<and> 0 < h \<and> y + h \<le> b_y + bh" using tiles_bounds b(2) by (simp add: cut_def)
    ultimately show ?thesis by linarith
  qed
  ultimately show ?thesis using g by (intro exI [of _ gm'] exI [of _ ?W]) auto
qed

subsection \<open>Jobs are found\<close>

definition rayjob_of :: "tile \<Rightarrow> rayjob" where
  "rayjob_of = (\<lambda>(x, y, w, h). \<lparr> rx = x, ry = y, xlen = w, ylen = h, xcurr = x, ycurr = y \<rparr>)"

definition stat_ok :: "nat \<Rightarrow> gmem \<Rightarrow> (nat \<Rightarrow> tile list) \<Rightarrow> bool" where
  "stat_ok np gm W \<longleftrightarrow> (\<forall>p < np. wpstat gm p = WPS_VALID \<or> W p = [])"

lemma GetJob_spec:
  assumes "jobs gm W"
  obtains (empty) gm' where "W pid = []" "GetJob pid gm = Some (None, gm')" "jobs gm' W" "wpstat gm' = (wpstat gm)(pid := WPS_EMPTY)"
    | (job) j js gm' where "W pid = j # js" "GetJob pid gm = Some (Some (rayjob_of j), gm')" "jobs gm' (W(pid := js))" "wpstat gm' = wpstat gm"
proof -
  obtain A where A: "pools gm A" "W = (\<lambda>p. wj.keys_at (wp_heap gm) (A p))" and e: "endless (wp_heap gm)" using assms unfolding jobs_def by blast
  have p: "wj.path (wp_heap gm) (workpool gm pid) (A pid) NULL" using A(1) by (simp add: pools_def)
  show ?thesis
  proof (cases "A pid")
    case Nil
    let ?gm = "gm\<lparr> wpstat := (wpstat gm)(pid := WPS_EMPTY) \<rparr>"
    have "GetJob pid gm = Some (None, ?gm)" using p Nil by (simp add: GetJob_def func3_pool_def)
    moreover have "jobs ?gm W" using assms by (simp add: jobs_def pools_def)
    ultimately show ?thesis using empty [of ?gm] Nil by (simp add: A(2))
  next
    case (Cons a as)
    then obtain n where n: "load (wp_heap gm) a = Some n" "wj.path (wp_heap gm) (wp_next n) as NULL" "workpool gm pid = a" using p by (auto split: option.splits)
    have nn: "a \<noteq> NULL" using n(1) by auto
    let ?gm = "gm\<lparr> workpool := (workpool gm)(pid := wp_next n), wp_heap := del (wp_heap gm) a \<rparr>"
    have run: "GetJob pid gm = Some (Some (rayjob_of (wj.key_at (wp_heap gm) a)), ?gm)"
      using n nn by (simp add: GetJob_def func3_pool_def free_eq wj.key_at_def rayjob_of_def)
    have a: "a \<notin> set as" "\<And>q. q \<noteq> pid \<Longrightarrow> a \<notin> set (A q)"
      using wj.path_distinct [OF p] Cons A(1) unfolding pools_def by (auto, metis disjoint_iff list.set_intros(1))
    have sub: "set ((A(pid := as)) q) \<subseteq> set (A q)" for q using Cons by auto
    have "set ((A(pid := as)) q) \<inter> set ((A(pid := as)) q') = {}" if "q \<noteq> q'" for q q'
      using A(1) that sub [of q] sub [of q'] unfolding pools_def by blast
    then have "pools ?gm (A(pid := as))" using A(1) a n(2) unfolding pools_def by auto
    moreover have "W(pid := map (wj.key_at (wp_heap gm)) as) = (\<lambda>q. wj.keys_at (wp_heap ?gm) ((A(pid := as)) q))"
    proof
      fix q show "(W(pid := map (wj.key_at (wp_heap gm)) as)) q = wj.keys_at (wp_heap ?gm) ((A(pid := as)) q)"
        using a by (cases "q = pid") (auto simp: A(2) wj.key_at_def heap_simps)
    qed
    moreover have "endless (del (wp_heap gm) a)" using e by (simp add: endless_def heap_simps)
    ultimately have "jobs ?gm (W(pid := map (wj.key_at (wp_heap gm)) as))" unfolding jobs_def by auto
    then show ?thesis using job [OF _ run] Cons by (simp add: A(2))
  qed
qed

text \<open>A look into one pool: a job of it, or the pool is empty.\<close>

definition taken :: "nat \<Rightarrow> nat \<Rightarrow> (nat \<Rightarrow> tile list) \<Rightarrow> rayjob \<Rightarrow> gmem \<Rightarrow> bool" where
  "taken np q W r gm' \<longleftrightarrow> (\<exists>j js. W q = j # js \<and> r = rayjob_of j \<and> jobs gm' (W(q := js)) \<and> stat_ok np gm' (W(q := js)))"

lemma try_pool_spec:
  assumes "jobs gm W" "stat_ok np gm W" "q < np"
  shows "\<exists>job gm'. try_pool q gm = Some (job, gm') \<and>
    (case job of None \<Rightarrow> W q = [] \<and> jobs gm' W \<and> stat_ok np gm' W | Some r \<Rightarrow> taken np q W r gm')"
proof (cases "wpstat gm q = WPS_VALID")
  case True
  show ?thesis
  proof (rule GetJob_spec [OF assms(1), of q])
    fix gm' assume "W q = []" "GetJob q gm = Some (None, gm')" "jobs gm' W" "wpstat gm' = (wpstat gm)(q := WPS_EMPTY)"
    then show ?thesis using True assms by (auto simp: try_pool_def stat_ok_def)
  next
    fix j js gm' assume g: "W q = j # js" "GetJob q gm = Some (Some (rayjob_of j), gm')" "jobs gm' (W(q := js))" "wpstat gm' = wpstat gm"
    then have "taken np q W (rayjob_of j) gm'" using assms(2) True by (auto simp: taken_def stat_ok_def)
    then show ?thesis using True g by (auto simp: try_pool_def)
  qed
next
  case False
  then have "W q = []" using assms(2,3) by (auto simp: stat_ok_def)
  then show ?thesis using False assms by (simp add: try_pool_def)
qed

lemma steal_spec:
  assumes "jobs gm W" "stat_ok np gm W" "pid < np" "0 < k" "k \<le> np"
  shows "\<exists>job gm'. steal np pid ((pid + k) mod np) gm = Some (job, gm') \<and>
    (case job of None \<Rightarrow> jobs gm' W \<and> stat_ok np gm' W \<and> (\<forall>m. k \<le> m \<and> m < np \<longrightarrow> W ((pid + m) mod np) = [])
     | Some r \<Rightarrow> \<exists>q < np. taken np q W r gm')"
  using assms
proof (induction "np - k" arbitrary: k gm)
  case 0
  then have "(pid + k) mod np = pid" by simp
  then show ?case using 0 by (subst steal.simps) auto
next
  case (Suc n)
  let ?i = "(pid + k) mod np"
  have k: "k < np" using Suc.hyps(2) by simp
  have ne: "?i \<noteq> pid" using k Suc.prems(3,4) by (cases "pid + k < np") (auto simp: le_mod_geq)
  have i: "?i < np" using Suc.prems(3) by simp
  obtain job gm1 where t: "try_pool ?i gm = Some (job, gm1)"
    "case job of None \<Rightarrow> W ?i = [] \<and> jobs gm1 W \<and> stat_ok np gm1 W | Some r \<Rightarrow> taken np ?i W r gm1" using try_pool_spec [OF Suc.prems(1,2) i] by blast
  show ?case
  proof (cases job)
    case (Some r)
    then show ?thesis using t ne i by (subst steal.simps) auto
  next
    case None
    then have l: "W ?i = []" "jobs gm1 W" "stat_ok np gm1 W" using t(2) by simp_all
    have h: "n = np - (k + 1)" "0 < k + 1" "k + 1 \<le> np" using Suc.hyps(2) k by simp_all
    have nx: "(?i + 1) mod np = (pid + (k + 1)) mod np" by (simp add: mod_Suc_eq)
    obtain job' gm' where r: "steal np pid ((pid + (k + 1)) mod np) gm1 = Some (job', gm')"
      "case job' of None \<Rightarrow> jobs gm' W \<and> stat_ok np gm' W \<and> (\<forall>m. k + 1 \<le> m \<and> m < np \<longrightarrow> W ((pid + m) mod np) = []) | Some r \<Rightarrow> \<exists>q < np. taken np q W r gm'"
      using Suc.hyps(1) [OF h(1) l(2,3) Suc.prems(3) h(2,3)] by blast
    have "steal np pid ?i gm = Some (job', gm')" using t(1) ne None r(1) nx by (subst steal.simps) simp
    moreover have "W ((pid + m) mod np) = []" if "job' = None" "k \<le> m" "m < np" for m using that l(1) r(2) by (cases "m = k") auto
    ultimately show ?thesis using r(2) by (cases job') auto
  qed
qed

text \<open>
  C40: A process that asks for work gets some as long as there is any. \<open>GetJobs\<close> always returns: a job of its
  own pool or of another one, which is removed from that pool while all other jobs stay where they are, or, only
  if all pools are empty, the answer that there is no more work.
\<close>

theorem get_jobs_correct:
  assumes "jobs gm W" "stat_ok np gm W" "pid < np"
  shows "\<exists>job gm'. GetJobs np pid gm = Some (job, gm') \<and>
    (case job of None \<Rightarrow> (\<forall>q < np. W q = []) \<and> jobs gm' W
     | Some r \<Rightarrow> \<exists>q < np. \<exists>j js. W q = j # js \<and> r = rayjob_of j \<and> jobs gm' (W(q := js)) \<and> stat_ok np gm' (W(q := js)))"
proof -
  obtain job gm1 where t: "try_pool pid gm = Some (job, gm1)"
    "case job of None \<Rightarrow> W pid = [] \<and> jobs gm1 W \<and> stat_ok np gm1 W | Some r \<Rightarrow> taken np pid W r gm1" using try_pool_spec [OF assms] by blast
  show ?thesis
  proof (cases job)
    case (Some r)
    then show ?thesis using t assms(3) by (auto simp: GetJobs_def taken_def)
  next
    case None
    then have l: "W pid = []" "jobs gm1 W" "stat_ok np gm1 W" using t(2) by simp_all
    obtain job' gm' where r: "steal np pid ((pid + 1) mod np) gm1 = Some (job', gm')"
      "case job' of None \<Rightarrow> jobs gm' W \<and> stat_ok np gm' W \<and> (\<forall>m. 1 \<le> m \<and> m < np \<longrightarrow> W ((pid + m) mod np) = []) | Some r \<Rightarrow> \<exists>q < np. taken np q W r gm'"
      using steal_spec [OF l(2,3) assms(3), of 1] assms(3) by auto
    have "W q = []" if "job' = None" "q < np" for q
    proof (cases "q = pid")
      case False
      define m where "m = (if pid < q then q - pid else q + np - pid)"
      have "1 \<le> m" "m < np" "(pid + m) mod np = q" using False that(2) assms(3) by (auto simp: m_def)
      then show ?thesis using r(2) that(1) by auto
    qed (use l(1) in simp)
    then show ?thesis using t(1) None r by (cases job') (auto simp: GetJobs_def taken_def)
  qed
qed

subsection \<open>Taking jobs by delegation\<close>

datatype wp_fn = Take_func3 nat

fun wp_call :: "wp_fn \<Rightarrow> u64 list \<Rightarrow> gmem \<Rightarrow> (u64 \<times> gmem) option" where
  "wp_call (Take_func3 pid) a gm = map_option (\<lambda>(wpentry, gm). (of_nat wpentry, gm)) (func3_pool pid gm)"

text \<open>The stacks of entries, with addresses of 64 bits.\<close>

definition stacks_ok :: "(nat \<Rightarrow> addr list) \<Rightarrow> bool" where
  "stacks_ok A \<longleftrightarrow> (\<forall>p. distinct (A p) \<and> (\<forall>a \<in> set (A p). a \<noteq> NULL \<and> a < 2 ^ 64)) \<and> (\<forall>p q. p \<noteq> q \<longrightarrow> set (A p) \<inter> set (A q) = {})"

definition pool_abs :: "gmem \<Rightarrow> nat \<Rightarrow> addr list" where
  "pool_abs gm p = (THE as. wj.path (wp_heap gm) (workpool gm p) as NULL)"

definition pool_ok :: "gmem \<Rightarrow> bool" where
  "pool_ok gm \<longleftrightarrow> pools gm (pool_abs gm) \<and> stacks_ok (pool_abs gm)"

fun pool_spec :: "wp_fn \<Rightarrow> u64 list \<Rightarrow> (nat \<Rightarrow> addr list) \<Rightarrow> u64 \<times> (nat \<Rightarrow> addr list)" where
  "pool_spec (Take_func3 pid) a A = (case A pid of [] \<Rightarrow> (0, A) | x # xs \<Rightarrow> (of_nat x, A(pid := xs)))"

lemma pools_abs: "pools gm A \<Longrightarrow> pool_abs gm = A"
  unfolding pools_def pool_abs_def by (auto simp: fun_eq_iff intro: wj.path_det)

lemma pools_tail:
  assumes "pools gm A" "A pid = a # as" "load (wp_heap gm) a = Some n"
  shows "pools (gm\<lparr> workpool := (workpool gm)(pid := wp_next n) \<rparr>) (A(pid := as))"
proof -
  have "wj.path (wp_heap gm) (workpool gm pid) (A pid) NULL" using assms(1) by (simp add: pools_def)
  then have "wj.path (wp_heap gm) (wp_next n) as NULL" using assms(2,3) by simp
  moreover have "set ((A(pid := as)) q) \<subseteq> set (A q)" for q using assms(2) by auto
  then have "set ((A(pid := as)) q) \<inter> set ((A(pid := as)) q') = {}" if "q \<noteq> q'" for q q' using assms(1) that unfolding pools_def by blast
  ultimately show ?thesis using assms(1) unfolding pools_def by auto
qed

lemma stacks_tail: "stacks_ok A \<Longrightarrow> A pid = a # as \<Longrightarrow> stacks_ok (A(pid := as))"
proof -
  assume s: "stacks_ok A" "A pid = a # as"
  have sub: "set ((A(pid := as)) q) \<subseteq> set (A q)" for q using s(2) by auto
  have "distinct (a # as)" using s unfolding stacks_ok_def by metis
  then have "distinct ((A(pid := as)) q)" for q using s(1) by (cases "q = pid") (auto simp: stacks_ok_def)
  moreover have "x \<noteq> NULL \<and> x < 2 ^ 64" if "x \<in> set ((A(pid := as)) q)" for q x using s(1) sub that unfolding stacks_ok_def by blast
  moreover have "set ((A(pid := as)) q) \<inter> set ((A(pid := as)) q') = {}" if "q \<noteq> q'" for q q' using s(1) that sub [of q] sub [of q'] unfolding stacks_ok_def by blast
  ultimately show ?thesis unfolding stacks_ok_def by blast
qed

lemma func3_pool_spec:
  assumes "pool_ok gm"
  obtains w gm' where "func3_pool pid gm = Some (w, gm')" "pool_ok gm'" "pool_spec (Take_func3 pid) a (pool_abs gm) = (of_nat w, pool_abs gm')"
    "wp_heap gm' = wp_heap gm"
proof (cases "pool_abs gm pid")
  case Nil
  let ?gm = "gm\<lparr> wpstat := (wpstat gm)(pid := WPS_EMPTY) \<rparr>"
  have "workpool gm pid = NULL" using assms Nil by (auto simp: pool_ok_def pools_def dest: spec [of _ pid])
  then have "func3_pool pid gm = Some (NULL, ?gm)" by (simp add: func3_pool_def)
  moreover have "pool_abs ?gm = pool_abs gm" by (simp add: pool_abs_def fun_eq_iff)
  ultimately show ?thesis using that [of NULL ?gm] assms Nil by (simp add: pool_ok_def pools_def)
next
  case (Cons x xs)
  have p: "pools gm (pool_abs gm)" "stacks_ok (pool_abs gm)" using assms by (simp_all add: pool_ok_def)
  then have "wj.path (wp_heap gm) (workpool gm pid) (x # xs) NULL" using Cons unfolding pools_def by metis
  then obtain n where n: "load (wp_heap gm) x = Some n" "workpool gm pid = x" by (auto split: option.splits)
  let ?gm = "gm\<lparr> workpool := (workpool gm)(pid := wp_next n) \<rparr>"
  have t: "pools ?gm ((pool_abs gm)(pid := xs))" by (rule pools_tail [OF p(1) Cons n(1)])
  have "func3_pool pid gm = Some (x, ?gm)" using n by (auto simp: func3_pool_def)
  then show ?thesis using that [of x ?gm] t pools_abs [OF t] stacks_tail [OF p(2) Cons] Cons by (simp add: pool_ok_def)
qed

interpretation wp: delegated_object wp_call pool_ok pool_abs "\<lambda>_ _. True" pool_spec "\<lambda>_. True"
proof unfold_locales
  show "pool_ok d' \<and> pool_spec f a (pool_abs d) = (r, pool_abs d')" if "pool_ok d" "wp_call f a d = Some (r, d')" for d f a r d'
  proof (cases f)
    case (Take_func3 pid)
    show ?thesis by (rule func3_pool_spec [OF that(1), of pid a]) (use that(2) Take_func3 in auto)
  qed
  show "wp_call f a d \<noteq> None" if "pool_ok d" for f a d
  proof (cases f)
    case (Take_func3 pid)
    show ?thesis by (rule func3_pool_spec [OF that, of pid a]) (use Take_func3 in simp)
  qed
qed simp

text \<open>No entry is handed out twice.\<close>

lemma spec_results:
  assumes "spec_replay pool_spec A es = Some B" "stacks_ok A"
  shows "distinct (filter (\<lambda>r. r \<noteq> 0) (map (\<lambda>(f, a, r). r) es)) \<and> (\<forall>r \<in> set (map (\<lambda>(f, a, r). r) es). r \<noteq> 0 \<longrightarrow> (\<exists>p. unat r \<in> set (A p)))"
  using assms
proof (induction es arbitrary: A)
  case (Cons e es)
  obtain pid a r where e: "e = (Take_func3 pid, a, r)" by (metis prod_cases3 wp_fn.exhaust)
  show ?case
  proof (cases "A pid")
    case Nil
    then show ?thesis using Cons e by (auto split: if_splits)
  next
    case (Cons x xs)
    then have r: "r = of_nat x" "spec_replay pool_spec (A(pid := xs)) es = Some B" using Cons.prems(1) e by (auto split: if_splits)
    have st: "distinct (A pid)" "\<forall>a \<in> set (A pid). a \<noteq> NULL \<and> a < 2 ^ 64" "\<And>q. q \<noteq> pid \<Longrightarrow> set (A pid) \<inter> set (A q) = {}"
      using Cons.prems(2) unfolding stacks_ok_def by (blast, blast, metis)
    then have x: "x \<noteq> 0" "x < 2 ^ 64" "x \<notin> set xs" "\<And>q. q \<noteq> pid \<Longrightarrow> x \<notin> set (A q)" using \<open>A pid = x # xs\<close> by auto
    have u: "unat r = x" "r \<noteq> 0" using r(1) x(1,2) by (simp_all add: unat_of_nat word_unat_eq_iff)
    note IH = Cons.IH [OF r(2) stacks_tail [OF Cons.prems(2) \<open>A pid = x # xs\<close>]]
    have "r \<notin> set (map (\<lambda>(f, a, r). r) es)"
    proof
      assume "r \<in> set (map (\<lambda>(f, a, r). r) es)"
      then obtain p where "x \<in> set ((A(pid := xs)) p)" using IH u by blast
      then show False using x(3,4) by (cases "p = pid") auto
    qed
    moreover have "\<exists>p. unat r' \<in> set (A p)" if r': "r' \<in> set (map (\<lambda>(f, a, r). r) es)" "r' \<noteq> 0" for r'
    proof -
      obtain p where "unat r' \<in> set ((A(pid := xs)) p)" using IH r' by blast
      then have "unat r' \<in> set (A p)" using \<open>A pid = x # xs\<close> by (cases "p = pid") auto
      then show ?thesis by blast
    qed
    moreover have "\<exists>p. unat r \<in> set (A p)" using u(1) \<open>A pid = x # xs\<close> by (metis list.set_intros(1))
    ultimately show ?thesis using IH e u(2) by auto
  qed
qed simp

text \<open>
  C10: Taking jobs by delegation is safe under every interleaving of the processes: the server is never stuck, its pools are
  the result of taking entries one after the other, every entry that is handed out was in a pool at the start, and no entry
  is handed out twice.
\<close>

theorem workpool_linearizes:
  assumes "initial t64 \<sigma>0" "ffwd_run t64 wp_call \<sigma>0 tr \<sigma>" "pool_ok (sdata (servers \<sigma>0 v))"
  shows "spec_replay pool_spec (pool_abs (sdata (servers \<sigma>0 v))) (execs v tr) = Some (pool_abs (sdata (servers \<sigma> v))) \<and>
    distinct (filter (\<lambda>r. r \<noteq> 0) (map (\<lambda>(f, a, r). r) (execs v tr))) \<and>
    (\<forall>(f, a, r) \<in> set (execs v tr). r \<noteq> 0 \<longrightarrow> (\<exists>p. unat r \<in> set (pool_abs (sdata (servers \<sigma>0 v)) p))) \<and>
    (server_step t64 wp_call (stop_flag \<sigma>) (spc (servers \<sigma> v)) (servers \<sigma> v) = None \<longleftrightarrow> spc (servers \<sigma> v) = Stopped)"
proof -
  have d: "pool_ok (sdata (servers \<sigma> v))" "spec_replay pool_spec (pool_abs (sdata (servers \<sigma>0 v))) (execs v tr) = Some (pool_abs (sdata (servers \<sigma> v)))"
    using wp.delegated [OF assms(2,1,3)] by simp_all
  have s: "stacks_ok (pool_abs (sdata (servers \<sigma>0 v)))" using assms(3) by (simp add: pool_ok_def)
  show ?thesis using d(2) spec_results [OF d(2) s] wp.server_not_stuck [OF d(1)] by auto
qed

subsection \<open>A run\<close>

text \<open>A screen of five times three pixels for two processes.\<close>

definition small_screen :: screen where
  "small_screen = \<lparr> xres = 5, yres = 3, bundlex = 2, bundley = 1, blockx = 2, blocky = 1, nprocs = 2 \<rparr>"

text \<open>Memory in which the first address that is not in use is allocated.\<close>

definition first_free :: "(addr \<rightharpoonup> wpjob) \<Rightarrow> addr" where
  "first_free c = (LEAST a. a \<noteq> NULL \<and> c a = None)"

definition empty_gmem :: gmem where
  "empty_gmem = \<lparr> wp_heap = \<lparr> cells = (\<lambda>_. None), policy = (\<lambda>c. if finite (dom c) then first_free c else NULL),
       junk = (\<lambda>_. \<lparr> xpix = 0, ypix = 0, xdim = 0, ydim = 0, wp_next = NULL \<rparr>) \<rparr>,
     workpool = (\<lambda>_. NULL), wpstat = (\<lambda>_. WPS_EMPTY) \<rparr>"

lemma empty_jobs: "jobs empty_gmem (\<lambda>_. [])"
proof -
  have f: "first_free c \<noteq> NULL \<and> c (first_free c) = None" if fin: "finite (dom c)" for c
  proof -
    obtain a where "a \<notin> insert NULL (dom c)" using ex_new_if_finite [OF infinite_UNIV_nat, of "insert NULL (dom c)"] fin by auto
    then have "a \<noteq> NULL \<and> c a = None" by auto
    then show ?thesis unfolding first_free_def by (rule LeastI)
  qed
  then have "endless (wp_heap empty_gmem)" by (auto simp: endless_def heap_ok_def empty_gmem_def)
  moreover have "pools empty_gmem (\<lambda>_. [])" by (simp add: pools_def empty_gmem_def)
  ultimately show ?thesis unfolding jobs_def by force
qed

lemma small_screen_ok: "sizes_ok small_screen" "0 < nprocs small_screen"
  by (simp_all add: sizes_ok_def small_screen_def)

theorem work_pools_tile_screen_witness:
  "\<exists>gm' W'. init_pools small_screen [0..<2] empty_gmem = Some gm' \<and> jobs gm' W' \<and> hits (4, 2) (W' 0) + hits (4, 2) (W' 1) = 1"
proof -
  have n: "nprocs small_screen = 2" "xres small_screen = 5" "yres small_screen = 3" by (simp_all add: small_screen_def)
  from work_pools_tile_screen [OF empty_jobs small_screen_ok] obtain gm' W' where
    "init_pools small_screen [0..<2] empty_gmem = Some gm'" "jobs gm' W'" "(\<Sum>p<2. hits (4, 2) (W' p)) = 1"
    unfolding n by auto
  then show ?thesis by (auto simp: numeral_2_eq_2)
qed

text \<open>One job in the pool of process 1, which process 0 takes.\<close>

definition one_job :: gmem where
  "one_job = empty_gmem\<lparr> wp_heap := upd (wp_heap empty_gmem) 1 \<lparr> xpix = 3, ypix = 2, xdim = 2, ydim = 1, wp_next = NULL \<rparr>,
     workpool := (\<lambda>_. NULL)(1 := 1), wpstat := (\<lambda>_. WPS_VALID) \<rparr>"

lemma one_job_pools: "pools one_job ((\<lambda>_. [])(1 := [1]))" "jobs one_job ((\<lambda>_. [])(1 := [(3, 2, 2, 1)]))" "stat_ok 2 one_job ((\<lambda>_. [])(1 := [(3, 2, 2, 1)]))"
proof -
  show p: "pools one_job ((\<lambda>_. [])(1 := [1]))" by (auto simp: pools_def one_job_def heap_simps)
  have "endless (wp_heap one_job)" using empty_jobs by (simp add: jobs_def endless_def one_job_def heap_simps)
  moreover have "(\<lambda>_. [])(1 := [(3, 2, 2, 1)]) = (\<lambda>p. wj.keys_at (wp_heap one_job) (((\<lambda>_. [])(1 := [1])) p))" by (auto simp: wj.key_at_def one_job_def heap_simps)
  ultimately show "jobs one_job ((\<lambda>_. [])(1 := [(3, 2, 2, 1)]))" using p unfolding jobs_def by blast
  show "stat_ok 2 one_job ((\<lambda>_. [])(1 := [(3, 2, 2, 1)]))" by (simp add: stat_ok_def one_job_def)
qed

theorem get_jobs_correct_witness:
  "\<exists>gm'. GetJobs 2 0 one_job = Some (Some (rayjob_of (3, 2, 2, 1)), gm') \<and> jobs gm' (\<lambda>_. [])"
proof -
  have "(0 :: nat) < 2" by simp
  from get_jobs_correct [OF one_job_pools(2,3) this] obtain job gm' where g: "GetJobs 2 0 one_job = Some (job, gm')"
    "case job of None \<Rightarrow> (\<forall>q < (2 :: nat). ((\<lambda>_. [])(1 := [(3, 2, 2, 1)])) q = ([] :: tile list)) \<and> jobs gm' ((\<lambda>_. [])(1 := [(3, 2, 2, 1)]))
     | Some r \<Rightarrow> \<exists>q < (2 :: nat). \<exists>j js. ((\<lambda>_. [])(1 := [(3, 2, 2, 1)])) q = j # js \<and> r = rayjob_of j \<and> jobs gm' ((\<lambda>_. [])(1 := [(3, 2, 2, 1)], q := js)) \<and>
         stat_ok 2 gm' ((\<lambda>_. [])(1 := [(3, 2, 2, 1)], q := js))" by blast
  show ?thesis
  proof (cases job)
    case None
    then have "\<forall>q < (2 :: nat). ((\<lambda>_. [])(1 := [(3, 2, 2, 1)])) q = ([] :: tile list)" using g(2) by simp
    then show ?thesis by (auto dest: spec [of _ 1])
  next
    case (Some r)
    then show ?thesis using g by (auto split: if_splits simp: fun_upd_idem)
  qed
qed

definition one_process :: "(wp_fn, unit) sys" where
  "one_process = \<lparr> servers = (\<lambda>v. \<lparr> chips = (\<lambda>s k. \<lparr> flag = 0, argc = 0, fptr = Take_func3 0, argv = [0, 0, 0, 0, 0] \<rparr>),
       responses = (\<lambda>i. \<lparr> return_values = replicate 7 0, flags = 0 \<rparr>), old_client_flags = (\<lambda>s. 0), socket_client_flags = (\<lambda>s. 0),
       local_return_values = (\<lambda>i. replicate 8 0), spc = Head, sdata = () \<rparr>),
     clients = (\<lambda>c. \<lparr> chip = 0, slot = c, cmask = push_bit c 1, lflag = (\<lambda>v. 0), cpc = Idle \<rparr>), nservers = 1, nclients = 1, stop_flag = 0 \<rparr>"

definition wp_sys :: "(wp_fn, gmem) sys" where
  "wp_sys = sys_data (\<lambda>_. one_job) one_process"

definition wp_trace :: "wp_fn event list" where
  "wp_trace = [Invoke 0 0 (Take_func3 1) [], Exec 0 0 0 (Take_func3 1) [0, 0, 0, 0, 0] 1]"

lemma wp_sys_initial: "initial True wp_sys"
  by (auto simp: initial_def wp_sys_def one_process_def sys_data_def set_data_def NCLIENTS_def inj_on_def)

lemma wp_run: "\<exists>\<sigma>. ffwd_run True wp_call wp_sys wp_trace \<sigma>"
proof -
  let ?steps = "Call_from 0 0 (Take_func3 1) [] # replicate 5 (Client 0) @ replicate 3 (Server 0)"
  have "map_option fst (sched_run True (\<lambda>f a d. Some (1, d)) ?steps ([], one_process)) = Some wp_trace" by code_simp
  then obtain \<sigma> where "sched_run True (\<lambda>f a d. Some (1, d)) ?steps ([], one_process) = Some (wp_trace, \<sigma>)"
    by (auto simp del: sched_run.simps)
  then have "ffwd_run True (\<lambda>f a d. Some (1, d)) one_process wp_trace \<sigma>" using sched_run_sound ffwd_run.start by blast
  moreover have "replay wp_call one_job (execs v wp_trace) \<noteq> None" for v
    by (simp add: wp_trace_def func3_pool_def one_job_def heap_simps)
  ultimately show ?thesis using run_data [where D = "\<lambda>_. one_job"] unfolding wp_sys_def by blast
qed

theorem workpool_linearizes_witness:
  "\<exists>\<sigma>. ffwd_run True wp_call wp_sys wp_trace \<sigma> \<and> spec_replay pool_spec ((\<lambda>_. [])(1 := [1])) [(Take_func3 1, [0, 0, 0, 0, 0], 1)] = Some (pool_abs (sdata (servers \<sigma> 0)))"
proof -
  obtain \<sigma> where run: "ffwd_run True wp_call wp_sys wp_trace \<sigma>" using wp_run by blast
  have d: "sdata (servers wp_sys 0) = one_job" "pool_abs one_job = (\<lambda>_. [])(1 := [1])" using pools_abs [OF one_job_pools(1)] by (simp_all add: wp_sys_def sys_data_def set_data_def)
  have ok: "pool_ok (sdata (servers wp_sys 0))" using one_job_pools(1) d by (auto simp: pool_ok_def stacks_ok_def)
  have e: "execs 0 wp_trace = [(Take_func3 1, [0, 0, 0, 0, 0], 1)]" by (simp add: wp_trace_def)
  show ?thesis using run conjunct1 [OF workpool_linearizes [OF wp_sys_initial run ok]] unfolding d e by blast
qed

end
