(* ===== verification/Mc_Hash.thy ===== *)
theory Mc_Hash
  imports Prelude
begin

text \<open>
  \<open>memcached/memcached-1.4.6-ffwd/hash.c\<close>: Bob Jenkins' hash of a key. The key is a range of
  bytes in memory; the code reads it in units of four bytes, of two bytes or of one byte,
  depending on the alignment of its address, and the last word of an aligned key is read whole
  and masked. \<open>hash\<close> is the version for little-endian machines and \<open>hash_big\<close> the one for
  big-endian machines; a load of several bytes assembles them in the order of the machine.

  The reference is a function of the list of bytes alone.
\<close>

type_synonym byte = "8 word"
type_synonym memory = "addr \<Rightarrow> byte"
type_synonym hstate = "u32 \<times> u32 \<times> u32"

definition byte_at :: "memory \<Rightarrow> addr \<Rightarrow> u32" where
  "byte_at mem p = ucast (mem p)"

definition le16 :: "memory \<Rightarrow> addr \<Rightarrow> u32" where
  "le16 mem p = byte_at mem p OR push_bit 8 (byte_at mem (p + 1))"

definition le32 :: "memory \<Rightarrow> addr \<Rightarrow> u32" where
  "le32 mem p = byte_at mem p OR push_bit 8 (byte_at mem (p + 1)) OR push_bit 16 (byte_at mem (p + 2)) OR
     push_bit 24 (byte_at mem (p + 3))"

definition be32 :: "memory \<Rightarrow> addr \<Rightarrow> u32" where
  "be32 mem p = push_bit 24 (byte_at mem p) OR push_bit 16 (byte_at mem (p + 1)) OR push_bit 8 (byte_at mem (p + 2)) OR
     byte_at mem (p + 3)"

definition rot :: "u32 \<Rightarrow> nat \<Rightarrow> u32" where
  "rot x k = push_bit k x XOR drop_bit (32 - k) x"

definition mix :: "hstate \<Rightarrow> hstate" where
  "mix s = (let (a, b, c) = s;
     a = a - c; a = a XOR rot c 4; c = c + b;
     b = b - a; b = b XOR rot a 6; a = a + c;
     c = c - b; c = c XOR rot b 8; b = b + a;
     a = a - c; a = a XOR rot c 16; c = c + b;
     b = b - a; b = b XOR rot a 19; a = a + c;
     c = c - b; c = c XOR rot b 4; b = b + a
     in (a, b, c))"

definition final :: "hstate \<Rightarrow> hstate" where
  "final s = (let (a, b, c) = s;
     c = c XOR b; c = c - rot b 14;
     a = a XOR c; a = a - rot c 11;
     b = b XOR a; b = b - rot a 25;
     c = c XOR b; c = c - rot b 16;
     a = a XOR c; a = a - rot c 4;
     b = b XOR a; b = b - rot a 14;
     c = c XOR b; c = c - rot b 24
     in (a, b, c))"

abbreviation c_of :: "hstate \<Rightarrow> u32" where "c_of s \<equiv> snd (snd s)"

subsection \<open>The little-endian version\<close>

definition last_words :: "memory \<Rightarrow> addr \<Rightarrow> nat \<Rightarrow> hstate \<Rightarrow> u32" where
  "last_words mem k len s = (let (a, b, c) = s; k0 = le32 mem k; k1 = le32 mem (k + 4); k2 = le32 mem (k + 8) in
     if len = 12 then c_of (final (a + k0, b + k1, c + k2))
     else if len = 11 then c_of (final (a + k0, b + k1, c + (k2 AND 0xffffff)))
     else if len = 10 then c_of (final (a + k0, b + k1, c + (k2 AND 0xffff)))
     else if len = 9 then c_of (final (a + k0, b + k1, c + (k2 AND 0xff)))
     else if len = 8 then c_of (final (a + k0, b + k1, c))
     else if len = 7 then c_of (final (a + k0, b + (k1 AND 0xffffff), c))
     else if len = 6 then c_of (final (a + k0, b + (k1 AND 0xffff), c))
     else if len = 5 then c_of (final (a + k0, b + (k1 AND 0xff), c))
     else if len = 4 then c_of (final (a + k0, b, c))
     else if len = 3 then c_of (final (a + (k0 AND 0xffffff), b, c))
     else if len = 2 then c_of (final (a + (k0 AND 0xffff), b, c))
     else if len = 1 then c_of (final (a + (k0 AND 0xff), b, c))
     else if len = 0 then c
     else c_of (final (a, b, c)))"

fun hash_words :: "memory \<Rightarrow> addr \<Rightarrow> nat \<Rightarrow> hstate \<Rightarrow> u32" where
  "hash_words mem k len (a, b, c) =
     (if 12 < len
      then hash_words mem (k + 12) (len - 12) (mix (a + le32 mem k, b + le32 mem (k + 4), c + le32 mem (k + 8)))
      else last_words mem k len (a, b, c))"

definition last_halves :: "memory \<Rightarrow> addr \<Rightarrow> nat \<Rightarrow> hstate \<Rightarrow> u32" where
  "last_halves mem k len s = (let (a, b, c) = s; w = (\<lambda>i. le16 mem (k + 2 * i)); k8 = (\<lambda>i. byte_at mem (k + i));
       k01 = w 0 + push_bit 16 (w 1); k23 = w 2 + push_bit 16 (w 3); k45 = w 4 + push_bit 16 (w 5) in
     if len = 12 then c_of (final (a + k01, b + k23, c + k45))
     else if len = 11 then c_of (final (a + k01, b + k23, c + push_bit 16 (k8 10) + w 4))
     else if len = 10 then c_of (final (a + k01, b + k23, c + w 4))
     else if len = 9 then c_of (final (a + k01, b + k23, c + k8 8))
     else if len = 8 then c_of (final (a + k01, b + k23, c))
     else if len = 7 then c_of (final (a + k01, b + push_bit 16 (k8 6) + w 2, c))
     else if len = 6 then c_of (final (a + k01, b + w 2, c))
     else if len = 5 then c_of (final (a + k01, b + k8 4, c))
     else if len = 4 then c_of (final (a + k01, b, c))
     else if len = 3 then c_of (final (a + push_bit 16 (k8 2) + w 0, b, c))
     else if len = 2 then c_of (final (a + w 0, b, c))
     else if len = 1 then c_of (final (a + k8 0, b, c))
     else if len = 0 then c
     else c_of (final (a, b, c)))"

fun hash_halves :: "memory \<Rightarrow> addr \<Rightarrow> nat \<Rightarrow> hstate \<Rightarrow> u32" where
  "hash_halves mem k len (a, b, c) =
     (if 12 < len
      then hash_halves mem (k + 12) (len - 12)
        (mix (a + (le16 mem k + push_bit 16 (le16 mem (k + 2))), b + (le16 mem (k + 4) + push_bit 16 (le16 mem (k + 6))),
          c + (le16 mem (k + 8) + push_bit 16 (le16 mem (k + 10)))))
      else last_halves mem k len (a, b, c))"

text \<open>Every \<open>case\<close> of the switch falls through to the ones below it.\<close>

definition last_bytes :: "memory \<Rightarrow> addr \<Rightarrow> nat \<Rightarrow> hstate \<Rightarrow> u32" where
  "last_bytes mem k len s = (let (a, b, c) = s; k8 = (\<lambda>i. byte_at mem (k + i)) in
     if len = 0 then c else let
       c = (if 12 \<le> len then c + push_bit 24 (k8 11) else c);
       c = (if 11 \<le> len then c + push_bit 16 (k8 10) else c);
       c = (if 10 \<le> len then c + push_bit 8 (k8 9) else c);
       c = (if 9 \<le> len then c + k8 8 else c);
       b = (if 8 \<le> len then b + push_bit 24 (k8 7) else b);
       b = (if 7 \<le> len then b + push_bit 16 (k8 6) else b);
       b = (if 6 \<le> len then b + push_bit 8 (k8 5) else b);
       b = (if 5 \<le> len then b + k8 4 else b);
       a = (if 4 \<le> len then a + push_bit 24 (k8 3) else a);
       a = (if 3 \<le> len then a + push_bit 16 (k8 2) else a);
       a = (if 2 \<le> len then a + push_bit 8 (k8 1) else a);
       a = (if 1 \<le> len then a + k8 0 else a)
       in c_of (final (a, b, c)))"

fun hash_bytes :: "memory \<Rightarrow> addr \<Rightarrow> nat \<Rightarrow> hstate \<Rightarrow> u32" where
  "hash_bytes mem k len (a, b, c) =
     (if 12 < len
      then hash_bytes mem (k + 12) (len - 12)
        (mix (a + byte_at mem k + push_bit 8 (byte_at mem (k + 1)) + push_bit 16 (byte_at mem (k + 2)) + push_bit 24 (byte_at mem (k + 3)),
          b + byte_at mem (k + 4) + push_bit 8 (byte_at mem (k + 5)) + push_bit 16 (byte_at mem (k + 6)) + push_bit 24 (byte_at mem (k + 7)),
          c + byte_at mem (k + 8) + push_bit 8 (byte_at mem (k + 9)) + push_bit 16 (byte_at mem (k + 10)) + push_bit 24 (byte_at mem (k + 11))))
      else last_bytes mem k len (a, b, c))"

definition hash :: "memory \<Rightarrow> addr \<Rightarrow> nat \<Rightarrow> u32 \<Rightarrow> u32" where
  "hash mem key len initval = (let a = 0xdeadbeef + of_nat len + initval in
     if key AND 3 = 0 then hash_words mem key len (a, a, a)
     else if key AND 1 = 0 then hash_halves mem key len (a, a, a)
     else hash_bytes mem key len (a, a, a))"

subsection \<open>The big-endian version\<close>

definition last_words_big :: "memory \<Rightarrow> addr \<Rightarrow> nat \<Rightarrow> hstate \<Rightarrow> u32" where
  "last_words_big mem k len s = (let (a, b, c) = s; k0 = be32 mem k; k1 = be32 mem (k + 4); k2 = be32 mem (k + 8) in
     if len = 12 then c_of (final (a + k0, b + k1, c + k2))
     else if len = 11 then c_of (final (a + k0, b + k1, c + (k2 AND 0xffffff00)))
     else if len = 10 then c_of (final (a + k0, b + k1, c + (k2 AND 0xffff0000)))
     else if len = 9 then c_of (final (a + k0, b + k1, c + (k2 AND 0xff000000)))
     else if len = 8 then c_of (final (a + k0, b + k1, c))
     else if len = 7 then c_of (final (a + k0, b + (k1 AND 0xffffff00), c))
     else if len = 6 then c_of (final (a + k0, b + (k1 AND 0xffff0000), c))
     else if len = 5 then c_of (final (a + k0, b + (k1 AND 0xff000000), c))
     else if len = 4 then c_of (final (a + k0, b, c))
     else if len = 3 then c_of (final (a + (k0 AND 0xffffff00), b, c))
     else if len = 2 then c_of (final (a + (k0 AND 0xffff0000), b, c))
     else if len = 1 then c_of (final (a + (k0 AND 0xff000000), b, c))
     else if len = 0 then c
     else c_of (final (a, b, c)))"

fun hash_words_big :: "memory \<Rightarrow> addr \<Rightarrow> nat \<Rightarrow> hstate \<Rightarrow> u32" where
  "hash_words_big mem k len (a, b, c) =
     (if 12 < len
      then hash_words_big mem (k + 12) (len - 12) (mix (a + be32 mem k, b + be32 mem (k + 4), c + be32 mem (k + 8)))
      else last_words_big mem k len (a, b, c))"

definition last_bytes_big :: "memory \<Rightarrow> addr \<Rightarrow> nat \<Rightarrow> hstate \<Rightarrow> u32" where
  "last_bytes_big mem k len s = (let (a, b, c) = s; k8 = (\<lambda>i. byte_at mem (k + i)) in
     if len = 0 then c else let
       c = (if 12 \<le> len then c + k8 11 else c);
       c = (if 11 \<le> len then c + push_bit 8 (k8 10) else c);
       c = (if 10 \<le> len then c + push_bit 16 (k8 9) else c);
       c = (if 9 \<le> len then c + push_bit 24 (k8 8) else c);
       b = (if 8 \<le> len then b + k8 7 else b);
       b = (if 7 \<le> len then b + push_bit 8 (k8 6) else b);
       b = (if 6 \<le> len then b + push_bit 16 (k8 5) else b);
       b = (if 5 \<le> len then b + push_bit 24 (k8 4) else b);
       a = (if 4 \<le> len then a + k8 3 else a);
       a = (if 3 \<le> len then a + push_bit 8 (k8 2) else a);
       a = (if 2 \<le> len then a + push_bit 16 (k8 1) else a);
       a = (if 1 \<le> len then a + push_bit 24 (k8 0) else a)
       in c_of (final (a, b, c)))"

fun hash_bytes_big :: "memory \<Rightarrow> addr \<Rightarrow> nat \<Rightarrow> hstate \<Rightarrow> u32" where
  "hash_bytes_big mem k len (a, b, c) =
     (if 12 < len
      then hash_bytes_big mem (k + 12) (len - 12)
        (mix (a + push_bit 24 (byte_at mem k) + push_bit 16 (byte_at mem (k + 1)) + push_bit 8 (byte_at mem (k + 2)) + byte_at mem (k + 3),
          b + push_bit 24 (byte_at mem (k + 4)) + push_bit 16 (byte_at mem (k + 5)) + push_bit 8 (byte_at mem (k + 6)) + byte_at mem (k + 7),
          c + push_bit 24 (byte_at mem (k + 8)) + push_bit 16 (byte_at mem (k + 9)) + push_bit 8 (byte_at mem (k + 10)) + byte_at mem (k + 11)))
      else last_bytes_big mem k len (a, b, c))"

definition hash_big :: "memory \<Rightarrow> addr \<Rightarrow> nat \<Rightarrow> u32 \<Rightarrow> u32" where
  "hash_big mem key len initval = (let a = 0xdeadbeef + of_nat len + initval in
     if key AND 3 = 0 then hash_words_big mem key len (a, a, a)
     else hash_bytes_big mem key len (a, a, a))"

subsection \<open>The reference\<close>

text \<open>The bytes of the key, and the value of up to four of them.\<close>

definition bytes_at :: "memory \<Rightarrow> addr \<Rightarrow> nat \<Rightarrow> byte list" where
  "bytes_at mem k n = map mem [k..<k + n]"

fun pack :: "(nat \<Rightarrow> nat) \<Rightarrow> nat \<Rightarrow> byte list \<Rightarrow> u32" where
  "pack sh i [] = 0"
| "pack sh i (x # xs) = push_bit (sh i) (ucast x) + pack sh (Suc i) xs"

definition little :: "byte list \<Rightarrow> u32" where "little = pack (\<lambda>i. 8 * i) 0"
definition big :: "byte list \<Rightarrow> u32" where "big = pack (\<lambda>i. 24 - 8 * i) 0"

function jenkins :: "(byte list \<Rightarrow> u32) \<Rightarrow> byte list \<Rightarrow> hstate \<Rightarrow> u32" where
  "jenkins pk bs (a, b, c) = (let s = (a + pk (take 4 bs), b + pk (take 4 (drop 4 bs)), c + pk (take 4 (drop 8 bs))) in
     if 12 < length bs then jenkins pk (drop 12 bs) (mix s) else if bs = [] then c else c_of (final s))"
  by pat_completeness auto
termination by (relation "measure (\<lambda>(_, bs, _). length bs)") auto

subsection \<open>Bytes in words\<close>

lemma byte_bit: "bit (byte_at mem p) n \<Longrightarrow> n < 8"
  using bit_imp_le_length [of "mem p" n] by (simp add: byte_at_def bit_ucast_iff)

lemma lane_low: "8 \<le> n \<Longrightarrow> byte_at mem p AND push_bit n x = 0"
  by (rule bit_eqI) (auto simp: bit_and_iff bit_push_bit_iff dest: byte_bit)

lemma lanes_disjoint:
  assumes "m + 8 \<le> n"
  shows "push_bit m (byte_at mem p) AND push_bit n x = 0" "push_bit n x AND push_bit m (byte_at mem p) = 0"
proof -
  have "push_bit n x = push_bit m (push_bit (n - m) x)" using assms by (simp add: push_bit_push_bit)
  then show "push_bit m (byte_at mem p) AND push_bit n x = 0"
    using lane_low [of "n - m" mem p x] assms by (metis add_le_imp_le_diff add.commute push_bit_and push_bit_of_0)
  then show "push_bit n x AND push_bit m (byte_at mem p) = 0" by (simp only: and.commute)
qed

lemma lane_high: "8 \<le> n \<Longrightarrow> push_bit n x AND byte_at mem p = 0"
  using lane_low by (simp only: and.commute)

lemma take_bit_byte: "8 \<le> n \<Longrightarrow> take_bit n (byte_at mem p) = byte_at mem p"
  by (rule bit_eqI) (auto simp: bit_take_bit_iff dest: byte_bit)

lemmas lane_simps = disjunctive_add_eq_or lane_low lane_high lanes_disjoint bit.conj_disj_distrib

lemma lanes_le:
  "byte_at mem p + push_bit 8 (byte_at mem q) = byte_at mem p OR push_bit 8 (byte_at mem q)"
  "byte_at mem p + (push_bit 8 (byte_at mem q) + push_bit 16 (byte_at mem r)) =
     byte_at mem p OR push_bit 8 (byte_at mem q) OR push_bit 16 (byte_at mem r)"
  "byte_at mem p + (push_bit 8 (byte_at mem q) + (push_bit 16 (byte_at mem r) + push_bit 24 (byte_at mem t))) =
     byte_at mem p OR push_bit 8 (byte_at mem q) OR push_bit 16 (byte_at mem r) OR push_bit 24 (byte_at mem t)"
  by (simp_all add: lane_simps)

lemma lanes_be:
  "push_bit 24 (byte_at mem p) + push_bit 16 (byte_at mem q) = push_bit 24 (byte_at mem p) OR push_bit 16 (byte_at mem q)"
  "push_bit 24 (byte_at mem p) + (push_bit 16 (byte_at mem q) + push_bit 8 (byte_at mem r)) =
     push_bit 24 (byte_at mem p) OR push_bit 16 (byte_at mem q) OR push_bit 8 (byte_at mem r)"
  "push_bit 24 (byte_at mem p) + (push_bit 16 (byte_at mem q) + (push_bit 8 (byte_at mem r) + byte_at mem t)) =
     push_bit 24 (byte_at mem p) OR push_bit 16 (byte_at mem q) OR push_bit 8 (byte_at mem r) OR byte_at mem t"
  by (simp_all add: lane_simps)

lemma low_masks: "x AND 0xffffff = take_bit 24 (x :: u32)" "x AND 0xffff = take_bit 16 x" "x AND 0xff = take_bit 8 x"
  by (simp_all add: take_bit_eq_mask mask_eq_exp_minus_1)

lemma high_masks: "(0xffffff00 :: u32) = NOT (mask 8)" "(0xffff0000 :: u32) = NOT (mask 16)" "(0xff000000 :: u32) = NOT (mask 24)"
  by (simp_all add: mask_eq_exp_minus_1)

lemma and_high:
  "n \<le> m \<Longrightarrow> push_bit m x AND NOT (mask n) = push_bit m (x :: u32)"
  "m + 8 \<le> n \<Longrightarrow> push_bit m (byte_at mem p) AND NOT (mask n) = 0"
  by (rule bit_eqI; auto simp: bit_and_iff bit_push_bit_iff bit_not_iff bit_mask_iff dest: byte_bit)+

lemma le_masks:
  "le32 mem p AND 0xffffff = byte_at mem p OR push_bit 8 (byte_at mem (p + 1)) OR push_bit 16 (byte_at mem (p + 2))"
  "le32 mem p AND 0xffff = byte_at mem p OR push_bit 8 (byte_at mem (p + 1))"
  "le32 mem p AND 0xff = byte_at mem p"
  unfolding low_masks by (simp_all add: le32_def take_bit_push_bit take_bit_byte)

lemma be_masks:
  "be32 mem p AND 0xffffff00 = push_bit 24 (byte_at mem p) OR push_bit 16 (byte_at mem (p + 1)) OR push_bit 8 (byte_at mem (p + 2))"
  "be32 mem p AND 0xffff0000 = push_bit 24 (byte_at mem p) OR push_bit 16 (byte_at mem (p + 1))"
  "be32 mem p AND 0xff000000 = push_bit 24 (byte_at mem p)"
proof -
  have hi: "push_bit 24 x AND NOT (mask 8) = push_bit 24 x" "push_bit 16 x AND NOT (mask 8) = push_bit 16 x"
    "push_bit 8 x AND NOT (mask 8) = push_bit 8 x" "push_bit 24 x AND NOT (mask 16) = push_bit 24 x"
    "push_bit 16 x AND NOT (mask 16) = push_bit 16 x" "push_bit 24 x AND NOT (mask 24) = push_bit 24 x" for x :: u32
    by (rule and_high(1); simp)+
  have lo0: "push_bit 0 (byte_at mem q) AND NOT (mask 8) = 0" "push_bit 0 (byte_at mem q) AND NOT (mask 16) = 0"
    "push_bit 8 (byte_at mem q) AND NOT (mask 16) = 0" "push_bit 0 (byte_at mem q) AND NOT (mask 24) = 0"
    "push_bit 8 (byte_at mem q) AND NOT (mask 24) = 0" "push_bit 16 (byte_at mem q) AND NOT (mask 24) = 0" for q
    by (rule and_high(2); simp)+
  note lo = lo0 [unfolded push_bit_0_id id_apply]
  show "be32 mem p AND 0xffffff00 = push_bit 24 (byte_at mem p) OR push_bit 16 (byte_at mem (p + 1)) OR push_bit 8 (byte_at mem (p + 2))"
    "be32 mem p AND 0xffff0000 = push_bit 24 (byte_at mem p) OR push_bit 16 (byte_at mem (p + 1))"
    "be32 mem p AND 0xff000000 = push_bit 24 (byte_at mem p)"
    unfolding be32_def high_masks bit.conj_disj_distrib2 hi lo by (simp_all only: or.right_neutral or.left_neutral)
qed

subsection \<open>All ways to read the key agree with the reference\<close>

lemma bytes_at_part:
  "take m (drop j (bytes_at mem k n)) = bytes_at mem (k + j) (min m (n - j))"
  "drop j (bytes_at mem k n) = bytes_at mem (k + j) (n - j)"
  by (auto simp: bytes_at_def add.assoc intro!: nth_equalityI)

lemma bytes_at_0 [simp]: "bytes_at mem k 0 = []" "(bytes_at mem k n = []) = (n = 0)" "length (bytes_at mem k n) = n"
  by (auto simp: bytes_at_def)

lemma bytes_at_Suc: "bytes_at mem k (Suc n) = mem k # bytes_at mem (k + 1) n"
  by (simp add: bytes_at_def upt_rec del: upt_Suc)

lemma bytes_at_lists:
  "bytes_at mem k 1 = [mem k]" "bytes_at mem k 2 = [mem k, mem (k + 1)]" "bytes_at mem k 3 = [mem k, mem (k + 1), mem (k + 2)]"
  "bytes_at mem k 4 = [mem k, mem (k + 1), mem (k + 2), mem (k + 3)]"
  using bytes_at_Suc [of mem k 0] bytes_at_Suc [of mem k 1] bytes_at_Suc [of mem k 2] bytes_at_Suc [of mem k 3]
    bytes_at_Suc [of mem "k + 1" 0] bytes_at_Suc [of mem "k + 1" 1] bytes_at_Suc [of mem "k + 1" 2]
    bytes_at_Suc [of mem "k + 2" 0] bytes_at_Suc [of mem "k + 2" 1] bytes_at_Suc [of mem "k + 3" 0]
  by (simp_all add: add.commute eval_nat_numeral)

lemma jenkins_bytes_at:
  "jenkins pk (bytes_at mem k n) (a, b, c) =
     (let s = (a + pk (bytes_at mem k (min 4 n)), b + pk (bytes_at mem (k + 4) (min 4 (n - 4))),
        c + pk (bytes_at mem (k + 8) (min 4 (n - 8)))) in
      if 12 < n then jenkins pk (bytes_at mem (k + 12) (n - 12)) (mix s) else if n = 0 then c else c_of (final s))"
  using bytes_at_part(1) [of 4 0 mem k n] bytes_at_part(1) [of 4 4 mem k n] bytes_at_part(1) [of 4 8 mem k n]
  by (subst jenkins.simps) (simp add: bytes_at_part(2) Let_def)

lemma packs:
  "little [] = 0" "little [x] = ucast x" "little [x, y] = ucast x + push_bit 8 (ucast y)"
  "little [x, y, z] = ucast x + (push_bit 8 (ucast y) + push_bit 16 (ucast z))"
  "little [x, y, z, w] = ucast x + (push_bit 8 (ucast y) + (push_bit 16 (ucast z) + push_bit 24 (ucast w)))"
  "big [] = 0" "big [x] = push_bit 24 (ucast x)" "big [x, y] = push_bit 24 (ucast x) + push_bit 16 (ucast y)"
  "big [x, y, z] = push_bit 24 (ucast x) + (push_bit 16 (ucast y) + push_bit 8 (ucast z))"
  "big [x, y, z, w] = push_bit 24 (ucast x) + (push_bit 16 (ucast y) + (push_bit 8 (ucast z) + ucast w))"
  by (simp_all add: little_def big_def)

lemma little_bytes:
  "little (bytes_at mem k 0) = 0" "little (bytes_at mem k 1) = byte_at mem k" "little (bytes_at mem k 2) = le16 mem k"
  "little (bytes_at mem k 3) = byte_at mem k OR push_bit 8 (byte_at mem (k + 1)) OR push_bit 16 (byte_at mem (k + 2))"
  "little (bytes_at mem k 4) = le32 mem k"
  unfolding bytes_at_lists packs byte_at_def [symmetric] lanes_le le16_def le32_def by (simp_all add: packs)

lemma big_bytes:
  "big (bytes_at mem k 0) = 0" "big (bytes_at mem k 1) = push_bit 24 (byte_at mem k)"
  "big (bytes_at mem k 2) = push_bit 24 (byte_at mem k) OR push_bit 16 (byte_at mem (k + 1))"
  "big (bytes_at mem k 3) = push_bit 24 (byte_at mem k) OR push_bit 16 (byte_at mem (k + 1)) OR push_bit 8 (byte_at mem (k + 2))"
  "big (bytes_at mem k 4) = be32 mem k"
  unfolding bytes_at_lists packs byte_at_def [symmetric] lanes_be be32_def by (simp_all add: packs)

lemma upto_12: "\<not> 12 < n \<Longrightarrow> (n :: nat) \<in> set [12, 11, 10, 9, 8, 7, 6, 5, 4, 3, 2, 1, 0]"
  by simp presburger

lemmas upto_12E = upto_12 [unfolded list.set, elim_format]

text \<open>One induction serves all five loops: the tails agree and so do the words of a full block.\<close>

lemma hash_loop_ref:
  assumes step: "\<And>k n a b c. f k n (a, b, c) = (if 12 < n then f (k + 12) (n - 12) (mix (a + w k, b + w (k + 4), c + w (k + 8))) else g k n (a, b, c))"
    and w: "\<And>k. w k = pk (bytes_at mem k 4)"
    and tail: "\<And>k n a b c. \<not> 12 < n \<Longrightarrow> g k n (a, b, c) = jenkins pk (bytes_at mem k n) (a, b, c)"
  shows "f k n s = jenkins pk (bytes_at mem k n) s"
proof (induction n arbitrary: k s rule: less_induct)
  case (less n)
  obtain a b c where s: "s = (a, b, c)" by (cases s)
  show ?case
  proof (cases "12 < n")
    case True
    then show ?thesis unfolding s
      by (subst step, subst jenkins_bytes_at) (simp add: less.IH w [symmetric] Let_def)
  next
    case False
    then show ?thesis unfolding s by (subst step) (simp add: tail)
  qed
qed

lemma last_words_ref: "\<not> 12 < n \<Longrightarrow> last_words mem k n (a, b, c) = jenkins little (bytes_at mem k n) (a, b, c)"
  by (erule upto_12E, elim insertE emptyE; hypsubst; subst jenkins_bytes_at)
     (simp_all add: last_words_def little_bytes little_bytes(2) [unfolded One_nat_def] packs le_masks le16_def del: One_nat_def)

lemma last_words_big_ref: "\<not> 12 < n \<Longrightarrow> last_words_big mem k n (a, b, c) = jenkins big (bytes_at mem k n) (a, b, c)"
  by (erule upto_12E, elim insertE emptyE; hypsubst; subst jenkins_bytes_at)
     (simp_all add: last_words_big_def big_bytes big_bytes(2) [unfolded One_nat_def] packs be_masks del: One_nat_def)

text \<open>The sums that the other two readers form.\<close>

lemma little_sums:
  "le16 mem k = byte_at mem k + push_bit 8 (byte_at mem (k + 1))"
  "little (bytes_at mem k 3) = byte_at mem k + (push_bit 8 (byte_at mem (k + 1)) + push_bit 16 (byte_at mem (k + 2)))"
  "little (bytes_at mem k 4) =
     byte_at mem k + (push_bit 8 (byte_at mem (k + 1)) + (push_bit 16 (byte_at mem (k + 2)) + push_bit 24 (byte_at mem (k + 3))))"
  unfolding little_bytes lanes_le le16_def le32_def by (rule refl)+

lemma big_sums:
  "big (bytes_at mem k 2) = push_bit 24 (byte_at mem k) + push_bit 16 (byte_at mem (k + 1))"
  "big (bytes_at mem k 3) = push_bit 24 (byte_at mem k) + (push_bit 16 (byte_at mem (k + 1)) + push_bit 8 (byte_at mem (k + 2)))"
  "big (bytes_at mem k 4) =
     push_bit 24 (byte_at mem k) + (push_bit 16 (byte_at mem (k + 1)) + (push_bit 8 (byte_at mem (k + 2)) + byte_at mem (k + 3)))"
  unfolding big_bytes lanes_be be32_def by (rule refl)+

lemma halves: "le16 mem k + push_bit 16 (le16 mem (k + 2)) = little (bytes_at mem k 4)"
  by (simp add: little_sums push_bit_add push_bit_push_bit ac_simps del: One_nat_def add_2_eq_Suc add_2_eq_Suc')

lemma last_halves_ref: "\<not> 12 < n \<Longrightarrow> last_halves mem k n (a, b, c) = jenkins little (bytes_at mem k n) (a, b, c)"
  by (erule upto_12E, elim insertE emptyE; hypsubst; subst jenkins_bytes_at)
     (simp_all add: last_halves_def little_bytes(1-3) little_bytes(2) [unfolded One_nat_def] little_sums push_bit_add packs
       ac_simps del: One_nat_def add_2_eq_Suc add_2_eq_Suc')

lemma last_bytes_ref: "\<not> 12 < n \<Longrightarrow> last_bytes mem k n (a, b, c) = jenkins little (bytes_at mem k n) (a, b, c)"
  by (erule upto_12E, elim insertE emptyE; hypsubst; subst jenkins_bytes_at)
     (simp_all add: last_bytes_def little_bytes(1-3) little_bytes(2) [unfolded One_nat_def] little_sums packs ac_simps del: One_nat_def)

lemma last_bytes_big_ref: "\<not> 12 < n \<Longrightarrow> last_bytes_big mem k n (a, b, c) = jenkins big (bytes_at mem k n) (a, b, c)"
  by (erule upto_12E, elim insertE emptyE; hypsubst; subst jenkins_bytes_at)
     (simp_all add: last_bytes_big_def big_bytes(1,2) big_bytes(2) [unfolded One_nat_def] big_sums packs ac_simps del: One_nat_def)

lemma hash_words_ref: "hash_words mem k n s = jenkins little (bytes_at mem k n) s"
  by (rule hash_loop_ref [where w = "le32 mem" and g = "last_words mem"]) (simp_all add: little_bytes last_words_ref)

lemma hash_words_big_ref: "hash_words_big mem k n s = jenkins big (bytes_at mem k n) s"
  by (rule hash_loop_ref [where w = "be32 mem" and g = "last_words_big mem"]) (simp_all add: big_bytes last_words_big_ref)

lemma hash_halves_ref: "hash_halves mem k n s = jenkins little (bytes_at mem k n) s"
  by (rule hash_loop_ref [where w = "\<lambda>k. le16 mem k + push_bit 16 (le16 mem (k + 2))" and g = "last_halves mem"])
     (simp_all add: halves last_halves_ref ac_simps del: add_2_eq_Suc add_2_eq_Suc')

lemma hash_bytes_ref: "hash_bytes mem k n s = jenkins little (bytes_at mem k n) s"
  by (rule hash_loop_ref [where w = "\<lambda>k. little (bytes_at mem k 4)" and g = "last_bytes mem"])
     (simp_all add: little_sums last_bytes_ref ac_simps)

lemma hash_bytes_big_ref: "hash_bytes_big mem k n s = jenkins big (bytes_at mem k n) s"
  by (rule hash_loop_ref [where w = "\<lambda>k. big (bytes_at mem k 4)" and g = "last_bytes_big mem"])
     (simp_all add: big_sums last_bytes_big_ref ac_simps)

text \<open>
  C23: The hash of a key is a function of the bytes of the key alone. On either kind of machine
  every way of reading it (by words, by half-words, byte by byte, the last word masked or not)
  gives the value of the reference on the list of its bytes: the alignment of the address and the
  bytes behind the key, which the word-wise version does read, have no influence.
\<close>

theorem hash_reads_key_bytes:
  "(hash mem key len initval =
      (let a = 0xdeadbeef + of_nat len + initval in jenkins little (bytes_at mem key len) (a, a, a))) \<and>
   (hash_big mem key len initval =
      (let a = 0xdeadbeef + of_nat len + initval in jenkins big (bytes_at mem key len) (a, a, a)))"
  unfolding hash_def hash_big_def hash_words_ref hash_halves_ref hash_bytes_ref hash_words_big_ref hash_bytes_big_ref
  by (simp add: Let_def)

subsection \<open>Mixing loses nothing\<close>

text \<open>\<open>mix\<close> is six turns of one step, each with its own rotation.\<close>

definition turn :: "nat \<Rightarrow> hstate \<Rightarrow> hstate" where
  "turn k s = (let (x, y, z) = s in (y, z + y, (x - z) XOR rot z k))"

definition unturn :: "nat \<Rightarrow> hstate \<Rightarrow> hstate" where
  "unturn k s = (let (p, q, r) = s; z = q - p in ((r XOR rot z k) + z, p, z))"

definition unmix :: "hstate \<Rightarrow> hstate" where
  "unmix s = unturn 4 (unturn 6 (unturn 8 (unturn 16 (unturn 19 (unturn 4 s)))))"

lemma turn_unturn: "unturn k (turn k s) = s" "turn k (unturn k s) = s"
  by (cases s; simp add: turn_def unturn_def Let_def xor.assoc)+

lemma mix_turns: "mix s = turn 4 (turn 19 (turn 16 (turn 8 (turn 6 (turn 4 s)))))"
proof (cases s)
  case (fields a b c)
  show ?thesis unfolding fields mix_def turn_def Let_def prod.case by (rule refl)
qed

text \<open>\<open>mix\<close> is reversible, as its comment says: it is a bijection with an explicit inverse.\<close>

theorem mix_reversible: "unmix (mix s) = s \<and> mix (unmix s) = s"
  by (simp add: mix_turns unmix_def turn_unturn)

end
