(* ===== verification/Mc_Item.thy ===== *)
theory Mc_Item
  imports Mc_Hash Linked_Heap
begin

text \<open>
  The item of memcached (\<open>struct _stritem\<close> of \<open>memcached.h\<close>). The header fields have the
  types of the C struct; the bytes behind the header are kept apart as the CAS id, the bytes at
  \<open>ITEM_key\<close>, the bytes at \<open>ITEM_suffix\<close> and the bytes at \<open>ITEM_data\<close>. An item that has just
  been carved out of a cleared page is \<open>zero_item\<close>.
\<close>

type_synonym u8 = "8 word"
type_synonym u16 = "16 word"
type_synonym bytes = "byte list"

record item =
  it_next :: addr
  it_prev :: addr
  h_next :: addr
  it_time :: u32
  exptime :: u32
  nbytes :: int
  refcount :: u16
  nsuffix :: u8
  it_flags :: u8
  it_clsid :: u8
  nkey :: u8
  it_cas :: u64
  it_key :: bytes
  it_suffix :: bytes
  it_data :: bytes

definition zero_item :: item where
  "zero_item = \<lparr> it_next = NULL, it_prev = NULL, h_next = NULL, it_time = 0, exptime = 0, nbytes = 0, refcount = 0,
     nsuffix = 0, it_flags = 0, it_clsid = 0, nkey = 0, it_cas = 0, it_key = [], it_suffix = [], it_data = [] \<rparr>"

definition ITEM_LINKED :: u8 where "ITEM_LINKED = 1"
definition ITEM_CAS :: u8 where "ITEM_CAS = 2"
definition ITEM_SLABBED :: u8 where "ITEM_SLABBED = 4"
definition SIZEOF_ITEM :: nat where "SIZEOF_ITEM = 48"

definition has_flag :: "u8 \<Rightarrow> item \<Rightarrow> bool" where
  "has_flag f it \<longleftrightarrow> it_flags it AND f \<noteq> 0"

text \<open>The key of an item: the \<open>nkey\<close> bytes at \<open>ITEM_key\<close>.\<close>

definition ITEM_key :: "item \<Rightarrow> bytes" where
  "ITEM_key it = take (unat (nkey it)) (it_key it)"

definition ITEM_get_cas :: "item \<Rightarrow> u64" where
  "ITEM_get_cas it = (if has_flag ITEM_CAS it then it_cas it else 0)"

definition ITEM_set_cas :: "u64 \<Rightarrow> item \<Rightarrow> item" where
  "ITEM_set_cas v it = (if has_flag ITEM_CAS it then it\<lparr> it_cas := v \<rparr> else it)"

definition ITEM_ntotal :: "item \<Rightarrow> int" where
  "ITEM_ntotal it = int SIZEOF_ITEM + int (unat (nkey it)) + 1 + int (unat (nsuffix it)) + nbytes it +
     (if has_flag ITEM_CAS it then 8 else 0)"

text \<open>\<open>nkey == it->nkey && memcmp(key, ITEM_key(it), nkey) == 0\<close>.\<close>

definition key_equal :: "bytes \<Rightarrow> item \<Rightarrow> bool" where
  "key_equal key it \<longleftrightarrow> length key = unat (nkey it) \<and> take (length key) (it_key it) = key"

definition item_wf :: "item \<Rightarrow> bool" where
  "item_wf it \<longleftrightarrow> unat (nkey it) \<le> length (it_key it)"

lemma key_equal_iff: "item_wf it \<Longrightarrow> key_equal key it \<longleftrightarrow> ITEM_key it = key"
  by (auto simp: key_equal_def item_wf_def ITEM_key_def min_def)

text \<open>The hash of a key, wherever it is stored (\<open>hash_reads_key_bytes\<close>).\<close>

definition key_memory :: "bytes \<Rightarrow> memory" where
  "key_memory key a = (if a < length key then key ! a else 0)"

definition key_hash :: "bytes \<Rightarrow> u32" where
  "key_hash key = hash (key_memory key) 0 (length key) 0"

lemma key_hash_stored:
  assumes "bytes_at mem p (length key) = key"
  shows "hash mem p (length key) 0 = key_hash key"
proof -
  have "bytes_at (key_memory key) 0 (length key) = key"
    by (auto simp: bytes_at_def key_memory_def intro!: nth_equalityI)
  then show ?thesis
    unfolding key_hash_def hash_def hash_words_ref hash_halves_ref hash_bytes_ref assms by (simp add: Let_def del: jenkins.simps)
qed

interpretation hc: linked h_next "\<lambda>q. h_next_update (\<lambda>_. q)" ITEM_key
  by unfold_locales (simp_all add: ITEM_key_def)

text \<open>The hash table writes nothing of an item but its \<open>h_next\<close> field.\<close>

definition same_but_h_next :: "item heap \<Rightarrow> item heap \<Rightarrow> bool" where
  "same_but_h_next h h' \<longleftrightarrow> (\<forall>x. map_option (h_next_update (\<lambda>_. NULL)) (load h' x) = map_option (h_next_update (\<lambda>_. NULL)) (load h x))"

lemma same_but_h_next_refl [simp]: "same_but_h_next h h"
  by (simp add: same_but_h_next_def)

lemma same_but_h_next_trans: "same_but_h_next h h1 \<Longrightarrow> same_but_h_next h1 h2 \<Longrightarrow> same_but_h_next h h2"
  by (simp add: same_but_h_next_def)

lemma same_but_h_next_upd: "load h p = Some i \<Longrightarrow> same_but_h_next h (upd h p (i\<lparr> h_next := q \<rparr>))"
  by (auto simp: same_but_h_next_def heap_simps)

lemma same_but_h_next_load:
  assumes "same_but_h_next h h'" "load h x = Some i"
  obtains q where "load h' x = Some (i\<lparr> h_next := q \<rparr>)"
proof -
  have e: "map_option (h_next_update (\<lambda>_. NULL)) (load h' x) = map_option (h_next_update (\<lambda>_. NULL)) (load h x)"
    using assms(1) unfolding same_but_h_next_def by blast
  then obtain i' where i': "load h' x = Some i'" "i'\<lparr> h_next := NULL \<rparr> = i\<lparr> h_next := NULL \<rparr>" using assms(2) by auto
  then have "(i'\<lparr> h_next := NULL \<rparr>)\<lparr> h_next := h_next i' \<rparr> = i\<lparr> h_next := h_next i' \<rparr>" by simp
  then show ?thesis using that [of "h_next i'"] i'(1) by simp
qed

lemma same_but_h_next_keys:
  assumes "same_but_h_next h h'"
  shows "hc.key_at h' x = hc.key_at h x" "item_wf (the (load h' x)) = item_wf (the (load h x))" "(load h' x = None) = (load h x = None)"
proof -
  have e: "map_option (h_next_update (\<lambda>_. NULL)) (load h' x) = map_option (h_next_update (\<lambda>_. NULL)) (load h x)"
    using assms unfolding same_but_h_next_def by blast
  then show n: "(load h' x = None) = (load h x = None)" by (metis option.map_disc_iff)
  have "hc.key_at h' x = hc.key_at h x \<and> item_wf (the (load h' x)) = item_wf (the (load h x))"
  proof (cases "load h x")
    case (Some i)
    then obtain q where "load h' x = Some (i\<lparr> h_next := q \<rparr>)" using same_but_h_next_load [OF assms] by blast
    with Some show ?thesis by (simp add: hc.key_at_def item_wf_def ITEM_key_def)
  qed (use n in \<open>simp add: hc.key_at_def\<close>)
  then show "hc.key_at h' x = hc.key_at h x" "item_wf (the (load h' x)) = item_wf (the (load h x))" by simp_all
qed

end
