(* ===== verification/Mc_Assoc.thy ===== *)
theory Mc_Assoc
  imports Mc_Item
begin

text \<open>
  \<open>memcached/memcached-1.4.6-ffwd/assoc.c\<close>: the hash table of the items, a chained table that
  doubles when it gets full; while it is being expanded the buckets from \<open>expand_bucket\<close> on are
  still in the old table. The two tables are arrays of item pointers, the chains run through
  \<open>h_next\<close>. Whether \<open>calloc\<close> finds memory for a table of \<open>n\<close> buckets is \<open>calloc_ok n\<close>. \<open>None\<close> is
  an invalid access, a failed assertion or a chain without end.
\<close>

record assoc =
  primary_hashtable :: "nat \<Rightarrow> addr"
  old_hashtable :: "nat \<Rightarrow> addr"
  hashpower :: nat
  hash_items :: u32
  expanding :: bool
  expand_bucket :: nat
  hash_bulk_move :: nat
  calloc_ok :: "nat \<Rightarrow> bool"

definition hashsize :: "nat \<Rightarrow> nat" where "hashsize n = 2 ^ n"

text \<open>\<open>hv & hashmask(n)\<close>.\<close>

definition bucket_of :: "u32 \<Rightarrow> nat \<Rightarrow> nat" where
  "bucket_of hv n = unat hv AND (hashsize n - 1)"

definition assoc_init :: "(nat \<Rightarrow> bool) \<Rightarrow> assoc option" where
  "assoc_init ok = (if ok (hashsize 16)
     then Some \<lparr> primary_hashtable = (\<lambda>_. NULL), old_hashtable = (\<lambda>_. NULL), hashpower = 16, hash_items = 0, expanding = False,
       expand_bucket = 0, hash_bulk_move = 1, calloc_ok = ok \<rparr>
     else None)"

text \<open>The head of the chain on which a key with hash value \<open>hv\<close> is looked up.\<close>

definition chain_head :: "u32 \<Rightarrow> assoc \<Rightarrow> addr" where
  "chain_head hv a =
     (if expanding a \<and> expand_bucket a \<le> bucket_of hv (hashpower a - 1)
      then old_hashtable a (bucket_of hv (hashpower a - 1))
      else primary_hashtable a (bucket_of hv (hashpower a)))"

partial_function (option) find_in_chain :: "item heap \<Rightarrow> bytes \<Rightarrow> addr \<Rightarrow> addr option" where
  "find_in_chain h key it =
     (if it = NULL then Some NULL
      else do { i \<leftarrow> load h it; if key_equal key i then Some it else find_in_chain h key (h_next i) })"

definition assoc_find :: "bytes \<Rightarrow> assoc \<Rightarrow> item heap \<Rightarrow> addr option" where
  "assoc_find key a h = find_in_chain h key (chain_head (key_hash key) a)"

text \<open>An \<open>item **\<close>: a slot of one of the two tables or the \<open>h_next\<close> field of an item.\<close>

datatype item_pos = OldSlot nat | PrimarySlot nat | HNext addr

fun read_pos :: "item_pos \<Rightarrow> assoc \<Rightarrow> item heap \<Rightarrow> addr option" where
  "read_pos (OldSlot i) a h = Some (old_hashtable a i)"
| "read_pos (PrimarySlot i) a h = Some (primary_hashtable a i)"
| "read_pos (HNext p) a h = map_option h_next (load h p)"

fun write_pos :: "item_pos \<Rightarrow> addr \<Rightarrow> assoc \<Rightarrow> item heap \<Rightarrow> (assoc \<times> item heap) option" where
  "write_pos (OldSlot i) v a h = Some (a\<lparr> old_hashtable := (old_hashtable a)(i := v) \<rparr>, h)"
| "write_pos (PrimarySlot i) v a h = Some (a\<lparr> primary_hashtable := (primary_hashtable a)(i := v) \<rparr>, h)"
| "write_pos (HNext p) v a h = do { h' \<leftarrow> modify h p (h_next_update (\<lambda>_. v)); Some (a, h') }"

partial_function (option) walk_to :: "assoc \<Rightarrow> item heap \<Rightarrow> bytes \<Rightarrow> item_pos \<Rightarrow> item_pos option" where
  "walk_to a h key pos = do {
     p \<leftarrow> read_pos pos a h;
     if p = NULL then Some pos
     else do { i \<leftarrow> load h p; if key_equal key i then Some pos else walk_to a h key (HNext p) } }"

definition chain_slot :: "u32 \<Rightarrow> assoc \<Rightarrow> item_pos" where
  "chain_slot hv a =
     (if expanding a \<and> expand_bucket a \<le> bucket_of hv (hashpower a - 1)
      then OldSlot (bucket_of hv (hashpower a - 1))
      else PrimarySlot (bucket_of hv (hashpower a)))"

definition hashitem_before :: "bytes \<Rightarrow> assoc \<Rightarrow> item heap \<Rightarrow> item_pos option" where
  "hashitem_before key a h = walk_to a h key (chain_slot (key_hash key) a)"

text \<open>
  \<open>func11\<close> moves buckets to the new table. The bound of its loop is the flag \<open>expanding\<close>, not the
  number of buckets \<open>hash_bulk_move\<close>.
\<close>

partial_function (option) move_chain :: "addr \<Rightarrow> assoc \<Rightarrow> item heap \<Rightarrow> (assoc \<times> item heap) option" where
  "move_chain it a h =
     (if it = NULL then Some (a, h)
      else do {
        i \<leftarrow> load h it;
        let bucket = bucket_of (key_hash (ITEM_key i)) (hashpower a);
        h1 \<leftarrow> modify h it (h_next_update (\<lambda>_. primary_hashtable a bucket));
        move_chain (h_next i) (a\<lparr> primary_hashtable := (primary_hashtable a)(bucket := it) \<rparr>) h1 })"

definition move_bucket :: "assoc \<Rightarrow> item heap \<Rightarrow> (assoc \<times> item heap) option" where
  "move_bucket a h = do {
     (a1, h1) \<leftarrow> move_chain (old_hashtable a (expand_bucket a)) a h;
     let a2 = a1\<lparr> old_hashtable := (old_hashtable a1)(expand_bucket a1 := NULL), expand_bucket := expand_bucket a1 + 1 \<rparr>;
     Some (if expand_bucket a2 = hashsize (hashpower a2 - 1) then a2\<lparr> expanding := False \<rparr> else a2, h1) }"

partial_function (option) func11_loop :: "nat \<Rightarrow> assoc \<Rightarrow> item heap \<Rightarrow> (assoc \<times> item heap) option" where
  "func11_loop ii a h =
     (if ii < of_bool (expanding a) then do { (a1, h1) \<leftarrow> move_bucket a h; func11_loop (ii + 1) a1 h1 }
      else Some (a, h))"

definition func11 :: "assoc \<Rightarrow> item heap \<Rightarrow> (assoc \<times> item heap) option" where
  "func11 a h = func11_loop 0 (a\<lparr> hash_bulk_move := hashsize (hashpower a - 1) \<rparr>) h"

definition assoc_expand :: "assoc \<Rightarrow> item heap \<Rightarrow> (assoc \<times> item heap) option" where
  "assoc_expand a h =
     (let a1 = a\<lparr> old_hashtable := primary_hashtable a \<rparr> in
      if calloc_ok a (hashsize (hashpower a + 1))
      then func11 (a1\<lparr> primary_hashtable := (\<lambda>_. NULL), hashpower := hashpower a + 1, expanding := True, expand_bucket := 0 \<rparr>) h
      else Some (a1\<lparr> primary_hashtable := old_hashtable a1 \<rparr>, h))"

definition assoc_insert :: "addr \<Rightarrow> assoc \<Rightarrow> item heap \<Rightarrow> (assoc \<times> item heap) option" where
  "assoc_insert it a h = do {
     i \<leftarrow> load h it;
     found \<leftarrow> assoc_find (ITEM_key i) a h;
     if found \<noteq> NULL then None
     else do {
       let hv = key_hash (ITEM_key i);
       let slot = chain_slot hv a;
       p \<leftarrow> read_pos slot a h;
       h1 \<leftarrow> modify h it (h_next_update (\<lambda>_. p));
       (a1, h2) \<leftarrow> write_pos slot it a h1;
       let a2 = a1\<lparr> hash_items := hash_items a1 + 1 \<rparr>;
       if \<not> expanding a2 \<and> (hashsize (hashpower a2) * 3) div 2 < unat (hash_items a2)
       then assoc_expand a2 h2
       else Some (a2, h2) } }"

definition assoc_delete :: "bytes \<Rightarrow> assoc \<Rightarrow> item heap \<Rightarrow> (assoc \<times> item heap) option" where
  "assoc_delete key a h = do {
     before \<leftarrow> hashitem_before key a h;
     p \<leftarrow> read_pos before a h;
     if p \<noteq> NULL then do {
       let a1 = a\<lparr> hash_items := hash_items a - 1 \<rparr>;
       i \<leftarrow> load h p;
       h1 \<leftarrow> modify h p (h_next_update (\<lambda>_. NULL));
       write_pos before (h_next i) a1 h1 }
     else None }"

declare find_in_chain.simps [code] walk_to.simps [code] move_chain.simps [code] func11_loop.simps [code]

subsection \<open>Slots and chains\<close>

lemma bucket_of_mod: "bucket_of hv n = unat hv mod hashsize n"
  unfolding bucket_of_def hashsize_def take_bit_eq_mod [symmetric] take_bit_eq_mask mask_eq_exp_minus_1 by simp

lemma bucket_of_less [simp]: "bucket_of hv n < hashsize n"
  by (simp add: bucket_of_mod hashsize_def)

definition slots :: "assoc \<Rightarrow> item_pos set" where
  "slots a = PrimarySlot ` {..<hashsize (hashpower a)} \<union> (if expanding a then OldSlot ` {..<hashsize (hashpower a - 1)} else {})"

fun slot_head :: "item_pos \<Rightarrow> assoc \<Rightarrow> addr" where
  "slot_head (OldSlot i) a = old_hashtable a i"
| "slot_head (PrimarySlot i) a = primary_hashtable a i"
| "slot_head (HNext p) a = NULL"

lemma chain_slot_in [simp]: "chain_slot hv a \<in> slots a"
  by (simp add: chain_slot_def slots_def)

lemma slot_head_chain: "slot_head (chain_slot hv a) a = chain_head hv a"
  by (simp add: chain_slot_def chain_head_def)

lemma read_slot: "s \<in> slots a \<Longrightarrow> read_pos s a h = Some (slot_head s a)"
  by (auto simp: slots_def split: if_splits)

lemma finite_slots [simp]: "finite (slots a)"
  by (simp add: slots_def)

text \<open>
  The representation: \<open>C\<close> lists the chain of every slot. Every item is on the chain on which its
  key is looked up, no two items have the same key, and \<open>hash_items\<close> counts them.
\<close>

definition members :: "(item_pos \<Rightarrow> addr list) \<Rightarrow> addr set" where
  "members C = (\<Union>s. set (C s))"

definition assoc_rep :: "assoc \<Rightarrow> item heap \<Rightarrow> (item_pos \<Rightarrow> addr list) \<Rightarrow> bool" where
  "assoc_rep a h C \<longleftrightarrow> 0 < hashpower a \<and> (expanding a \<longrightarrow> expand_bucket a < hashsize (hashpower a - 1)) \<and>
     (\<forall>s \<in> slots a. hc.path h (slot_head s a) (C s) NULL) \<and> (\<forall>s. s \<notin> slots a \<longrightarrow> C s = []) \<and>
     (\<forall>s. \<forall>x \<in> set (C s). chain_slot (key_hash (hc.key_at h x)) a = s \<and> item_wf (the (load h x))) \<and>
     inj_on (hc.key_at h) (members C) \<and> hash_items a = of_nat (card (members C))"

lemma finite_members:
  assumes "assoc_rep a h C"
  shows "finite (members C)"
proof -
  have "members C = (\<Union>s \<in> slots a. set (C s))" using assms by (fastforce simp: members_def assoc_rep_def)
  then show ?thesis by simp
qed

lemma members_loaded:
  assumes "assoc_rep a h C" "x \<in> members C"
  obtains i where "load h x = Some i"
proof -
  from assms(2) obtain s where s: "x \<in> set (C s)" by (auto simp: members_def)
  then have "s \<in> slots a" using assms(1) by (fastforce simp: assoc_rep_def)
  then have "hc.path h (slot_head s a) (C s) NULL" using assms(1) by (simp add: assoc_rep_def)
  from hc.path_loaded [OF this s] that show ?thesis by blast
qed

lemma member_home:
  assumes "assoc_rep a h C" "x \<in> members C"
  shows "x \<in> set (C (chain_slot (key_hash (hc.key_at h x)) a))"
  using assms by (fastforce simp: assoc_rep_def members_def)

lemma home_path: "assoc_rep a h C \<Longrightarrow> hc.path h (chain_head hv a) (C (chain_slot hv a)) NULL"
  by (metis assoc_rep_def chain_slot_in slot_head_chain)

text \<open>The chain of a key, cut at the item with the key.\<close>

lemma find_in_chain_spec:
  assumes "hc.path h p xs NULL" "\<forall>x \<in> set xs. item_wf (the (load h x))"
  shows "find_in_chain h key p = Some (case find (\<lambda>x. hc.key_at h x = key) xs of None \<Rightarrow> NULL | Some x \<Rightarrow> x)"
  using assms
proof (induction xs arbitrary: p)
  case Nil
  then show ?case by (subst find_in_chain.simps) simp
next
  case (Cons x xs)
  then obtain i where i: "p = x" "load h x = Some i" "hc.path h (h_next i) xs NULL" by (auto split: option.splits)
  then have "key_equal key i = (hc.key_at h x = key)" using Cons.prems(2) by (simp add: key_equal_iff)
  with Cons.IH [OF i(3)] Cons.prems i show ?case by (subst find_in_chain.simps) auto
qed

text \<open>\<open>assoc_find\<close> returns the item with the key, or \<open>NULL\<close> if there is none.\<close>

lemma assoc_find_spec:
  assumes "assoc_rep a h C"
  obtains p where "assoc_find key a h = Some p"
    "p \<noteq> NULL \<Longrightarrow> p \<in> members C \<and> hc.key_at h p = key"
    "p = NULL \<Longrightarrow> key \<notin> hc.key_at h ` members C"
proof -
  let ?xs = "C (chain_slot (key_hash key) a)"
  have path: "hc.path h (chain_head (key_hash key) a) ?xs NULL" using home_path [OF assms] .
  have wf: "\<forall>x \<in> set ?xs. item_wf (the (load h x))" using assms by (simp add: assoc_rep_def)
  note f = find_in_chain_spec [OF path wf, of key]
  show ?thesis
  proof (cases "find (\<lambda>x. hc.key_at h x = key) ?xs")
    case None
    then have "\<forall>x \<in> set ?xs. hc.key_at h x \<noteq> key" by (auto simp: find_None_iff)
    then have "key \<notin> hc.key_at h ` members C" using member_home [OF assms] by fastforce
    with f None that [of NULL] show ?thesis by (simp add: assoc_find_def)
  next
    case (Some x)
    then have "x \<in> set ?xs" "hc.key_at h x = key" by (auto simp: find_Some_iff)
    moreover from this have "x \<in> members C" by (auto simp: members_def)
    moreover have "x \<noteq> NULL" using hc.path_not_NULL [OF path] \<open>x \<in> set ?xs\<close> by metis
    ultimately show ?thesis using f Some that [of x] by (simp add: assoc_find_def)
  qed
qed

subsection \<open>Insertion into a chain\<close>

lemma write_slot:
  assumes "s \<in> slots a"
  obtains a' where "write_pos s p a h = Some (a', h)" "\<And>t. slot_head t a' = (if t = s then p else slot_head t a)"
    "a' = a\<lparr> old_hashtable := old_hashtable a', primary_hashtable := primary_hashtable a' \<rparr>"
proof (cases s)
  case (OldSlot i)
  have "slot_head t (a\<lparr> old_hashtable := (old_hashtable a)(i := p) \<rparr>) = (if t = s then p else slot_head t a)" for t
    by (cases t) (auto simp: OldSlot)
  with that [of "a\<lparr> old_hashtable := (old_hashtable a)(i := p) \<rparr>"] show ?thesis by (simp add: OldSlot)
next
  case (PrimarySlot i)
  have "slot_head t (a\<lparr> primary_hashtable := (primary_hashtable a)(i := p) \<rparr>) = (if t = s then p else slot_head t a)" for t
    by (cases t) (auto simp: PrimarySlot)
  with that [of "a\<lparr> primary_hashtable := (primary_hashtable a)(i := p) \<rparr>"] show ?thesis by (simp add: PrimarySlot)
qed (use assms in \<open>auto simp: slots_def split: if_splits\<close>)

text \<open>Changes of the tables that leave the place of the keys alone.\<close>

lemma same_slots:
  assumes "hashpower a' = hashpower a" "expanding a' = expanding a" "expand_bucket a' = expand_bucket a"
  shows "slots a' = slots a" "chain_slot hv a' = chain_slot hv a"
  using assms by (simp_all add: slots_def chain_slot_def)

lemma link_item:
  assumes rep: "assoc_rep a h C" and i: "load h it = Some i" "item_wf i" and new: "it \<notin> members C"
    "ITEM_key i \<notin> hc.key_at h ` members C"
    and h': "h' = upd h it (i\<lparr> h_next := slot_head s a \<rparr>)" and s: "s = chain_slot (key_hash (ITEM_key i)) a"
    and a': "\<And>t. slot_head t a' = (if t = s then it else slot_head t a)"
    "hashpower a' = hashpower a" "expanding a' = expanding a" "expand_bucket a' = expand_bucket a" "hash_items a' = hash_items a + 1"
  shows "assoc_rep a' h' (C(s := it # C s))" "members (C(s := it # C s)) = insert it (members C)"
proof -
  let ?C = "C(s := it # C s)"
  show m: "members ?C = insert it (members C)" by (auto simp: members_def split: if_splits)
  note ss = same_slots [OF a'(2-4)]
  have same: "same_but_h_next h h'" unfolding h' by (rule same_but_h_next_upd [OF i(1)])
  note keys = same_but_h_next_keys [OF same]
  have ne: "it \<notin> set (C t)" for t using new(1) by (auto simp: members_def)
  have itz: "it \<noteq> NULL" using i(1) by auto
  have sin: "s \<in> slots a" unfolding s by simp
  have old: "hc.path h (slot_head t a) (C t) NULL" if "t \<in> slots a" for t using rep that by (simp add: assoc_rep_def)
  have keep: "hc.path h' (slot_head t a) (C t) NULL" if "t \<in> slots a" for t
    using old [OF that] ne unfolding h' by simp
  have "load h' it = Some (i\<lparr> h_next := slot_head s a \<rparr>)" unfolding h' using itz by (simp add: heap_simps)
  then have paths: "hc.path h' (slot_head t a') (?C t) NULL" if "t \<in> slots a" for t
    using keep [OF that] keep [OF sin] by (simp add: a'(1))
  have ki: "hc.key_at h it = ITEM_key i" using i(1) by simp
  show "assoc_rep a' h' ?C"
    unfolding assoc_rep_def ss
  proof (intro conjI)
    show "\<forall>s. s \<notin> slots a \<longrightarrow> ?C s = []" using rep sin by (auto simp: assoc_rep_def)
    show "\<forall>t. \<forall>x \<in> set (?C t). chain_slot (key_hash (hc.key_at h' x)) a = t \<and> item_wf (the (load h' x))"
      unfolding keys using rep i ki s by (auto simp: assoc_rep_def)
    show "inj_on (hc.key_at h') (members ?C)"
      unfolding m keys using rep new ki by (auto simp: assoc_rep_def)
    show "hash_items a' = of_nat (card (members ?C))"
      unfolding m using rep new(1) finite_members [OF rep] a'(5) by (simp add: assoc_rep_def)
  qed (use rep a' paths in \<open>auto simp: assoc_rep_def\<close>)
qed

subsection \<open>Moving a bucket\<close>

text \<open>\<open>move_chain\<close> pushes the items of a chain onto the chains of the new table, one after another.\<close>

lemma move_chain_spec:
  assumes "hc.path h it xs NULL" and "\<forall>i < hashsize (hashpower a). hc.path h (primary_hashtable a i) (P i) NULL"
    and "\<forall>i. set (P i) \<inter> set xs = {}"
  shows "\<exists>t' h' P'. move_chain it a h = Some (a\<lparr> primary_hashtable := t' \<rparr>, h') \<and>
    (\<forall>i < hashsize (hashpower a). hc.path h' (t' i) (P' i) NULL) \<and>
    (\<forall>i. set (P' i) = set (P i) \<union> {x \<in> set xs. bucket_of (key_hash (hc.key_at h x)) (hashpower a) = i}) \<and>
    same_but_h_next h h' \<and> (\<forall>x. x \<notin> set xs \<longrightarrow> load h' x = load h x)"
  using assms
proof (induction xs arbitrary: it a h P)
  case Nil
  then show ?case by (subst move_chain.simps) (auto intro!: exI [of _ "primary_hashtable a"] exI [of _ h] exI [of _ P])
next
  case (Cons x xs)
  then obtain i where i: "it = x" "load h x = Some i" "hc.path h (h_next i) xs NULL" "x \<noteq> NULL" by (auto split: option.splits)
  have nx: "x \<notin> set xs" using hc.path_distinct [OF Cons.prems(1)] by simp
  let ?b = "bucket_of (key_hash (ITEM_key i)) (hashpower a)"
  let ?h = "upd h x (i\<lparr> h_next := primary_hashtable a ?b \<rparr>)"
  let ?a = "a\<lparr> primary_hashtable := (primary_hashtable a)(?b := x) \<rparr>" and ?P = "P(?b := x # P ?b)"
  have same: "same_but_h_next h ?h" by (rule same_but_h_next_upd [OF i(2)])
  note keys = same_but_h_next_keys [OF same]
  have xP: "x \<notin> set (P j)" for j using Cons.prems(3) by auto
  have "hc.path ?h (h_next i) xs NULL" using i(3) nx by simp
  moreover have "\<forall>j < hashsize (hashpower ?a). hc.path ?h (primary_hashtable ?a j) (?P j) NULL"
    using Cons.prems(2) xP i(4) by (simp add: load_upd)
  moreover have "\<forall>j. set (?P j) \<inter> set xs = {}" using Cons.prems(3) nx by auto
  ultimately obtain t' h' P' where R: "move_chain (h_next i) ?a ?h = Some (?a\<lparr> primary_hashtable := t' \<rparr>, h')"
    "\<forall>j < hashsize (hashpower ?a). hc.path h' (t' j) (P' j) NULL"
    "\<forall>j. set (P' j) = set (?P j) \<union> {y \<in> set xs. bucket_of (key_hash (hc.key_at ?h y)) (hashpower ?a) = j}"
    "same_but_h_next ?h h'" "\<forall>y. y \<notin> set xs \<longrightarrow> load h' y = load ?h y"
    using Cons.IH [of ?h "h_next i" ?a ?P] by blast
  have "move_chain it a h = Some (a\<lparr> primary_hashtable := t' \<rparr>, h')"
    using R(1) i by (subst move_chain.simps) (simp add: heap_simps Let_def)
  moreover have "set (P' j) = set (P j) \<union> {y \<in> set (x # xs). bucket_of (key_hash (hc.key_at h y)) (hashpower a) = j}" for j
    using R(3) i(2) unfolding keys by auto
  moreover have "\<forall>y. y \<notin> set (x # xs) \<longrightarrow> load h' y = load h y" using R(5) by (auto simp: heap_simps)
  ultimately show ?case using R(2) same_but_h_next_trans [OF same R(4)]
    by (intro exI [of _ t'] exI [of _ h'] exI [of _ P']) simp
qed

lemma chain_home: "assoc_rep a h C \<Longrightarrow> x \<in> set (C s) \<Longrightarrow> chain_slot (key_hash (hc.key_at h x)) a = s"
  unfolding assoc_rep_def by blast

lemma chains_disjoint: "assoc_rep a h C \<Longrightarrow> s \<noteq> t \<Longrightarrow> set (C s) \<inter> set (C t) = {}"
  by (metis chain_home disjoint_iff)

lemma old_chain_home:
  assumes "assoc_rep a h C" "x \<in> set (C (OldSlot j))"
  shows "expanding a" "expand_bucket a \<le> j" "bucket_of (key_hash (hc.key_at h x)) (hashpower a - 1) = j"
proof -
  have "chain_slot (key_hash (hc.key_at h x)) a = OldSlot j" by (rule chain_home [OF assms])
  then show "expanding a" "expand_bucket a \<le> j" "bucket_of (key_hash (hc.key_at h x)) (hashpower a - 1) = j"
    by (auto simp: chain_slot_def split: if_splits)
qed

lemma primary_chain_home:
  assumes "assoc_rep a h C" "x \<in> set (C (PrimarySlot i))"
  shows "bucket_of (key_hash (hc.key_at h x)) (hashpower a) = i"
    "\<not> (expanding a \<and> expand_bucket a \<le> bucket_of (key_hash (hc.key_at h x)) (hashpower a - 1))"
proof -
  have "chain_slot (key_hash (hc.key_at h x)) a = PrimarySlot i" by (rule chain_home [OF assms])
  then show "bucket_of (key_hash (hc.key_at h x)) (hashpower a) = i"
    "\<not> (expanding a \<and> expand_bucket a \<le> bucket_of (key_hash (hc.key_at h x)) (hashpower a - 1))"
    by (auto simp: chain_slot_def split: if_splits)
qed

lemma no_h_next_chain: "assoc_rep a h C \<Longrightarrow> C (HNext p) = []"
  unfolding assoc_rep_def slots_def by (auto split: if_splits)

definition after_move :: "assoc \<Rightarrow> assoc \<Rightarrow> bool" where
  "after_move a a' \<longleftrightarrow> hashpower a' = hashpower a \<and> expand_bucket a' = expand_bucket a + 1 \<and> hash_items a' = hash_items a \<and>
     calloc_ok a' = calloc_ok a \<and> expanding a' = (expand_bucket a + 1 \<noteq> hashsize (hashpower a - 1))"

lemma move_bucket_spec:
  assumes rep: "assoc_rep a h C" and ex: "expanding a"
  shows "\<exists>a' h' C'. move_bucket a h = Some (a', h') \<and> assoc_rep a' h' C' \<and> members C' = members C \<and> same_but_h_next h h' \<and> after_move a a'"
proof -
  let ?e = "expand_bucket a" and ?n = "hashpower a" and ?key = "hc.key_at h"
  let ?xs = "C (OldSlot ?e)" and ?P = "\<lambda>i. C (PrimarySlot i)"
  let ?b = "\<lambda>x. bucket_of (key_hash (?key x)) ?n"
  have e: "?e < hashsize (?n - 1)" and n: "0 < ?n" using rep ex by (auto simp: assoc_rep_def)
  have path: "hc.path h (slot_head s a) (C s) NULL" if "s \<in> slots a" for s using rep that by (simp add: assoc_rep_def)
  have xs: "hc.path h (old_hashtable a ?e) ?xs NULL" using path [of "OldSlot ?e"] e ex by (simp add: slots_def)
  have P: "\<forall>i < hashsize ?n. hc.path h (primary_hashtable a i) (?P i) NULL"
  proof (intro allI impI)
    fix i assume "i < hashsize ?n"
    then show "hc.path h (primary_hashtable a i) (?P i) NULL" using path [of "PrimarySlot i"] by (simp add: slots_def)
  qed
  note disj = chains_disjoint [OF rep]
  have dP: "\<forall>i. set (?P i) \<inter> set ?xs = {}" by (simp add: disj)
  obtain t' h' P' where M: "move_chain (old_hashtable a ?e) a h = Some (a\<lparr> primary_hashtable := t' \<rparr>, h')"
    "\<forall>i < hashsize ?n. hc.path h' (t' i) (P' i) NULL" "\<forall>i. set (P' i) = set (?P i) \<union> {x \<in> set ?xs. ?b x = i}"
    "same_but_h_next h h'" "\<forall>x. x \<notin> set ?xs \<longrightarrow> load h' x = load h x"
    using move_chain_spec [OF xs P] dP by blast
  note keys = same_but_h_next_keys [OF M(4)]
  let ?a = "a\<lparr> primary_hashtable := t', old_hashtable := (old_hashtable a)(?e := NULL), expand_bucket := ?e + 1,
    expanding := ?e + 1 \<noteq> hashsize (?n - 1) \<rparr>"
  define C' where "C' s = (case s of OldSlot j \<Rightarrow> if j = ?e then [] else C s | PrimarySlot i \<Rightarrow> P' i | HNext _ \<Rightarrow> [])" for s
  have run: "move_bucket a h = Some (?a, h')" using M(1) ex by (cases a) (simp add: move_bucket_def Let_def)
  have sets: "set (C' (PrimarySlot i)) = set (?P i) \<union> {x \<in> set ?xs. ?b x = i}" "C' (OldSlot j) = (if j = ?e then [] else C (OldSlot j))"
    "C' (HNext p) = []" for i j p using M(3) by (simp_all add: C'_def)
  have mem: "members C' = members C"
  proof -
    have split: "members D = (\<Union>i. set (D (PrimarySlot i))) \<union> (\<Union>j. set (D (OldSlot j))) \<union> (\<Union>p. set (D (HNext p)))" for D
      unfolding members_def using item_pos.exhaust by (auto; metis)
    have "(\<Union>i. set (C' (PrimarySlot i))) = (\<Union>i. set (?P i)) \<union> set ?xs" by (auto simp: sets(1))
    moreover have "set ?xs \<union> (\<Union>j. set (C' (OldSlot j))) = (\<Union>j. set (C (OldSlot j)))" by (auto simp: sets(2) split: if_splits)
    ultimately show ?thesis unfolding split using no_h_next_chain [OF rep] sets(3) by auto
  qed
  have gone: "C (OldSlot j) = []" if "j \<notin> {?e..<hashsize (?n - 1)}" for j
  proof (rule ccontr)
    assume "C (OldSlot j) \<noteq> []"
    then obtain x where x: "x \<in> set (C (OldSlot j))" by (cases "C (OldSlot j)") auto
    from old_chain_home [OF rep x] bucket_of_less [of "key_hash (?key x)" "?n - 1"] that show False by auto
  qed
  have "assoc_rep ?a h' C'"
    unfolding assoc_rep_def
  proof (intro conjI)
    show "expanding ?a \<longrightarrow> expand_bucket ?a < hashsize (hashpower ?a - 1)" using e by auto
    show "\<forall>s \<in> slots ?a. hc.path h' (slot_head s ?a) (C' s) NULL"
    proof
      fix s assume "s \<in> slots ?a"
      then consider (p) i where "s = PrimarySlot i" "i < hashsize ?n" | (o) j where "s = OldSlot j" "j < hashsize (?n - 1)"
        by (auto simp: slots_def split: if_splits)
      then show "hc.path h' (slot_head s ?a) (C' s) NULL"
      proof cases
        case p
        then show ?thesis using M(2) by (simp add: C'_def)
      next
        case o
        have "hc.path h' (old_hashtable a j) (C (OldSlot j)) NULL" if "j \<noteq> ?e"
        proof -
          have "load h' x = load h x" if "x \<in> set (C (OldSlot j))" for x using that M(5) disj [of "OldSlot j" "OldSlot ?e"] \<open>j \<noteq> ?e\<close> by auto
          then show ?thesis using path [of s] o ex by (subst hc.path_frame) (auto simp: slots_def)
        qed
        then show ?thesis using o by (simp add: C'_def)
      qed
    qed
    show "\<forall>s. s \<notin> slots ?a \<longrightarrow> C' s = []"
    proof (intro allI impI)
      fix s assume s: "s \<notin> slots ?a"
      show "C' s = []"
      proof (cases s)
        case (PrimarySlot i)
        then have "\<not> i < hashsize ?n" using s by (auto simp: slots_def)
        moreover have "C (PrimarySlot i) = []" using rep calculation unfolding assoc_rep_def slots_def by (auto split: if_splits)
        ultimately have "set (C' s) = {}" using bucket_of_less [of _ ?n] by (auto simp: PrimarySlot sets)
        then show ?thesis by simp
      next
        case (OldSlot j)
        then have "j \<notin> {?e<..<hashsize (?n - 1)}" using s e by (auto simp: slots_def split: if_splits)
        then show ?thesis using gone [of j] by (auto simp: OldSlot sets)
      qed (simp add: sets)
    qed
    show "\<forall>s. \<forall>x \<in> set (C' s). chain_slot (key_hash (hc.key_at h' x)) ?a = s \<and> item_wf (the (load h' x))"
    proof (intro allI ballI conjI)
      fix s x assume x: "x \<in> set (C' s)"
      then have "x \<in> members C" unfolding mem [symmetric] by (auto simp: members_def)
      then show "item_wf (the (load h' x))" unfolding keys using rep unfolding assoc_rep_def members_def by blast
      show "chain_slot (key_hash (hc.key_at h' x)) ?a = s"
      proof (cases s)
        case (PrimarySlot i)
        then have "x \<in> set (?P i) \<or> x \<in> set ?xs \<and> ?b x = i" using x sets(1) by auto
        then show ?thesis unfolding keys using primary_chain_home [OF rep, of x i] old_chain_home [OF rep, of x ?e] ex
          by (auto simp: chain_slot_def PrimarySlot)
      next
        case (OldSlot j)
        then have "j \<noteq> ?e" "x \<in> set (C (OldSlot j))" using x sets(2) by (auto split: if_splits)
        then show ?thesis unfolding keys using old_chain_home [OF rep, of x j] bucket_of_less [of "key_hash (?key x)" "?n - 1"]
          by (auto simp: chain_slot_def OldSlot)
      qed (use x sets(3) in auto)
    qed
    show "inj_on (hc.key_at h') (members C')" unfolding keys mem using rep by (simp add: assoc_rep_def)
    show "hash_items ?a = of_nat (card (members C'))" unfolding mem using rep by (simp add: assoc_rep_def)
  qed (use n in simp)
  with run mem M(4) show ?thesis by (auto simp: after_move_def)
qed

subsection \<open>Expansion\<close>

lemma func11_eq:
  "func11 a h = (if expanding a then move_bucket (a\<lparr> hash_bulk_move := hashsize (hashpower a - 1) \<rparr>) h
     else Some (a\<lparr> hash_bulk_move := hashsize (hashpower a - 1) \<rparr>, h))"
proof -
  have stop: "func11_loop (Suc 0) a h = Some (a, h)" for a h by (subst func11_loop.simps) simp
  show ?thesis unfolding func11_def by (subst func11_loop.simps) (auto simp: stop bind_eq_Some_conv split: bind_splits)
qed

lemma assoc_rep_same:
  assumes "assoc_rep a h C" "primary_hashtable a' = primary_hashtable a" "hashpower a' = hashpower a" "expanding a' = expanding a"
    "expand_bucket a' = expand_bucket a" "hash_items a' = hash_items a" "expanding a \<longrightarrow> old_hashtable a' = old_hashtable a"
  shows "assoc_rep a' h C"
proof -
  note ss = same_slots [OF assms(3-5)]
  have "slot_head s a' = slot_head s a" if "s \<in> slots a" for s
    using that assms(2,7) by (cases s) (auto simp: slots_def split: if_splits)
  with assms(1) show ?thesis unfolding assoc_rep_def ss assms(3-6) by simp
qed

text \<open>What the start of an expansion leaves: the whole table is now the old one.\<close>

definition expansion_start :: "assoc \<Rightarrow> assoc" where
  "expansion_start a = a\<lparr> old_hashtable := primary_hashtable a, primary_hashtable := (\<lambda>_. NULL), hashpower := hashpower a + 1,
     expanding := True, expand_bucket := 0 \<rparr>"

lemma expansion_start_rep:
  assumes rep: "assoc_rep a h C" and ex: "\<not> expanding a"
  defines "C1 \<equiv> \<lambda>s. case s of OldSlot j \<Rightarrow> C (PrimarySlot j) | _ \<Rightarrow> []"
  shows "assoc_rep (expansion_start a) h C1" "members C1 = members C"
proof -
  let ?a = "expansion_start a"
  have no: "C (OldSlot j) = []" "C (HNext p) = []" for j p using rep ex by (auto simp: assoc_rep_def slots_def)
  have C1: "C1 (OldSlot j) = C (PrimarySlot j)" "C1 (PrimarySlot j) = []" "C1 (HNext p) = []" for j p by (simp_all add: C1_def)
  have slot: "chain_slot hv ?a = OldSlot (bucket_of hv (hashpower a))" for hv by (simp add: expansion_start_def chain_slot_def)
  show m: "members C1 = members C"
  proof
    show "members C1 \<subseteq> members C" unfolding members_def C1_def by (auto split: item_pos.splits)
    show "members C \<subseteq> members C1"
    proof
      fix x assume "x \<in> members C"
      then obtain s where s: "x \<in> set (C s)" by (auto simp: members_def)
      then obtain j where "s = PrimarySlot j" using no by (cases s) auto
      then have "x \<in> set (C1 (OldSlot j))" using s C1(1) by simp
      then show "x \<in> members C1" unfolding members_def by blast
    qed
  qed
  have home: "chain_slot (key_hash (hc.key_at h x)) ?a = s \<and> item_wf (the (load h x))" if "x \<in> set (C1 s)" for s x
  proof (cases s)
    case (OldSlot j)
    then have x: "x \<in> set (C (PrimarySlot j))" using that C1 by simp
    then show ?thesis using primary_chain_home(1) [OF rep x] slot rep OldSlot unfolding assoc_rep_def by metis
  qed (use that C1 in auto)
  have paths: "hc.path h (slot_head s ?a) (C1 s) NULL" if "s \<in> slots ?a" for s
  proof -
    have "hc.path h (slot_head (PrimarySlot j) a) (C (PrimarySlot j)) NULL" if "j < hashsize (hashpower a)" for j
      using rep that unfolding assoc_rep_def slots_def by blast
    then show ?thesis using that by (cases s) (auto simp: slots_def expansion_start_def C1_def)
  qed
  have outside: "C1 s = []" if "s \<notin> slots ?a" for s
  proof (cases s)
    case (OldSlot j)
    then have "PrimarySlot j \<notin> slots a" using that ex by (auto simp: slots_def expansion_start_def)
    then show ?thesis using rep OldSlot C1 by (simp add: assoc_rep_def)
  qed (simp_all add: C1)
  have "0 < hashpower ?a \<and> (expanding ?a \<longrightarrow> expand_bucket ?a < hashsize (hashpower ?a - 1))"
    by (simp add: expansion_start_def hashsize_def)
  moreover have "hash_items ?a = of_nat (card (members C1))" using rep by (simp add: m expansion_start_def assoc_rep_def)
  moreover have "inj_on (hc.key_at h) (members C1)" using rep unfolding m assoc_rep_def by blast
  ultimately show "assoc_rep ?a h C1" unfolding assoc_rep_def using home paths outside by blast
qed

definition table_kept :: "assoc \<Rightarrow> assoc \<Rightarrow> bool" where
  "table_kept a a' \<longleftrightarrow> hashpower a' = hashpower a \<and> expanding a' = expanding a \<and> expand_bucket a' = expand_bucket a \<and>
     calloc_ok a' = calloc_ok a"

definition first_bucket_moved :: "assoc \<Rightarrow> assoc \<Rightarrow> bool" where
  "first_bucket_moved a a' \<longleftrightarrow> hashpower a' = hashpower a + 1 \<and> expand_bucket a' = 1 \<and> expanding a' = (hashpower a \<noteq> 0)"

lemma assoc_expand_spec:
  assumes rep: "assoc_rep a h C" and ex: "\<not> expanding a"
  shows "\<exists>a' h' C'. assoc_expand a h = Some (a', h') \<and> assoc_rep a' h' C' \<and> members C' = members C \<and> same_but_h_next h h' \<and>
    (if calloc_ok a (hashsize (hashpower a + 1)) then first_bucket_moved a a' else table_kept a a')"
proof (cases "calloc_ok a (hashsize (hashpower a + 1))")
  case True
  let ?a1 = "(expansion_start a)\<lparr> hash_bulk_move := hashsize (hashpower a) \<rparr>"
  obtain C1 where C1: "assoc_rep (expansion_start a) h C1" "members C1 = members C" using expansion_start_rep [OF rep ex] by blast
  have "assoc_rep ?a1 h C1" by (rule assoc_rep_same [OF C1(1)]) simp_all
  moreover have "expanding ?a1" by (simp add: expansion_start_def)
  ultimately obtain a' h' C' where M: "move_bucket ?a1 h = Some (a', h')" "assoc_rep a' h' C'" "members C' = members C"
    "same_but_h_next h h'" "after_move ?a1 a'" using move_bucket_spec [of ?a1 h C1] C1(2) by auto
  have "assoc_expand a h = Some (a', h')"
    using M(1) True by (simp add: assoc_expand_def func11_eq expansion_start_def Let_def)
  moreover have "first_bucket_moved a a'"
    using M(5) by (cases "hashpower a") (auto simp: after_move_def first_bucket_moved_def expansion_start_def hashsize_def)
  ultimately show ?thesis using M True by auto
next
  case False
  then have "assoc_expand a h = Some (a\<lparr> old_hashtable := primary_hashtable a \<rparr>, h)" by (simp add: assoc_expand_def)
  moreover have "assoc_rep (a\<lparr> old_hashtable := primary_hashtable a \<rparr>) h C" by (rule assoc_rep_same [OF rep]) (simp_all add: ex)
  ultimately show ?thesis using False by (auto simp: table_kept_def)
qed

subsection \<open>Insertion and deletion\<close>

lemma assoc_insert_spec:
  assumes rep: "assoc_rep a h C" and i: "load h it = Some i" "item_wf i"
    and new: "it \<notin> members C" "ITEM_key i \<notin> hc.key_at h ` members C"
  shows "\<exists>a' h' C'. assoc_insert it a h = Some (a', h') \<and> assoc_rep a' h' C' \<and> members C' = insert it (members C) \<and>
    same_but_h_next h h' \<and>
    (if \<not> expanding a \<and> hashsize (hashpower a) * 3 div 2 < unat (hash_items a + 1) \<and> calloc_ok a (hashsize (hashpower a + 1))
     then first_bucket_moved a a' else table_kept a a')"
proof -
  obtain p where p: "assoc_find (ITEM_key i) a h = Some p" "p \<noteq> NULL \<Longrightarrow> p \<in> members C \<and> hc.key_at h p = ITEM_key i"
    using assoc_find_spec [OF rep] by metis
  then have p0: "p = NULL" using new(2) by force
  let ?s = "chain_slot (key_hash (ITEM_key i)) a"
  let ?h = "upd h it (i\<lparr> h_next := slot_head ?s a \<rparr>)"
  obtain a1 where a1: "write_pos ?s it a ?h = Some (a1, ?h)" "\<And>t. slot_head t a1 = (if t = ?s then it else slot_head t a)"
    "a1 = a\<lparr> old_hashtable := old_hashtable a1, primary_hashtable := primary_hashtable a1 \<rparr>"
    using write_slot [OF chain_slot_in] by metis
  have e: "hashpower a1 = hashpower a" "expanding a1 = expanding a" "expand_bucket a1 = expand_bucket a" "hash_items a1 = hash_items a"
    "calloc_ok a1 = calloc_ok a"
    by (subst a1(3), simp)+
  let ?a2 = "a1\<lparr> hash_items := hash_items a1 + 1 \<rparr>" and ?C = "C(?s := it # C ?s)"
  have heads: "slot_head t ?a2 = (if t = ?s then it else slot_head t a)" for t using a1(2) [of t] by (cases t) simp_all
  note L = link_item [OF rep i new refl refl heads]
  have rep2: "assoc_rep ?a2 ?h ?C" "members ?C = insert it (members C)" using L e by simp_all
  have same: "same_but_h_next h ?h" by (rule same_but_h_next_upd [OF i(1)])
  have run: "assoc_insert it a h = (if \<not> expanding ?a2 \<and> (hashsize (hashpower ?a2) * 3) div 2 < unat (hash_items ?a2)
      then assoc_expand ?a2 ?h else Some (?a2, ?h))"
    using i(1) p(1) p0 a1(1) read_slot [OF chain_slot_in, of "key_hash (ITEM_key i)" a h]
    by (simp add: assoc_insert_def modify_eq Let_def)
  show ?thesis
  proof (cases "\<not> expanding ?a2 \<and> (hashsize (hashpower ?a2) * 3) div 2 < unat (hash_items ?a2)")
    case True
    from assoc_expand_spec [OF rep2(1)] True obtain a' h' C' where
      X: "assoc_expand ?a2 ?h = Some (a', h')" "assoc_rep a' h' C'" "members C' = members ?C" "same_but_h_next ?h h'"
      "if calloc_ok ?a2 (hashsize (hashpower ?a2 + 1)) then first_bucket_moved ?a2 a' else table_kept ?a2 a'" by blast
    have "if calloc_ok a (hashsize (hashpower a + 1)) then first_bucket_moved a a' else table_kept a a'"
      using X(5) e by (auto simp: table_kept_def first_bucket_moved_def)
    with X(1-3) rep2(2) same_but_h_next_trans [OF same X(4)] run True e show ?thesis by (intro exI [of _ a'] exI [of _ h'] exI [of _ C']) simp
  next
    case False
    have "table_kept a ?a2" using e by (simp add: table_kept_def)
    with run False rep2 same e show ?thesis by (intro exI [of _ ?a2] exI [of _ ?h] exI [of _ ?C]) auto
  qed
qed

lemma walk_to_spec:
  assumes "read_pos pos a h = Some p0" "hc.path h p0 (ys @ p # zs) NULL" "\<forall>x \<in> set ys. hc.key_at h x \<noteq> key" "hc.key_at h p = key"
    "\<forall>x \<in> set (ys @ [p]). item_wf (the (load h x))"
  shows "walk_to a h key pos = Some (if ys = [] then pos else HNext (last ys))"
  using assms
proof (induction ys arbitrary: pos p0)
  case Nil
  then obtain i where "p0 = p" "load h p = Some i" "p \<noteq> NULL" by (auto split: option.splits)
  with Nil show ?case by (subst walk_to.simps) (auto simp: key_equal_iff)
next
  case (Cons y ys)
  then obtain i where i: "p0 = y" "load h y = Some i" "y \<noteq> NULL" "hc.path h (h_next i) (ys @ p # zs) NULL" by (auto split: option.splits)
  have "\<not> key_equal key i" using Cons.prems(3,5) i(2) by (auto simp: key_equal_iff)
  with Cons.prems i Cons.IH [of "HNext y" "h_next i"] show ?case by (subst walk_to.simps) auto
qed

lemma unlink_item:
  assumes rep: "assoc_rep a h C" and C: "C s = ys @ p # zs" and s: "s \<in> slots a"
    and same: "same_but_h_next h h'" and others: "\<And>x. x \<notin> set (ys @ [p]) \<Longrightarrow> load h' x = load h x"
    and path: "hc.path h' (slot_head s a') (ys @ zs) NULL" and heads: "\<And>t. t \<noteq> s \<Longrightarrow> slot_head t a' = slot_head t a"
    and a': "hashpower a' = hashpower a" "expanding a' = expanding a" "expand_bucket a' = expand_bucket a" "hash_items a' = hash_items a - 1"
  shows "assoc_rep a' h' (C(s := ys @ zs))" "members (C(s := ys @ zs)) = members C - {p}"
proof -
  let ?C = "C(s := ys @ zs)"
  note ss = same_slots [OF a'(1-3)] and keys = same_but_h_next_keys [OF same] and disj = chains_disjoint [OF rep]
  have "hc.path h (slot_head s a) (ys @ p # zs) NULL" using rep s C unfolding assoc_rep_def by metis
  then have d: "distinct (ys @ p # zs)" by (rule hc.path_distinct)
  have pm: "p \<in> members C" using C unfolding members_def by (metis UN_I UNIV_I in_set_conv_decomp)
  have no: "p \<notin> set (C t)" if "t \<noteq> s" for t using disj [OF that] C by auto
  have "set (?C t) = set (C t) - {p}" for t using no [of t] d C by (cases "t = s") auto
  then show m: "members ?C = members C - {p}" by (auto simp: members_def)
  have sub: "x \<in> set (C t)" if "x \<in> set (?C t)" for x t using that C by (auto split: if_splits)
  have paths: "hc.path h' (slot_head t a') (?C t) NULL" if "t \<in> slots a" for t
  proof (cases "t = s")
    case True
    then show ?thesis using path by simp
  next
    case False
    have "load h' x = load h x" if "x \<in> set (C t)" for x using that disj [OF False] C by (intro others) auto
    then have "hc.path h' (slot_head t a) (C t) NULL = hc.path h (slot_head t a) (C t) NULL" by (rule hc.path_frame)
    then show ?thesis using rep that False heads by (simp add: assoc_rep_def)
  qed
  have "card (members C) = Suc (card (members ?C))" unfolding m using pm finite_members [OF rep] by (metis card_Suc_Diff1)
  then have "hash_items a' = of_nat (card (members ?C))" using a'(4) rep by (simp add: assoc_rep_def)
  moreover have "inj_on (hc.key_at h') (members ?C)"
    unfolding keys m using rep unfolding assoc_rep_def by (meson Diff_subset inj_on_subset)
  moreover have "\<forall>t. \<forall>x \<in> set (?C t). chain_slot (key_hash (hc.key_at h' x)) a = t \<and> item_wf (the (load h' x))"
    unfolding keys using rep sub unfolding assoc_rep_def by blast
  moreover have "\<forall>t. t \<notin> slots a \<longrightarrow> ?C t = []" using rep s by (auto simp: assoc_rep_def)
  ultimately show "assoc_rep a' h' ?C"
    using rep paths a' unfolding assoc_rep_def ss by simp
qed

lemma walk_to_end:
  assumes "read_pos pos a h = Some p0" "hc.path h p0 ys NULL" "\<forall>x \<in> set ys. hc.key_at h x \<noteq> key \<and> item_wf (the (load h x))"
  shows "\<exists>pos'. walk_to a h key pos = Some pos' \<and> read_pos pos' a h = Some NULL"
  using assms
proof (induction ys arbitrary: pos p0)
  case Nil
  then show ?case by (subst walk_to.simps) simp
next
  case (Cons y ys)
  then obtain i where i: "p0 = y" "load h y = Some i" "y \<noteq> NULL" "hc.path h (h_next i) ys NULL" by (auto split: option.splits)
  have "\<not> key_equal key i" using Cons.prems(3) i(2) by (auto simp: key_equal_iff)
  with Cons.prems i Cons.IH [of "HNext y" "h_next i"] show ?case by (subst walk_to.simps) auto
qed

lemma assoc_delete_missing:
  assumes rep: "assoc_rep a h C" and "key \<notin> hc.key_at h ` members C"
  shows "assoc_delete key a h = None"
proof -
  let ?s = "chain_slot (key_hash key) a"
  have "\<forall>x \<in> set (C ?s). hc.key_at h x \<noteq> key \<and> item_wf (the (load h x))"
    using assms unfolding members_def assoc_rep_def by blast
  moreover have "hc.path h (slot_head ?s a) (C ?s) NULL" using rep by (simp add: assoc_rep_def)
  ultimately obtain pos where "walk_to a h key ?s = Some pos" "read_pos pos a h = Some NULL"
    using walk_to_end [OF read_slot [OF chain_slot_in]] by blast
  then show ?thesis by (simp add: assoc_delete_def hashitem_before_def)
qed

lemma assoc_delete_spec:
  assumes rep: "assoc_rep a h C" and p: "p \<in> members C" "hc.key_at h p = key"
  shows "\<exists>a' h' C'. assoc_delete key a h = Some (a', h') \<and> assoc_rep a' h' C' \<and> members C' = members C - {p} \<and>
    same_but_h_next h h' \<and> table_kept a a'"
proof -
  let ?s = "chain_slot (key_hash key) a" and ?a1 = "a\<lparr> hash_items := hash_items a - 1 \<rparr>"
  have "p \<in> set (C ?s)" using member_home [OF rep p(1)] p(2) by simp
  then obtain ys zs where C: "C ?s = ys @ p # zs" by (meson split_list)
  have path: "hc.path h (slot_head ?s a) (ys @ p # zs) NULL" using rep C chain_slot_in unfolding assoc_rep_def by metis
  have d: "distinct (ys @ p # zs)" by (rule hc.path_distinct [OF path])
  obtain i where i: "load h p = Some i" "hc.path h (h_next i) zs NULL" "p \<noteq> NULL" using hc.path_split [OF path] load_Some_NULL by metis
  have wf: "\<forall>x \<in> set (ys @ [p]). item_wf (the (load h x))" using rep C unfolding assoc_rep_def by (metis Un_iff list.set_intros(1) set_append empty_iff empty_set insert_iff list.simps(15))
  have diff: "\<forall>x \<in> set ys. hc.key_at h x \<noteq> key"
  proof
    fix x assume x: "x \<in> set ys"
    then have "x \<in> members C" using C unfolding members_def by (metis UN_I UNIV_I Un_iff set_append)
    moreover have "x \<noteq> p" using x d by auto
    ultimately show "hc.key_at h x \<noteq> key" using rep p unfolding assoc_rep_def inj_on_def by metis
  qed
  have before: "hashitem_before key a h = Some (if ys = [] then ?s else HNext (last ys))"
    unfolding hashitem_before_def by (rule walk_to_spec [OF read_slot [OF chain_slot_in] path diff p(2) wf])
  let ?h1 = "upd h p (i\<lparr> h_next := NULL \<rparr>)"
  have same1: "same_but_h_next h ?h1" by (rule same_but_h_next_upd [OF i(1)])
  show ?thesis
  proof (cases ys rule: rev_cases)
    case Nil
    have hd: "slot_head ?s a = p" using path Nil by simp
    have "?s \<in> slots ?a1" by (simp add: slots_def chain_slot_def)
    from write_slot [OF this, of "h_next i" ?h1] obtain a2 where a2: "write_pos ?s (h_next i) ?a1 ?h1 = Some (a2, ?h1)"
      "\<And>t. slot_head t a2 = (if t = ?s then h_next i else slot_head t ?a1)"
      "a2 = ?a1\<lparr> old_hashtable := old_hashtable a2, primary_hashtable := primary_hashtable a2 \<rparr>" by blast
    have co: "calloc_ok a2 = calloc_ok a" by (subst a2(3), simp)
    have e: "hashpower a2 = hashpower a" "expanding a2 = expanding a" "expand_bucket a2 = expand_bucket a" "hash_items a2 = hash_items a - 1"
      by (subst a2(3), simp)+
    have heads: "slot_head t a2 = slot_head t a" if "t \<noteq> ?s" for t using a2(2) [of t] that by (cases t) simp_all
    have "hc.path ?h1 (slot_head ?s a2) (ys @ zs) NULL" using a2(2) [of ?s] i(2) d Nil by simp
    from unlink_item [OF rep C chain_slot_in same1 _ this heads e] Nil
    have U: "assoc_rep a2 ?h1 (C(?s := ys @ zs))" "members (C(?s := ys @ zs)) = members C - {p}" by (auto simp: heap_simps)
    have "assoc_delete key a h = Some (a2, ?h1)"
      using before Nil read_slot [OF chain_slot_in, of "key_hash key" a h] hd i(1,3) a2(1) by (simp add: assoc_delete_def modify_eq Let_def)
    with U same1 e co show ?thesis by (intro exI conjI) (assumption | simp add: table_kept_def)+
  next
    case (snoc ys' q)
    obtain nq where nq: "load h q = Some nq" "h_next nq = p" using path snoc by (auto simp: hc.path_append split: option.splits)
    have qp: "q \<noteq> p" using d snoc by auto
    let ?h2 = "upd ?h1 q (nq\<lparr> h_next := h_next i \<rparr>)"
    have "hc.path (upd h q (nq\<lparr> h_next := h_next i \<rparr>)) (slot_head ?s a) (ys' @ q # zs) NULL"
      by (rule hc.path_unlink(1) [OF _ nq(1) i(1)]) (use path snoc in simp)
    moreover have "hc.path ?h2 (slot_head ?s a) (ys' @ q # zs) NULL = hc.path (upd h q (nq\<lparr> h_next := h_next i \<rparr>)) (slot_head ?s a) (ys' @ q # zs) NULL"
      using d snoc by (intro hc.path_frame) (auto simp: heap_simps)
    moreover have "slot_head t ?a1 = slot_head t a" for t by (cases t) simp_all
    ultimately have path2: "hc.path ?h2 (slot_head ?s ?a1) (ys @ zs) NULL" "\<And>t. t \<noteq> ?s \<Longrightarrow> slot_head t ?a1 = slot_head t a" using snoc by simp_all
    have q1: "load ?h1 q = Some nq" using nq(1) qp by (simp add: heap_simps)
    have same2: "same_but_h_next h ?h2" by (rule same_but_h_next_trans [OF same1 same_but_h_next_upd [OF q1]])
    have others: "load ?h2 x = load h x" if "x \<notin> set (ys @ [p])" for x using that snoc by (auto simp: heap_simps)
    from unlink_item [OF rep C chain_slot_in same2 others path2]
    have U: "assoc_rep ?a1 ?h2 (C(?s := ys @ zs))" "members (C(?s := ys @ zs)) = members C - {p}" by simp_all
    have "assoc_delete key a h = Some (?a1, ?h2)"
      using before snoc nq i(1,3) q1 by (simp add: assoc_delete_def modify_eq Let_def)
    with U same2 show ?thesis by (intro exI conjI) (assumption | simp add: table_kept_def)+
  qed
qed

text \<open>
  C19: The hash table is a map from keys to items, whatever the state of an expansion.
  \<open>assoc_find\<close> returns the item with the key or \<open>NULL\<close>; \<open>assoc_insert\<close> adds an item (and fails its
  assertion exactly if the key is there already), and \<open>assoc_delete\<close> takes the item of a key out
  (and fails its assertion if there is none). All three terminate, keep every item on the chain
  on which it is looked up, and change nothing but \<open>h_next\<close> fields of the items.
\<close>

theorem assoc_operations:
  assumes rep: "assoc_rep a h C"
  shows "(\<exists>p. assoc_find key a h = Some p \<and>
       (if p = NULL then key \<notin> hc.key_at h ` members C else p \<in> members C \<and> hc.key_at h p = key)) \<and>
    (\<forall>it i. load h it = Some i \<and> item_wf i \<and> it \<notin> members C \<longrightarrow>
       (if ITEM_key i \<in> hc.key_at h ` members C then assoc_insert it a h = None
        else \<exists>a' h' C'. assoc_insert it a h = Some (a', h') \<and> assoc_rep a' h' C' \<and> members C' = insert it (members C) \<and>
          same_but_h_next h h')) \<and>
    (if key \<in> hc.key_at h ` members C
     then \<exists>a' h' C' p. assoc_delete key a h = Some (a', h') \<and> p \<in> members C \<and> hc.key_at h p = key \<and> assoc_rep a' h' C' \<and>
       members C' = members C - {p} \<and> same_but_h_next h h'
     else assoc_delete key a h = None)"
proof (intro conjI allI impI)
  show "\<exists>p. assoc_find key a h = Some p \<and> (if p = NULL then key \<notin> hc.key_at h ` members C else p \<in> members C \<and> hc.key_at h p = key)"
    using assoc_find_spec [OF rep, of key] by metis
  show "if key \<in> hc.key_at h ` members C
     then \<exists>a' h' C' p. assoc_delete key a h = Some (a', h') \<and> p \<in> members C \<and> hc.key_at h p = key \<and> assoc_rep a' h' C' \<and>
       members C' = members C - {p} \<and> same_but_h_next h h'
     else assoc_delete key a h = None"
  proof (cases "key \<in> hc.key_at h ` members C")
    case True
    then obtain p where "p \<in> members C" "hc.key_at h p = key" by blast
    with assoc_delete_spec [OF rep this] True show ?thesis by auto
  next
    case False
    with assoc_delete_missing [OF rep] show ?thesis by simp
  qed
next
  fix it i assume i: "load h it = Some i \<and> item_wf i \<and> it \<notin> members C"
  show "if ITEM_key i \<in> hc.key_at h ` members C then assoc_insert it a h = None
      else \<exists>a' h' C'. assoc_insert it a h = Some (a', h') \<and> assoc_rep a' h' C' \<and> members C' = insert it (members C) \<and> same_but_h_next h h'"
  proof (cases "ITEM_key i \<in> hc.key_at h ` members C")
    case True
    then obtain p where "assoc_find (ITEM_key i) a h = Some p" "p \<noteq> NULL" using assoc_find_spec [OF rep, of "ITEM_key i"] by metis
    then have "assoc_insert it a h = None" using i by (simp add: assoc_insert_def)
    with True show ?thesis by simp
  next
    case False
    with i assoc_insert_spec [OF rep, of it i] show ?thesis by auto
  qed
qed

subsection \<open>The expansion that does not end\<close>

text \<open>What the rest of the program does with the table: insertions and deletions.\<close>

inductive assoc_step :: "assoc \<times> item heap \<Rightarrow> assoc \<times> item heap \<Rightarrow> bool" where
  insert: "assoc_insert it a h = Some (a', h') \<Longrightarrow> assoc_step (a, h) (a', h')"
| delete: "assoc_delete key a h = Some (a', h') \<Longrightarrow> assoc_step (a, h) (a', h')"

lemma write_pos_kept: "write_pos pos v a h = Some (a', h') \<Longrightarrow> table_kept a a'"
  by (cases pos) (auto simp: table_kept_def bind_eq_Some_conv)

lemma table_kept_trans: "table_kept a a1 \<Longrightarrow> table_kept a1 a2 \<Longrightarrow> table_kept a a2"
  by (simp add: table_kept_def)

lemma step_while_expanding:
  "assoc_step c c' \<Longrightarrow> expanding (fst c) \<Longrightarrow> table_kept (fst c) (fst c')"
proof (induction rule: assoc_step.induct)
  case (insert it a h a' h')
  then obtain a1 where "table_kept a a1" "table_kept a1 a'"
    by (auto simp: assoc_insert_def bind_eq_Some_conv Let_def table_kept_def split: if_splits dest!: write_pos_kept)
  then show ?case using table_kept_trans by simp
next
  case (delete key a h a' h')
  then obtain a1 where "table_kept a a1" "table_kept a1 a'"
    by (auto simp: assoc_delete_def bind_eq_Some_conv Let_def table_kept_def split: if_splits dest!: write_pos_kept)
  then show ?case using table_kept_trans by simp
qed

text \<open>
  C36: An expansion of the hash table is never finished. The insertion that starts it moves the
  first bucket only; after it every sequence of insertions and deletions leaves the table
  expanding at bucket 1 with the same power, so the remaining buckets are never moved, the old
  table is never released and the table never grows again.
\<close>

theorem assoc_expansion_never_ends:
  assumes "assoc_rep a h C" and "\<not> expanding a"
    and "load h it = Some i" and "item_wf i" and "it \<notin> members C" and "ITEM_key i \<notin> hc.key_at h ` members C"
    and "assoc_insert it a h = Some (a1, h1)" and "expanding a1" and "assoc_step\<^sup>*\<^sup>* (a1, h1) (a', h')"
  shows "expanding a' \<and> expand_bucket a' = 1 \<and> hashpower a' = hashpower a + 1"
proof -
  have "first_bucket_moved a a1"
    using assoc_insert_spec [OF assms(1,3-6)] assms(2,7,8) by (auto simp: table_kept_def split: if_splits)
  then have a1: "expanding (fst (a1, h1))" "expand_bucket a1 = 1" "hashpower a1 = hashpower a + 1"
    using assms(8) by (simp_all add: first_bucket_moved_def)
  from assms(9) have "table_kept (fst (a1, h1)) (fst (a', h'))"
  proof (induction rule: rtranclp_induct)
    case (step c c')
    then have "expanding (fst c)" using a1(1) by (simp add: table_kept_def)
    with step_while_expanding [OF step(2)] step.IH table_kept_trans show ?case by blast
  qed (simp add: table_kept_def)
  with a1 show ?thesis by (simp add: table_kept_def)
qed

subsection \<open>Runs\<close>

definition key_item :: "byte \<Rightarrow> item" where
  "key_item b = zero_item\<lparr> nkey := 1, it_key := [b] \<rparr>"

text \<open>A table of two buckets that is full: four items with keys 1 to 4, the first three linked.\<close>

definition item_heap4 :: "item heap" where
  "item_heap4 = \<lparr> cells = [1 \<mapsto> key_item 1, 2 \<mapsto> key_item 2, 3 \<mapsto> key_item 3, 4 \<mapsto> key_item 4], policy = (\<lambda>_. NULL), junk = (\<lambda>_. zero_item) \<rparr>"

definition small_table :: assoc where
  "small_table = \<lparr> primary_hashtable = (\<lambda>_. NULL), old_hashtable = (\<lambda>_. NULL), hashpower = 1, hash_items = 0, expanding = False,
     expand_bucket = 0, hash_bulk_move = 1, calloc_ok = (\<lambda>_. True) \<rparr>"

lemma small_table_rep: "assoc_rep small_table h (\<lambda>_. [])"
  by (auto simp: assoc_rep_def small_table_def members_def slots_def)

theorem assoc_operations_witness:
  "assoc_rep small_table item_heap4 (\<lambda>_. []) \<and> (\<exists>p. assoc_find [1] small_table item_heap4 = Some p \<and>
     (if p = NULL then [1] \<notin> hc.key_at item_heap4 ` members (\<lambda>_. []) else p \<in> members (\<lambda>_. []) \<and> hc.key_at item_heap4 p = [1]))"
  using assoc_operations [OF small_table_rep, of "[1]" item_heap4] small_table_rep by blast

lemma item_heap4_load: "load item_heap4 x = (if x \<in> {1..4} then Some (key_item (of_nat x)) else None)"
proof -
  have "x \<in> {1..4} \<longleftrightarrow> x = 1 \<or> x = 2 \<or> x = 3 \<or> x = 4" by auto
  then show ?thesis by (auto simp: item_heap4_def load_def)
qed

lemma key_item_simps [simp]: "ITEM_key (i\<lparr> h_next := q \<rparr>) = ITEM_key i" "item_wf (i\<lparr> h_next := q \<rparr>) = item_wf i"
    "ITEM_key (key_item b) = [b]" "item_wf (key_item b)"
  by (simp_all add: key_item_def ITEM_key_def item_wf_def)

lemma heap4_item:
  assumes "same_but_h_next item_heap4 h" "x \<in> {1..4}"
  shows "\<exists>i. load h x = Some i \<and> ITEM_key i = [of_nat x] \<and> item_wf i" "hc.key_at h x = [of_nat x]"
proof -
  obtain q where "load h x = Some (key_item (of_nat x)\<lparr> h_next := q \<rparr>)"
    using same_but_h_next_load [OF assms(1), of x "key_item (of_nat x)"] assms(2) by (auto simp: item_heap4_load)
  then show "\<exists>i. load h x = Some i \<and> ITEM_key i = [of_nat x] \<and> item_wf i" "hc.key_at h x = [of_nat x]" by simp_all
qed

lemma heap4_fresh:
  assumes "same_but_h_next item_heap4 h" "members C = {1..n}" "n < 4"
  shows "[of_nat (Suc n)] \<notin> hc.key_at h ` members C"
proof
  assume "[of_nat (Suc n)] \<in> hc.key_at h ` members C"
  then obtain x where x: "x \<in> {1..n}" "hc.key_at h x = [of_nat (Suc n)]" using assms(2) by auto
  then have "(of_nat x :: byte) = of_nat (Suc n)" using heap4_item(2) [OF assms(1), of x] assms(3) by auto
  then have "unat (of_nat x :: byte) = unat (of_nat (Suc n) :: byte)" by simp
  then show False using x(1) assms(3) by (simp add: unat_of_nat del: of_nat_Suc)
qed

text \<open>Any number of insertions up to the limit leaves a table that is not expanding.\<close>

lemma small_table_filled:
  assumes "n \<le> 3"
  shows "\<exists>a h C. assoc_rep a h C \<and> members C = {1..n} \<and> same_but_h_next item_heap4 h \<and> table_kept small_table a"
  using assms
proof (induction n)
  case 0
  then show ?case using small_table_rep by (intro exI [of _ small_table] exI [of _ item_heap4] exI [of _ "\<lambda>_. []"]) (simp add: members_def table_kept_def)
next
  case (Suc n)
  then obtain a h C where I: "assoc_rep a h C" "members C = {1..n}" "same_but_h_next item_heap4 h" "table_kept small_table a" by auto
  obtain i where i: "load h (Suc n) = Some i" "ITEM_key i = [of_nat (Suc n)]" "item_wf i"
    using heap4_item(1) [OF I(3), of "Suc n"] Suc.prems by auto
  have "hash_items a = of_nat n" using I(1,2) by (simp add: assoc_rep_def)
  then have "\<not> hashsize (hashpower a) * 3 div 2 < unat (hash_items a + 1)"
    using I(4) Suc.prems by (simp add: table_kept_def small_table_def hashsize_def unat_word_ariths unat_of_nat)
  then obtain a' h' C' where "assoc_rep a' h' C'" "members C' = insert (Suc n) (members C)" "same_but_h_next h h'" "table_kept a a'"
    using assoc_insert_spec [OF I(1) i(1,3)] heap4_fresh [OF I(3,2)] I(2) i(2) Suc.prems by auto
  moreover from this have "members C' = {1..Suc n}" using I(2) by auto
  ultimately show ?case using table_kept_trans [OF I(4)] same_but_h_next_trans [OF I(3)] by blast
qed

theorem assoc_expansion_never_ends_witness:
  "\<exists>a h a1 h1. \<not> expanding a \<and> assoc_insert 4 a h = Some (a1, h1) \<and> expanding a1 \<and> expand_bucket a1 = 1 \<and> hashpower a1 = hashpower a + 1"
proof -
  obtain a h C where I: "assoc_rep a h C" "members C = {1..3}" "same_but_h_next item_heap4 h" "table_kept small_table a"
    using small_table_filled [of 3] by auto
  have a: "\<not> expanding a" "hashpower a = 1" "calloc_ok a = (\<lambda>_. True)" using I(4) by (simp_all add: table_kept_def small_table_def)
  obtain i where i: "load h 4 = Some i" "ITEM_key i = [4]" "item_wf i" using heap4_item(1) [OF I(3), of 4] by auto
  have new: "4 \<notin> members C" "ITEM_key i \<notin> hc.key_at h ` members C" using heap4_fresh [OF I(3,2)] I(2) i(2) by auto
  have "hash_items a = 3" using I(1,2) by (simp add: assoc_rep_def)
  then obtain a1 h1 where r: "assoc_insert 4 a h = Some (a1, h1)" "first_bucket_moved a a1"
    using assoc_insert_spec [OF I(1) i(1,3) new] a by (auto simp: hashsize_def)
  then have ex: "expanding a1" using a(2) by (simp add: first_bucket_moved_def)
  from assoc_expansion_never_ends [OF I(1) a(1) i(1,3) new r(1) ex rtranclp.rtrancl_refl] r(1) ex a(1) show ?thesis by blast
qed

end
