(* ===== verification/Mc_Slabs.thy ===== *)
theory Mc_Slabs
  imports Mc_Item
begin

text \<open>
  \<open>memcached/memcached-1.4.6-ffwd/slabs.c\<close>: the slab allocator. Every class cuts its pages into
  chunks of one size; a chunk is handed out from the free list of the class (\<open>slots\<close>, as a stack)
  or from the end of its newest page. A page comes from \<open>malloc\<close> or, if all memory was allocated
  at the start, from the front of that block; \<open>blocks\<close> records the blocks that were taken.

  \<open>sys_malloc\<close> chooses the address of a new block (or \<open>NULL\<close>), given the blocks in use;
  \<open>realloc_ok n\<close> says whether the array of a class can grow to \<open>n\<close> entries. Chunks are cells of the
  item heap; a new page is cleared, so its chunks are \<open>zero_item\<close>s. \<open>None\<close> is a failed assertion,
  \<open>abort\<close> or an access out of range.
\<close>

definition POWER_SMALLEST :: nat where "POWER_SMALLEST = 1"
definition POWER_LARGEST :: nat where "POWER_LARGEST = 200"
definition CHUNK_ALIGN_BYTES :: nat where "CHUNK_ALIGN_BYTES = 8"
definition MAX_NUMBER_OF_SLAB_CLASSES :: nat where "MAX_NUMBER_OF_SLAB_CLASSES = POWER_LARGEST + 1"

text \<open>\<open>slots\<close> holds the entries below \<open>sl_curr\<close>, \<open>slab_list\<close> those below \<open>slabs\<close>.\<close>

record slabclass =
  sc_size :: nat
  perslab :: nat
  sl_slots :: "addr list"
  sl_total :: nat
  end_page_ptr :: addr
  end_page_free :: nat
  slab_list :: "addr list"
  list_size :: nat
  requested :: u64

record slabs =
  slabclass :: "nat \<Rightarrow> slabclass"
  mem_limit :: nat
  mem_malloced :: nat
  power_largest :: nat
  mem_base :: addr
  mem_current :: addr
  mem_avail :: nat
  blocks :: "(addr \<times> nat) list"
  sys_malloc :: "(addr \<times> nat) list \<Rightarrow> nat \<Rightarrow> addr"
  realloc_ok :: "nat \<Rightarrow> bool"

definition set_class :: "nat \<Rightarrow> slabclass \<Rightarrow> slabs \<Rightarrow> slabs" where
  "set_class i p sl = sl\<lparr> slabclass := (slabclass sl)(i := p) \<rparr>"

subsection \<open>Classes\<close>

function clsid_loop :: "slabs \<Rightarrow> nat \<Rightarrow> nat \<Rightarrow> nat option" where
  "clsid_loop sl n res =
     (if MAX_NUMBER_OF_SLAB_CLASSES \<le> res then None
      else if sc_size (slabclass sl res) < n then (if res = power_largest sl then Some 0 else clsid_loop sl n (res + 1))
      else Some res)"
  by pat_completeness auto
termination by (relation "measure (\<lambda>(_, _, res). MAX_NUMBER_OF_SLAB_CLASSES - res)") auto

declare clsid_loop.simps [simp del]

definition slabs_clsid :: "slabs \<Rightarrow> nat \<Rightarrow> nat option" where
  "slabs_clsid sl n = (if n = 0 then Some 0 else clsid_loop sl n POWER_SMALLEST)"

definition chunk_align :: "nat \<Rightarrow> nat" where
  "chunk_align n = (if n mod CHUNK_ALIGN_BYTES \<noteq> 0 then n + (CHUNK_ALIGN_BYTES - n mod CHUNK_ALIGN_BYTES) else n)"

text \<open>
  \<open>slabs_init\<close>. The arithmetic with the floating-point growth factor is a parameter:
  \<open>small n\<close> is \<open>n <= item_size_max / factor\<close> and \<open>scaled n\<close> is \<open>n * factor\<close> converted back.
\<close>

definition empty_class :: slabclass where
  "empty_class = \<lparr> sc_size = 0, perslab = 0, sl_slots = [], sl_total = 0, end_page_ptr = NULL, end_page_free = 0, slab_list = [],
     list_size = 0, requested = 0 \<rparr>"

function init_classes :: "(nat \<Rightarrow> bool) \<Rightarrow> (nat \<Rightarrow> nat) \<Rightarrow> nat \<Rightarrow> nat \<Rightarrow> nat \<Rightarrow> (nat \<Rightarrow> slabclass) \<Rightarrow> nat \<times> (nat \<Rightarrow> slabclass)" where
  "init_classes small scaled item_size_max i n cs =
     (if i < POWER_LARGEST \<and> small n
      then let n = chunk_align n in
        init_classes small scaled item_size_max (i + 1) (scaled n) (cs(i := (cs i)\<lparr> sc_size := n, perslab := item_size_max div n \<rparr>))
      else (i, cs(i := (cs i)\<lparr> sc_size := item_size_max, perslab := 1 \<rparr>)))"
  by pat_completeness auto
termination by (relation "measure (\<lambda>(_, _, _, i, _). POWER_LARGEST - i)") auto

declare init_classes.simps [simp del]

definition slabs_init :: "(nat \<Rightarrow> bool) \<Rightarrow> (nat \<Rightarrow> nat) \<Rightarrow> nat \<Rightarrow> nat \<Rightarrow> nat option \<Rightarrow> nat \<Rightarrow> bool \<Rightarrow> slabs \<Rightarrow> slabs" where
  "slabs_init small scaled chunk_size item_size_max t_initial_malloc limit prealloc sl =
     (let sl = sl\<lparr> mem_limit := limit \<rparr>;
          base = sys_malloc sl (blocks sl) limit;
          sl = (if prealloc then (let sl = sl\<lparr> mem_base := base \<rparr> in
                  if base \<noteq> NULL then sl\<lparr> mem_current := base, mem_avail := limit \<rparr> else sl)
                else sl);
          (i, cs) = init_classes small scaled item_size_max POWER_SMALLEST (SIZEOF_ITEM + chunk_size) (\<lambda>_. empty_class);
          sl = sl\<lparr> slabclass := cs, power_largest := i \<rparr>
      in case t_initial_malloc of None \<Rightarrow> sl | Some n \<Rightarrow> sl\<lparr> mem_malloced := n \<rparr>)"

subsection \<open>Pages\<close>

definition grow_slab_list :: "nat \<Rightarrow> slabs \<Rightarrow> bool \<times> slabs" where
  "grow_slab_list i sl = (let p = slabclass sl i in
     if length (slab_list p) = list_size p
     then let new_size = (if list_size p \<noteq> 0 then list_size p * 2 else 16) in
       if realloc_ok sl new_size then (True, set_class i (p\<lparr> list_size := new_size \<rparr>) sl) else (False, sl)
     else (True, sl))"

definition memory_allocate :: "nat \<Rightarrow> slabs \<Rightarrow> addr \<times> slabs" where
  "memory_allocate n sl =
     (if mem_base sl = NULL
      then let a = sys_malloc sl (blocks sl) n in
        (a, if a = NULL then sl else sl\<lparr> blocks := (a, n) # blocks sl \<rparr>)
      else if mem_avail sl < n then (NULL, sl)
      else let a = mem_current sl; m = chunk_align n in
        (a, sl\<lparr> mem_current := mem_current sl + m, mem_avail := (if m < mem_avail sl then mem_avail sl - m else 0),
           blocks := (a, n) # blocks sl \<rparr>))"

definition clear_page :: "addr \<Rightarrow> slabclass \<Rightarrow> item heap \<Rightarrow> item heap" where
  "clear_page ptr p h = foldl (\<lambda>h i. upd h (ptr + i * sc_size p) zero_item) h [0..<perslab p]"

definition do_slabs_newslab :: "nat \<Rightarrow> slabs \<Rightarrow> item heap \<Rightarrow> bool \<times> slabs \<times> item heap" where
  "do_slabs_newslab i sl h =
     (let p = slabclass sl i; len = sc_size p * perslab p in
      if mem_limit sl \<noteq> 0 \<and> mem_limit sl < mem_malloced sl + len \<and> slab_list p \<noteq> [] then (False, sl, h)
      else let (grown, sl1) = grow_slab_list i sl in
        if \<not> grown then (False, sl1, h)
        else let (ptr, sl2) = memory_allocate len sl1 in
          if ptr = NULL then (False, sl2, h)
          else let p = slabclass sl2 i;
                   p = p\<lparr> end_page_ptr := ptr, end_page_free := perslab p, slab_list := slab_list p @ [ptr] \<rparr>;
                   sl3 = set_class i p sl2
               in (True, sl3\<lparr> mem_malloced := mem_malloced sl3 + len \<rparr>, clear_page ptr p h))"

subsection \<open>Chunks\<close>

definition slots_top_ok :: "slabclass \<Rightarrow> item heap \<Rightarrow> bool" where
  "slots_top_ok p h \<longleftrightarrow> sl_slots p = [] \<or> (case load h (last (sl_slots p)) of None \<Rightarrow> False | Some it \<Rightarrow> it_clsid it = 0)"

definition do_slabs_alloc :: "nat \<Rightarrow> nat \<Rightarrow> slabs \<Rightarrow> item heap \<Rightarrow> (addr \<times> slabs \<times> item heap) option" where
  "do_slabs_alloc n i sl h =
     (if i < POWER_SMALLEST \<or> power_largest sl < i then Some (NULL, sl, h)
      else let p = slabclass sl i in
        if \<not> slots_top_ok p h then None
        else let (ok, sl1, h1) = (if end_page_ptr p \<noteq> NULL \<or> sl_slots p \<noteq> [] then (True, sl, h) else do_slabs_newslab i sl h);
                 p = slabclass sl1 i in
          if \<not> ok then Some (NULL, sl1, h1)
          else if sl_slots p \<noteq> []
          then Some (last (sl_slots p), set_class i (p\<lparr> sl_slots := butlast (sl_slots p), requested := requested p + of_nat n \<rparr>) sl1, h1)
          else if end_page_ptr p = NULL then None
          else Some (end_page_ptr p,
            set_class i (p\<lparr> end_page_free := (if end_page_free p = 0 then 2 ^ 32 - 1 else end_page_free p - 1),
              end_page_ptr := (if end_page_free p \<noteq> 1 then end_page_ptr p + sc_size p else NULL),
              requested := requested p + of_nat n \<rparr>) sl1, h1))"

definition do_slabs_free :: "addr \<Rightarrow> nat \<Rightarrow> nat \<Rightarrow> slabs \<Rightarrow> item heap \<Rightarrow> slabs option" where
  "do_slabs_free ptr n i sl h = do {
     it \<leftarrow> load h ptr;
     if it_clsid it \<noteq> 0 \<or> i < POWER_SMALLEST \<or> power_largest sl < i then None
     else let p = slabclass sl i;
              full = (length (sl_slots p) = sl_total p);
              new_size = (if sl_total p \<noteq> 0 then sl_total p * 2 else 16) in
       if full \<and> \<not> realloc_ok sl new_size then Some sl
       else Some (set_class i (p\<lparr> sl_total := (if full then new_size else sl_total p), sl_slots := sl_slots p @ [ptr],
              requested := requested p - of_nat n \<rparr>) sl) }"

definition slabs_adjust_mem_requested :: "nat \<Rightarrow> nat \<Rightarrow> nat \<Rightarrow> slabs \<Rightarrow> slabs option" where
  "slabs_adjust_mem_requested i old ntotal sl =
     (if i < POWER_SMALLEST \<or> power_largest sl < i then None
      else let p = slabclass sl i in Some (set_class i (p\<lparr> requested := requested p - of_nat old + of_nat ntotal \<rparr>) sl))"

subsection \<open>The class of a size\<close>

definition fits_first :: "slabs \<Rightarrow> nat \<Rightarrow> nat \<Rightarrow> nat \<Rightarrow> bool" where
  "fits_first sl n res i \<longleftrightarrow>
     (if i = 0 then (\<forall>j. res \<le> j \<and> j \<le> power_largest sl \<longrightarrow> sc_size (slabclass sl j) < n)
      else res \<le> i \<and> i \<le> power_largest sl \<and> n \<le> sc_size (slabclass sl i) \<and> (\<forall>j. res \<le> j \<and> j < i \<longrightarrow> sc_size (slabclass sl j) < n))"

lemma fits_first_Suc:
  assumes "fits_first sl n (Suc res) i" "sc_size (slabclass sl res) < n"
  shows "fits_first sl n res i"
proof -
  have "sc_size (slabclass sl j) < n" if "res \<le> j" "Suc res \<le> j \<Longrightarrow> sc_size (slabclass sl j) < n" for j
    using that assms(2) by (cases "j = res") auto
  with assms(1) show ?thesis unfolding fits_first_def by (simp split: if_splits) blast+
qed

lemma clsid_loop_spec:
  assumes "0 < res" "res \<le> power_largest sl" "power_largest sl \<le> POWER_LARGEST"
  shows "\<exists>i. clsid_loop sl n res = Some i \<and> fits_first sl n res i"
  using assms
proof (induction "power_largest sl - res" arbitrary: res)
  case 0
  then show ?case by (subst clsid_loop.simps) (auto simp: MAX_NUMBER_OF_SLAB_CLASSES_def fits_first_def)
next
  case (Suc d)
  show ?case
  proof (cases "sc_size (slabclass sl res) < n")
    case True
    from Suc have r: "res < power_largest sl" by simp
    have d: "d = power_largest sl - Suc res" using Suc.hyps(2) by simp
    from Suc.hyps(1) [OF d] r Suc.prems obtain i where i: "clsid_loop sl n (Suc res) = Some i" "fits_first sl n (Suc res) i"
      by auto
    then have "clsid_loop sl n res = Some i"
      using True r Suc.prems by (subst clsid_loop.simps) (simp add: MAX_NUMBER_OF_SLAB_CLASSES_def)
    with fits_first_Suc [OF i(2) True] show ?thesis by blast
  next
    case False
    then show ?thesis using Suc.prems by (subst clsid_loop.simps) (auto simp: MAX_NUMBER_OF_SLAB_CLASSES_def fits_first_def)
  qed
qed

text \<open>
  \<open>slabs_clsid\<close> always returns. It returns the first class whose chunks are large enough, and 0
  exactly for size 0 and for sizes that no class can hold; it reads only existing classes.
\<close>

theorem slabs_clsid_first_fit:
  assumes "1 \<le> power_largest sl" "power_largest sl \<le> POWER_LARGEST"
  shows "\<exists>i. slabs_clsid sl n = Some i \<and>
    (if i = 0 then n = 0 \<or> (\<forall>j \<in> {1..power_largest sl}. sc_size (slabclass sl j) < n)
     else 0 < n \<and> i \<le> power_largest sl \<and> n \<le> sc_size (slabclass sl i) \<and> (\<forall>j \<in> {1..<i}. sc_size (slabclass sl j) < n))"
proof (cases "n = 0")
  case False
  from clsid_loop_spec [of 1 sl n] assms obtain i where "clsid_loop sl n 1 = Some i" "fits_first sl n 1 i" by auto
  with False show ?thesis by (auto simp: slabs_clsid_def POWER_SMALLEST_def fits_first_def split: if_splits)
qed (simp add: slabs_clsid_def)

subsection \<open>Blocks and chunks\<close>

definition block_disjoint :: "addr \<times> nat \<Rightarrow> addr \<times> nat \<Rightarrow> bool" where
  "block_disjoint b c \<longleftrightarrow> fst b + snd b \<le> fst c \<or> fst c + snd c \<le> fst b"

lemma block_disjoint_sym: "block_disjoint b c \<longleftrightarrow> block_disjoint c b"
  by (auto simp: block_disjoint_def)

definition chunks :: "slabclass \<Rightarrow> addr set" where
  "chunks p = {pg + k * sc_size p | pg k. pg \<in> set (slab_list p) \<and> k < perslab p}"

definition page_rest :: "slabclass \<Rightarrow> addr set" where
  "page_rest p = {end_page_ptr p + k * sc_size p | k. k < end_page_free p}"

definition page_len :: "slabclass \<Rightarrow> nat" where
  "page_len p = sc_size p * perslab p"

text \<open>
  A class with the chunks \<open>U\<close> in use: the free list, the rest of the newest page and the chunks in
  use are disjoint sets of chunks; free chunks carry the class id 0.
\<close>

definition class_inv :: "slabclass \<Rightarrow> item heap \<Rightarrow> addr set \<Rightarrow> bool" where
  "class_inv p h U \<longleftrightarrow> 0 < sc_size p \<and> 0 < perslab p \<and> distinct (slab_list p) \<and> distinct (sl_slots p) \<and>
     set (sl_slots p) \<union> page_rest p \<union> U \<subseteq> chunks p \<and>
     set (sl_slots p) \<inter> page_rest p = {} \<and> set (sl_slots p) \<inter> U = {} \<and> page_rest p \<inter> U = {} \<and>
     (end_page_ptr p = NULL \<longleftrightarrow> end_page_free p = 0) \<and> NULL \<notin> chunks p \<and>
     (\<forall>c \<in> chunks p. load h c \<noteq> None) \<and> (\<forall>c \<in> set (sl_slots p) \<union> page_rest p. it_clsid (the (load h c)) = 0)"

definition memory_inv :: "slabs \<Rightarrow> bool" where
  "memory_inv sl \<longleftrightarrow> sorted_wrt block_disjoint (blocks sl) \<and> (\<forall>b \<in> set (blocks sl). fst b \<noteq> NULL \<and> 0 < snd b) \<and>
     (if mem_base sl = NULL
      then \<forall>bs n. sys_malloc sl bs n = NULL \<or> (\<forall>b \<in> set bs. block_disjoint (sys_malloc sl bs n, n) b)
      else mem_current sl \<noteq> NULL \<and> (\<forall>b \<in> set (blocks sl). fst b + snd b \<le> mem_current sl))"

abbreviation classes :: "slabs \<Rightarrow> nat set" where
  "classes sl \<equiv> {POWER_SMALLEST..power_largest sl}"

definition slabs_inv :: "slabs \<Rightarrow> item heap \<Rightarrow> (nat \<Rightarrow> addr set) \<Rightarrow> bool" where
  "slabs_inv sl h U \<longleftrightarrow> memory_inv sl \<and> (\<forall>i \<in> classes sl. class_inv (slabclass sl i) h (U i)) \<and>
     (\<forall>i \<in> classes sl. \<forall>pg \<in> set (slab_list (slabclass sl i)). (pg, page_len (slabclass sl i)) \<in> set (blocks sl)) \<and>
     (\<forall>i \<in> classes sl. \<forall>j \<in> classes sl. i \<noteq> j \<longrightarrow> set (slab_list (slabclass sl i)) \<inter> set (slab_list (slabclass sl j)) = {})"

lemma blocks_disjoint:
  assumes "memory_inv sl" "b \<in> set (blocks sl)" "c \<in> set (blocks sl)" "fst b \<noteq> fst c"
  shows "block_disjoint b c"
proof -
  obtain m n where mn: "m < length (blocks sl)" "n < length (blocks sl)" "b = blocks sl ! m" "c = blocks sl ! n"
    using assms(2,3) by (metis in_set_conv_nth)
  moreover have "m \<noteq> n" using assms(4) mn by auto
  ultimately show ?thesis using assms(1) block_disjoint_sym [of b c] unfolding memory_inv_def sorted_wrt_iff_nth_less
    by (metis linorder_neqE_nat)
qed

lemma chunk_in_page: "k < perslab p \<Longrightarrow> k * sc_size p + sc_size p \<le> page_len p"
  unfolding page_len_def by (metis Suc_leI add.commute mult.commute mult_Suc mult_le_mono2)

lemma chunks_apart: "j \<noteq> k \<Longrightarrow> j * n + n \<le> k * n \<or> k * n + n \<le> j * (n :: nat)"
  by (metis Suc_leI add.commute linorder_neqE_nat mult_Suc mult_le_mono1)

text \<open>Two different chunks, of whatever classes, have no byte in common.\<close>

lemma chunks_disjoint:
  assumes inv: "slabs_inv sl h U" and i: "i \<in> classes sl" "c \<in> chunks (slabclass sl i)"
    and j: "j \<in> classes sl" "d \<in> chunks (slabclass sl j)" and ne: "c \<noteq> d \<or> i \<noteq> j"
  shows "block_disjoint (c, sc_size (slabclass sl i)) (d, sc_size (slabclass sl j))"
proof -
  let ?p = "slabclass sl i" and ?q = "slabclass sl j"
  obtain pg k where c: "pg \<in> set (slab_list ?p)" "k < perslab ?p" "c = pg + k * sc_size ?p" using i(2) by (auto simp: chunks_def)
  obtain qg l where d: "qg \<in> set (slab_list ?q)" "l < perslab ?q" "d = qg + l * sc_size ?q" using j(2) by (auto simp: chunks_def)
  show ?thesis
  proof (cases "pg = qg")
    case True
    then have "i = j" using inv i(1) j(1) c(1) d(1) unfolding slabs_inv_def by blast
    with True c d ne have "k \<noteq> l" by auto
    from chunks_apart [OF this, of "sc_size ?p"] show ?thesis using c d True \<open>i = j\<close> by (auto simp: block_disjoint_def)
  next
    case False
    have "(pg, page_len ?p) \<in> set (blocks sl)" "(qg, page_len ?q) \<in> set (blocks sl)" "memory_inv sl"
      using inv i(1) j(1) c(1) d(1) by (auto simp: slabs_inv_def)
    with False blocks_disjoint [of sl "(pg, page_len ?p)" "(qg, page_len ?q)"] have "block_disjoint (pg, page_len ?p) (qg, page_len ?q)" by simp
    with chunk_in_page [OF c(2)] chunk_in_page [OF d(2)] c(3) d(3) show ?thesis by (auto simp: block_disjoint_def)
  qed
qed

subsection \<open>A new page\<close>

lemma chunk_align_ge: "n \<le> chunk_align n"
  by (simp add: chunk_align_def)

lemma memory_allocate_spec:
  assumes inv: "memory_inv sl" and n: "0 < n" and a: "memory_allocate n sl = (a, sl')"
  shows "memory_inv sl'" "slabclass sl' = slabclass sl" "power_largest sl' = power_largest sl" "realloc_ok sl' = realloc_ok sl"
    "a = NULL \<Longrightarrow> sl' = sl"
    "a \<noteq> NULL \<Longrightarrow> blocks sl' = (a, n) # blocks sl \<and> (\<forall>b \<in> set (blocks sl). block_disjoint (a, n) b)"
proof -
  show "slabclass sl' = slabclass sl" "power_largest sl' = power_largest sl" "realloc_ok sl' = realloc_ok sl" "a = NULL \<Longrightarrow> sl' = sl"
    using a inv by (auto simp: memory_allocate_def memory_inv_def Let_def split: if_splits)
  have "memory_inv sl' \<and> (a \<noteq> NULL \<longrightarrow> blocks sl' = (a, n) # blocks sl \<and> (\<forall>b \<in> set (blocks sl). block_disjoint (a, n) b))"
  proof (cases "mem_base sl = NULL")
    case True
    then have "a = sys_malloc sl (blocks sl) n" "sl' = (if a = NULL then sl else sl\<lparr> blocks := (a, n) # blocks sl \<rparr>)"
      using a by (auto simp: memory_allocate_def Let_def)
    moreover have "\<forall>b \<in> set (blocks sl). block_disjoint (a, n) b" if "a \<noteq> NULL"
      using inv True that calculation(1) unfolding memory_inv_def by metis
    ultimately show ?thesis using inv True n unfolding memory_inv_def by (cases "a = NULL") simp_all
  next
    case False
    then have I: "mem_current sl \<noteq> NULL" "\<forall>b \<in> set (blocks sl). fst b + snd b \<le> mem_current sl" using inv by (auto simp: memory_inv_def)
    show ?thesis
    proof (cases "mem_avail sl < n")
      case True
      then have "a = NULL" "sl' = sl" using a False by (simp_all add: memory_allocate_def)
      with inv show ?thesis by simp
    next
      case noavail: False
      then have sl': "a = mem_current sl" "blocks sl' = (a, n) # blocks sl" "mem_current sl' = mem_current sl + chunk_align n"
        "mem_base sl' = mem_base sl" using a False by (auto simp: memory_allocate_def Let_def)
      have d: "\<forall>b \<in> set (blocks sl). block_disjoint (a, n) b" using I(2) by (auto simp: sl'(1) block_disjoint_def)
      moreover have "memory_inv sl'"
        unfolding memory_inv_def using inv I d n False sl' chunk_align_ge [of n] by (auto simp: memory_inv_def)
      ultimately show ?thesis using sl'(2) by simp
    qed
  qed
  then show "memory_inv sl'" "a \<noteq> NULL \<Longrightarrow> blocks sl' = (a, n) # blocks sl \<and> (\<forall>b \<in> set (blocks sl). block_disjoint (a, n) b)" by auto
qed

lemma load_clear_page:
  assumes "ptr \<noteq> NULL"
  shows "load (clear_page ptr p h) x = (if \<exists>k < perslab p. x = ptr + k * sc_size p then Some zero_item else load h x)"
proof -
  have "load (foldl (\<lambda>h i. upd h (ptr + i * sc_size p) zero_item) h [0..<n]) x =
      (if \<exists>k < n. x = ptr + k * sc_size p then Some zero_item else load h x)" for n
    using assms by (induction n) (auto simp: heap_simps less_Suc_eq)
  then show ?thesis by (simp add: clear_page_def)
qed

text \<open>What the operations of a class keep: the geometry of all classes and the contents of the chunks.\<close>

definition same_geometry :: "slabs \<Rightarrow> slabs \<Rightarrow> bool" where
  "same_geometry sl sl' \<longleftrightarrow> power_largest sl' = power_largest sl \<and>
     (\<forall>j. sc_size (slabclass sl' j) = sc_size (slabclass sl j) \<and> perslab (slabclass sl' j) = perslab (slabclass sl j) \<and>
       set (slab_list (slabclass sl j)) \<subseteq> set (slab_list (slabclass sl' j)))"

lemma same_geometry_refl [simp]: "same_geometry sl sl"
  by (simp add: same_geometry_def)

lemma same_geometry_trans: "same_geometry sl sl1 \<Longrightarrow> same_geometry sl1 sl2 \<Longrightarrow> same_geometry sl sl2"
  unfolding same_geometry_def by (metis subset_trans)

lemma slabs_inv_list_size:
  assumes "slabs_inv sl h U"
  shows "slabs_inv (set_class i ((slabclass sl i)\<lparr> list_size := m \<rparr>) sl) h U"
proof -
  have "class_inv (p\<lparr> list_size := m \<rparr>) h V = class_inv p h V" "page_len (p\<lparr> list_size := m \<rparr>) = page_len p" for p V
    by (simp_all add: class_inv_def chunks_def page_rest_def page_len_def)
  then show ?thesis using assms unfolding slabs_inv_def by (simp add: set_class_def memory_inv_def)
qed

lemma chunk_outside:
  assumes inv: "slabs_inv sl h U" and j: "j \<in> classes sl" "c \<in> chunks (slabclass sl j)"
    and new: "\<forall>b \<in> set (blocks sl). block_disjoint (ptr, page_len p) b" and k: "k < perslab p" "0 < sc_size p"
  shows "c \<noteq> ptr + k * sc_size p"
proof
  assume eq: "c = ptr + k * sc_size p"
  obtain pg m where c: "pg \<in> set (slab_list (slabclass sl j))" "m < perslab (slabclass sl j)" "c = pg + m * sc_size (slabclass sl j)"
    using j(2) by (auto simp: chunks_def)
  have "(pg, page_len (slabclass sl j)) \<in> set (blocks sl)" using inv j(1) c(1) by (simp add: slabs_inv_def)
  with new have "block_disjoint (ptr, page_len p) (pg, page_len (slabclass sl j))" by blast
  moreover have "0 < sc_size (slabclass sl j)" using inv j(1) by (simp add: slabs_inv_def class_inv_def)
  ultimately show False using chunk_in_page [OF k(1)] chunk_in_page [OF c(2)] c(3) eq k(2)
    by (auto simp: block_disjoint_def)
qed

lemma add_page:
  assumes inv: "slabs_inv sl h U" and i: "i \<in> classes sl" and p: "p = slabclass sl i" "sl_slots p = []" "end_page_free p = 0"
    and sl2: "memory_inv sl2" "slabclass sl2 = slabclass sl" "power_largest sl2 = power_largest sl" "blocks sl2 = (ptr, page_len p) # blocks sl"
    and ptr: "ptr \<noteq> NULL" "\<forall>b \<in> set (blocks sl). block_disjoint (ptr, page_len p) b"
    and p': "p' = p\<lparr> end_page_ptr := ptr, end_page_free := perslab p, slab_list := slab_list p @ [ptr] \<rparr>"
  shows "slabs_inv (set_class i p' sl2) (clear_page ptr p' h) U"
    "j \<in> classes sl \<Longrightarrow> c \<in> chunks (slabclass sl j) \<Longrightarrow> load (clear_page ptr p' h) c = load h c"
proof -
  let ?h = "clear_page ptr p' h" and ?sl = "set_class i p' sl2"
  have geo: "sc_size p' = sc_size p" "perslab p' = perslab p" "page_len p' = page_len p" by (simp_all add: p' page_len_def)
  have ci: "class_inv p h (U i)" using inv i p(1) by (simp add: slabs_inv_def)
  then have "0 < sc_size p" by (simp add: class_inv_def)
  note out = chunk_outside [OF inv _ _ ptr(2) _ this]
  have load': "load ?h x = (if \<exists>k < perslab p. x = ptr + k * sc_size p then Some zero_item else load h x)" for x
    using load_clear_page [OF ptr(1), of p' h x] by (simp add: geo)
  show keep: "load ?h c = load h c" if "j \<in> classes sl" "c \<in> chunks (slabclass sl j)" for j c
    using out [OF that] load' [of c] by auto
  have none: "sl_slots p' = []" by (simp add: p' p(2))
  have ch: "chunks p' = chunks p \<union> page_rest p'" by (auto simp: chunks_def page_rest_def p' geo)
  have rest: "page_rest p' = {ptr + k * sc_size p | k. k < perslab p}" by (auto simp: page_rest_def p')
  have ptr_new: "ptr \<notin> set (slab_list (slabclass sl j))" if "j \<in> classes sl" for j
  proof
    assume x: "ptr \<in> set (slab_list (slabclass sl j))"
    have "class_inv (slabclass sl j) h (U j)" using inv that by (simp add: slabs_inv_def)
    then have "ptr \<in> chunks (slabclass sl j)" using x by (force simp: chunks_def class_inv_def)
    then show False using out [OF that, of ptr 0] ci by (simp add: class_inv_def)
  qed
  have disj: "chunks p \<inter> page_rest p' = {}" using out [OF i] unfolding rest p(1) by blast
  have "class_inv p' ?h (U i)"
    unfolding class_inv_def
  proof (intro conjI)
    show "distinct (slab_list p')" using ci ptr_new [OF i] by (simp add: p' class_inv_def p(1))
    show "set (sl_slots p') \<union> page_rest p' \<union> U i \<subseteq> chunks p'" using ci none by (auto simp: ch class_inv_def)
    show "page_rest p' \<inter> U i = {}" using ci disj unfolding class_inv_def by blast
    show "end_page_ptr p' = NULL \<longleftrightarrow> end_page_free p' = 0" using ptr(1) ci by (simp add: p' class_inv_def)
    show "NULL \<notin> chunks p'" using ci ptr(1) by (auto simp: ch rest class_inv_def)
    show "\<forall>c \<in> chunks p'. load ?h c \<noteq> None" using ci by (auto simp: ch rest load' class_inv_def)
    show "\<forall>c \<in> set (sl_slots p') \<union> page_rest p'. it_clsid (the (load ?h c)) = 0"
      by (auto simp: none rest load' zero_item_def)
    show "0 < sc_size p'" "0 < perslab p'" using ci by (simp_all add: geo class_inv_def)
  qed (simp_all add: none)
  moreover have "class_inv (slabclass sl j) ?h (U j)" if "j \<in> classes sl" for j
  proof -
    have cj: "class_inv (slabclass sl j) h (U j)" using inv that by (simp add: slabs_inv_def)
    have "load ?h c = load h c" if "c \<in> chunks (slabclass sl j)" for c by (rule keep [OF \<open>j \<in> classes sl\<close> that])
    moreover have "set (sl_slots (slabclass sl j)) \<union> page_rest (slabclass sl j) \<subseteq> chunks (slabclass sl j)"
      using cj by (simp add: class_inv_def)
    ultimately show ?thesis using cj unfolding class_inv_def by (metis (no_types, lifting) subsetD)
  qed
  ultimately have cls: "\<forall>j \<in> classes ?sl. class_inv (slabclass ?sl j) ?h (U j)"
    using sl2(2,3) by (simp add: set_class_def)
  have pages: "\<forall>j \<in> classes ?sl. \<forall>pg \<in> set (slab_list (slabclass ?sl j)). (pg, page_len (slabclass ?sl j)) \<in> set (blocks ?sl)"
    using inv sl2(2-4) i p(1) geo unfolding slabs_inv_def by (auto simp: set_class_def p')
  have sep: "\<forall>j \<in> classes ?sl. \<forall>k \<in> classes ?sl. j \<noteq> k \<longrightarrow> set (slab_list (slabclass ?sl j)) \<inter> set (slab_list (slabclass ?sl k)) = {}"
    using inv sl2(2,3) ptr_new p(1) i unfolding slabs_inv_def by (auto simp: set_class_def p')
  have "memory_inv ?sl" using sl2(1) by (simp add: memory_inv_def set_class_def)
  with cls pages sep show "slabs_inv ?sl ?h U" unfolding slabs_inv_def by blast
qed

text \<open>The chunks that a heap and a later heap agree on.\<close>

definition chunks_kept :: "slabs \<Rightarrow> item heap \<Rightarrow> item heap \<Rightarrow> bool" where
  "chunks_kept sl h h' \<longleftrightarrow> (\<forall>j \<in> classes sl. \<forall>c \<in> chunks (slabclass sl j). load h' c = load h c)"

lemma chunks_kept_refl [simp]: "chunks_kept sl h h"
  by (simp add: chunks_kept_def)

lemma slabs_inv_class: "slabs_inv sl h U \<Longrightarrow> i \<in> classes sl \<Longrightarrow> class_inv (slabclass sl i) h (U i)"
  by (simp add: slabs_inv_def)

lemma slabs_inv_malloced: "slabs_inv (sl\<lparr> mem_malloced := m \<rparr>) h U = slabs_inv sl h U"
  by (simp add: slabs_inv_def memory_inv_def)

lemma grow_slab_list_spec:
  assumes "slabs_inv sl h U" "grow_slab_list i sl = (ok, sl1)"
  shows "slabs_inv sl1 h U" "slabclass sl1 i = (slabclass sl i)\<lparr> list_size := list_size (slabclass sl1 i) \<rparr>"
    "j \<noteq> i \<Longrightarrow> slabclass sl1 j = slabclass sl j" "power_largest sl1 = power_largest sl"
  using assms slabs_inv_list_size [OF assms(1)] by (auto simp: grow_slab_list_def Let_def set_class_def split: if_splits)

lemma newslab_spec:
  assumes inv: "slabs_inv sl h U" and i: "i \<in> classes sl" and empty: "sl_slots (slabclass sl i) = []" "end_page_ptr (slabclass sl i) = NULL"
    and new: "do_slabs_newslab i sl h = (ok, sl', h')"
  shows "slabs_inv sl' h' U" "same_geometry sl sl'" "chunks_kept sl h h'" "sl_slots (slabclass sl' i) = []"
    "ok \<longleftrightarrow> end_page_ptr (slabclass sl' i) \<noteq> NULL"
proof -
  let ?len = "page_len (slabclass sl i)"
  obtain grown sl1 where g: "grow_slab_list i sl = (grown, sl1)" by (cases "grow_slab_list i sl")
  note G = grow_slab_list_spec [OF inv g]
  obtain ptr sl2 where m: "memory_allocate ?len sl1 = (ptr, sl2)" by (cases "memory_allocate ?len sl1")
  have ci: "class_inv (slabclass sl i) h (U i)" by (rule slabs_inv_class [OF inv i])
  then have len: "0 < ?len" by (simp add: class_inv_def page_len_def)
  have "memory_inv sl1" using G(1) by (simp add: slabs_inv_def)
  note M = memory_allocate_spec [OF this len m]
  define p where "p = slabclass sl1 i"
  obtain m1 where m1: "slabclass sl1 i = (slabclass sl i)\<lparr> list_size := m1 \<rparr>" using G(2) by blast
  have p: "p = slabclass sl1 i" "sl_slots p = []" "end_page_ptr p = NULL" "end_page_free p = 0" "page_len p = ?len"
      "sc_size p = sc_size (slabclass sl i)" "perslab p = perslab (slabclass sl i)" "slab_list p = slab_list (slabclass sl i)"
    using m1 empty ci unfolding p_def by (simp_all add: class_inv_def page_len_def)
  have sg1: "same_geometry sl sl1" unfolding same_geometry_def
    using G(3,4) p(6-8) p_def by (metis order_refl)
  have ck: "chunks (slabclass sl1 j) = chunks (slabclass sl j)" for j
    using G(3) [of j] p by (cases "j = i") (simp_all add: chunks_def)
  let ?p' = "p\<lparr> end_page_ptr := ptr, end_page_free := perslab p, slab_list := slab_list p @ [ptr] \<rparr>"
  let ?sl' = "(set_class i ?p' sl2)\<lparr> mem_malloced := mem_malloced sl2 + ?len \<rparr>"
  have "do_slabs_newslab i sl h =
     (if mem_limit sl \<noteq> 0 \<and> mem_limit sl < mem_malloced sl + ?len \<and> slab_list (slabclass sl i) \<noteq> [] then (False, sl, h)
      else if \<not> grown then (False, sl1, h) else if ptr = NULL then (False, sl2, h) else (True, ?sl', clear_page ptr ?p' h))"
    unfolding do_slabs_newslab_def Let_def page_len_def [symmetric] g by (simp add: m p(1) M(2) set_class_def)
  then consider "\<not> ok" "sl' = sl \<or> sl' = sl1 \<or> ptr = NULL \<and> sl' = sl2" "h' = h"
    | (full) "ok" "ptr \<noteq> NULL" "sl' = ?sl'" "h' = clear_page ptr ?p' h"
    using new by (simp split: if_splits)
  then have "slabs_inv sl' h' U \<and> same_geometry sl sl' \<and> chunks_kept sl h h' \<and> sl_slots (slabclass sl' i) = [] \<and>
      (ok \<longleftrightarrow> end_page_ptr (slabclass sl' i) \<noteq> NULL)"
  proof cases
    case 1
    then have "sl' = sl \<or> sl' = sl1" using M(5) by blast
    then show ?thesis using 1 inv G(1) sg1 empty p(1-3) by auto
  next
    case full
    have i1: "i \<in> classes sl1" using i G(4) by simp
    have b: "blocks sl2 = (ptr, page_len p) # blocks sl1" "\<forall>b \<in> set (blocks sl1). block_disjoint (ptr, page_len p) b"
      using M(6) full(2) p(5) by simp_all
    note A = add_page [OF G(1) i1 p(1,2,4) M(1,2,3) b(1) full(2) b(2) refl]
    have "chunks_kept sl h h'" unfolding chunks_kept_def full(4) using A(2) G(4) ck by simp
    moreover have "same_geometry sl1 sl'" unfolding full(3) same_geometry_def using M(2,3) p(1) by (auto simp: set_class_def)
    ultimately show ?thesis using full A(1) same_geometry_trans [OF sg1] p(2) by (simp add: slabs_inv_malloced set_class_def)
  qed
  then show "slabs_inv sl' h' U" "same_geometry sl sl'" "chunks_kept sl h h'" "sl_slots (slabclass sl' i) = []"
    "ok \<longleftrightarrow> end_page_ptr (slabclass sl' i) \<noteq> NULL" by blast+
qed

subsection \<open>Allocation and release\<close>

text \<open>An operation on one class that leaves its pages alone.\<close>

lemma slabs_inv_set_class:
  assumes "slabs_inv sl h U" "sc_size p = sc_size (slabclass sl i)" "perslab p = perslab (slabclass sl i)"
    "slab_list p = slab_list (slabclass sl i)" "i \<in> classes sl \<Longrightarrow> class_inv p h V"
  shows "slabs_inv (set_class i p sl) h (U(i := V))" "same_geometry sl (set_class i p sl)"
proof -
  have "page_len p = page_len (slabclass sl i)" using assms by (simp add: page_len_def)
  then show "slabs_inv (set_class i p sl) h (U(i := V))"
    using assms unfolding slabs_inv_def by (simp add: set_class_def memory_inv_def)
  show "same_geometry sl (set_class i p sl)" using assms(2-4) by (simp add: same_geometry_def set_class_def)
qed

lemma take_slot:
  assumes ci: "class_inv p h V" and ne: "sl_slots p \<noteq> []"
  shows "class_inv (p\<lparr> sl_slots := butlast (sl_slots p), requested := r \<rparr>) h (insert (last (sl_slots p)) V)"
    "last (sl_slots p) \<notin> V" "last (sl_slots p) \<in> chunks p" "slots_top_ok p h"
proof -
  have sp: "sl_slots p = butlast (sl_slots p) @ [last (sl_slots p)]" using ne by simp
  have d: "distinct (butlast (sl_slots p) @ [last (sl_slots p)])" using ci sp by (simp add: class_inv_def)
  have sub: "set (butlast (sl_slots p)) \<subseteq> set (sl_slots p)" "last (sl_slots p) \<in> set (sl_slots p)" "last (sl_slots p) \<notin> set (butlast (sl_slots p))"
    using d ne unfolding distinct_append by (auto dest: in_set_butlastD)
  have geo: "chunks (p\<lparr> sl_slots := s, requested := r \<rparr>) = chunks p" "page_rest (p\<lparr> sl_slots := s, requested := r \<rparr>) = page_rest p" for s
    by (simp_all add: chunks_def page_rest_def)
  show "class_inv (p\<lparr> sl_slots := butlast (sl_slots p), requested := r \<rparr>) h (insert (last (sl_slots p)) V)"
    unfolding class_inv_def geo using ci sub d unfolding class_inv_def by simp blast
  show "last (sl_slots p) \<notin> V" "last (sl_slots p) \<in> chunks p" using ci sub(2) unfolding class_inv_def by blast+
  moreover have "it_clsid (the (load h (last (sl_slots p)))) = 0" using ci sub(2) unfolding class_inv_def by blast
  ultimately show "slots_top_ok p h" using ci unfolding class_inv_def slots_top_ok_def by (auto split: option.splits)
qed

lemma take_rest:
  assumes ci: "class_inv p h V" and ne: "end_page_ptr p \<noteq> NULL" and e: "sl_slots p = []"
  shows "class_inv (p\<lparr> end_page_free := end_page_free p - 1, end_page_ptr := (if end_page_free p \<noteq> 1 then end_page_ptr p + sc_size p else NULL),
      requested := r \<rparr>) h (insert (end_page_ptr p) V)" (is "class_inv ?p h _")
    "end_page_ptr p \<notin> V" "end_page_ptr p \<in> chunks p" "end_page_ptr p \<in> page_rest p" "0 < end_page_free p"
proof -
  show f: "0 < end_page_free p" using ci ne by (simp add: class_inv_def)
  then show top: "end_page_ptr p \<in> page_rest p" by (force simp: page_rest_def)
  then show "end_page_ptr p \<notin> V" "end_page_ptr p \<in> chunks p" using ci unfolding class_inv_def by blast+
  have geo: "chunks ?p = chunks p" by (simp add: chunks_def)
  have "0 < sc_size p" using ci by (simp add: class_inv_def)
  have "page_rest ?p = {end_page_ptr p + Suc k * sc_size p | k. Suc k < end_page_free p}"
    using f by (auto simp: page_rest_def)
  then have rest: "page_rest ?p \<subseteq> page_rest p" "end_page_ptr p \<notin> page_rest ?p"
    using \<open>0 < sc_size p\<close> unfolding page_rest_def [of p] by (blast, simp)
  show "class_inv ?p h (insert (end_page_ptr p) V)"
    unfolding class_inv_def geo
  proof (intro conjI)
    show "end_page_ptr ?p = NULL \<longleftrightarrow> end_page_free ?p = 0" using f \<open>0 < sc_size p\<close> by auto
    show "set (sl_slots ?p) \<union> page_rest ?p \<union> insert (end_page_ptr p) V \<subseteq> chunks p"
      using ci rest(1) top e unfolding class_inv_def by auto
    show "page_rest ?p \<inter> insert (end_page_ptr p) V = {}" using ci rest unfolding class_inv_def by blast
    show "\<forall>c \<in> set (sl_slots ?p) \<union> page_rest ?p. it_clsid (the (load h c)) = 0" using ci rest(1) e unfolding class_inv_def by auto
  qed (use ci e in \<open>auto simp: class_inv_def\<close>)
qed

lemma alloc_spec:
  assumes inv: "slabs_inv sl h U" and i: "i \<in> classes sl"
  shows "\<exists>a sl' h'. do_slabs_alloc n i sl h = Some (a, sl', h') \<and> same_geometry sl sl' \<and> chunks_kept sl h h' \<and>
    (if a = NULL then slabs_inv sl' h' U
     else a \<notin> U i \<and> a \<in> chunks (slabclass sl' i) \<and> slabs_inv sl' h' (U(i := insert a (U i))) \<and> it_clsid (the (load h' a)) = 0)"
proof -
  let ?p = "slabclass sl i"
  have ci: "class_inv ?p h (U i)" by (rule slabs_inv_class [OF inv i])
  have top: "slots_top_ok ?p h" using take_slot(4) [OF ci] by (cases "sl_slots ?p = []") (simp_all add: slots_top_ok_def)
  obtain ok sl1 h1 where s1: "(if end_page_ptr ?p \<noteq> NULL \<or> sl_slots ?p \<noteq> [] then (True, sl, h) else do_slabs_newslab i sl h) = (ok, sl1, h1)"
    by (metis prod_cases3)
  define p where "p = slabclass sl1 i"
  have S: "slabs_inv sl1 h1 U" "same_geometry sl sl1" "chunks_kept sl h h1" "ok \<longleftrightarrow> end_page_ptr p \<noteq> NULL \<or> sl_slots p \<noteq> []"
    using s1 newslab_spec [OF inv i] inv unfolding p_def by (auto split: if_splits)
  have i1: "i \<in> classes sl1" using i S(2) by (simp add: same_geometry_def)
  have ci1: "class_inv p h1 (U i)" unfolding p_def by (rule slabs_inv_class [OF S(1) i1])
  have run: "do_slabs_alloc n i sl h =
     (if \<not> ok then Some (NULL, sl1, h1)
      else if sl_slots p \<noteq> []
      then Some (last (sl_slots p), set_class i (p\<lparr> sl_slots := butlast (sl_slots p), requested := requested p + of_nat n \<rparr>) sl1, h1)
      else if end_page_ptr p = NULL then None
      else Some (end_page_ptr p,
        set_class i (p\<lparr> end_page_free := (if end_page_free p = 0 then 2 ^ 32 - 1 else end_page_free p - 1),
          end_page_ptr := (if end_page_free p \<noteq> 1 then end_page_ptr p + sc_size p else NULL),
          requested := requested p + of_nat n \<rparr>) sl1, h1))"
    unfolding do_slabs_alloc_def Let_def s1 p_def using i top by simp
  have nn: "NULL \<notin> chunks p" using ci1 by (simp add: class_inv_def)
  consider "\<not> ok" | "ok" "sl_slots p \<noteq> []" | "ok" "sl_slots p = []" "end_page_ptr p \<noteq> NULL" using S(4) by auto
  then show ?thesis
  proof cases
    case 1
    then show ?thesis using run S by simp
  next
    case 2
    let ?p' = "p\<lparr> sl_slots := butlast (sl_slots p), requested := requested p + of_nat n \<rparr>"
    note T = take_slot [OF ci1 2(2)]
    have sl': "slabs_inv (set_class i ?p' sl1) h1 (U(i := insert (last (sl_slots p)) (U i)))" "same_geometry sl1 (set_class i ?p' sl1)"
      by (rule slabs_inv_set_class [OF S(1) _ _ _ T(1)]; simp add: p_def)+
    have "it_clsid (the (load h1 (last (sl_slots p)))) = 0" using ci1 2(2) unfolding class_inv_def by auto
    moreover have "last (sl_slots p) \<in> chunks ?p'" using T(3) by (simp add: chunks_def)
    ultimately show ?thesis using run 2 S(3) sl' T(2,3) nn same_geometry_trans [OF S(2) sl'(2)] by (auto simp: set_class_def)
  next
    case 3
    let ?p' = "p\<lparr> end_page_free := end_page_free p - 1, end_page_ptr := (if end_page_free p \<noteq> 1 then end_page_ptr p + sc_size p else NULL),
      requested := requested p + of_nat n \<rparr>"
    note T = take_rest [OF ci1 3(3,2)]
    have sl': "slabs_inv (set_class i ?p' sl1) h1 (U(i := insert (end_page_ptr p) (U i)))" "same_geometry sl1 (set_class i ?p' sl1)"
      by (rule slabs_inv_set_class [OF S(1) _ _ _ T(1)]; simp add: p_def)+
    have "it_clsid (the (load h1 (end_page_ptr p))) = 0" using ci1 T(4) unfolding class_inv_def by auto
    moreover have "end_page_ptr p \<in> chunks ?p'" using T(3) by (simp add: chunks_def)
    moreover have "do_slabs_alloc n i sl h = Some (end_page_ptr p, set_class i ?p' sl1, h1)" using run 3 T(5) by simp
    ultimately show ?thesis using 3 S(3) sl' T(2,3) nn same_geometry_trans [OF S(2) sl'(2)] by (auto simp: set_class_def)
  qed
qed

lemma free_spec:
  assumes inv: "slabs_inv sl h U" and i: "i \<in> classes sl" and a: "a \<in> U i" "it_clsid (the (load h a)) = 0"
  shows "\<exists>sl'. do_slabs_free a n i sl h = Some sl' \<and> same_geometry sl sl' \<and> slabs_inv sl' h (U(i := U i - {a})) \<and>
    ((\<forall>m. realloc_ok sl m) \<longrightarrow> last (sl_slots (slabclass sl' i)) = a \<and> sl_slots (slabclass sl' i) \<noteq> [])"
proof -
  let ?p = "slabclass sl i"
  have ci: "class_inv ?p h (U i)" by (rule slabs_inv_class [OF inv i])
  have ch: "a \<in> chunks ?p" "a \<notin> set (sl_slots ?p)" "a \<notin> page_rest ?p" using ci a(1) unfolding class_inv_def by blast+
  then obtain it where it: "load h a = Some it" "it_clsid it = 0" using ci a(2) unfolding class_inv_def by fastforce
  have geo: "chunks (p\<lparr> sl_total := t, sl_slots := s, requested := r \<rparr>) = chunks p" "page_rest (p\<lparr> sl_total := t, sl_slots := s, requested := r \<rparr>) = page_rest p" for p t s r
    by (simp_all add: chunks_def page_rest_def)
  have ci': "class_inv (?p\<lparr> sl_total := t, sl_slots := sl_slots ?p @ [a], requested := r \<rparr>) h (U i - {a})" for t r
    unfolding class_inv_def geo using ci ch a unfolding class_inv_def by auto
  have "class_inv ?p h (U i - {a})" using ci unfolding class_inv_def by auto
  then have "slabs_inv (set_class i ?p sl) h (U(i := U i - {a}))" by (intro slabs_inv_set_class [OF inv]) simp_all
  then have leak: "slabs_inv sl h (U(i := U i - {a}))" by (simp add: set_class_def)
  have "slabs_inv (set_class i (?p\<lparr> sl_total := t, sl_slots := sl_slots ?p @ [a], requested := r \<rparr>) sl) h (U(i := U i - {a}))"
    "same_geometry sl (set_class i (?p\<lparr> sl_total := t, sl_slots := sl_slots ?p @ [a], requested := r \<rparr>) sl)" for t r
    by (rule slabs_inv_set_class [OF inv _ _ _ ci']; simp)+
  with leak show ?thesis using it i by (simp add: do_slabs_free_def Let_def) (simp add: set_class_def, blast)
qed

text \<open>Writing to chunks in use keeps the invariant.\<close>

lemma slabs_inv_write:
  assumes inv: "slabs_inv sl h U" and dom: "\<And>x. load h x \<noteq> None \<Longrightarrow> load h' x \<noteq> None"
    and free: "\<And>j x. j \<in> classes sl \<Longrightarrow> x \<in> chunks (slabclass sl j) \<Longrightarrow> x \<notin> U j \<Longrightarrow> it_clsid (the (load h' x)) = it_clsid (the (load h x))"
  shows "slabs_inv sl h' U"
proof -
  have "class_inv (slabclass sl j) h' (U j)" if j: "j \<in> classes sl" for j
  proof -
    have cj: "class_inv (slabclass sl j) h (U j)" by (rule slabs_inv_class [OF inv j])
    have "it_clsid (the (load h' c)) = 0" if "c \<in> set (sl_slots (slabclass sl j)) \<union> page_rest (slabclass sl j)" for c
    proof -
      have "c \<in> chunks (slabclass sl j)" "c \<notin> U j" using cj that unfolding class_inv_def by blast+
      with free [OF j this] cj that show ?thesis by (simp add: class_inv_def)
    qed
    then have "\<forall>c \<in> set (sl_slots (slabclass sl j)) \<union> page_rest (slabclass sl j). it_clsid (the (load h' c)) = 0" by (rule ballI)
    moreover have "\<forall>c \<in> chunks (slabclass sl j). load h' c \<noteq> None" using cj dom by (simp add: class_inv_def)
    ultimately show ?thesis using cj unfolding class_inv_def by (intro conjI) simp_all
  qed
  then show ?thesis using inv by (simp add: slabs_inv_def)
qed

text \<open>
  C20: Chunks handed out by the slab allocator never overlap. Allocation and release always
  return, keep the invariant of the allocator and change no chunk that exists; an allocation
  returns \<open>NULL\<close> or a chunk of the class that is not in use, no byte of which belongs to any
  chunk in use of any class; a chunk that is released is the one handed out next by its class
  (if the free list could grow).
\<close>

theorem slabs_never_overlap:
  assumes inv: "slabs_inv sl h U" and i: "i \<in> classes sl"
  shows "(\<exists>a sl' h'. do_slabs_alloc n i sl h = Some (a, sl', h') \<and> chunks_kept sl h h' \<and>
      (if a = NULL then slabs_inv sl' h' U
       else slabs_inv sl' h' (U(i := insert a (U i))) \<and> a \<notin> U i \<and>
         (\<forall>j \<in> classes sl. \<forall>b \<in> U j. block_disjoint (a, sc_size (slabclass sl i)) (b, sc_size (slabclass sl j))))) \<and>
    (\<forall>a \<in> U i. it_clsid (the (load h a)) = 0 \<longrightarrow>
      (\<exists>sl'. do_slabs_free a n i sl h = Some sl' \<and> slabs_inv sl' h (U(i := U i - {a})) \<and>
        ((\<forall>m. realloc_ok sl m) \<longrightarrow> (\<exists>sl''. do_slabs_alloc n' i sl' h = Some (a, sl'', h)))))"
proof (intro conjI ballI impI)
  obtain a sl' h' where A: "do_slabs_alloc n i sl h = Some (a, sl', h')" "same_geometry sl sl'" "chunks_kept sl h h'"
    "if a = NULL then slabs_inv sl' h' U
     else a \<notin> U i \<and> a \<in> chunks (slabclass sl' i) \<and> slabs_inv sl' h' (U(i := insert a (U i))) \<and> it_clsid (the (load h' a)) = 0"
    using alloc_spec [OF inv i] by blast
  have geo: "sc_size (slabclass sl' j) = sc_size (slabclass sl j)" "classes sl' = classes sl" for j using A(2) by (simp_all add: same_geometry_def)
  have "block_disjoint (a, sc_size (slabclass sl i)) (b, sc_size (slabclass sl j))" if "a \<noteq> NULL" "j \<in> classes sl" "b \<in> U j" for j b
  proof -
    have I: "slabs_inv sl' h' (U(i := insert a (U i)))" using A(4) that(1) by simp
    have "b \<in> chunks (slabclass sl' j)"
      using slabs_inv_class [OF I, of j] that geo(2) unfolding class_inv_def by (auto split: if_splits)
    moreover have "a \<noteq> b \<or> i \<noteq> j" using A(4) that by auto
    ultimately show ?thesis using chunks_disjoint [OF I, of i a j b] A(4) i that geo by simp
  qed
  with A show "\<exists>a sl' h'. do_slabs_alloc n i sl h = Some (a, sl', h') \<and> chunks_kept sl h h' \<and>
      (if a = NULL then slabs_inv sl' h' U
       else slabs_inv sl' h' (U(i := insert a (U i))) \<and> a \<notin> U i \<and>
         (\<forall>j \<in> classes sl. \<forall>b \<in> U j. block_disjoint (a, sc_size (slabclass sl i)) (b, sc_size (slabclass sl j))))" by auto
next
  fix a assume a: "a \<in> U i" "it_clsid (the (load h a)) = 0"
  obtain sl' where F: "do_slabs_free a n i sl h = Some sl'" "same_geometry sl sl'" "slabs_inv sl' h (U(i := U i - {a}))"
    "(\<forall>m. realloc_ok sl m) \<longrightarrow> last (sl_slots (slabclass sl' i)) = a \<and> sl_slots (slabclass sl' i) \<noteq> []"
    using free_spec [OF inv i a] by blast
  have i': "i \<in> classes sl'" using i F(2) by (simp add: same_geometry_def)
  have "\<exists>sl''. do_slabs_alloc n' i sl' h = Some (a, sl'', h)" if "\<forall>m. realloc_ok sl m"
    using take_slot(4) [OF slabs_inv_class [OF F(3) i']] F(4) that i' by (simp add: do_slabs_alloc_def Let_def)
  with F show "\<exists>sl'. do_slabs_free a n i sl h = Some sl' \<and> slabs_inv sl' h (U(i := U i - {a})) \<and>
      ((\<forall>m. realloc_ok sl m) \<longrightarrow> (\<exists>sl''. do_slabs_alloc n' i sl' h = Some (a, sl'', h)))" by blast
qed

subsection \<open>Initialisation\<close>

lemma init_classes_spec:
  assumes "init_classes small scaled m i n cs = (k, cs')" "i \<le> POWER_LARGEST" "0 < n" "0 < m"
    and "\<And>n. small n \<Longrightarrow> chunk_align n \<le> m" "\<And>n. 0 < n \<Longrightarrow> 0 < scaled n"
  shows "i \<le> k \<and> k \<le> POWER_LARGEST \<and> (\<forall>j. j < i \<or> k < j \<longrightarrow> cs' j = cs j) \<and> sc_size (cs' k) = m \<and> perslab (cs' k) = 1 \<and>
    (\<forall>j. i \<le> j \<and> j \<le> k \<longrightarrow> 0 < sc_size (cs' j) \<and> 0 < perslab (cs' j) \<and> page_len (cs' j) \<le> m \<and>
       (j < k \<longrightarrow> CHUNK_ALIGN_BYTES dvd sc_size (cs' j)) \<and>
       cs' j = (cs j)\<lparr> sc_size := sc_size (cs' j), perslab := perslab (cs' j) \<rparr>)"
  using assms
proof (induction small scaled m i n cs arbitrary: k cs' rule: init_classes.induct)
  case (1 small scaled m i n cs)
  show ?case
  proof (cases "i < POWER_LARGEST \<and> small n")
    case True
    let ?n = "chunk_align n" and ?cs = "cs(i := (cs i)\<lparr> sc_size := chunk_align n, perslab := m div chunk_align n \<rparr>)"
    have n: "0 < ?n" "?n \<le> m" using chunk_align_ge [of n] 1(4,6) True by auto
    have al: "CHUNK_ALIGN_BYTES dvd ?n" unfolding chunk_align_def CHUNK_ALIGN_BYTES_def by presburger
    have r: "init_classes small scaled m (i + 1) (scaled ?n) ?cs = (k, cs')"
      using 1(2) True by (subst (asm) init_classes.simps) (simp add: Let_def)
    have IH: "i + 1 \<le> k \<and> k \<le> POWER_LARGEST \<and> (\<forall>j. j < i + 1 \<or> k < j \<longrightarrow> cs' j = ?cs j) \<and> sc_size (cs' k) = m \<and> perslab (cs' k) = 1 \<and>
      (\<forall>j. i + 1 \<le> j \<and> j \<le> k \<longrightarrow> 0 < sc_size (cs' j) \<and> 0 < perslab (cs' j) \<and> page_len (cs' j) \<le> m \<and>
         (j < k \<longrightarrow> CHUNK_ALIGN_BYTES dvd sc_size (cs' j)) \<and>
         cs' j = (?cs j)\<lparr> sc_size := sc_size (cs' j), perslab := perslab (cs' j) \<rparr>)"
      by (rule 1(1) [OF True refl r]) (use True n 1(5-7) in auto)
    have ci: "cs' i = (cs i)\<lparr> sc_size := ?n, perslab := m div ?n \<rparr>" using IH by simp
    have pi: "0 < sc_size (cs' i) \<and> 0 < perslab (cs' i) \<and> page_len (cs' i) \<le> m \<and> CHUNK_ALIGN_BYTES dvd sc_size (cs' i) \<and>
        cs' i = (cs i)\<lparr> sc_size := sc_size (cs' i), perslab := perslab (cs' i) \<rparr>"
      using n al by (simp add: ci page_len_def div_greater_zero_iff)
    have "cs' j = cs j" if "j < i \<or> k < j" for j using IH that by (cases "j = i") auto
    moreover have "0 < sc_size (cs' j) \<and> 0 < perslab (cs' j) \<and> page_len (cs' j) \<le> m \<and> (j < k \<longrightarrow> CHUNK_ALIGN_BYTES dvd sc_size (cs' j)) \<and>
        cs' j = (cs j)\<lparr> sc_size := sc_size (cs' j), perslab := perslab (cs' j) \<rparr>" if "i \<le> j" "j \<le> k" for j
      using IH pi that by (cases "j = i") auto
    ultimately show ?thesis using IH by simp
  next
    case False
    then have "init_classes small scaled m i n cs = (i, cs(i := (cs i)\<lparr> sc_size := m, perslab := 1 \<rparr>))"
      by (subst init_classes.simps) (simp only: if_False)
    then have "k = i" "cs' = cs(i := (cs i)\<lparr> sc_size := m, perslab := 1 \<rparr>)" using 1(2) by simp_all
    then show ?thesis using 1(3-5) by (auto simp: page_len_def)
  qed
qed

lemma slabs_init_spec:
  assumes malloc: "\<forall>bs n. sys_malloc sl bs n = NULL \<or> (\<forall>b \<in> set bs. block_disjoint (sys_malloc sl bs n, n) b)"
    and start: "blocks sl = []" "mem_base sl = NULL" and m: "0 < item_size_max"
    and factor: "\<forall>n. small n \<longrightarrow> chunk_align n \<le> item_size_max" "\<forall>n. 0 < n \<longrightarrow> 0 < scaled n"
  shows "let sl' = slabs_init small scaled chunk_size item_size_max env limit prealloc sl in
    slabs_inv sl' h (\<lambda>_. {}) \<and> 1 \<le> power_largest sl' \<and> power_largest sl' \<le> POWER_LARGEST \<and> mem_limit sl' = limit \<and>
    sc_size (slabclass sl' (power_largest sl')) = item_size_max \<and>
    (\<forall>j \<in> classes sl'. page_len (slabclass sl' j) \<le> item_size_max) \<and>
    (\<forall>j \<in> {1..<power_largest sl'}. CHUNK_ALIGN_BYTES dvd sc_size (slabclass sl' j))"
proof -
  obtain k cs where kc: "init_classes small scaled item_size_max POWER_SMALLEST (SIZEOF_ITEM + chunk_size) (\<lambda>_. empty_class) = (k, cs)"
    by (cases "init_classes small scaled item_size_max POWER_SMALLEST (SIZEOF_ITEM + chunk_size) (\<lambda>_. empty_class)")
  define sl' where "sl' = slabs_init small scaled chunk_size item_size_max env limit prealloc sl"
  have sl': "slabclass sl' = cs" "power_largest sl' = k" "blocks sl' = []" "mem_limit sl' = limit" "sys_malloc sl' = sys_malloc sl"
      "mem_base sl' = NULL \<or> mem_current sl' \<noteq> NULL"
    using kc start by (auto simp: sl'_def slabs_init_def Let_def split: option.splits)
  have I: "1 \<le> k \<and> k \<le> POWER_LARGEST \<and> sc_size (cs k) = item_size_max \<and>
      (\<forall>j. 1 \<le> j \<and> j \<le> k \<longrightarrow> 0 < sc_size (cs j) \<and> 0 < perslab (cs j) \<and> page_len (cs j) \<le> item_size_max \<and>
        (j < k \<longrightarrow> CHUNK_ALIGN_BYTES dvd sc_size (cs j)) \<and> cs j = empty_class\<lparr> sc_size := sc_size (cs j), perslab := perslab (cs j) \<rparr>)"
    using init_classes_spec [OF kc] factor m by (simp add: POWER_SMALLEST_def POWER_LARGEST_def SIZEOF_ITEM_def)
  have cls: "class_inv (cs j) h {} \<and> slab_list (cs j) = []" if j: "1 \<le> j" "j \<le> k" for j
  proof -
    obtain s q where "cs j = empty_class\<lparr> sc_size := s, perslab := q \<rparr>" "0 < s" "0 < q" using I j by metis
    then show ?thesis by (simp add: class_inv_def chunks_def page_rest_def empty_class_def)
  qed
  have "memory_inv sl'" using malloc sl'(3,5,6) unfolding memory_inv_def by auto
  then have "slabs_inv sl' h (\<lambda>_. {})" unfolding slabs_inv_def using cls sl'(1,2) by (simp add: POWER_SMALLEST_def)
  then show ?thesis using I sl'(1,2,4) unfolding Let_def sl'_def [symmetric] by (simp add: POWER_SMALLEST_def)
qed


subsection \<open>Runs\<close>

text \<open>A \<open>malloc\<close> that returns the address behind all blocks; classes with the growth factor 1.25 and items of at most 1024 bytes.\<close>

definition bump_malloc :: "(addr \<times> nat) list \<Rightarrow> nat \<Rightarrow> addr" where
  "bump_malloc bs n = Suc (sum_list (map (\<lambda>b. fst b + snd b) bs))"

definition no_slabs :: slabs where
  "no_slabs = \<lparr> slabclass = (\<lambda>_. empty_class), mem_limit = 0, mem_malloced = 0, power_largest = 0, mem_base = NULL, mem_current = NULL,
     mem_avail = 0, blocks = [], sys_malloc = bump_malloc, realloc_ok = (\<lambda>_. True) \<rparr>"

definition run_slabs :: slabs where
  "run_slabs = slabs_init (\<lambda>n. n * 5 \<le> 1024 * 4) (\<lambda>n. n * 5 div 4) 48 1024 None 65536 False no_slabs"

lemma bump_malloc_apart: "b \<in> set bs \<Longrightarrow> block_disjoint (bump_malloc bs n, n) b"
  using member_le_sum_list [of "fst b + snd b" "map (\<lambda>b. fst b + snd b) bs"] by (auto simp: block_disjoint_def bump_malloc_def)

lemma no_slabs_hyps:
  "\<forall>bs n. sys_malloc no_slabs bs n = NULL \<or> (\<forall>b \<in> set bs. block_disjoint (sys_malloc no_slabs bs n, n) b)"
  "blocks no_slabs = []" "mem_base no_slabs = NULL" "(0 :: nat) < 1024"
  "\<forall>n. n * 5 \<le> 1024 * 4 \<longrightarrow> chunk_align n \<le> 1024" "\<forall>n :: nat. 0 < n \<longrightarrow> 0 < n * 5 div 4"
  using bump_malloc_apart by (auto simp: no_slabs_def chunk_align_def CHUNK_ALIGN_BYTES_def)

lemma run_slabs_inv: "slabs_inv run_slabs h (\<lambda>_. {})" "1 \<le> power_largest run_slabs" "power_largest run_slabs \<le> POWER_LARGEST"
  using slabs_init_spec [OF no_slabs_hyps, of 48 None 65536 False h] by (auto simp: run_slabs_def Let_def)

definition item_heap0 :: "item heap" where
  "item_heap0 = \<lparr> cells = (\<lambda>_. None), policy = (\<lambda>_. NULL), junk = (\<lambda>_. zero_item) \<rparr>"


theorem slabs_clsid_first_fit_witness:
  "1 \<le> power_largest run_slabs \<and> (\<exists>i. slabs_clsid run_slabs 100 = Some i \<and>
    (if i = 0 then 100 = (0 :: nat) \<or> (\<forall>j \<in> {1..power_largest run_slabs}. sc_size (slabclass run_slabs j) < 100)
     else 0 < (100 :: nat) \<and> i \<le> power_largest run_slabs \<and> 100 \<le> sc_size (slabclass run_slabs i) \<and>
       (\<forall>j \<in> {1..<i}. sc_size (slabclass run_slabs j) < 100)))"
  using slabs_clsid_first_fit [OF run_slabs_inv(2,3), of 100] run_slabs_inv(2) by blast

theorem slabs_never_overlap_witness:
  "slabs_inv run_slabs item_heap0 (\<lambda>_. {}) \<and> (\<exists>a sl' h'. do_slabs_alloc 90 1 run_slabs item_heap0 = Some (a, sl', h') \<and>
     (if a = NULL then slabs_inv sl' h' (\<lambda>_. {}) else slabs_inv sl' h' ((\<lambda>_. {})(1 := {a}))))"
proof -
  have "1 \<in> classes run_slabs" using run_slabs_inv(2) by (simp add: POWER_SMALLEST_def)
  from slabs_never_overlap [OF run_slabs_inv(1) this, of 90] run_slabs_inv(1) show ?thesis by (smt (verit) insert_absorb empty_iff)
qed

end
