(* ===== verification/Mc_Util.thy ===== *)
theory Mc_Util
  imports Prelude
begin

text \<open>
  \<open>memcached/memcached-1.4.6-ffwd/util.c\<close>: reading decimal numbers and swapping bytes.

  A C string is the list of the bytes from its first byte to the end of the memory that may be read;
  \<open>None\<close> is reading past that end. \<open>long\<close> and \<open>long long\<close> have 64 bits. \<open>strto\<close> is what the four
  functions of the C library share: they skip white space, read a sign and digits and return where
  they stopped, which is the start of the string if there was no digit. A result that does not fit
  sets \<open>errno\<close> to \<open>ERANGE\<close> (the first component).
\<close>

type_synonym cstring = "8 word list"

subsection \<open>Digits\<close>

definition isspace :: "8 word \<Rightarrow> bool" where
  "isspace b \<longleftrightarrow> b = 32 \<or> (9 \<le> b \<and> b \<le> 13)"

definition isdigit :: "8 word \<Rightarrow> bool" where
  "isdigit b \<longleftrightarrow> 48 \<le> b \<and> b \<le> 57"

definition number :: "cstring \<Rightarrow> nat" where
  "number ds = foldl (\<lambda>n d. n * 10 + unat (d - 48)) 0 ds"

text \<open>The digits that \<open>%d\<close>, \<open>%u\<close> and \<open>%llu\<close> print.\<close>

fun digits :: "nat \<Rightarrow> cstring" where
  "digits n = (if n < 10 then [48 + of_nat n] else digits (n div 10) @ [48 + of_nat (n mod 10)])"

declare digits.simps [simp del]

definition show_int :: "int \<Rightarrow> cstring" where
  "show_int z = (if z < 0 then 45 # digits (nat (- z)) else digits (nat z))"

subsection \<open>The functions of the C library\<close>

definition read_sign :: "cstring \<Rightarrow> bool \<times> cstring" where
  "read_sign s = (case s of [] \<Rightarrow> (False, []) | b # bs \<Rightarrow> if b = 45 then (True, bs) else if b = 43 then (False, bs) else (False, s))"

definition strto :: "cstring \<Rightarrow> (bool \<times> nat \<times> cstring) option" where
  "strto str =
     (let (neg, s) = read_sign (dropWhile isspace str); ds = takeWhile isdigit s; rest = dropWhile isdigit s
      in if rest = [] then None else if ds = [] then Some (False, 0, str) else Some (neg, number ds, rest))"

definition strtoull :: "cstring \<Rightarrow> (bool \<times> u64 \<times> cstring) option" where
  "strtoull str = do {
     (neg, n, e) \<leftarrow> strto str;
     Some (if 2 ^ 64 \<le> n then (True, - 1, e) else (False, if neg then - of_nat n else of_nat n, e)) }"

definition strtoll :: "cstring \<Rightarrow> (bool \<times> u64 \<times> cstring) option" where
  "strtoll str = do {
     (neg, n, e) \<leftarrow> strto str;
     Some (if neg then if 2 ^ 63 < n then (True, 2 ^ 63, e) else (False, - of_nat n, e)
           else if 2 ^ 63 \<le> n then (True, 2 ^ 63 - 1, e) else (False, of_nat n, e)) }"

fun strchr :: "8 word \<Rightarrow> cstring \<Rightarrow> bool option" where
  "strchr c [] = None"
| "strchr c (b # bs) = (if b = c then Some True else if b = 0 then Some False else strchr c bs)"

text \<open>\<open>xisspace(*endptr) || (*endptr == '\0' && endptr != str)\<close>.\<close>

definition number_ends :: "cstring \<Rightarrow> cstring \<Rightarrow> bool" where
  "number_ends e str \<longleftrightarrow> isspace (hd e) \<or> (hd e = 0 \<and> length e \<noteq> length str)"

subsection \<open>The safe functions\<close>

text \<open>The result and what \<open>*out\<close> holds then.\<close>

definition safe_strtoull :: "cstring \<Rightarrow> (bool \<times> u64) option" where
  "safe_strtoull str = do {
     (erange, ull, endptr) \<leftarrow> strtoull str;
     if erange then Some (False, 0)
     else if number_ends endptr str
     then if ull <s 0 then do { minus \<leftarrow> strchr 45 str; Some (if minus then (False, 0) else (True, ull)) }
          else Some (True, ull)
     else Some (False, 0) }"

definition safe_strtoll :: "cstring \<Rightarrow> (bool \<times> u64) option" where
  "safe_strtoll str = do {
     (erange, ll, endptr) \<leftarrow> strtoll str;
     Some (if erange then (False, 0) else if number_ends endptr str then (True, ll) else (False, 0)) }"

definition safe_strtoul :: "cstring \<Rightarrow> (bool \<times> u32) option" where
  "safe_strtoul str = do {
     (erange, l, endptr) \<leftarrow> strtoull str;
     if erange then Some (False, 0)
     else if number_ends endptr str
     then if l <s 0 then do { minus \<leftarrow> strchr 45 str; Some (if minus then (False, 0) else (True, ucast l)) }
          else Some (True, ucast l)
     else Some (False, 0) }"

definition safe_strtol :: "cstring \<Rightarrow> (bool \<times> u32) option" where
  "safe_strtol str = do {
     (erange, l, endptr) \<leftarrow> strtoll str;
     Some (if erange then (False, 0) else if number_ends endptr str then (True, ucast l) else (False, 0)) }"

text \<open>\<open>mc_swap64\<close> on a little-endian machine: \<open>k\<close> rounds of its loop.\<close>

fun swap_loop :: "nat \<Rightarrow> u64 \<Rightarrow> u64 \<Rightarrow> u64" where
  "swap_loop 0 rv inp = rv"
| "swap_loop (Suc k) rv inp = swap_loop k (push_bit 8 rv OR (inp AND 0xff)) (drop_bit 8 inp)"

definition mc_swap64 :: "u64 \<Rightarrow> u64" where
  "mc_swap64 inp = swap_loop 8 0 inp"

definition ntohll :: "u64 \<Rightarrow> u64" where "ntohll val = mc_swap64 val"
definition htonll :: "u64 \<Rightarrow> u64" where "htonll val = mc_swap64 val"

subsection \<open>Printing and reading\<close>

lemma digit_byte:
  assumes "n < 10"
  shows "isdigit (48 + of_nat n)" "unat ((48 + of_nat n :: 8 word) - 48) = n"
proof -
  have u: "unat (48 + of_nat n :: 8 word) = 48 + n" using assms by (simp add: unat_word_ariths unat_of_nat)
  then show "isdigit (48 + of_nat n)" using assms by (simp add: isdigit_def word_le_nat_alt)
  show "unat ((48 + of_nat n :: 8 word) - 48) = n" using assms by (simp add: unat_of_nat)
qed

lemma number_snoc: "number (ds @ [d]) = number ds * 10 + unat (d - 48)"
  by (simp add: number_def)

lemma digits_all: "\<forall>b \<in> set (digits n). isdigit b"
proof (induction n rule: digits.induct)
  case (1 n)
  show ?case
  proof (cases "n < 10")
    case True
    then show ?thesis using digit_byte(1) by (simp add: digits.simps [of n])
  next
    case False
    then show ?thesis using 1 digit_byte(1) [of "n mod 10"] by (simp add: digits.simps [of n])
  qed
qed

lemma digits_ne: "digits n \<noteq> []"
  by (subst digits.simps) simp

lemma number_digits: "number (digits n) = n"
proof (induction n rule: digits.induct)
  case (1 n)
  show ?case
  proof (cases "n < 10")
    case True
    then show ?thesis using digit_byte(2) [of n] by (simp add: digits.simps [of n] number_def)
  next
    case False
    then have "number (digits n) = n div 10 * 10 + n mod 10"
      using 1 digit_byte(2) [of "n mod 10"] by (simp add: digits.simps [of n] number_snoc)
    then show ?thesis by simp
  qed
qed

lemma isdigit_not: "isdigit b \<Longrightarrow> \<not> isspace b \<and> b \<noteq> 45 \<and> b \<noteq> 43 \<and> b \<noteq> 0"
  by (auto simp: isdigit_def isspace_def word_le_nat_alt)

lemma strto_digits:
  assumes "\<forall>b \<in> set sp. isspace b" and "\<not> isdigit t"
  shows "strto (sp @ digits n @ t # rest) = Some (False, n, t # rest)"
    "strto (sp @ 45 # digits n @ t # rest) = Some (True, n, t # rest)"
proof -
  obtain d ds where d: "digits n = d # ds" using digits_ne by (meson list.exhaust)
  have all: "\<forall>b \<in> set (digits n). isdigit b" by (rule digits_all)
  have tk: "takeWhile isdigit (digits n @ t # rest) = digits n" "dropWhile isdigit (digits n @ t # rest) = t # rest"
    using all assms(2) by (simp_all add: takeWhile_append dropWhile_append)
  have "isdigit d" using all d by simp
  note nd = isdigit_not [OF this]
  have "dropWhile isspace (sp @ digits n @ t # rest) = digits n @ t # rest" using assms(1) nd d by (simp add: dropWhile_append)
  moreover have "read_sign (digits n @ t # rest) = (False, digits n @ t # rest)" using nd d by (simp add: read_sign_def)
  ultimately show "strto (sp @ digits n @ t # rest) = Some (False, n, t # rest)"
    using tk digits_ne assms(2) by (simp add: strto_def number_digits Let_def)
  have "dropWhile isspace (sp @ 45 # digits n @ t # rest) = 45 # digits n @ t # rest" using assms(1) by (simp add: dropWhile_append isspace_def)
  then show "strto (sp @ 45 # digits n @ t # rest) = Some (True, n, t # rest)"
    using tk digits_ne assms(2) by (simp add: strto_def read_sign_def number_digits Let_def)
qed

lemma sless_0: "(w :: u64) <s 0 \<longleftrightarrow> 2 ^ 63 \<le> unat w"
proof -
  have "w <s 0 \<longleftrightarrow> sint w < 0" by (simp add: word_sless_alt)
  also have "\<dots> \<longleftrightarrow> bit w 63" by (simp add: sint_uint signed_take_bit_negative_iff bit_uint_iff)
  also have "\<dots> \<longleftrightarrow> odd (uint w div 2 ^ 63)" using bit_uint_iff [of w 63] bit_iff_odd [of "uint w" 63] by simp
  also have "\<dots> \<longleftrightarrow> 2 ^ 63 \<le> uint w"
  proof -
    have "0 \<le> uint w" "uint w < 2 ^ 64" using uint_bounded [of w] by simp_all
    then have q: "0 \<le> uint w div 2 ^ 63" "uint w div 2 ^ 63 < 2" by (simp_all add: div_less_iff_less_mult pos_imp_zdiv_nonneg_iff)
    have "odd d \<longleftrightarrow> d = 1" if "0 \<le> d" "d < 2" for d :: int using that by presburger
    from this [OF q] have "odd (uint w div 2 ^ 63) \<longleftrightarrow> uint w div 2 ^ 63 = 1" .
    also have "\<dots> \<longleftrightarrow> 0 < uint w div 2 ^ 63" using q by linarith
    also have "\<dots> \<longleftrightarrow> 2 ^ 63 \<le> uint w" by (rule pos_imp_zdiv_pos_iff) simp
    finally show ?thesis .
  qed
  also have "\<dots> \<longleftrightarrow> int (2 ^ 63) \<le> int (unat w)" by (simp only: uint_nat of_nat_power of_nat_numeral)
  also have "\<dots> \<longleftrightarrow> 2 ^ 63 \<le> unat w" by (rule of_nat_le_iff)
  finally show ?thesis .
qed

text \<open>What the functions do with a number that is followed by white space or the end of the string.\<close>

lemma ends_number:
  assumes "isspace t \<or> t = 0"
  shows "number_ends (t # rest) (sp @ digits n @ t # rest)" "number_ends (t # rest) (sp @ 45 # digits n @ t # rest)" "\<not> isdigit t"
  using assms isdigit_not [of t] digits_ne [of n] by (auto simp: number_ends_def)

lemma strchr_skip: "\<forall>b \<in> set s. b \<noteq> c \<and> b \<noteq> 0 \<Longrightarrow> strchr c (s @ t) = strchr c t"
  by (induction s) auto

lemma unat_of_u64: "n < 2 ^ 64 \<Longrightarrow> unat (of_nat n :: u64) = n"
  by (simp add: unat_of_nat)

lemma unat_uminus_u64: "0 < n \<Longrightarrow> n < 2 ^ 64 \<Longrightarrow> unat (- of_nat n :: u64) = 2 ^ 64 - n"
proof -
  assume n: "0 < n" "n < 2 ^ 64"
  have "(- of_nat n :: u64) = of_nat (2 ^ 64 - n)" using n by (simp add: of_nat_diff)
  then show ?thesis unfolding \<open>(- of_nat n :: u64) = _\<close> using n by (subst unat_of_nat) simp
qed

lemma isspace_not: "isspace b \<Longrightarrow> b \<noteq> 45 \<and> b \<noteq> 0"
  by (auto simp: isspace_def)

lemma safe_strtoull_pos:
  assumes "\<forall>b \<in> set sp. isspace b" "isspace t \<or> t = 0"
  shows "n < 2 ^ 63 \<Longrightarrow> safe_strtoull (sp @ digits n @ t # rest) = Some (True, of_nat n)"
    and "2 ^ 63 \<le> n \<Longrightarrow> n < 2 ^ 64 \<Longrightarrow> safe_strtoull (sp @ digits n @ t # rest) =
      map_option (\<lambda>minus. if minus then (False, 0) else (True, of_nat n)) (strchr 45 (t # rest))"
    and "2 ^ 64 \<le> n \<Longrightarrow> safe_strtoull (sp @ digits n @ t # rest) = Some (False, 0)"
proof -
  note E = ends_number [OF assms(2)]
  note S = strto_digits(1) [OF assms(1) E(3), of n rest]
  show "n < 2 ^ 63 \<Longrightarrow> safe_strtoull (sp @ digits n @ t # rest) = Some (True, of_nat n)"
    using S E(1) by (simp add: safe_strtoull_def strtoull_def sless_0 unat_of_u64)
  have "\<forall>b \<in> set (sp @ digits n). b \<noteq> 45 \<and> b \<noteq> 0" using assms(1) digits_all [of n] isdigit_not isspace_not by auto
  from strchr_skip [OF this, of "t # rest"] have c: "strchr 45 (sp @ digits n @ t # rest) = strchr 45 (t # rest)" by simp
  show "safe_strtoull (sp @ digits n @ t # rest) = map_option (\<lambda>minus. if minus then (False, 0) else (True, of_nat n)) (strchr 45 (t # rest))"
    if "2 ^ 63 \<le> n" "n < 2 ^ 64"
    using S E(1) that c by (cases "strchr 45 (t # rest)") (simp_all add: safe_strtoull_def strtoull_def sless_0 unat_of_u64)
  show "2 ^ 64 \<le> n \<Longrightarrow> safe_strtoull (sp @ digits n @ t # rest) = Some (False, 0)"
    using S by (simp add: safe_strtoull_def strtoull_def)
qed

lemma safe_strtoull_neg:
  assumes "\<forall>b \<in> set sp. isspace b" "isspace t \<or> t = 0"
  shows "safe_strtoull (sp @ 45 # digits n @ t # rest) = Some (if n = 0 \<or> 2 ^ 63 < n \<and> n < 2 ^ 64 then (True, - of_nat n) else (False, 0))"
proof -
  note E = ends_number [OF assms(2)]
  note S = strto_digits(2) [OF assms(1) E(3), of n rest]
  have "\<forall>b \<in> set sp. b \<noteq> 45 \<and> b \<noteq> 0" using assms(1) isspace_not by auto
  from strchr_skip [OF this] have c: "strchr 45 (sp @ 45 # digits n @ t # rest) = Some True" by simp
  consider "n = 0" | "2 ^ 64 \<le> n" | "0 < n" "n < 2 ^ 64" by linarith
  then show ?thesis
  proof cases
    case 3
    then have "(- of_nat n :: u64) <s 0 \<longleftrightarrow> \<not> 2 ^ 63 < n" using unat_uminus_u64 by (simp add: sless_0) linarith
    then show ?thesis using S E(2) 3 c by (simp add: safe_strtoull_def strtoull_def)
  qed (use S E(2) c in \<open>simp_all add: safe_strtoull_def strtoull_def\<close>)
qed

lemma strto_show_int:
  assumes "\<forall>b \<in> set sp. isspace b" and "\<not> isdigit t"
  shows "strto (sp @ show_int z @ t # rest) = Some (z < 0, nat \<bar>z\<bar>, t # rest)"
  using strto_digits [OF assms] by (simp add: show_int_def)

lemma strtoll_show_int:
  assumes "\<forall>b \<in> set sp. isspace b" "\<not> isdigit t" "- (2 ^ 63) \<le> z" "z < 2 ^ 63"
  shows "strtoll (sp @ show_int z @ t # rest) = Some (False, of_int z, t # rest)"
proof -
  have "nat (- z) \<le> 2 ^ 63" "0 \<le> z \<Longrightarrow> nat z < 2 ^ 63" using assms(3,4) by (simp_all add: nat_le_iff nat_less_iff)
  then show ?thesis using strto_show_int [OF assms(1,2), of z rest] by (cases "z < 0") (auto simp: strtoll_def)
qed

lemma safe_strtoll_int:
  assumes "\<forall>b \<in> set sp. isspace b" "isspace t \<or> t = 0"
  shows "safe_strtoll (sp @ show_int z @ t # rest) = Some (if - (2 ^ 63) \<le> z \<and> z < 2 ^ 63 then (True, of_int z) else (False, 0))"
proof -
  note E = ends_number [OF assms(2)]
  have e: "number_ends (t # rest) (sp @ show_int z @ t # rest)" using E(1,2) by (simp add: show_int_def)
  show ?thesis using strto_show_int [OF assms(1) E(3), of z rest] e
    by (auto simp: safe_strtoll_def strtoll_def nat_less_iff nat_le_iff le_nat_iff)
qed

lemma safe_strtoul_pos:
  assumes "\<forall>b \<in> set sp. isspace b" "isspace t \<or> t = 0" "n < 2 ^ 63"
  shows "safe_strtoul (sp @ digits n @ t # rest) = Some (True, of_nat n)"
proof -
  note E = ends_number [OF assms(2)]
  have "ucast (of_nat n :: u64) = (of_nat n :: u32)" by (simp add: word_unat_eq_iff unsigned_ucast_eq unat_of_nat take_bit_eq_mod mod_mod_cancel)
  then show ?thesis using strto_digits(1) [OF assms(1) E(3), of n rest] E(1) assms(3)
    by (simp add: safe_strtoul_def strtoull_def sless_0 unat_of_u64)
qed

lemma safe_strtoul_huge:
  assumes "\<forall>b \<in> set sp. isspace b" "isspace t \<or> t = 0" "2 ^ 64 \<le> n"
  shows "safe_strtoul (sp @ digits n @ t # rest) = Some (False, 0)"
  using strto_digits(1) [OF assms(1) ends_number(3) [OF assms(2)], of n rest] assms(3) by (simp add: safe_strtoul_def strtoull_def)



subsection \<open>Byte order\<close>

lemma swap_loop_bits:
  assumes "k + j = 8" "\<forall>n. bit rv n \<longleftrightarrow> n < 8 * k \<and> bit x (8 * (k - 1 - n div 8) + n mod 8)" "inp = drop_bit (8 * k) x"
  shows "bit (swap_loop j rv inp) n \<longleftrightarrow> n < 64 \<and> bit x (8 * (7 - n div 8) + n mod 8)"
  using assms
proof (induction j arbitrary: k rv inp)
  case 0
  then show ?case by simp
next
  case (Suc j)
  have ff: "(0xff :: u64) = mask 8" by (simp add: mask_eq_exp_minus_1)
  have "bit (push_bit 8 rv OR (inp AND 0xff)) n \<longleftrightarrow> n < 8 * Suc k \<and> bit x (8 * (Suc k - 1 - n div 8) + n mod 8)" for n
  proof (cases "n < 8")
    case True
    show ?thesis unfolding ff using True Suc.prems(1,3) by (simp add: bit_mask_iff bit_or_iff bit_push_bit_iff bit_and_iff bit_drop_bit_eq ac_simps)
  next
    case False
    then obtain m where m: "n = m + 8" by (metis add.commute le_Suc_ex not_less)
    have "\<not> bit (0xff :: u64) n" unfolding ff using False by (simp add: bit_mask_iff)
    moreover have "Suc k - 1 - n div 8 = k - 1 - m div 8" using m by simp
    moreover have n64: "bit rv m \<Longrightarrow> n < 64" using spec [OF Suc.prems(2), of m] Suc.prems(1) m by simp
    have "bit (push_bit 8 rv) n \<longleftrightarrow> bit rv m" using n64 m by (auto simp: bit_push_bit_iff)
    moreover have "n < 8 * Suc k \<longleftrightarrow> m < 8 * k" "n mod 8 = m mod 8" using m by simp_all
    ultimately show ?thesis using spec [OF Suc.prems(2), of m] by (auto simp: bit_or_iff bit_and_iff)
  qed
  moreover have "drop_bit 8 inp = drop_bit (8 * Suc k) x" using Suc.prems(3) by (simp add: ac_simps)
  ultimately show ?case using Suc.IH [of "Suc k"] Suc.prems(1) by simp
qed

lemma mc_swap64_bit: "bit (mc_swap64 x) n \<longleftrightarrow> n < 64 \<and> bit x (8 * (7 - n div 8) + n mod 8)"
  unfolding mc_swap64_def by (rule swap_loop_bits [of 0]) simp_all

text \<open>
  \<open>ntohll\<close> reverses the order of the eight bytes of a number, and \<open>htonll\<close> undoes it.
\<close>

theorem ntohll_htonll:
  "ntohll (htonll x) = x \<and> (\<forall>i < 8. take_bit 8 (drop_bit (8 * i) (htonll x)) = take_bit 8 (drop_bit (8 * (7 - i)) x))"
proof (intro conjI allI impI)
  show "ntohll (htonll x) = x"
  proof (rule bit_word_eqI)
    fix n assume n: "n < LENGTH(64)"
    have "n div 8 \<le> 7" using n by simp
    let ?m = "8 * (7 - n div 8) + n mod 8"
    have "?m < 64" "8 * (7 - ?m div 8) + ?m mod 8 = n" using \<open>n div 8 \<le> 7\<close> by simp_all
    then show "bit (ntohll (htonll x)) n \<longleftrightarrow> bit x n" using n by (simp add: ntohll_def htonll_def mc_swap64_bit)
  qed
  show "take_bit 8 (drop_bit (8 * i) (htonll x)) = take_bit 8 (drop_bit (8 * (7 - i)) x)" if "i < 8" for i
  proof (rule bit_word_eqI)
    fix n assume "n < LENGTH(64)"
    show "bit (take_bit 8 (drop_bit (8 * i) (htonll x))) n \<longleftrightarrow> bit (take_bit 8 (drop_bit (8 * (7 - i)) x)) n"
      using that by (auto simp: bit_take_bit_iff bit_drop_bit_eq htonll_def mc_swap64_bit)
  qed
qed

theorem ntohll_htonll_witness:
  "ntohll (htonll 0x0102) = 0x0102 \<and> take_bit 8 (drop_bit (8 * 7) (htonll 0x0102)) = take_bit 8 (0x0102 :: u64)"
proof -
  from ntohll_htonll [of "0x0102"] have a: "ntohll (htonll 0x0102) = 0x0102"
    and b: "7 < (8 :: nat) \<longrightarrow> take_bit 8 (drop_bit (8 * 7) (htonll 0x0102)) = take_bit 8 (drop_bit (8 * (7 - 7)) (0x0102 :: u64))" by blast+
  from b have "take_bit 8 (drop_bit (8 * 7) (htonll 0x0102)) = take_bit 8 (drop_bit 0 (0x0102 :: u64))" by auto
  with a show ?thesis by (simp only: drop_bit_0 id_apply)
qed

end
