(* ===== verification/Dlist_Heap.thy ===== *)
theory Dlist_Heap
  imports Prelude
begin

text \<open>
  Doubly linked lists in a C heap. The locale \<open>dlinked\<close> is the interface of a node type with a
  forward and a backward link; its lemmas on pushing at the front, taking out a node and walking
  back from the end are shared by the structures that interpret it.
\<close>

abbreviation first :: "addr list \<Rightarrow> addr \<Rightarrow> addr" where
  "first xs e \<equiv> hd (xs @ [e])"

abbreviation final_of :: "addr \<Rightarrow> addr list \<Rightarrow> addr" where
  "final_of b xs \<equiv> last (b # xs)"

locale dlinked =
  fixes nxt :: "'n \<Rightarrow> addr" and prv :: "'n \<Rightarrow> addr"
    and set_nxt :: "addr \<Rightarrow> 'n \<Rightarrow> 'n" and set_prv :: "addr \<Rightarrow> 'n \<Rightarrow> 'n"
  assumes nxt_set [simp]: "nxt (set_nxt q n) = q" "nxt (set_prv q n) = nxt n"
    and prv_set [simp]: "prv (set_prv q n) = q" "prv (set_nxt q n) = prv n"
begin

text \<open>\<open>dl h b xs e\<close>: the nodes \<open>xs\<close> are linked both ways, with \<open>b\<close> before the first and \<open>e\<close> behind the last.\<close>

fun dl :: "'n heap \<Rightarrow> addr \<Rightarrow> addr list \<Rightarrow> addr \<Rightarrow> bool" where
  "dl h b [] e \<longleftrightarrow> True"
| "dl h b (x # xs) e \<longleftrightarrow> (case load h x of None \<Rightarrow> False | Some n \<Rightarrow> prv n = b \<and> nxt n = first xs e) \<and> dl h x xs e"

lemma dl_append: "dl h b (xs @ ys) e \<longleftrightarrow> dl h b xs (first ys e) \<and> dl h (final_of b xs) ys e"
  by (induction xs arbitrary: b) (auto simp: hd_append split: option.splits)

lemma dl_loaded: "dl h b xs e \<Longrightarrow> x \<in> set xs \<Longrightarrow> \<exists>n. load h x = Some n"
  by (induction xs arbitrary: b) (auto split: option.splits)

lemma dl_not_NULL: "dl h b xs e \<Longrightarrow> NULL \<notin> set xs"
  using dl_loaded by fastforce

lemma dl_view:
  "(\<And>x. x \<in> set xs \<Longrightarrow> map_option (\<lambda>n. (prv n, nxt n)) (load h' x) = map_option (\<lambda>n. (prv n, nxt n)) (load h x)) \<Longrightarrow>
   dl h b xs e \<Longrightarrow> dl h' b xs e"
proof (induction xs arbitrary: b)
  case (Cons x xs)
  have "map_option (\<lambda>n. (prv n, nxt n)) (load h' x) = map_option (\<lambda>n. (prv n, nxt n)) (load h x)" by (rule Cons.prems(1)) simp
  moreover have "dl h' x xs e" using Cons by simp
  ultimately show ?case using Cons.prems(2) by (auto split: option.splits)
qed simp

lemma dl_upd_other: "x \<notin> set xs \<Longrightarrow> dl h b xs e \<Longrightarrow> dl (upd h x n) b xs e"
  by (rule dl_view [rotated]) (auto simp: heap_simps)

lemma dl_node:
  assumes "dl h b (ys @ x # zs) e" "load h x = Some n"
  shows "prv n = final_of b ys" "nxt n = first zs e"
  using assms by (auto simp: dl_append)

text \<open>Changing what is behind the last node and what is before the first one.\<close>

lemma dl_set_next:
  assumes "dl h b xs e" "xs \<noteq> []" "distinct xs" "load h (last xs) = Some n"
  shows "dl (upd h (last xs) (set_nxt e' n)) b xs e'"
proof -
  obtain ys l where xs: "xs = ys @ [l]" using assms(2) by (metis rev_exhaust)
  then have "l \<notin> set ys" "dl h b ys l" "prv n = final_of b ys" "load h l = Some n" using assms by (auto simp: dl_append)
  then have "dl (upd h l (set_nxt e' n)) b ys l" using dl_upd_other by blast
  with \<open>prv n = _\<close> \<open>load h l = _\<close> show ?thesis unfolding xs by (auto simp: dl_append heap_simps)
qed

lemma dl_set_prev:
  assumes "dl h b xs e" "xs \<noteq> []" "distinct xs" "load h (hd xs) = Some n"
  shows "dl (upd h (hd xs) (set_prv b' n)) b' xs e"
proof -
  obtain l ys where xs: "xs = l # ys" using assms(2) by (cases xs) auto
  then have "l \<notin> set ys" "dl h l ys e" "nxt n = first ys e" "load h l = Some n" using assms by auto
  then have "dl (upd h l (set_prv b' n)) l ys e" using dl_upd_other by blast
  with \<open>nxt n = _\<close> \<open>load h l = _\<close> show ?thesis unfolding xs by (auto simp: heap_simps)
qed

definition relink_prev :: "addr list \<Rightarrow> addr \<Rightarrow> 'n heap \<Rightarrow> 'n heap" where
  "relink_prev xs b h = (if xs = [] then h else upd h (hd xs) (set_prv b (the (load h (hd xs)))))"

definition relink_next :: "addr list \<Rightarrow> addr \<Rightarrow> 'n heap \<Rightarrow> 'n heap" where
  "relink_next xs e h = (if xs = [] then h else upd h (last xs) (set_nxt e (the (load h (last xs)))))"

lemma dl_relink_prev:
  assumes "dl h b xs e" "distinct xs"
  shows "dl (relink_prev xs b' h) b' xs e"
proof (cases "xs = []")
  case False
  then obtain n where "load h (hd xs) = Some n" using dl_loaded [OF assms(1)] by fastforce
  with dl_set_prev [OF assms(1) False assms(2)] False show ?thesis by (simp add: relink_prev_def)
qed simp

lemma dl_relink_next:
  assumes "dl h b xs e" "distinct xs"
  shows "dl (relink_next xs e' h) b xs e'"
proof (cases "xs = []")
  case False
  then obtain n where "load h (last xs) = Some n" using dl_loaded [OF assms(1)] by fastforce
  with dl_set_next [OF assms(1) False assms(2)] False show ?thesis by (simp add: relink_next_def)
qed simp

lemma dl_relink_other:
  "set xs \<inter> set ys = {} \<Longrightarrow> dl h b xs e \<Longrightarrow> dl (relink_prev ys q h) b xs e"
  "set xs \<inter> set ys = {} \<Longrightarrow> dl h b xs e \<Longrightarrow> dl (relink_next ys q h) b xs e"
  unfolding relink_prev_def relink_next_def by (cases "ys = []"; force intro: dl_upd_other)+

text \<open>Putting a node in front, and taking a node out.\<close>

lemma dl_push:
  assumes "dl h NULL xs NULL" "distinct xs" "x \<notin> set xs" "x \<noteq> NULL" "prv n = NULL" "nxt n = first xs NULL"
  shows "dl (relink_prev xs x (upd h x n)) NULL (x # xs) NULL"
proof -
  have "dl (upd h x n) NULL xs NULL" by (rule dl_upd_other [OF assms(3,1)])
  from dl_relink_prev [OF this assms(2), of x] have "dl (relink_prev xs x (upd h x n)) x xs NULL" .
  moreover have "load (relink_prev xs x (upd h x n)) x = Some n"
    using assms(3,4) by (cases xs) (auto simp: relink_prev_def heap_simps)
  ultimately show ?thesis using assms(5,6) by simp
qed

lemma dl_remove:
  assumes "dl h NULL (ys @ x # zs) NULL" "distinct (ys @ x # zs)"
  shows "dl (relink_next ys (first zs NULL) (relink_prev zs (final_of NULL ys) h)) NULL (ys @ zs) NULL"
proof -
  have d: "dl h NULL ys x" "dl h x zs NULL" "distinct ys" "distinct zs" "set ys \<inter> set zs = {}" "set zs \<inter> set ys = {}"
    using assms by (auto simp: dl_append)
  let ?h = "relink_prev zs (final_of NULL ys) h"
  have "dl ?h NULL ys x" "dl ?h (final_of NULL ys) zs NULL" using dl_relink_other(1) [OF d(5,1)] dl_relink_prev [OF d(2,4)] by simp_all
  then show ?thesis using dl_relink_next [OF _ d(3)] dl_relink_other(2) [OF d(6)] by (simp add: dl_append)
qed

text \<open>What relinking leaves as it was.\<close>

lemma relink_prev_view:
  assumes "\<And>x. x \<in> set xs \<Longrightarrow> load h x \<noteq> None" "\<And>n. g (set_prv q n) = g n"
  shows "map_option g (load (relink_prev xs q h) x) = map_option g (load h x)"
proof (cases "xs = []")
  case False
  then obtain n where "load h (hd xs) = Some n" using assms(1) [of "hd xs"] by auto
  with False assms(2) show ?thesis by (auto simp: relink_prev_def heap_simps)
qed (simp add: relink_prev_def)

lemma relink_next_view:
  assumes "\<And>x. x \<in> set xs \<Longrightarrow> load h x \<noteq> None" "\<And>n. g (set_nxt q n) = g n"
  shows "map_option g (load (relink_next xs q h) x) = map_option g (load h x)"
proof (cases "xs = []")
  case False
  then obtain n where "load h (last xs) = Some n" using assms(1) [of "last xs"] by auto
  with False assms(2) show ?thesis by (auto simp: relink_next_def heap_simps)
qed (simp add: relink_next_def)

lemma relink_other:
  "x \<notin> set xs \<Longrightarrow> load (relink_prev xs q h) x = load h x" "x \<notin> set xs \<Longrightarrow> load (relink_next xs q h) x = load h x"
  by (auto simp: relink_prev_def relink_next_def heap_simps)

end

end
