(* ===== verification/Mc_Items.thy ===== *)
theory Mc_Items
  imports Mc_Assoc Mc_Slabs Mc_Util Dlist_Heap
begin

text \<open>
  \<open>memcached/memcached-1.4.6-ffwd/items.c\<close>: the items of the cache. An item is a chunk of the
  slab allocator; a linked item is in the hash table and in the queue of its slab class, which is
  kept in the order of the last access (\<open>heads\<close> and \<open>tails\<close>); items are reference counted.

  One record holds the state of the delegated cache: hash table, allocator, item heap, queues,
  the statistics these functions write, and the settings they read. \<open>fresh_data n\<close> is what is
  found in the data part of a new item of \<open>n\<close> bytes. \<open>None\<close> is a failed assertion or an access out
  of range, here or in the functions called.
\<close>

definition LARGEST_ID :: nat where "LARGEST_ID = POWER_LARGEST"
definition ITEM_UPDATE_INTERVAL :: u32 where "ITEM_UPDATE_INTERVAL = 60"
definition TAIL_REPAIR_TIME :: u32 where "TAIL_REPAIR_TIME = 3 * 3600"

record itemstats =
  evicted :: u32
  evicted_nonzero :: u32
  evicted_time :: u32
  is_reclaimed :: u32
  outofmemory :: u32
  tailrepairs :: u32

record cache =
  table :: assoc
  slab :: slabs
  items :: "item heap"
  heads :: "nat \<Rightarrow> addr"
  tails :: "nat \<Rightarrow> addr"
  sizes :: "nat \<Rightarrow> u32"
  itemstats :: "nat \<Rightarrow> itemstats"
  cas_id :: u64
  curr_items :: u32
  total_items :: u32
  curr_bytes :: u64
  evictions :: u64
  reclaimed :: u64
  current_time :: u32
  oldest_live :: u32
  use_cas :: bool
  evict_to_free :: bool
  fresh_data :: "nat \<Rightarrow> bytes"

definition count_stat :: "nat \<Rightarrow> (itemstats \<Rightarrow> itemstats) \<Rightarrow> cache \<Rightarrow> cache" where
  "count_stat i f cs = cs\<lparr> itemstats := (itemstats cs)(i := f (itemstats cs i)) \<rparr>"

text \<open>\<open>it->field = e\<close>.\<close>

definition set_item :: "addr \<Rightarrow> (item \<Rightarrow> item) \<Rightarrow> cache \<Rightarrow> cache option" where
  "set_item it f cs = do { h \<leftarrow> modify (items cs) it f; Some (cs\<lparr> items := h \<rparr>) }"

definition get_cas_id :: "cache \<Rightarrow> u64 \<times> cache" where
  "get_cas_id cs = (cas_id cs + 1, cs\<lparr> cas_id := cas_id cs + 1 \<rparr>)"

text \<open>The suffix of an item.\<close>

definition item_make_header :: "u8 \<Rightarrow> int \<Rightarrow> int \<Rightarrow> u64 \<times> bytes \<times> u8" where
  "item_make_header nk flags nb =
     (let text = [32] @ show_int flags @ [32] @ show_int (nb - 2) @ [13, 10];
          suffix = take 39 text; nsuffix = of_nat (length text)
      in (of_nat (SIZEOF_ITEM + unat nk + unat nsuffix) + of_int nb, suffix, nsuffix))"

subsection \<open>The queues\<close>

definition item_link_q :: "addr \<Rightarrow> cache \<Rightarrow> cache option" where
  "item_link_q it cs = do {
     i \<leftarrow> load (items cs) it;
     let c = unat (it_clsid i);
     if LARGEST_ID \<le> c \<or> has_flag ITEM_SLABBED i then None
     else do {
       let hd = heads cs c;
       let tl = tails cs c;
       if it = hd \<or> (hd = NULL) \<noteq> (tl = NULL) then None
       else do {
         cs \<leftarrow> set_item it (\<lambda>i. i\<lparr> it_prev := NULL, it_next := hd \<rparr>) cs;
         cs \<leftarrow> (if hd \<noteq> NULL then set_item hd (it_prev_update (\<lambda>_. it)) cs else Some cs);
         Some (cs\<lparr> heads := (heads cs)(c := it), tails := (if tl = NULL then (tails cs)(c := it) else tails cs),
           sizes := (sizes cs)(c := sizes cs c + 1) \<rparr>) } } }"

definition item_unlink_q :: "addr \<Rightarrow> cache \<Rightarrow> cache option" where
  "item_unlink_q it cs = do {
     i \<leftarrow> load (items cs) it;
     let c = unat (it_clsid i);
     if LARGEST_ID \<le> c then None
     else if heads cs c = it \<and> it_prev i \<noteq> NULL then None
     else do {
       let hd' = (if heads cs c = it then it_next i else heads cs c);
       if tails cs c = it \<and> it_next i \<noteq> NULL then None
       else do {
         let tl' = (if tails cs c = it then it_prev i else tails cs c);
         if it_next i = it \<or> it_prev i = it then None
         else do {
           cs \<leftarrow> (if it_next i \<noteq> NULL then set_item (it_next i) (it_prev_update (\<lambda>_. it_prev i)) cs else Some cs);
           cs \<leftarrow> (if it_prev i \<noteq> NULL then set_item (it_prev i) (it_next_update (\<lambda>_. it_next i)) cs else Some cs);
           Some (cs\<lparr> heads := (heads cs)(c := hd'), tails := (tails cs)(c := tl'), sizes := (sizes cs)(c := sizes cs c - 1) \<rparr>) } } } }"

subsection \<open>Linking, unlinking, releasing\<close>

definition ntotal_of :: "item \<Rightarrow> u64" where
  "ntotal_of it = of_int (ITEM_ntotal it)"

definition item_free_del :: "addr \<Rightarrow> cache \<Rightarrow> cache option" where
  "item_free_del it cs = do {
     i \<leftarrow> load (items cs) it;
     let c = unat (it_clsid i);
     if has_flag ITEM_LINKED i \<or> LARGEST_ID \<le> c \<or> it = heads cs c \<or> it = tails cs c \<or> refcount i \<noteq> 0 then None
     else do {
       cs \<leftarrow> set_item it (\<lambda>i. i\<lparr> it_clsid := 0, it_flags := it_flags i OR ITEM_SLABBED \<rparr>) cs;
       s \<leftarrow> do_slabs_free it (unat (ntotal_of i)) c (slab cs) (items cs);
       Some (cs\<lparr> slab := s \<rparr>) } }"

definition item_size_ok :: "nat \<Rightarrow> int \<Rightarrow> int \<Rightarrow> cache \<Rightarrow> bool option" where
  "item_size_ok nk flags nb cs =
     map_option (\<lambda>c. c \<noteq> 0) (slabs_clsid (slab cs) (unat (fst (item_make_header (of_nat (nk + 1)) flags nb))))"

text \<open>The macro \<open>ITEM_set_cas\<close> evaluates its argument only for an item with a CAS id.\<close>

definition set_link_cas :: "addr \<Rightarrow> cache \<Rightarrow> cache option" where
  "set_link_cas it cs = do {
     i \<leftarrow> load (items cs) it;
     if has_flag ITEM_CAS i
     then let (v, cs) = (if use_cas cs then get_cas_id cs else (0, cs)) in set_item it (ITEM_set_cas v) cs
     else Some cs }"

definition do_item_link_del :: "addr \<Rightarrow> cache \<Rightarrow> cache option" where
  "do_item_link_del it cs = do {
     i \<leftarrow> load (items cs) it;
     if it_flags i AND (ITEM_LINKED OR ITEM_SLABBED) \<noteq> 0 then None
     else do {
       cs \<leftarrow> set_item it (\<lambda>i. i\<lparr> it_flags := it_flags i OR ITEM_LINKED, it_time := current_time cs \<rparr>) cs;
       (t, h) \<leftarrow> assoc_insert it (table cs) (items cs);
       let cs = cs\<lparr> table := t, items := h \<rparr>;
       i \<leftarrow> load (items cs) it;
       let cs = cs\<lparr> curr_bytes := curr_bytes cs + ntotal_of i, curr_items := curr_items cs + 1, total_items := total_items cs + 1 \<rparr>;
       cs \<leftarrow> set_link_cas it cs;
       item_link_q it cs } }"

definition do_item_unlink_del :: "addr \<Rightarrow> cache \<Rightarrow> cache option" where
  "do_item_unlink_del it cs = do {
     i \<leftarrow> load (items cs) it;
     if has_flag ITEM_LINKED i
     then do {
       cs \<leftarrow> set_item it (\<lambda>i. i\<lparr> it_flags := it_flags i AND NOT ITEM_LINKED \<rparr>) cs;
       let cs = cs\<lparr> curr_bytes := curr_bytes cs - ntotal_of i, curr_items := curr_items cs - 1 \<rparr>;
       (t, h) \<leftarrow> assoc_delete (ITEM_key i) (table cs) (items cs);
       cs \<leftarrow> item_unlink_q it (cs\<lparr> table := t, items := h \<rparr>);
       i \<leftarrow> load (items cs) it;
       if refcount i = 0 then item_free_del it cs else Some cs }
     else Some cs }"

definition do_item_remove_del :: "addr \<Rightarrow> cache \<Rightarrow> cache option" where
  "do_item_remove_del it cs = do {
     i \<leftarrow> load (items cs) it;
     if has_flag ITEM_SLABBED i then None
     else do {
       cs \<leftarrow> (if refcount i \<noteq> 0 then set_item it (\<lambda>i. i\<lparr> refcount := refcount i - 1 \<rparr>) cs else Some cs);
       i \<leftarrow> load (items cs) it;
       if refcount i = 0 \<and> \<not> has_flag ITEM_LINKED i then item_free_del it cs else Some cs } }"

definition do_item_update :: "addr \<Rightarrow> cache \<Rightarrow> cache option" where
  "do_item_update it cs = do {
     i \<leftarrow> load (items cs) it;
     if it_time i < current_time cs - ITEM_UPDATE_INTERVAL
     then if has_flag ITEM_SLABBED i then None
       else if has_flag ITEM_LINKED i
       then do {
         cs \<leftarrow> item_unlink_q it cs;
         cs \<leftarrow> set_item it (\<lambda>i. i\<lparr> it_time := current_time cs \<rparr>) cs;
         item_link_q it cs }
       else Some cs
     else Some cs }"

definition do_item_replace_del :: "addr \<Rightarrow> addr \<Rightarrow> cache \<Rightarrow> cache option" where
  "do_item_replace_del it new_it cs = do {
     i \<leftarrow> load (items cs) it;
     if has_flag ITEM_SLABBED i then None
     else do { cs \<leftarrow> do_item_unlink_del it cs; do_item_link_del new_it cs } }"

subsection \<open>Looking up\<close>

definition hold :: "addr \<Rightarrow> cache \<Rightarrow> (addr \<times> cache) option" where
  "hold it cs = (if it \<noteq> NULL then do { cs \<leftarrow> set_item it (\<lambda>i. i\<lparr> refcount := refcount i + 1 \<rparr>) cs; Some (it, cs) } else Some (it, cs))"

definition drop_if :: "(item \<Rightarrow> bool) \<Rightarrow> addr \<Rightarrow> cache \<Rightarrow> (addr \<times> cache) option" where
  "drop_if P it cs =
     (if it = NULL then Some (it, cs)
      else do { i \<leftarrow> load (items cs) it; if P i then do { cs \<leftarrow> do_item_unlink_del it cs; Some (NULL, cs) } else Some (it, cs) })"

definition flushed :: "cache \<Rightarrow> item \<Rightarrow> bool" where
  "flushed cs i \<longleftrightarrow> oldest_live cs \<noteq> 0 \<and> oldest_live cs \<le> current_time cs \<and> it_time i \<le> oldest_live cs"

definition expired :: "cache \<Rightarrow> item \<Rightarrow> bool" where
  "expired cs i \<longleftrightarrow> exptime i \<noteq> 0 \<and> exptime i \<le> current_time cs"

definition do_item_get_del :: "bytes \<Rightarrow> cache \<Rightarrow> (addr \<times> cache) option" where
  "do_item_get_del key cs = do {
     it \<leftarrow> assoc_find key (table cs) (items cs);
     (it, cs) \<leftarrow> drop_if (flushed cs) it cs;
     (it, cs) \<leftarrow> drop_if (expired cs) it cs;
     hold it cs }"

definition do_item_get_nocheck :: "bytes \<Rightarrow> cache \<Rightarrow> (addr \<times> cache) option" where
  "do_item_get_nocheck key cs = do { it \<leftarrow> assoc_find key (table cs) (items cs); hold it cs }"

partial_function (option) flush_queue :: "addr \<Rightarrow> cache \<Rightarrow> cache option" where
  "flush_queue iter cs =
     (if iter = NULL then Some cs
      else do {
        i \<leftarrow> load (items cs) iter;
        if oldest_live cs \<le> it_time i
        then do {
          cs \<leftarrow> (if \<not> has_flag ITEM_SLABBED i then do_item_unlink_del iter cs else Some cs);
          flush_queue (it_next i) cs }
        else Some cs })"

fun flush_queues :: "nat \<Rightarrow> nat \<Rightarrow> cache \<Rightarrow> cache option" where
  "flush_queues 0 i cs = Some cs"
| "flush_queues (Suc n) i cs = do { cs \<leftarrow> flush_queue (heads cs i) cs; flush_queues n (Suc i) cs }"

definition do_item_flush_expired_del :: "cache \<Rightarrow> cache option" where
  "do_item_flush_expired_del cs = (if oldest_live cs = 0 then Some cs else flush_queues LARGEST_ID 0 cs)"

subsection \<open>Allocation\<close>

text \<open>The three searches of \<open>do_item_alloc_del\<close> from the end of a queue, for at most \<open>tries\<close> items.\<close>

fun search_tail :: "(item \<Rightarrow> bool) \<Rightarrow> item heap \<Rightarrow> nat \<Rightarrow> addr \<Rightarrow> addr option" where
  "search_tail P h 0 p = Some NULL"
| "search_tail P h (Suc tries) p =
     (if p = NULL then Some NULL
      else do { i \<leftarrow> load h p; if P i then Some p else search_tail P h tries (it_prev i) })"

definition slabs_alloc :: "nat \<Rightarrow> nat \<Rightarrow> cache \<Rightarrow> (addr \<times> cache) option" where
  "slabs_alloc n c cs = do { (a, s, h) \<leftarrow> do_slabs_alloc n c (slab cs) (items cs); Some (a, cs\<lparr> slab := s, items := h \<rparr>) }"

definition reclaim_expired :: "u64 \<Rightarrow> nat \<Rightarrow> cache \<Rightarrow> (addr \<times> cache) option" where
  "reclaim_expired ntotal c cs = do {
     it \<leftarrow> search_tail (\<lambda>i. refcount i = 0 \<and> exptime i \<noteq> 0 \<and> exptime i < current_time cs) (items cs) 50 (tails cs c);
     if it = NULL then Some (NULL, cs)
     else do {
       let cs = count_stat c (\<lambda>s. s\<lparr> is_reclaimed := is_reclaimed s + 1 \<rparr>) (cs\<lparr> reclaimed := reclaimed cs + 1 \<rparr>);
       cs \<leftarrow> set_item it (\<lambda>i. i\<lparr> refcount := 1 \<rparr>) cs;
       i \<leftarrow> load (items cs) it;
       s \<leftarrow> slabs_adjust_mem_requested (unat (it_clsid i)) (unat (ntotal_of i)) (unat ntotal) (slab cs);
       cs \<leftarrow> do_item_unlink_del it (cs\<lparr> slab := s \<rparr>);
       cs \<leftarrow> set_item it (\<lambda>i. i\<lparr> it_clsid := 0, refcount := 0 \<rparr>) cs;
       Some (it, cs) } }"

definition evict_one :: "nat \<Rightarrow> cache \<Rightarrow> cache option" where
  "evict_one c cs = do {
     it \<leftarrow> search_tail (\<lambda>i. refcount i = 0) (items cs) 50 (tails cs c);
     if it = NULL then Some cs
     else do {
       i \<leftarrow> load (items cs) it;
       let cs = (if exptime i = 0 \<or> current_time cs < exptime i
         then (count_stat c (\<lambda>s. s\<lparr> evicted := evicted s + 1, evicted_time := current_time cs - it_time i,
           evicted_nonzero := (if exptime i \<noteq> 0 then evicted_nonzero s + 1 else evicted_nonzero s) \<rparr>) cs)\<lparr> evictions := evictions cs + 1 \<rparr>
         else (count_stat c (\<lambda>s. s\<lparr> is_reclaimed := is_reclaimed s + 1 \<rparr>) cs)\<lparr> reclaimed := reclaimed cs + 1 \<rparr>);
       do_item_unlink_del it cs } }"

definition repair_tail :: "nat \<Rightarrow> cache \<Rightarrow> cache option" where
  "repair_tail c cs = do {
     it \<leftarrow> search_tail (\<lambda>i. refcount i \<noteq> 0 \<and> it_time i + TAIL_REPAIR_TIME < current_time cs) (items cs) 50 (tails cs c);
     if it = NULL then Some cs
     else do {
       let cs = count_stat c (\<lambda>s. s\<lparr> tailrepairs := tailrepairs s + 1 \<rparr>) cs;
       cs \<leftarrow> set_item it (\<lambda>i. i\<lparr> refcount := 0 \<rparr>) cs;
       do_item_unlink_del it cs } }"

definition count_oom :: "nat \<Rightarrow> cache \<Rightarrow> cache" where
  "count_oom c = count_stat c (\<lambda>s. s\<lparr> outofmemory := outofmemory s + 1 \<rparr>)"

text \<open>What is done if no expired item was found and the allocator has no chunk left.\<close>

definition alloc_evicting :: "u64 \<Rightarrow> nat \<Rightarrow> cache \<Rightarrow> (addr \<times> cache) option" where
  "alloc_evicting ntotal c cs =
     (if \<not> evict_to_free cs \<or> tails cs c = NULL then Some (NULL, count_oom c cs)
      else do {
        cs \<leftarrow> evict_one c cs;
        (it, cs) \<leftarrow> slabs_alloc (unat ntotal) c cs;
        if it = NULL
        then do { cs \<leftarrow> repair_tail c (count_oom c cs); slabs_alloc (unat ntotal) c cs }
        else Some (it, cs) })"

definition item_init :: "addr \<Rightarrow> nat \<Rightarrow> bytes \<Rightarrow> u32 \<Rightarrow> int \<Rightarrow> bytes \<Rightarrow> u8 \<Rightarrow> cache \<Rightarrow> cache option" where
  "item_init it c key exp nb suffix nsuf cs = do {
     i \<leftarrow> load (items cs) it;
     if it_clsid i \<noteq> 0 \<or> LARGEST_ID \<le> c \<or> it = heads cs c then None
     else set_item it (\<lambda>i. i\<lparr> it_clsid := of_nat c, it_next := NULL, it_prev := NULL, h_next := NULL, refcount := 1,
       it_flags := (if use_cas cs then ITEM_CAS else 0), nkey := of_nat (length key), nbytes := nb, it_key := key, exptime := exp,
       it_suffix := take (unat nsuf) suffix, nsuffix := nsuf, it_data := fresh_data cs (nat nb) \<rparr>) cs }"

definition do_item_alloc_del :: "bytes \<Rightarrow> int \<Rightarrow> u32 \<Rightarrow> int \<Rightarrow> cache \<Rightarrow> (addr \<times> cache) option" where
  "do_item_alloc_del key flags exp nb cs = do {
     let (ntotal, suffix, nsuf) = item_make_header (of_nat (length key + 1)) flags nb;
     let ntotal = (if use_cas cs then ntotal + 8 else ntotal);
     c \<leftarrow> slabs_clsid (slab cs) (unat ntotal);
     if c = 0 then Some (NULL, cs)
     else if LARGEST_ID \<le> c then None
     else do {
       (it, cs) \<leftarrow> reclaim_expired ntotal c cs;
       (it, cs) \<leftarrow> (if it \<noteq> NULL then Some (it, cs)
         else do {
           (it, cs) \<leftarrow> slabs_alloc (unat ntotal) c cs;
           if it \<noteq> NULL then Some (it, cs) else alloc_evicting ntotal c cs });
       if it = NULL then Some (NULL, cs)
       else do { cs \<leftarrow> item_init it c key exp nb suffix nsuf cs; Some (it, cs) } } }"

declare flush_queue.simps [code]

subsection \<open>Flags\<close>

lemma flag_bits: "has_flag ITEM_LINKED i = bit (it_flags i) 0" "has_flag ITEM_CAS i = bit (it_flags i) 1" "has_flag ITEM_SLABBED i = bit (it_flags i) 2"
  using and_exp_eq_0_iff_not_bit [of "it_flags i" 0] and_exp_eq_0_iff_not_bit [of "it_flags i" 1] and_exp_eq_0_iff_not_bit [of "it_flags i" 2]
  by (simp_all add: has_flag_def ITEM_LINKED_def ITEM_CAS_def ITEM_SLABBED_def)

lemma flag_const: "bit ITEM_LINKED n \<longleftrightarrow> n = 0" "bit ITEM_SLABBED n \<longleftrightarrow> n = 2"  "bit ITEM_CAS n \<longleftrightarrow> n = 1"
  using bit_exp_iff [where 'a="8 word", of 0 n] bit_exp_iff [where 'a="8 word", of 2 n] bit_exp_iff [where 'a="8 word", of 1 n]
  by (auto simp: ITEM_LINKED_def ITEM_SLABBED_def ITEM_CAS_def)

lemma flags_set:
  "has_flag ITEM_LINKED (i\<lparr> it_flags := it_flags i OR ITEM_LINKED \<rparr>)"
  "has_flag ITEM_SLABBED (i\<lparr> it_flags := it_flags i OR ITEM_LINKED \<rparr>) = has_flag ITEM_SLABBED i"
  "has_flag ITEM_CAS (i\<lparr> it_flags := it_flags i OR ITEM_LINKED \<rparr>) = has_flag ITEM_CAS i"
  "\<not> has_flag ITEM_LINKED (i\<lparr> it_flags := it_flags i AND NOT ITEM_LINKED \<rparr>)"
  "has_flag ITEM_SLABBED (i\<lparr> it_flags := it_flags i AND NOT ITEM_LINKED \<rparr>) = has_flag ITEM_SLABBED i"
  "has_flag ITEM_CAS (i\<lparr> it_flags := it_flags i AND NOT ITEM_LINKED \<rparr>) = has_flag ITEM_CAS i"
  by (auto simp: flag_bits flag_const bit_or_iff bit_and_iff bit_not_iff)

lemma has_flag_refcount [simp]: "has_flag f (i\<lparr> refcount := r \<rparr>) = has_flag f i"
  by (simp add: has_flag_def)

lemma no_flags: "it_flags i AND (ITEM_LINKED OR ITEM_SLABBED) = 0 \<longleftrightarrow> \<not> has_flag ITEM_LINKED i \<and> \<not> has_flag ITEM_SLABBED i"
  unfolding bit_eq_iff [of _ 0] by (auto simp: flag_bits flag_const bit_or_iff bit_and_iff intro!: gr0I dest: spec [of _ 0] spec [of _ 2])

lemma clear_flag: "\<not> has_flag ITEM_LINKED i \<Longrightarrow> it_flags i AND NOT ITEM_LINKED = it_flags i"
  by (rule bit_eqI) (auto simp: flag_bits flag_const bit_and_iff bit_not_iff intro!: gr0I)

subsection \<open>Views of the heap\<close>

text \<open>Two heaps with the same allocated items, which agree on what \<open>g\<close> sees of each.\<close>

definition keeps :: "(item \<Rightarrow> 'b) \<Rightarrow> item heap \<Rightarrow> item heap \<Rightarrow> bool" where
  "keeps g h h' \<longleftrightarrow> (\<forall>x. map_option g (load h' x) = map_option g (load h x))"

definition hash_view :: "item \<Rightarrow> addr \<times> u8 \<times> bytes" where
  "hash_view i = (h_next i, nkey i, it_key i)"

definition lru_view :: "item \<Rightarrow> addr \<times> addr" where
  "lru_view i = (it_prev i, it_next i)"

definition state_view :: "item \<Rightarrow> u8 \<times> u8" where
  "state_view i = (it_flags i, it_clsid i)"

text \<open>An item without its links.\<close>

definition body :: "item \<Rightarrow> item" where
  "body i = i\<lparr> it_next := NULL, it_prev := NULL, h_next := NULL \<rparr>"

definition unqueued :: "item \<Rightarrow> item" where
  "unqueued i = i\<lparr> it_next := NULL, it_prev := NULL \<rparr>"

definition unhashed :: "item \<Rightarrow> item" where
  "unhashed i = i\<lparr> h_next := NULL \<rparr>"

lemmas view_defs = hash_view_def lru_view_def state_view_def body_def unqueued_def unhashed_def

lemma keeps_refl [simp]: "keeps g h h"
  by (simp add: keeps_def)

lemma keeps_trans: "keeps g h h1 \<Longrightarrow> keeps g h1 h2 \<Longrightarrow> keeps g h h2"
  by (simp add: keeps_def)

lemma keeps_sym: "keeps g h h' \<Longrightarrow> keeps g h' h"
  by (simp add: keeps_def)

lemma keeps_mono:
  assumes "keeps g h h'" "\<And>i. f i = f (g i)"
  shows "keeps f h h'"
proof -
  have "map_option f v = map_option f (map_option g v)" for v
    using assms(2) by (cases v) auto
  then show ?thesis using assms(1) unfolding keeps_def by metis
qed

lemma keeps_load:
  assumes "keeps g h h'" "load h x = Some i"
  obtains i' where "load h' x = Some i'" "g i' = g i"
proof -
  have "map_option g (load h' x) = map_option g (load h x)" using assms(1) unfolding keeps_def by blast
  with assms(2) that show ?thesis by auto
qed

lemma keeps_upd: "load h x = Some i \<Longrightarrow> g j = g i \<Longrightarrow> keeps g h (upd h x j)"
  by (auto simp: keeps_def heap_simps)

lemma keeps_None: "keeps g h h' \<Longrightarrow> load h' x = None \<longleftrightarrow> load h x = None"
  unfolding keeps_def by (metis option.map_disc_iff)

lemma same_but_h_next_keeps: "same_but_h_next h h' \<longleftrightarrow> keeps unhashed h h'"
  by (simp add: same_but_h_next_def keeps_def unhashed_def [abs_def])

lemma unqueued_keeps:
  assumes "keeps unqueued h h'"
  shows "keeps hash_view h h'" "keeps state_view h h'" "keeps body h h'" "keeps it_clsid h h'" "keeps refcount h h'"
  by (rule keeps_mono [OF assms]; simp add: view_defs)+

lemma unhashed_keeps:
  assumes "keeps unhashed h h'"
  shows "keeps lru_view h h'" "keeps state_view h h'" "keeps body h h'" "keeps it_clsid h h'" "keeps refcount h h'"
  by (rule keeps_mono [OF assms]; simp add: view_defs)+

lemma assoc_rep_keeps:
  assumes rep: "assoc_rep a h C" and k: "keeps hash_view h h'"
  shows "assoc_rep a h' C" "hc.key_at h' x = hc.key_at h x"
proof -
  have view: "map_option hash_view (load h' x) = map_option hash_view (load h x)" for x using k unfolding keeps_def by blast
  have key: "hc.key_at h' x = hc.key_at h x" for x
    using view [of x] by (cases "load h x"; cases "load h' x") (auto simp: hc.key_at_def ITEM_key_def hash_view_def)
  then show "hc.key_at h' x = hc.key_at h x" .
  have wf: "item_wf (the (load h' x)) = item_wf (the (load h x))" for x
    using view [of x] by (cases "load h x"; cases "load h' x") (auto simp: item_wf_def hash_view_def)
  have path: "hc.path h' p xs q = hc.path h p xs q" for p xs q
  proof (induction xs arbitrary: p)
    case (Cons x xs)
    then show ?case using view [of x] by (cases "load h x"; cases "load h' x") (auto simp: hash_view_def)
  qed simp
  have "hc.key_at h' = hc.key_at h" using key by blast
  with rep path wf show "assoc_rep a h' C" unfolding assoc_rep_def by simp
qed

lemma slabs_inv_keeps:
  assumes "slabs_inv sl h U" and k: "keeps it_clsid h h'"
  shows "slabs_inv sl h' U"
proof (rule slabs_inv_write [OF assms(1)])
  fix x
  show "load h x \<noteq> None \<Longrightarrow> load h' x \<noteq> None" using keeps_None [OF k] by simp
  have "map_option it_clsid (load h' x) = map_option it_clsid (load h x)" using k unfolding keeps_def by blast
  then show "it_clsid (the (load h' x)) = it_clsid (the (load h x))" by (cases "load h x"; cases "load h' x") auto
qed

interpretation lru: dlinked it_next it_prev "\<lambda>q. it_next_update (\<lambda>_. q)" "\<lambda>q. it_prev_update (\<lambda>_. q)"
  by unfold_locales simp_all

lemma lru_keeps: "keeps lru_view h h' \<Longrightarrow> lru.dl h b xs e \<Longrightarrow> lru.dl h' b xs e"
  by (rule lru.dl_view) (auto simp: keeps_def lru_view_def [abs_def])

subsection \<open>Queue operations\<close>

definition queues :: "cache \<Rightarrow> (nat \<Rightarrow> addr list) \<Rightarrow> bool" where
  "queues cs Q \<longleftrightarrow> (\<forall>c < LARGEST_ID. lru.dl (items cs) NULL (Q c) NULL \<and> distinct (Q c) \<and> heads cs c = first (Q c) NULL \<and>
     tails cs c = final_of NULL (Q c) \<and> sizes cs c = of_nat (length (Q c))) \<and> (\<forall>c d. c \<noteq> d \<longrightarrow> set (Q c) \<inter> set (Q d) = {})"

lemma queues_keeps:
  assumes "queues cs Q" "keeps lru_view (items cs) (items cs')" "heads cs' = heads cs" "tails cs' = tails cs" "sizes cs' = sizes cs"
  shows "queues cs' Q"
  using assms lru_keeps [OF assms(2)] by (simp add: queues_def)

text \<open>The state after a queue operation.\<close>

definition requeued :: "cache \<Rightarrow> cache \<Rightarrow> bool" where
  "requeued cs cs' \<longleftrightarrow> cs' = cs\<lparr> items := items cs', heads := heads cs', tails := tails cs', sizes := sizes cs' \<rparr> \<and>
     keeps unqueued (items cs) (items cs')"

lemma set_item_Some: "load (items cs) it = Some i \<Longrightarrow> set_item it f cs = Some (cs\<lparr> items := upd (items cs) it (f i) \<rparr>)"
  by (simp add: set_item_def modify_eq)

lemma queues_change:
  assumes q: "queues cs Q" and c: "c < LARGEST_ID"
    and new: "lru.dl h' NULL xs NULL" "distinct xs" "set xs \<subseteq> insert it (set (Q c))" "\<And>d. d \<noteq> c \<Longrightarrow> it \<notin> set (Q d)"
    and other: "\<And>x. x \<notin> insert it (set (Q c)) \<Longrightarrow> load h' x = load (items cs) x"
    and cs': "items cs' = h'" "heads cs' = (heads cs)(c := first xs NULL)" "tails cs' = (tails cs)(c := final_of NULL xs)"
      "sizes cs' = (sizes cs)(c := of_nat (length xs))"
  shows "queues cs' (Q(c := xs))"
proof -
  have dis: "set (Q d) \<inter> insert it (set (Q c)) = {}" if "d \<noteq> c" for d using q new(4) [OF that] that unfolding queues_def by blast
  have "lru.dl h' NULL (Q d) NULL" if "d \<noteq> c" "d < LARGEST_ID" for d
  proof (rule lru.dl_view)
    show "lru.dl (items cs) NULL (Q d) NULL" using q that by (simp add: queues_def)
    fix x assume "x \<in> set (Q d)"
    then have "load h' x = load (items cs) x" using dis [OF that(1)] other by blast
    then show "map_option (\<lambda>n. (it_prev n, it_next n)) (load h' x) = map_option (\<lambda>n. (it_prev n, it_next n)) (load (items cs) x)" by simp
  qed
  moreover have "set xs \<inter> set (Q d) = {}" if "d \<noteq> c" for d using dis [OF that] new(3) by blast
  ultimately show ?thesis using q new(1,2) cs' unfolding queues_def by (auto simp: Int_commute)
qed

lemma item_link_q_spec:
  assumes q: "queues cs Q" and i: "load (items cs) it = Some i" "unat (it_clsid i) = c" "\<not> has_flag ITEM_SLABBED i"
    and c: "c < LARGEST_ID" and new: "\<And>d. it \<notin> set (Q d)"
  obtains cs' where "item_link_q it cs = Some cs'" "requeued cs cs'" "queues cs' (Q(c := it # Q c))"
proof -
  let ?n = "i\<lparr> it_prev := NULL, it_next := first (Q c) NULL \<rparr>"
  let ?h = "lru.relink_prev (Q c) it (upd (items cs) it ?n)"
  have Q: "lru.dl (items cs) NULL (Q c) NULL" "distinct (Q c)" "heads cs c = first (Q c) NULL" "tails cs c = final_of NULL (Q c)"
    "sizes cs c = of_nat (length (Q c))" using q c by (auto simp: queues_def)
  have it: "it \<noteq> NULL" using i(1) by auto
  have nn: "x \<noteq> NULL" if "x \<in> set (Q c)" for x using lru.dl_not_NULL [OF Q(1)] that by metis
  have dl: "lru.dl ?h NULL (it # Q c) NULL" by (rule lru.dl_push [OF Q(1,2) new it]) simp_all
  let ?cs = "cs\<lparr> items := ?h, heads := (heads cs)(c := it), tails := (tails cs)(c := final_of NULL (it # Q c)),
      sizes := (sizes cs)(c := of_nat (length (it # Q c))) \<rparr>"
  have ld: "load (upd (items cs) it ?n) x \<noteq> None" if "x \<in> set (Q c)" for x
    using lru.dl_loaded [OF Q(1) that] it by (auto simp: heap_simps)
  have run: "item_link_q it cs = Some ?cs"
  proof (cases "Q c")
    case Nil
    then show ?thesis using i c Q(3-5) it by (simp add: item_link_q_def Let_def set_item_def modify_eq lru.relink_prev_def)
  next
    case (Cons y ys)
    then obtain n where n: "load (items cs) y = Some n" "y \<noteq> NULL" "y \<noteq> it" using lru.dl_loaded [OF Q(1), of y] new [of c] nn [of y] by auto
    have t: "(tails cs)(c := final_of NULL (it # Q c)) = tails cs" using Q(4) Cons by (intro ext) simp
    have "final_of NULL (Q c) \<noteq> NULL" using Cons nn by simp
    then show ?thesis unfolding t using i c Q(3-5) it n Cons
      by (simp add: item_link_q_def Let_def set_item_def modify_eq lru.relink_prev_def heap_simps)
  qed
  have "queues ?cs (Q(c := it # Q c))"
    using Q(2) new by (intro queues_change [OF q c dl]) (auto simp: lru.relink_other heap_simps)
  moreover have "keeps unqueued (upd (items cs) it ?n) ?h"
    unfolding keeps_def using ld by (intro allI lru.relink_prev_view) (auto simp: unqueued_def)
  from keeps_trans [OF keeps_upd [OF i(1)] this] have "keeps unqueued (items cs) ?h" by (simp add: unqueued_def)
  ultimately show ?thesis using run that [of ?cs] by (simp add: requeued_def)
qed

lemma item_unlink_q_spec:
  assumes q: "queues cs Q" and i: "load (items cs) it = Some i" "unat (it_clsid i) = c" and c: "c < LARGEST_ID" and Qc: "Q c = ys @ it # zs"
  obtains cs' where "item_unlink_q it cs = Some cs'" "requeued cs cs'" "queues cs' (Q(c := ys @ zs))"
proof -
  have Q: "lru.dl (items cs) NULL (ys @ it # zs) NULL" "distinct (ys @ it # zs)" "heads cs c = first (ys @ it # zs) NULL"
    "tails cs c = final_of NULL (ys @ it # zs)" "sizes cs c = of_nat (length (ys @ it # zs))" unfolding Qc [symmetric] using q c by (simp_all add: queues_def)
  have links: "it_prev i = final_of NULL ys" "it_next i = first zs NULL" using lru.dl_node [OF Q(1) i(1)] by simp_all
  let ?h1 = "lru.relink_prev zs (final_of NULL ys) (items cs)"
  let ?h = "lru.relink_next ys (first zs NULL) ?h1"
  have nn: "x \<noteq> NULL" "load (items cs) x \<noteq> None" if "x \<in> set (ys @ it # zs)" for x
    using lru.dl_loaded [OF Q(1) that] by auto
  let ?cs = "cs\<lparr> items := ?h, heads := (heads cs)(c := first (ys @ zs) NULL), tails := (tails cs)(c := final_of NULL (ys @ zs)),
      sizes := (sizes cs)(c := of_nat (length (ys @ zs))) \<rparr>"
  have ends: "heads cs c = it \<longleftrightarrow> ys = []" "tails cs c = it \<longleftrightarrow> zs = []"
    subgoal using Q(2,3) by (cases ys) auto
    subgoal using Q(2,4) by (cases zs rule: rev_cases) auto
    done
  have hd': "(if heads cs c = it then it_next i else heads cs c) = first (ys @ zs) NULL" using links ends(1) Q(3) by (cases ys) auto
  have tl': "(if tails cs c = it then it_prev i else tails cs c) = final_of NULL (ys @ zs)"
    using links ends(2) Q(4) by (cases zs rule: rev_cases) auto
  have s1: "(if it_next i \<noteq> NULL then set_item (it_next i) (it_prev_update (\<lambda>_. it_prev i)) cs else Some cs) = Some (cs\<lparr> items := ?h1 \<rparr>)"
  proof (cases zs)
    case (Cons z zs')
    then show ?thesis using nn [of z] links by (auto simp: set_item_def modify_eq lru.relink_prev_def)
  qed (use links in \<open>simp add: lru.relink_prev_def\<close>)
  have ld1: "load ?h1 x \<noteq> None" if "x \<in> set ys" for x
  proof -
    have "x \<notin> set zs" using Q(2) that by auto
    with nn [of x] that show ?thesis by (simp add: lru.relink_other)
  qed
  have s2: "(if it_prev i \<noteq> NULL then set_item (it_prev i) (it_next_update (\<lambda>_. it_next i)) (cs\<lparr> items := ?h1 \<rparr>) else Some (cs\<lparr> items := ?h1 \<rparr>)) =
      Some (cs\<lparr> items := ?h \<rparr>)"
  proof (cases ys rule: rev_cases)
    case (snoc ys' y)
    then show ?thesis using nn(1) [of y] ld1 [of y] links by (auto simp: set_item_def modify_eq lru.relink_next_def)
  qed (use links in \<open>simp add: lru.relink_next_def\<close>)
  have guards: "\<not> (heads cs c = it \<and> it_prev i \<noteq> NULL)" "\<not> (tails cs c = it \<and> it_next i \<noteq> NULL)" "it_next i \<noteq> it" "it_prev i \<noteq> it"
    using links ends Q(2) nn(1) [of it] by (cases zs; cases ys rule: rev_cases; auto)+
  have sz: "sizes cs c - 1 = of_nat (length (ys @ zs))" using Q(5) by simp
  have run: "item_unlink_q it cs = Some ?cs"
    by (simp only: item_unlink_q_def i Let_def Option.bind.bind_lunit hd' tl' s1 s2 guards linorder_not_le [THEN iffD2, OF c] if_False simp_thms) (simp add: sz del: length_append)
  have dl: "lru.dl ?h NULL (ys @ zs) NULL" by (rule lru.dl_remove [OF Q(1,2)])
  have nd: "it \<notin> set (Q d)" if "d \<noteq> c" for d using q that Qc unfolding queues_def by (metis disjoint_iff in_set_conv_decomp)
  have "queues ?cs (Q(c := ys @ zs))"
    using Q(2) Qc nd by (intro queues_change [OF q c dl, of it]) (auto simp: lru.relink_other)
  moreover have "keeps unqueued (items cs) ?h1" unfolding keeps_def using nn by (intro allI lru.relink_prev_view) (auto simp: unqueued_def)
  moreover have "keeps unqueued ?h1 ?h" unfolding keeps_def
    by (intro allI lru.relink_next_view ld1) (simp_all add: unqueued_def)
  ultimately have "keeps unqueued (items cs) ?h" "queues ?cs (Q(c := ys @ zs))" using keeps_trans by blast+
  then show ?thesis using run that [of ?cs] by (simp add: requeued_def)
qed

subsection \<open>The invariant of the cache\<close>

text \<open>
  \<open>C\<close> lists the chains of the hash table, \<open>U\<close> the chunks in use of every slab class and \<open>Q\<close> the
  queues. The items of the table are those of the queues; they are chunks in use of their class.
  A chunk in use carries the number of its class, and the flag \<open>ITEM_LINKED\<close> exactly if it is in
  the table.
\<close>

definition items_ok :: "item heap \<Rightarrow> (nat \<Rightarrow> addr set) \<Rightarrow> addr set \<Rightarrow> bool" where
  "items_ok h U M \<longleftrightarrow> (\<forall>c. \<forall>x \<in> U c. \<exists>i. load h x = Some i \<and> unat (it_clsid i) = c \<and> \<not> has_flag ITEM_SLABBED i \<and>
     (has_flag ITEM_LINKED i \<longleftrightarrow> x \<in> M))"

definition cache_inv :: "cache \<Rightarrow> (item_pos \<Rightarrow> addr list) \<Rightarrow> (nat \<Rightarrow> addr set) \<Rightarrow> (nat \<Rightarrow> addr list) \<Rightarrow> bool" where
  "cache_inv cs C U Q \<longleftrightarrow> power_largest (slab cs) < LARGEST_ID \<and> assoc_rep (table cs) (items cs) C \<and> slabs_inv (slab cs) (items cs) U \<and>
     queues cs Q \<and> (\<forall>c. c \<notin> classes (slab cs) \<longrightarrow> U c = {}) \<and> (\<forall>c. set (Q c) \<subseteq> U c) \<and> members C = (\<Union>c. set (Q c)) \<and>
     items_ok (items cs) U (members C)"

definition others_kept :: "addr \<Rightarrow> item heap \<Rightarrow> item heap \<Rightarrow> bool" where
  "others_kept it h h' \<longleftrightarrow> (\<forall>x. x \<noteq> it \<longrightarrow> map_option body (load h' x) = map_option body (load h x))"

definition same_settings :: "cache \<Rightarrow> cache \<Rightarrow> bool" where
  "same_settings cs cs' \<longleftrightarrow> current_time cs' = current_time cs \<and> oldest_live cs' = oldest_live cs \<and> use_cas cs' = use_cas cs \<and>
     evict_to_free cs' = evict_to_free cs \<and> fresh_data cs' = fresh_data cs"

lemma others_kept_upd [simp]: "others_kept it h (upd h it j)"
  by (simp add: others_kept_def heap_simps)

lemma others_kept_trans: "others_kept it h h1 \<Longrightarrow> others_kept it h1 h2 \<Longrightarrow> others_kept it h h2"
  by (simp add: others_kept_def)

lemma keeps_others_kept: "keeps body h h' \<Longrightarrow> others_kept it h h'"
  by (simp add: keeps_def others_kept_def)

lemma same_settings_refl [simp]: "same_settings cs cs"
  by (simp add: same_settings_def)

lemma same_settings_trans: "same_settings cs cs1 \<Longrightarrow> same_settings cs1 cs2 \<Longrightarrow> same_settings cs cs2"
  by (simp add: same_settings_def)

lemma body_view: "body i' = body i \<Longrightarrow> state_view i' = state_view i" "body i' = body i \<Longrightarrow> refcount i' = refcount i"
    "body i' = body i \<Longrightarrow> has_flag f i' = has_flag f i" "body i' = body i \<Longrightarrow> it_clsid i' = it_clsid i"
  by (cases i; cases i'; simp add: view_defs has_flag_def)+

lemma cache_invD:
  assumes "cache_inv cs C U Q"
  shows "assoc_rep (table cs) (items cs) C" "slabs_inv (slab cs) (items cs) U" "queues cs Q" "items_ok (items cs) U (members C)"
    "members C = (\<Union>c. set (Q c))" "\<forall>c. c \<notin> classes (slab cs) \<longrightarrow> U c = {}" "power_largest (slab cs) < LARGEST_ID" "\<forall>c. set (Q c) \<subseteq> U c"
  using assms unfolding cache_inv_def by - (elim conjE, assumption)+

lemma inv_item:
  assumes "cache_inv cs C U Q" "it \<in> U c"
  obtains i where "load (items cs) it = Some i" "unat (it_clsid i) = c" "\<not> has_flag ITEM_SLABBED i" "has_flag ITEM_LINKED i \<longleftrightarrow> it \<in> members C"
    "c \<in> classes (slab cs)" "c < LARGEST_ID" "it \<noteq> NULL"
proof -
  note I = cache_invD [OF assms(1)]
  obtain i where i: "load (items cs) it = Some i" "unat (it_clsid i) = c" "\<not> has_flag ITEM_SLABBED i" "has_flag ITEM_LINKED i \<longleftrightarrow> it \<in> members C"
    using I(4) assms(2) unfolding items_ok_def by blast
  have c: "c \<in> classes (slab cs)" using I(6) assms(2) by blast
  then have "c < LARGEST_ID" using I(7) by simp
  with i c that show ?thesis by auto
qed

lemma in_use_class:
  assumes inv: "cache_inv cs C U Q" and "x \<in> U c" "x \<in> U d"
  shows "c = d"
  by (rule inv_item [OF inv assms(2)], rule inv_item [OF inv assms(3)]) simp

lemma member_queue:
  assumes "cache_inv cs C U Q" "it \<in> members C" "it \<in> U c"
  shows "it \<in> set (Q c)"
proof -
  obtain d where "it \<in> set (Q d)" using assms(1,2) by (auto simp: cache_inv_def)
  then show ?thesis using assms in_use_class [OF assms(1,3)] unfolding cache_inv_def by blast
qed

lemma queue_end:
  assumes "cache_inv cs C U Q" "c < LARGEST_ID"
  shows "heads cs c = NULL \<or> heads cs c \<in> members C" "tails cs c = NULL \<or> tails cs c \<in> members C"
proof -
  have "heads cs c = first (Q c) NULL" "tails cs c = final_of NULL (Q c)" using assms by (simp_all add: cache_inv_def queues_def)
  then have "heads cs c = NULL \<or> heads cs c \<in> set (Q c)" "tails cs c = NULL \<or> tails cs c \<in> set (Q c)" by (cases "Q c"; simp)+
  then show "heads cs c = NULL \<or> heads cs c \<in> members C" "tails cs c = NULL \<or> tails cs c \<in> members C"
    using assms(1) unfolding cache_inv_def by blast+
qed

lemma chunk_class:
  assumes inv: "slabs_inv sl h U" and "i \<in> classes sl" "x \<in> chunks (slabclass sl i)" "j \<in> classes sl" "x \<in> chunks (slabclass sl j)"
  shows "i = j"
proof (rule ccontr)
  assume "i \<noteq> j"
  then have "block_disjoint (x, sc_size (slabclass sl i)) (x, sc_size (slabclass sl j))" using chunks_disjoint assms by blast
  moreover have "0 < sc_size (slabclass sl i)" "0 < sc_size (slabclass sl j)"
    using slabs_inv_class [OF inv] assms(2,4) by (simp_all add: class_inv_def)
  ultimately show False by (simp add: block_disjoint_def)
qed

lemma in_use_chunk: "slabs_inv sl h U \<Longrightarrow> c \<in> classes sl \<Longrightarrow> x \<in> U c \<Longrightarrow> x \<in> chunks (slabclass sl c)"
  using slabs_inv_class unfolding class_inv_def by blast

text \<open>Any write to a chunk in use.\<close>

lemma slabs_inv_item:
  assumes inv: "slabs_inv sl h U" and c: "c \<in> classes sl" "it \<in> U c"
  shows "slabs_inv sl (upd h it j) U"
proof (rule slabs_inv_write [OF inv])
  fix d x assume x: "d \<in> classes sl" "x \<in> chunks (slabclass sl d)" "x \<notin> U d"
  then have "x \<noteq> it" using chunk_class [OF inv c(1) in_use_chunk [OF inv c] x(1)] c(2) by auto
  then show "it_clsid (the (load (upd h it j) x)) = it_clsid (the (load h x))" by (simp add: heap_simps)
qed (auto simp: heap_simps)

subsection \<open>Releasing, linking and unlinking items\<close>

lemma item_free_spec:
  assumes inv: "cache_inv cs C U Q" and it: "it \<in> U c" "it \<notin> members C" and i: "load (items cs) it = Some i" "refcount i = 0"
  obtains cs' where "item_free_del it cs = Some cs'" "cache_inv cs' C (U(c := U c - {it})) Q" "others_kept it (items cs) (items cs')"
    "cs' = cs\<lparr> items := items cs', slab := slab cs' \<rparr>" "same_geometry (slab cs) (slab cs')"
proof -
  from inv_item [OF inv it(1)] i have st: "unat (it_clsid i) = c" "\<not> has_flag ITEM_LINKED i" "c \<in> classes (slab cs)" "c < LARGEST_ID" "it \<noteq> NULL"
    using it(2) by auto
  note I = cache_invD [OF inv]
  let ?j = "i\<lparr> it_clsid := 0, it_flags := it_flags i OR ITEM_SLABBED \<rparr>"
  let ?h = "upd (items cs) it ?j"
  have "slabs_inv (slab cs) ?h U" by (rule slabs_inv_item [OF I(2) st(3) it(1)])
  moreover have "it_clsid (the (load ?h it)) = 0" using st(5) by (simp add: heap_simps)
  ultimately have "\<exists>sl'. do_slabs_free it (unat (ntotal_of i)) c (slab cs) ?h = Some sl' \<and> same_geometry (slab cs) sl' \<and> slabs_inv sl' ?h (U(c := U c - {it}))"
    using free_spec [of "slab cs" ?h U c it] st(3) it(1) by blast
  then obtain sl' where sl': "do_slabs_free it (unat (ntotal_of i)) c (slab cs) ?h = Some sl'" "same_geometry (slab cs) sl'"
    "slabs_inv sl' ?h (U(c := U c - {it}))" by blast
  let ?cs = "cs\<lparr> items := ?h, slab := sl' \<rparr>"
  have "it \<noteq> heads cs c" "it \<noteq> tails cs c" using queue_end [OF inv st(4)] it(2) st(5) by auto
  then have run: "item_free_del it cs = Some ?cs"
    using st i sl'(1) by (simp add: item_free_del_def set_item_Some Let_def)
  have q: "set (Q d) \<subseteq> (U(c := U c - {it})) d" for d
  proof -
    have "it \<notin> set (Q d)" "set (Q d) \<subseteq> U d" using inv it(2) unfolding cache_inv_def by blast+
    then show ?thesis by auto
  qed
  have "assoc_rep (table cs) ?h C" "queues ?cs Q"
    by (rule assoc_rep_keeps [OF I(1)] queues_keeps [OF I(3)]; simp add: keeps_upd i view_defs)+
  moreover have "items_ok ?h (U(c := U c - {it})) (members C)"
    using I(4) in_use_class [OF inv it(1)] unfolding items_ok_def by (auto simp: heap_simps split: if_splits)
  moreover have "classes sl' = classes (slab cs)" using sl'(2) by (simp add: same_geometry_def)
  ultimately have "cache_inv ?cs C (U(c := U c - {it})) Q"
    using inv sl'(3) q sl'(2) unfolding cache_inv_def by (simp add: same_geometry_def)
  then show ?thesis using that [OF run] sl'(2) by simp
qed

lemma requeuedD:
  assumes "requeued cs cs'"
  shows "keeps unqueued (items cs) (items cs')" "table cs' = table cs" "slab cs' = slab cs" "same_settings cs cs'" "cas_id cs' = cas_id cs"
proof -
  obtain h a b d where "cs' = cs\<lparr> items := h, heads := a, tails := b, sizes := d \<rparr>" using assms unfolding requeued_def by blast
  then show "table cs' = table cs" "slab cs' = slab cs" "same_settings cs cs'" "cas_id cs' = cas_id cs" by (simp_all add: same_settings_def)
  show "keeps unqueued (items cs) (items cs')" using assms by (simp add: requeued_def)
qed

lemma items_ok_change:
  assumes ok: "items_ok h U M" and k: "others_kept it h h'" and it: "it \<in> U c" "load h it = Some i"
    and j: "load h' it = Some j" "it_clsid j = it_clsid i" "has_flag ITEM_SLABBED j = has_flag ITEM_SLABBED i" "has_flag ITEM_LINKED j \<longleftrightarrow> it \<in> M'"
    and M': "\<And>x. x \<noteq> it \<Longrightarrow> x \<in> M' \<longleftrightarrow> x \<in> M"
  shows "items_ok h' U M'"
  unfolding items_ok_def
proof (intro allI ballI)
  fix d x assume x: "x \<in> U d"
  obtain ix where ix: "load h x = Some ix" "unat (it_clsid ix) = d" "\<not> has_flag ITEM_SLABBED ix" "has_flag ITEM_LINKED ix \<longleftrightarrow> x \<in> M"
    using ok x unfolding items_ok_def by blast
  show "\<exists>i. load h' x = Some i \<and> unat (it_clsid i) = d \<and> \<not> has_flag ITEM_SLABBED i \<and> (has_flag ITEM_LINKED i \<longleftrightarrow> x \<in> M')"
  proof (cases "x = it")
    case True
    then show ?thesis using ix it(2) j by simp
  next
    case False
    then have "map_option body (load h' x) = map_option body (load h x)" using k by (simp add: others_kept_def)
    then obtain jx where "load h' x = Some jx" "body jx = body ix" using ix(1) by auto
    with ix M' [OF False] body_view(3,4) [OF this(2)] show ?thesis by simp
  qed
qed

lemma linked_unlink_spec:
  assumes inv: "cache_inv cs C U Q" and it: "it \<in> U c" "it \<in> members C" and i: "load (items cs) it = Some i"
  obtains cs' C' i' where
    "do_item_unlink_del it cs = (if refcount i = 0 then item_free_del it cs' else Some cs')"
    "cache_inv cs' C' U (Q(c := remove1 it (Q c)))" "members C' = members C - {it}" "others_kept it (items cs) (items cs')"
    "load (items cs') it = Some i'" "body i' = (body i)\<lparr> it_flags := it_flags i AND NOT ITEM_LINKED \<rparr>" "same_settings cs cs'"
    "slab cs' = slab cs" "cas_id cs' = cas_id cs"
proof -
  note I = cache_invD [OF inv]
  from inv_item [OF inv it(1)] i have st: "unat (it_clsid i) = c" "\<not> has_flag ITEM_SLABBED i" "has_flag ITEM_LINKED i" "c \<in> classes (slab cs)"
    "c < LARGEST_ID" "it \<noteq> NULL" using it(2) by auto
  let ?j = "i\<lparr> it_flags := it_flags i AND NOT ITEM_LINKED \<rparr>"
  let ?h = "upd (items cs) it ?j"
  have v: "keeps hash_view (items cs) ?h" "keeps lru_view (items cs) ?h" "keeps it_clsid (items cs) ?h"
    by (simp_all add: keeps_upd i view_defs)
  have rep: "assoc_rep (table cs) ?h C" "hc.key_at ?h it = ITEM_key i" using assoc_rep_keeps [OF I(1) v(1)] i by (simp_all add: hc.key_at_def)
  obtain t h2 C' where del: "assoc_delete (ITEM_key i) (table cs) ?h = Some (t, h2)" "assoc_rep t h2 C'" "members C' = members C - {it}"
    "same_but_h_next ?h h2" using assoc_delete_spec [OF rep(1) it(2) rep(2)] by blast
  then have k2: "keeps unhashed ?h h2" by (simp add: same_but_h_next_keeps)
  let ?cs1 = "cs\<lparr> curr_bytes := curr_bytes cs - ntotal_of i, curr_items := curr_items cs - 1, table := t, items := h2 \<rparr>"
  have "queues ?cs1 Q" by (rule queues_keeps [OF I(3)]) (simp_all add: keeps_trans [OF v(2) unhashed_keeps(1) [OF k2]])
  moreover obtain i2 where i2: "load h2 it = Some i2" "unhashed i2 = unhashed ?j" using keeps_load [OF k2, of it ?j] st(6) by (auto simp: heap_simps)
  moreover have "unat (it_clsid i2) = c" using i2(2) st(1) by (cases i2; cases i) (simp add: unhashed_def)
  moreover have "it \<in> set (Q c)" by (rule member_queue [OF inv it(2,1)])
  then obtain ys zs where Qc: "Q c = ys @ it # zs" "it \<notin> set ys" by (metis split_list_first)
  ultimately obtain cs' where cs': "item_unlink_q it ?cs1 = Some cs'" "requeued ?cs1 cs'" "queues cs' (Q(c := ys @ zs))"
    using item_unlink_q_spec [of ?cs1 Q it i2 c ys zs] st(5) by auto
  have k3: "keeps unqueued h2 (items cs')" and fields: "table cs' = t" "slab cs' = slab cs" "same_settings cs cs'" "cas_id cs' = cas_id cs"
    using requeuedD [OF cs'(2)] by (simp_all add: same_settings_def)
  obtain i' where i': "load (items cs') it = Some i'" "unqueued i' = unqueued i2" using keeps_load [OF k3 i2(1)] by auto
  have bd: "body i' = (body i)\<lparr> it_flags := it_flags i AND NOT ITEM_LINKED \<rparr>" using i'(2) i2(2) by (cases i'; cases i2; cases i) (simp add: view_defs)
  have rm: "remove1 it (Q c) = ys @ zs" using Qc by (simp add: remove1_append)
  have ok: "others_kept it (items cs) (items cs')"
    using others_kept_trans keeps_others_kept unhashed_keeps(3) [OF k2] unqueued_keeps(3) [OF k3] others_kept_upd by metis
  have st': "it_clsid i' = it_clsid i" "has_flag ITEM_SLABBED i' = has_flag ITEM_SLABBED i" "\<not> has_flag ITEM_LINKED i'" "refcount i' = refcount i"
    using bd flags_set(4,5) [of i] body_view [of i' ?j] by (auto simp: body_def)
  have "items_ok (items cs') U (members C')"
    by (rule items_ok_change [OF I(4) ok it(1) i i'(1)]) (use st' del(3) in auto)
  moreover have "slabs_inv (slab cs) (items cs') U"
    by (rule slabs_inv_keeps [OF I(2) keeps_trans [OF v(3) keeps_trans [OF unhashed_keeps(4) [OF k2] unqueued_keeps(4) [OF k3]]]])
  moreover have "assoc_rep t (items cs') C'" by (rule assoc_rep_keeps [OF del(2) unqueued_keeps(1) [OF k3]])
  moreover have "members C' = (\<Union>d. set ((Q(c := ys @ zs)) d))"
  proof -
    have "it \<notin> set zs" using Qc(1) I(3) st(5) by (auto simp: queues_def dest!: spec [of _ c])
    moreover have "it \<notin> set (Q d)" if "d \<noteq> c" for d using in_use_class [OF inv it(1), of d] I(8) that by blast
    ultimately have "set ((Q(c := ys @ zs)) d) = set (Q d) - {it}" for d
      using Qc by (cases "d = c") auto
    then show ?thesis by (simp only: del(3) I(5)) blast
  qed
  moreover have "set ((Q(c := ys @ zs)) d) \<subseteq> U d" for d using I(8) [rule_format, of d] Qc(1) by (cases "d = c") auto
  ultimately have inv': "cache_inv cs' C' U (Q(c := remove1 it (Q c)))"
    unfolding cache_inv_def using I(6,7) fields cs'(3) rm by (intro conjI allI) simp_all
  have run: "do_item_unlink_del it cs = (if refcount i = 0 then item_free_del it cs' else Some cs')"
    using i st(3) del(1) cs'(1) i'(1) st'(4) by (simp add: do_item_unlink_del_def set_item_Some Let_def)
  show ?thesis by (rule that [OF run inv' del(3) ok i'(1) bd fields(3,2,4)])
qed

text \<open>Unlinking releases an item that nobody holds.\<close>

lemma do_item_unlink_spec:
  assumes inv: "cache_inv cs C U Q" and it: "it \<in> U c" and i: "load (items cs) it = Some i"
  obtains cs' C' Q' where "do_item_unlink_del it cs = Some cs'" "members C' = members C - {it}"
    "cache_inv cs' C' (if it \<in> members C \<and> refcount i = 0 then U(c := U c - {it}) else U) Q'" "Q' = Q(c := remove1 it (Q c))"
    "others_kept it (items cs) (items cs')" "same_settings cs cs'" "cas_id cs' = cas_id cs"
    "refcount i \<noteq> 0 \<or> it \<notin> members C \<Longrightarrow> map_option body (load (items cs') it) = Some ((body i)\<lparr> it_flags := it_flags i AND NOT ITEM_LINKED \<rparr>)"
    "same_geometry (slab cs) (slab cs')"
proof (cases "it \<in> members C")
  case False
  have st: "\<not> has_flag ITEM_LINKED i" using inv_item [OF inv it] i False by auto
  have "it \<notin> set (Q c)" using cache_invD(5) [OF inv] False by blast
  then have Q: "Q = Q(c := remove1 it (Q c))" by (simp add: remove1_idem)
  have "do_item_unlink_del it cs = Some cs" using i st by (simp add: do_item_unlink_del_def)
  moreover have "(body i)\<lparr> it_flags := it_flags i AND NOT ITEM_LINKED \<rparr> = body i"
    unfolding clear_flag [OF st] by (cases i) (simp add: body_def)
  ultimately show ?thesis using that [of cs C Q] Q inv False i by (simp add: others_kept_def)
next
  case True
  from linked_unlink_spec [OF inv it True i] obtain cs1 C' i' where u:
    "do_item_unlink_del it cs = (if refcount i = 0 then item_free_del it cs1 else Some cs1)"
    "cache_inv cs1 C' U (Q(c := remove1 it (Q c)))" "members C' = members C - {it}" "others_kept it (items cs) (items cs1)"
    "load (items cs1) it = Some i'" "body i' = (body i)\<lparr> it_flags := it_flags i AND NOT ITEM_LINKED \<rparr>" "same_settings cs cs1"
    "cas_id cs1 = cas_id cs" "slab cs1 = slab cs" by metis
  have rc: "refcount i' = refcount i" using u(6) body_view(2) [of i' "i\<lparr> it_flags := it_flags i AND NOT ITEM_LINKED \<rparr>"] by (simp add: body_def)
  show ?thesis
  proof (cases "refcount i = 0")
    case 0: True
    have "it \<notin> members C'" using u(3) by simp
    from item_free_spec [OF u(2) it this u(5)] rc 0 obtain cs2 where f: "item_free_del it cs1 = Some cs2"
      "cache_inv cs2 C' (U(c := U c - {it})) (Q(c := remove1 it (Q c)))" "others_kept it (items cs1) (items cs2)"
      "cs2 = cs1\<lparr> items := items cs2, slab := slab cs2 \<rparr>" "same_geometry (slab cs1) (slab cs2)" by metis
    obtain h s where "cs2 = cs1\<lparr> items := h, slab := s \<rparr>" using f(4) by blast
    then have "same_settings cs cs2" "cas_id cs2 = cas_id cs" using u(7,8) by (simp_all add: same_settings_def)
    then show ?thesis using that [OF _ u(3) _ refl, of cs2] u(1,9) f True 0 others_kept_trans [OF u(4) f(3)] by simp
  next
    case ne: False
    then show ?thesis using that [OF _ u(3) _ refl u(4) u(7,8)] u(1,2,5,6,9) True by simp
  qed
qed

text \<open>The CAS id an item gets when it is linked, and the counter afterwards.\<close>

definition link_cas :: "cache \<Rightarrow> item \<Rightarrow> u64" where
  "link_cas cs i = (if has_flag ITEM_CAS i then if use_cas cs then cas_id cs + 1 else 0 else it_cas i)"

definition next_cas :: "cache \<Rightarrow> item \<Rightarrow> u64" where
  "next_cas cs i = (if has_flag ITEM_CAS i \<and> use_cas cs then cas_id cs + 1 else cas_id cs)"

lemma set_link_cas_eq:
  assumes "load (items cs) it = Some i"
  shows "set_link_cas it cs = Some (cs\<lparr> items := upd (items cs) it (i\<lparr> it_cas := link_cas cs i \<rparr>), cas_id := next_cas cs i \<rparr>)"
proof -
  have "upd (items cs) it (i\<lparr> it_cas := it_cas i \<rparr>) = items cs" using assms by (auto simp: upd_def load_def fun_upd_idem split: if_splits)
  then show ?thesis using assms
    by (simp add: set_link_cas_def set_item_Some get_cas_id_def ITEM_set_cas_def link_cas_def next_cas_def)
qed

lemma do_item_link_spec:
  assumes inv: "cache_inv cs C U Q" and it: "it \<in> U c" "it \<notin> members C" and i: "load (items cs) it = Some i" "item_wf i"
    and new: "ITEM_key i \<notin> hc.key_at (items cs) ` members C"
  obtains cs' C' i' where "do_item_link_del it cs = Some cs'" "cache_inv cs' C' U (Q(c := it # Q c))" "members C' = insert it (members C)"
    "others_kept it (items cs) (items cs')" "load (items cs') it = Some i'" "same_settings cs cs'" "cas_id cs' = next_cas cs i"
    "body i' = (body i)\<lparr> it_flags := it_flags i OR ITEM_LINKED, it_time := current_time cs, it_cas := link_cas cs i \<rparr>" "slab cs' = slab cs"
proof -
  note I = cache_invD [OF inv]
  from inv_item [OF inv it(1)] i have st: "unat (it_clsid i) = c" "\<not> has_flag ITEM_SLABBED i" "\<not> has_flag ITEM_LINKED i" "c < LARGEST_ID" "it \<noteq> NULL"
    using it(2) by auto
  let ?j = "i\<lparr> it_flags := it_flags i OR ITEM_LINKED, it_time := current_time cs \<rparr>"
  let ?h = "upd (items cs) it ?j"
  have v: "keeps hash_view (items cs) ?h" "keeps lru_view (items cs) ?h" "keeps it_clsid (items cs) ?h"
    by (simp_all add: keeps_upd i view_defs)
  have rep: "assoc_rep (table cs) ?h C" "hc.key_at ?h = hc.key_at (items cs)" using assoc_rep_keeps [OF I(1) v(1)] by (simp_all add: fun_eq_iff)
  have j: "load ?h it = Some ?j" "item_wf ?j" "ITEM_key ?j \<notin> hc.key_at ?h ` members C"
    using st(5) i(2) new rep(2) by (simp_all add: heap_simps item_wf_def ITEM_key_def)
  obtain t h2 C' where ins: "assoc_insert it (table cs) ?h = Some (t, h2)" "assoc_rep t h2 C'" "members C' = insert it (members C)"
    "same_but_h_next ?h h2" using assoc_insert_spec [OF rep(1) j(1,2) it(2) j(3)] by blast
  then have k2: "keeps unhashed ?h h2" by (simp add: same_but_h_next_keeps)
  obtain i2 where i2: "load h2 it = Some i2" "unhashed i2 = unhashed ?j" using keeps_load [OF k2 j(1)] by blast
  have f2: "has_flag ITEM_CAS i2 = has_flag ITEM_CAS i" "it_cas i2 = it_cas i"
    using i2(2) flags_set(3) [of i] by (cases i2; cases i; simp add: unhashed_def has_flag_def)+
  let ?cs2 = "cs\<lparr> table := t, items := h2, curr_bytes := curr_bytes cs + ntotal_of i2, curr_items := curr_items cs + 1, total_items := total_items cs + 1 \<rparr>"
  let ?i3 = "i2\<lparr> it_cas := link_cas cs i \<rparr>"
  let ?h3 = "upd h2 it ?i3"
  let ?cs3 = "?cs2\<lparr> items := ?h3, cas_id := next_cas cs i \<rparr>"
  have "link_cas ?cs2 i2 = link_cas cs i" "next_cas ?cs2 i2 = next_cas cs i" using f2 by (simp_all add: link_cas_def next_cas_def)
  with set_link_cas_eq [of ?cs2 it i2] i2(1) have cas: "set_link_cas it ?cs2 = Some ?cs3" by simp
  have v3: "keeps hash_view h2 ?h3" "keeps lru_view h2 ?h3" "keeps it_clsid h2 ?h3" by (simp_all add: keeps_upd i2 view_defs)
  have "queues ?cs3 Q" by (rule queues_keeps [OF I(3)]) (simp_all add: keeps_trans [OF v(2) keeps_trans [OF unhashed_keeps(1) [OF k2] v3(2)]])
  moreover have l3: "load (items ?cs3) it = Some ?i3" using st(5) by (simp add: heap_simps)
  moreover have "unat (it_clsid ?i3) = c" "\<not> has_flag ITEM_SLABBED ?i3"
    using i2(2) st(1,2) flags_set(2) [of i] by (cases i2; cases i; simp add: unhashed_def has_flag_def)+
  moreover have "it \<notin> set (Q d)" for d using it(2) I(5) by blast
  ultimately obtain cs' where cs': "item_link_q it ?cs3 = Some cs'" "requeued ?cs3 cs'" "queues cs' (Q(c := it # Q c))"
    using item_link_q_spec [of ?cs3 Q it ?i3 c] st(4) by blast
  have k4: "keeps unqueued ?h3 (items cs')" and fields: "table cs' = t" "slab cs' = slab cs" "same_settings cs cs'" "cas_id cs' = next_cas cs i"
    using requeuedD [OF cs'(2)] by (simp_all add: same_settings_def)
  obtain i' where i': "load (items cs') it = Some i'" "unqueued i' = unqueued ?i3" using keeps_load [OF k4] l3 by auto
  have bd: "body i' = (body i)\<lparr> it_flags := it_flags i OR ITEM_LINKED, it_time := current_time cs, it_cas := link_cas cs i \<rparr>"
    using i'(2) i2(2) by (cases i'; cases i2; cases i) (simp add: view_defs)
  have ok: "others_kept it (items cs) (items cs')"
    using others_kept_trans keeps_others_kept unhashed_keeps(3) [OF k2] unqueued_keeps(3) [OF k4] others_kept_upd by metis
  have st': "it_clsid i' = it_clsid i" "has_flag ITEM_SLABBED i' = has_flag ITEM_SLABBED i" "has_flag ITEM_LINKED i'"
    using bd flags_set(1,2) [of i] by (cases i'; cases i; simp add: body_def has_flag_def)+
  have "items_ok (items cs') U (members C')"
    by (rule items_ok_change [OF I(4) ok it(1) i(1) i'(1)]) (use st' ins(3) in auto)
  moreover have "slabs_inv (slab cs) (items cs') U"
    by (rule slabs_inv_keeps [OF I(2) keeps_trans [OF v(3) keeps_trans [OF unhashed_keeps(4) [OF k2] keeps_trans [OF v3(3) unqueued_keeps(4) [OF k4]]]]])
  moreover have "assoc_rep t (items cs') C'" by (rule assoc_rep_keeps [OF ins(2) keeps_trans [OF v3(1) unqueued_keeps(1) [OF k4]]])
  moreover have "members C' = (\<Union>d. set ((Q(c := it # Q c)) d))"
  proof -
    have "set ((Q(c := it # Q c)) d) = set (Q d) \<union> (if d = c then {it} else {})" for d by simp
    then show ?thesis unfolding ins(3) I(5) by (simp only: UN_Un_distrib) auto
  qed
  moreover have "set ((Q(c := it # Q c)) d) \<subseteq> U d" for d using I(8) [rule_format, of d] it(1) by (cases "d = c") simp_all
  ultimately have inv': "cache_inv cs' C' U (Q(c := it # Q c))"
    unfolding cache_inv_def using I(6,7) fields cs'(3) by (intro conjI allI) simp_all
  have "it_flags i AND (ITEM_LINKED OR ITEM_SLABBED) = 0" using st(2,3) by (simp add: no_flags)
  then have run: "do_item_link_del it cs = Some cs'"
    using i(1) ins(1) i2(1) cas cs'(1) by (simp add: do_item_link_del_def set_item_Some Let_def)
  show ?thesis by (rule that [OF run inv' ins(3) ok i'(1) fields(3,4) bd fields(2)])
qed

subsection \<open>References\<close>

text \<open>A write that changes neither links nor key nor class nor flags of an item.\<close>

lemma cache_inv_touch:
  assumes inv: "cache_inv cs C U Q" and i: "load (items cs) it = Some i"
    and j: "hash_view j = hash_view i" "lru_view j = lru_view i" "state_view j = state_view i"
  shows "cache_inv (cs\<lparr> items := upd (items cs) it j \<rparr>) C U Q"
proof -
  note I = cache_invD [OF inv]
  have v: "keeps hash_view (items cs) (upd (items cs) it j)" "keeps lru_view (items cs) (upd (items cs) it j)"
    "keeps state_view (items cs) (upd (items cs) it j)" by (simp_all add: keeps_upd i j)
  have "keeps it_clsid (items cs) (upd (items cs) it j)" using j(3) by (simp add: keeps_upd i state_view_def)
  moreover have "items_ok (upd (items cs) it j) U (members C)"
    unfolding items_ok_def
  proof (intro allI ballI)
    fix c x assume "x \<in> U c"
    then obtain ix where ix: "load (items cs) x = Some ix" "unat (it_clsid ix) = c" "\<not> has_flag ITEM_SLABBED ix"
      "has_flag ITEM_LINKED ix \<longleftrightarrow> x \<in> members C" using I(4) unfolding items_ok_def by blast
    moreover obtain jx where "load (upd (items cs) it j) x = Some jx" "state_view jx = state_view ix" using keeps_load [OF v(3) ix(1)] by blast
    ultimately show "\<exists>i. load (upd (items cs) it j) x = Some i \<and> unat (it_clsid i) = c \<and> \<not> has_flag ITEM_SLABBED i \<and>
        (has_flag ITEM_LINKED i \<longleftrightarrow> x \<in> members C)" by (simp add: state_view_def has_flag_def)
  qed
  ultimately show ?thesis
    unfolding cache_inv_def using I assoc_rep_keeps(1) [OF I(1) v(1)] slabs_inv_keeps [OF I(2)]
      queues_keeps [OF I(3), of "cs\<lparr> items := upd (items cs) it j \<rparr>"] v(2) by (intro conjI allI) simp_all
qed

lemma do_item_remove_spec:
  assumes inv: "cache_inv cs C U Q" and it: "it \<in> U c" and i: "load (items cs) it = Some i"
  obtains cs' where "do_item_remove_del it cs = Some cs'"
    "cache_inv cs' C (if refcount i \<le> 1 \<and> it \<notin> members C then U(c := U c - {it}) else U) Q"
    "others_kept it (items cs) (items cs')" "same_settings cs cs'" "cas_id cs' = cas_id cs"
    "\<not> (refcount i \<le> 1 \<and> it \<notin> members C) \<Longrightarrow>
      map_option body (load (items cs') it) = Some ((body i)\<lparr> refcount := (if refcount i = 0 then 0 else refcount i - 1) \<rparr>)"
    "same_geometry (slab cs) (slab cs')"
proof -
  from inv_item [OF inv it] i have st: "\<not> has_flag ITEM_SLABBED i" "has_flag ITEM_LINKED i \<longleftrightarrow> it \<in> members C" "it \<noteq> NULL" by auto
  let ?r = "if refcount i = 0 then 0 else refcount i - 1"
  let ?j = "i\<lparr> refcount := ?r \<rparr>"
  let ?cs = "cs\<lparr> items := upd (items cs) it ?j \<rparr>"
  have inv1: "cache_inv ?cs C U Q" by (rule cache_inv_touch [OF inv i]) (simp_all add: view_defs)
  have same: "upd (items cs) it i = items cs" using i by (auto simp: upd_def load_def fun_upd_idem split: if_splits)
  have "(if refcount i \<noteq> 0 then set_item it (\<lambda>i. i\<lparr> refcount := refcount i - 1 \<rparr>) cs else Some cs) = Some ?cs"
  proof (cases "refcount i = 0")
    case True
    then have "?j = i" by (cases i) simp
    then have "?cs = cs" using same by simp
    then show ?thesis using True by simp
  qed (simp add: set_item_Some [OF i])
  then have run: "do_item_remove_del it cs = (if ?r = 0 \<and> it \<notin> members C then item_free_del it ?cs else Some ?cs)"
    using i st by (simp add: do_item_remove_del_def heap_simps)
  have r: "?r = 0 \<longleftrightarrow> refcount i \<le> 1"
  proof -
    have "refcount i \<le> 1 \<longleftrightarrow> refcount i = 0 \<or> refcount i = 1" by (auto simp: word_le_nat_alt word_unat_eq_iff)
    then show ?thesis by simp
  qed
  show ?thesis
  proof (cases "refcount i \<le> 1 \<and> it \<notin> members C")
    case True
    have "load (items ?cs) it = Some ?j" "refcount ?j = 0" using st(3) True r by (simp_all add: heap_simps)
    from item_free_spec [OF inv1 it _ this] True obtain cs2 where f: "item_free_del it ?cs = Some cs2"
      "cache_inv cs2 C (U(c := U c - {it})) Q" "others_kept it (items ?cs) (items cs2)" "cs2 = ?cs\<lparr> items := items cs2, slab := slab cs2 \<rparr>"
      "same_geometry (slab ?cs) (slab cs2)" by blast
    obtain h s where "cs2 = cs\<lparr> items := h, slab := s \<rparr>" using f(4) by (metis cache.update_convs(3) cache.surjective)
    then have "same_settings cs cs2" "cas_id cs2 = cas_id cs" by (simp_all add: same_settings_def)
    moreover have "others_kept it (items cs) (items cs2)" using others_kept_trans [OF _ f(3)] by simp
    moreover have "do_item_remove_del it cs = Some cs2" using run f(1) True r by simp
    ultimately show ?thesis using f(2,5) True by (intro that [of cs2]) simp_all
  next
    case False
    then have "do_item_remove_del it cs = Some ?cs" using run r by auto
    then show ?thesis using that [of ?cs] inv1 False st(3) by (auto simp: same_settings_def heap_simps body_def)
  qed
qed

lemma do_item_replace_spec:
  assumes inv: "cache_inv cs C U Q" and it: "it \<in> U c" "load (items cs) it = Some i"
    and new: "new_it \<in> U d" "new_it \<notin> members C" "new_it \<noteq> it" "load (items cs) new_it = Some n" "item_wf n"
      "ITEM_key n \<notin> hc.key_at (items cs) ` (members C - {it})"
  obtains cs' C' U' Q' where "do_item_replace_del it new_it cs = Some cs'" "cache_inv cs' C' U' Q'"
    "U' = (if it \<in> members C \<and> refcount i = 0 then U(c := U c - {it}) else U)" "members C' = insert new_it (members C - {it})"
    "\<forall>x. x \<noteq> it \<and> x \<noteq> new_it \<longrightarrow> map_option body (load (items cs') x) = map_option body (load (items cs) x)" "same_settings cs cs'"
    "map_option body (load (items cs') new_it) =
       Some ((body n)\<lparr> it_flags := it_flags n OR ITEM_LINKED, it_time := current_time cs, it_cas := link_cas cs n \<rparr>)" "cas_id cs' = next_cas cs n"
    "refcount i \<noteq> 0 \<or> it \<notin> members C \<Longrightarrow> map_option body (load (items cs') it) = Some ((body i)\<lparr> it_flags := it_flags i AND NOT ITEM_LINKED \<rparr>)"
    "same_geometry (slab cs) (slab cs')"
proof -
  have st: "\<not> has_flag ITEM_SLABBED i" using inv_item [OF inv it(1)] it(2) by auto
  let ?U = "if it \<in> members C \<and> refcount i = 0 then U(c := U c - {it}) else U"
  from do_item_unlink_spec [OF inv it] obtain cs1 C1 Q1 where u: "do_item_unlink_del it cs = Some cs1" "members C1 = members C - {it}"
    "cache_inv cs1 C1 ?U Q1" "others_kept it (items cs) (items cs1)" "same_settings cs cs1" "cas_id cs1 = cas_id cs"
    "refcount i \<noteq> 0 \<or> it \<notin> members C \<longrightarrow> map_option body (load (items cs1) it) = Some ((body i)\<lparr> it_flags := it_flags i AND NOT ITEM_LINKED \<rparr>)"
    "same_geometry (slab cs) (slab cs1)" by metis
  have bd: "map_option body (load (items cs1) x) = map_option body (load (items cs) x)" if "x \<noteq> it" for x
    using u(4) that by (simp add: others_kept_def)
  obtain n1 where n1: "load (items cs1) new_it = Some n1" "body n1 = body n" using bd [OF new(3)] new(4) by auto
  have ne: "new_it \<in> ?U d" "new_it \<notin> members C1" using new(1-3) u(2) by auto
  have same: "item_wf n1 = item_wf n" "ITEM_key n1 = ITEM_key n" "link_cas cs1 n1 = link_cas cs n" "next_cas cs1 n1 = next_cas cs n"
      "it_flags n1 = it_flags n"
    using n1(2) u(5,6) by (cases n1; cases n; simp add: body_def item_wf_def ITEM_key_def link_cas_def next_cas_def has_flag_def same_settings_def)+
  have key: "hc.key_at (items cs1) x = hc.key_at (items cs) x" if x: "x \<in> members C1" for x
  proof -
    have "x \<noteq> it" using x u(2) by simp
    from members_loaded [OF cache_invD(1) [OF u(3)] x] obtain j where j: "load (items cs1) x = Some j" by blast
    with bd [OF \<open>x \<noteq> it\<close>] obtain j' where "load (items cs) x = Some j'" "body j = body j'" by (cases "load (items cs) x") auto
    with j show ?thesis by (cases j; cases j'; simp add: hc.key_at_def body_def ITEM_key_def)
  qed
  have "ITEM_key n1 \<notin> hc.key_at (items cs1) ` members C1" using new(6) same(2) u(2) key by auto
  with do_item_link_spec [OF u(3) ne n1(1)] same new(5) obtain cs' C' n' where l: "do_item_link_del new_it cs1 = Some cs'"
    "cache_inv cs' C' ?U (Q1(d := new_it # Q1 d))" "members C' = insert new_it (members C1)" "others_kept new_it (items cs1) (items cs')"
    "load (items cs') new_it = Some n'" "same_settings cs1 cs'" "cas_id cs' = next_cas cs n"
    "body n' = (body n1)\<lparr> it_flags := it_flags n1 OR ITEM_LINKED, it_time := current_time cs1, it_cas := link_cas cs1 n1 \<rparr>"
    "slab cs' = slab cs1" by metis
  have "do_item_replace_del it new_it cs = Some cs'" using it(2) st u(1) l(1) by (simp add: do_item_replace_del_def)
  moreover have "map_option body (load (items cs') x) = map_option body (load (items cs) x)" if "x \<noteq> it \<and> x \<noteq> new_it" for x
    using l(4) bd that by (simp add: others_kept_def)
  moreover have "map_option body (load (items cs') it) = map_option body (load (items cs1) it)" using l(4) new(3) by (simp add: others_kept_def)
  moreover have "current_time cs1 = current_time cs" using u(5) by (simp add: same_settings_def)
  ultimately show ?thesis
    using that [of cs' C' ?U] l u(2,7,8) n1(2) same(3,5) same_settings_trans [OF u(5) l(6)] by simp
qed

lemma do_item_update_spec:
  assumes inv: "cache_inv cs C U Q" and it: "it \<in> U c" "load (items cs) it = Some i"
  obtains cs' Q' where "do_item_update it cs = Some cs'" "cache_inv cs' C U Q'" "others_kept it (items cs) (items cs')" "same_settings cs cs'"
    "map_option body (load (items cs') it) = Some (if it \<in> members C \<and> it_time i < current_time cs - ITEM_UPDATE_INTERVAL
       then (body i)\<lparr> it_time := current_time cs \<rparr> else body i)"
    "Q' = (if it \<in> members C \<and> it_time i < current_time cs - ITEM_UPDATE_INTERVAL then Q(c := it # remove1 it (Q c)) else Q)"
    "cas_id cs' = cas_id cs" "slab cs' = slab cs"
proof (cases "it \<in> members C \<and> it_time i < current_time cs - ITEM_UPDATE_INTERVAL")
  case False
  have "do_item_update it cs = Some cs" using inv_item [OF inv it(1)] it(2) False by (auto simp: do_item_update_def)
  then show ?thesis using that [of cs Q] False inv it(2) by (simp add: others_kept_def)
next
  case True
  note I = cache_invD [OF inv]
  from inv_item [OF inv it(1)] it(2) True have st: "unat (it_clsid i) = c" "\<not> has_flag ITEM_SLABBED i" "has_flag ITEM_LINKED i" "c < LARGEST_ID" "it \<noteq> NULL"
    by auto
  have "it \<in> set (Q c)" using member_queue [OF inv _ it(1)] True by blast
  then obtain ys zs where Qc: "Q c = ys @ it # zs" "it \<notin> set ys" by (metis split_list_first)
  have nz: "it \<notin> set zs" using Qc(1) I(3) st(4) by (auto simp: queues_def dest!: spec [of _ c])
  have rm: "remove1 it (Q c) = ys @ zs" using Qc by (simp add: remove1_append)
  obtain cs1 where cs1: "item_unlink_q it cs = Some cs1" "requeued cs cs1" "queues cs1 (Q(c := ys @ zs))"
    by (rule item_unlink_q_spec [OF I(3) it(2) st(1,4) Qc(1)])
  note R1 = requeuedD [OF cs1(2)]
  obtain i1 where i1: "load (items cs1) it = Some i1" "unqueued i1 = unqueued i" using keeps_load [OF R1(1) it(2)] by blast
  let ?i2 = "i1\<lparr> it_time := current_time cs \<rparr>"
  let ?h2 = "upd (items cs1) it ?i2"
  have v: "keeps hash_view (items cs1) ?h2" "keeps lru_view (items cs1) ?h2" "keeps it_clsid (items cs1) ?h2" "keeps state_view (items cs1) ?h2"
    by (simp_all add: keeps_upd i1 view_defs)
  have "queues (cs1\<lparr> items := ?h2 \<rparr>) (Q(c := ys @ zs))" by (rule queues_keeps [OF cs1(3)]) (simp_all add: v)
  moreover have l2: "load (items (cs1\<lparr> items := ?h2 \<rparr>)) it = Some ?i2" using st(5) by (simp add: heap_simps)
  moreover have "unat (it_clsid ?i2) = c" "\<not> has_flag ITEM_SLABBED ?i2"
    using i1(2) st(1,2) by (cases i1; cases i; simp add: unqueued_def has_flag_def)+
  moreover have "it \<notin> set ((Q(c := ys @ zs)) d)" for d
    using Qc(2) nz in_use_class [OF inv it(1), of d] I(8) by (cases "d = c") auto
  ultimately obtain cs2 where cs2: "item_link_q it (cs1\<lparr> items := ?h2 \<rparr>) = Some cs2" "requeued (cs1\<lparr> items := ?h2 \<rparr>) cs2"
    "queues cs2 ((Q(c := ys @ zs))(c := it # (Q(c := ys @ zs)) c))" using item_link_q_spec [of "cs1\<lparr> items := ?h2 \<rparr>" "Q(c := ys @ zs)" it ?i2 c] st(4) by blast
  note R2 = requeuedD [OF cs2(2), simplified]
  let ?Q = "Q(c := it # ys @ zs)"
  have Q: "queues cs2 ?Q" using cs2(3) by simp
  have sets: "set (?Q d) = set (Q d)" for d using Qc(1) by (cases "d = c") auto
  obtain i' where i': "load (items cs2) it = Some i'" "unqueued i' = unqueued ?i2" using keeps_load [OF R2(1)] l2 by auto
  have bd: "body i' = (body i)\<lparr> it_time := current_time cs \<rparr>" using i'(2) i1(2) by (cases i'; cases i1; cases i) (simp add: view_defs)
  have ok: "others_kept it (items cs) (items cs2)"
    using others_kept_trans keeps_others_kept unqueued_keeps(3) [OF R1(1)] unqueued_keeps(3) [OF R2(1)] others_kept_upd by metis
  have st': "it_clsid i' = it_clsid i" "has_flag ITEM_SLABBED i' = has_flag ITEM_SLABBED i" "has_flag ITEM_LINKED i' = has_flag ITEM_LINKED i"
    using bd by (cases i'; cases i; simp add: body_def has_flag_def)+
  have iok: "items_ok (items cs2) U (members C)" by (rule items_ok_change [OF I(4) ok it i'(1)]) (use st' st(3) True in auto)
  have sl: "slabs_inv (slab cs) (items cs2) U"
    by (rule slabs_inv_keeps [OF I(2) keeps_trans [OF unqueued_keeps(4) [OF R1(1)] keeps_trans [OF v(3) unqueued_keeps(4) [OF R2(1)]]]])
  have rep: "assoc_rep (table cs) (items cs2) C"
    by (rule assoc_rep_keeps [OF I(1) keeps_trans [OF unqueued_keeps(1) [OF R1(1)] keeps_trans [OF v(1) unqueued_keeps(1) [OF R2(1)]]]])
  have fields: "table cs2 = table cs" "slab cs2 = slab cs" "same_settings cs cs2" "cas_id cs2 = cas_id cs"
    using R1 R2 by (simp_all add: same_settings_def)
  have mem: "members C = (\<Union>d. set (?Q d))" unfolding I(5) sets ..
  have inv': "cache_inv cs2 C U ?Q"
    unfolding cache_inv_def using I(6-8) Q iok sl rep fields mem sets by (intro conjI allI) simp_all
  have "current_time cs1 = current_time cs" using R1(4) by (simp add: same_settings_def)
  then have run: "do_item_update it cs = Some cs2" using it(2) True st(2,3) cs1(1) cs2(1) i1(1) by (simp add: do_item_update_def set_item_Some)
  show ?thesis using True by (intro that [OF run inv' ok fields(3)]) (simp_all add: i' bd rm fields)
qed

subsection \<open>Looking up\<close>

lemma member_in_use:
  assumes "cache_inv cs C U Q" "p \<in> members C"
  obtains c where "p \<in> U c" "p \<in> set (Q c)" "c < LARGEST_ID"
proof -
  obtain c where "p \<in> set (Q c)" using assms by (auto simp: cache_inv_def)
  moreover from this have "p \<in> U c" using cache_invD(8) [OF assms(1)] by blast
  moreover from this have "c < LARGEST_ID" using inv_item [OF assms(1)] by blast
  ultimately show ?thesis using that by blast
qed

lemma assoc_find_member:
  assumes "assoc_rep a h C" "p \<in> members C"
  shows "assoc_find (hc.key_at h p) a h = Some p"
proof -
  obtain q where q: "assoc_find (hc.key_at h p) a h = Some q" "q \<noteq> NULL \<longrightarrow> q \<in> members C \<and> hc.key_at h q = hc.key_at h p"
    "q = NULL \<longrightarrow> hc.key_at h p \<notin> hc.key_at h ` members C" using assoc_find_spec [OF assms(1)] by metis
  then have "q \<in> members C" "hc.key_at h q = hc.key_at h p" using assms(2) by auto
  moreover have "inj_on (hc.key_at h) (members C)" using assms(1) by (simp add: assoc_rep_def)
  ultimately show ?thesis using q(1) assms(2) by (simp add: inj_on_eq_iff)
qed

lemma assoc_find_none:
  assumes "assoc_rep a h C" "key \<notin> hc.key_at h ` members C"
  shows "assoc_find key a h = Some NULL"
  using assoc_find_spec [OF assms(1), of key] assms(2) by (metis image_eqI)

lemma cache_inv_hold:
  assumes inv: "cache_inv cs C U Q" and i: "load (items cs) p = Some i"
  shows "hold p cs = Some (p, cs\<lparr> items := upd (items cs) p (i\<lparr> refcount := refcount i + 1 \<rparr>) \<rparr>)"
    "cache_inv (cs\<lparr> items := upd (items cs) p (i\<lparr> refcount := refcount i + 1 \<rparr>) \<rparr>) C U Q"
proof -
  show "hold p cs = Some (p, cs\<lparr> items := upd (items cs) p (i\<lparr> refcount := refcount i + 1 \<rparr>) \<rparr>)"
    using i by (auto simp: hold_def set_item_Some)
  show "cache_inv (cs\<lparr> items := upd (items cs) p (i\<lparr> refcount := refcount i + 1 \<rparr>) \<rparr>) C U Q"
    by (rule cache_inv_touch [OF inv i]) (simp_all add: view_defs)
qed

lemma do_item_get_spec:
  assumes inv: "cache_inv cs C U Q"
  shows "key \<notin> hc.key_at (items cs) ` members C \<Longrightarrow> do_item_get_del key cs = Some (NULL, cs)"
    and "\<lbrakk>p \<in> members C; load (items cs) p = Some i; ITEM_key i = key; \<not> flushed cs i; \<not> expired cs i\<rbrakk> \<Longrightarrow>
      do_item_get_del key cs = Some (p, cs\<lparr> items := upd (items cs) p (i\<lparr> refcount := refcount i + 1 \<rparr>) \<rparr>)"
    and "\<lbrakk>p \<in> members C; load (items cs) p = Some i; ITEM_key i = key; flushed cs i \<or> expired cs i; do_item_unlink_del p cs = Some cs'\<rbrakk> \<Longrightarrow>
      do_item_get_del key cs = Some (NULL, cs')"
proof -
  note rep = cache_invD(1) [OF inv]
  show "key \<notin> hc.key_at (items cs) ` members C \<Longrightarrow> do_item_get_del key cs = Some (NULL, cs)"
    using assoc_find_none [OF rep, of key] by (simp add: do_item_get_del_def drop_if_def hold_def)
  assume p: "p \<in> members C" "load (items cs) p = Some i" "ITEM_key i = key"
  then have find: "assoc_find key (table cs) (items cs) = Some p" and nn: "p \<noteq> NULL"
    using assoc_find_member [OF rep p(1)] by (auto simp: hc.key_at_def)
  show "do_item_get_del key cs = Some (p, cs\<lparr> items := upd (items cs) p (i\<lparr> refcount := refcount i + 1 \<rparr>) \<rparr>)"
    if "\<not> flushed cs i" "\<not> expired cs i"
    using find nn p(2) that cache_inv_hold(1) [OF inv p(2)] by (simp add: do_item_get_del_def drop_if_def)
  show "do_item_get_del key cs = Some (NULL, cs')" if "flushed cs i \<or> expired cs i" "do_item_unlink_del p cs = Some cs'"
    using find nn p(2) that by (cases "flushed cs i") (auto simp: do_item_get_del_def drop_if_def hold_def)
qed

text \<open>What an operation that removes items leaves alone: the items still in the table and the items that are held.\<close>

definition contents :: "item \<Rightarrow> item" where
  "contents i = (body i)\<lparr> it_flags := it_flags i AND NOT ITEM_LINKED \<rparr>"

definition in_use_kept :: "(nat \<Rightarrow> addr set) \<Rightarrow> item heap \<Rightarrow> (nat \<Rightarrow> addr set) \<Rightarrow> item heap \<Rightarrow> (item \<Rightarrow> bool) \<Rightarrow> bool" where
  "in_use_kept U h U' h' P \<longleftrightarrow> (\<forall>c x i. x \<in> U c \<and> load h x = Some i \<and> P i \<longrightarrow> x \<in> U' c \<and> map_option contents (load h' x) = Some (contents i))"

lemma in_use_kept_refl [simp]: "in_use_kept U h U h P"
  by (simp add: in_use_kept_def)

lemma in_use_kept_trans:
  assumes "in_use_kept U h U1 h1 P" "in_use_kept U1 h1 U2 h2 P" "\<And>i j. contents i = contents j \<Longrightarrow> P i = P j"
  shows "in_use_kept U h U2 h2 P"
  unfolding in_use_kept_def
proof (intro allI impI)
  fix c x i assume a: "x \<in> U c \<and> load h x = Some i \<and> P i"
  then have "x \<in> U1 c" "map_option contents (load h1 x) = Some (contents i)" using assms(1) unfolding in_use_kept_def by blast+
  then obtain j where j: "x \<in> U1 c" "load h1 x = Some j" "contents j = contents i" by auto
  with a assms(3) have "P j" by blast
  with j assms(2) show "x \<in> U2 c \<and> map_option contents (load h2 x) = Some (contents i)" unfolding in_use_kept_def by metis
qed

lemma contents_refcount: "contents i = contents j \<Longrightarrow> refcount i = refcount j" "contents i = contents j \<Longrightarrow> it_time i = it_time j"
  by (cases i; cases j; simp add: contents_def body_def)+

lemma held_trans:
  "in_use_kept U h U1 h1 (\<lambda>i. refcount i \<noteq> 0) \<Longrightarrow> in_use_kept U1 h1 U2 h2 (\<lambda>i. refcount i \<noteq> 0) \<Longrightarrow> in_use_kept U h U2 h2 (\<lambda>i. refcount i \<noteq> 0)"
  by (erule in_use_kept_trans, assumption) (drule contents_refcount(1), simp)

lemma contents_body: "body i = body j \<Longrightarrow> contents i = contents j"
    "body j = (body i)\<lparr> it_flags := it_flags i AND NOT ITEM_LINKED \<rparr> \<Longrightarrow> contents j = contents i"
  by (cases i; cases j; simp add: contents_def body_def and.assoc)+

lemma in_use_kept_unlink:
  assumes "others_kept it h h'" "load h it = Some i" "U' = (if it \<in> M \<and> refcount i = 0 then U(c := U c - {it}) else U)"
    "refcount i \<noteq> 0 \<or> it \<notin> M \<Longrightarrow> map_option body (load h' it) = Some ((body i)\<lparr> it_flags := it_flags i AND NOT ITEM_LINKED \<rparr>)"
  shows "in_use_kept U h U' h' (\<lambda>i. refcount i \<noteq> 0)"
  unfolding in_use_kept_def
proof (intro allI impI)
  fix d x j assume x: "x \<in> U d \<and> load h x = Some j \<and> refcount j \<noteq> 0"
  show "x \<in> U' d \<and> map_option contents (load h' x) = Some (contents j)"
  proof (cases "x = it")
    case True
    then have "map_option body (load h' it) = Some ((body i)\<lparr> it_flags := it_flags i AND NOT ITEM_LINKED \<rparr>)" using assms(2,4) x by auto
    then obtain j' where "load h' it = Some j'" "contents j' = contents i" using contents_body(2) by blast
    then show ?thesis using True x assms(2,3) by auto
  next
    case False
    then have "map_option body (load h' x) = Some (body j)" using assms(1) x by (simp add: others_kept_def)
    then obtain j' where "load h' x = Some j'" "contents j' = contents j" using contents_body(1) by blast
    then show ?thesis using False x assms(3) by auto
  qed
qed

text \<open>
  The outcome of an operation that may remove linked items: the remaining items are as they were,
  no item that is held and satisfies \<open>P\<close> is taken from its holders, a removed item that
  stays in use is held, and items that are not linked are not touched.
\<close>

abbreviation bodies_kept :: "addr set \<Rightarrow> cache \<Rightarrow> cache \<Rightarrow> bool" where
  "bodies_kept M cs cs' \<equiv> (\<forall>x \<in> M. map_option body (load (items cs') x) = map_option body (load (items cs) x))"

definition no_orphans :: "item heap \<Rightarrow> addr set \<Rightarrow> (nat \<Rightarrow> addr set) \<Rightarrow> addr set \<Rightarrow> bool" where
  "no_orphans h M U' M' \<longleftrightarrow> (\<forall>c. \<forall>x \<in> U' c. x \<in> M \<longrightarrow> x \<in> M' \<or> (\<exists>i. load h x = Some i \<and> refcount i \<noteq> 0))"

definition unlinked_kept :: "(nat \<Rightarrow> addr set) \<Rightarrow> item heap \<Rightarrow> addr set \<Rightarrow> (nat \<Rightarrow> addr set) \<Rightarrow> item heap \<Rightarrow> bool" where
  "unlinked_kept U h M U' h' \<longleftrightarrow> (\<forall>c. \<forall>x \<in> U c. x \<notin> M \<longrightarrow> x \<in> U' c \<and> map_option body (load h' x) = map_option body (load h x))"

definition shrinks :: "(item \<Rightarrow> bool) \<Rightarrow> cache \<Rightarrow> (item_pos \<Rightarrow> addr list) \<Rightarrow> (nat \<Rightarrow> addr set) \<Rightarrow> cache \<Rightarrow> (item_pos \<Rightarrow> addr list) \<Rightarrow> (nat \<Rightarrow> addr set) \<Rightarrow> bool" where
  "shrinks P cs C U cs' C' U' \<longleftrightarrow> members C' \<subseteq> members C \<and> (\<forall>c. U' c \<subseteq> U c) \<and> bodies_kept (members C') cs cs' \<and>
     in_use_kept U (items cs) U' (items cs') (\<lambda>i. refcount i \<noteq> 0 \<and> P i) \<and> no_orphans (items cs) (members C) U' (members C') \<and>
     unlinked_kept U (items cs) (members C) U' (items cs') \<and> same_settings cs cs' \<and> cas_id cs' = cas_id cs \<and> same_geometry (slab cs) (slab cs')"

lemma shrinksD:
  assumes "shrinks P cs C U cs' C' U'"
  shows "members C' \<subseteq> members C" "\<forall>c. U' c \<subseteq> U c" "bodies_kept (members C') cs cs'"
    "in_use_kept U (items cs) U' (items cs') (\<lambda>i. refcount i \<noteq> 0 \<and> P i)" "no_orphans (items cs) (members C) U' (members C')"
    "same_settings cs cs'" "cas_id cs' = cas_id cs" "same_geometry (slab cs) (slab cs')" "unlinked_kept U (items cs) (members C) U' (items cs')"
  using assms unfolding shrinks_def by - (elim conjE, assumption)+

lemma in_use_kept_weaken: "in_use_kept U h U' h' P \<Longrightarrow> (\<And>i. R i \<Longrightarrow> P i) \<Longrightarrow> in_use_kept U h U' h' R"
  unfolding in_use_kept_def by blast

lemma no_orphans_refl [simp]: "no_orphans h M U M"
  by (simp add: no_orphans_def)

lemma unlinked_kept_refl [simp]: "unlinked_kept U h M U h"
  by (simp add: unlinked_kept_def)

lemma unlinked_kept_others:
  assumes "others_kept it h h'" "it \<in> M" "U' = U(c := U c - {it}) \<or> U' = U"
  shows "unlinked_kept U h M U' h'"
  unfolding unlinked_kept_def
proof (intro allI ballI impI)
  fix d x assume "x \<in> U d" "x \<notin> M"
  moreover from this assms(2) have "x \<noteq> it" by auto
  ultimately show "x \<in> U' d \<and> map_option body (load h' x) = map_option body (load h x)" using assms(1,3) by (auto simp: others_kept_def)
qed

lemma shrinks_refl [simp]: "shrinks P cs C U cs C U"
  by (simp add: shrinks_def)

lemma shrinks_trans:
  assumes "shrinks P cs C U cs1 C1 U1" "shrinks P cs1 C1 U1 cs2 C2 U2" "\<And>i j. contents i = contents j \<Longrightarrow> P i = P j"
  shows "shrinks P cs C U cs2 C2 U2"
proof -
  note S1 = shrinksD [OF assms(1)] and S2 = shrinksD [OF assms(2)]
  have "in_use_kept U (items cs) U2 (items cs2) (\<lambda>i. refcount i \<noteq> 0 \<and> P i)"
  proof (rule in_use_kept_trans [OF S1(4) S2(4)])
    show "(refcount i \<noteq> 0 \<and> P i) = (refcount j \<noteq> 0 \<and> P j)" if "contents i = contents j" for i j
      using contents_refcount(1) [OF that] assms(3) [OF that] by simp
  qed
  moreover have "bodies_kept (members C2) cs cs2" using S1(3) S2(1,3) by (metis subsetD)
  moreover have "no_orphans (items cs) (members C) U2 (members C2)"
    unfolding no_orphans_def
  proof (intro allI ballI impI)
    fix c x assume x: "x \<in> U2 c" "x \<in> members C"
    have x1: "x \<in> U1 c" using x(1) S2(2) by blast
    show "x \<in> members C2 \<or> (\<exists>i. load (items cs) x = Some i \<and> refcount i \<noteq> 0)"
    proof (cases "x \<in> members C1")
      case True
      then have "x \<in> members C2 \<or> (\<exists>i. load (items cs1) x = Some i \<and> refcount i \<noteq> 0)" using S2(5) x(1) unfolding no_orphans_def by blast
      moreover have "map_option body (load (items cs1) x) = map_option body (load (items cs) x)" using S1(3) True by blast
      then have "load (items cs1) x = Some i \<Longrightarrow> \<exists>j. load (items cs) x = Some j \<and> body i = body j" for i by (cases "load (items cs) x") auto
      ultimately show ?thesis using body_view(2) by metis
    next
      case False
      then show ?thesis using S1(5) x1 x(2) unfolding no_orphans_def by blast
    qed
  qed
  moreover have "unlinked_kept U (items cs) (members C) U2 (items cs2)"
    using S1(1,9) S2(9) unfolding unlinked_kept_def by (metis subsetD)
  moreover have "members C2 \<subseteq> members C" "cas_id cs2 = cas_id cs" "\<forall>c. U2 c \<subseteq> U c" using S1(1,2,7) S2(1,2,7) by (blast, simp, blast)
  moreover have "same_settings cs cs2" "same_geometry (slab cs) (slab cs2)"
    using S1(6,8) S2(6,8) same_settings_trans same_geometry_trans by blast+
  ultimately show ?thesis unfolding shrinks_def by blast
qed

lemma shrinks_stats:
  "same_settings cs cs' \<Longrightarrow> cas_id cs' = cas_id cs \<Longrightarrow> slab cs' = slab cs \<Longrightarrow> items cs' = items cs \<Longrightarrow> shrinks P cs C U cs' C U"
  by (simp add: shrinks_def)

text \<open>Unlinking an item; it goes back to the allocator if it is not held.\<close>

lemma shrinks_unlink:
  assumes inv: "cache_inv cs C U Q" and it: "it \<in> U c" "it \<in> members C" "load (items cs) it = Some i"
    and U': "U' = (if refcount i = 0 then U(c := U c - {it}) else U)"
  obtains cs' C' where "do_item_unlink_del it cs = Some cs'" "cache_inv cs' C' U' (Q(c := remove1 it (Q c)))"
    "shrinks P cs C U cs' C' U'" "members C' = members C - {it}" "others_kept it (items cs) (items cs')"
proof (rule do_item_unlink_spec [OF inv it(1,3)])
  fix cs' C' Q' assume u: "do_item_unlink_del it cs = Some cs'" "members C' = members C - {it}"
    "cache_inv cs' C' (if it \<in> members C \<and> refcount i = 0 then U(c := U c - {it}) else U) Q'" "Q' = Q(c := remove1 it (Q c))"
    "others_kept it (items cs) (items cs')" "same_settings cs cs'" "cas_id cs' = cas_id cs"
    "refcount i \<noteq> 0 \<or> it \<notin> members C \<Longrightarrow> map_option body (load (items cs') it) = Some ((body i)\<lparr> it_flags := it_flags i AND NOT ITEM_LINKED \<rparr>)"
    "same_geometry (slab cs) (slab cs')"
  have eq: "(if it \<in> members C \<and> refcount i = 0 then U(c := U c - {it}) else U) = U'" using it U' by simp
  have "in_use_kept U (items cs) U' (items cs') (\<lambda>i. refcount i \<noteq> 0)"
    by (rule in_use_kept_unlink [OF u(5) it(3) eq [symmetric] u(8)])
  then have "in_use_kept U (items cs) U' (items cs') (\<lambda>i. refcount i \<noteq> 0 \<and> P i)" by (rule in_use_kept_weaken) simp
  moreover have "bodies_kept (members C') cs cs'" using u(2,5) by (simp add: others_kept_def)
  moreover have "no_orphans (items cs) (members C) U' (members C')"
    using in_use_class [OF inv it(1)] it(3) unfolding no_orphans_def u(2) U' by (auto split: if_splits)
  moreover have "unlinked_kept U (items cs) (members C) U' (items cs')" by (rule unlinked_kept_others [OF u(5) it(2)]) (use U' in auto)
  moreover have "members C' \<subseteq> members C" "\<forall>c. U' c \<subseteq> U c" using u(2) U' by auto
  ultimately have "shrinks P cs C U cs' C' U'" using u(6,7,9) unfolding shrinks_def by blast
  then show thesis using that [OF u(1) _ _ u(2,5)] u(3,4) unfolding eq by blast
qed

subsection \<open>Flushing\<close>

definition recent :: "cache \<Rightarrow> addr \<Rightarrow> bool" where
  "recent cs x \<longleftrightarrow> oldest_live cs \<le> it_time (the (load (items cs) x))"

lemma recent_kept:
  assumes "map_option body (load (items cs') x) = map_option body (load (items cs) x)" "load (items cs) x = Some i" "same_settings cs cs'"
  shows "recent cs' x = recent cs x"
proof -
  obtain j where "load (items cs') x = Some j" "body j = body i" using assms(1,2) by auto
  moreover from this(2) have "it_time j = it_time i" by (cases i; cases j; simp add: body_def)
  ultimately show ?thesis using assms(2,3) by (simp add: recent_def same_settings_def)
qed

lemma flush_queue_spec:
  assumes "cache_inv cs C U Q" "c < LARGEST_ID" "Q c = xs"
  shows "\<exists>cs' C' U'. flush_queue (first xs NULL) cs = Some cs' \<and> cache_inv cs' C' U' (Q(c := dropWhile (recent cs) xs)) \<and>
    shrinks (\<lambda>_. True) cs C U cs' C' U'"
  using assms
proof (induction xs arbitrary: cs C U Q)
  case Nil
  then have Q: "Q(c := []) = Q" by auto
  have "flush_queue (first [] NULL) cs = Some cs" by (subst flush_queue.simps) simp
  then show ?case using Nil Q by (intro exI [of _ cs] exI [of _ C] exI [of _ U]) simp
next
  case (Cons x xs)
  note inv = Cons.prems(1) and I = cache_invD [OF Cons.prems(1)]
  have xU: "x \<in> U c" using I(8) Cons.prems(3) by (metis list.set_intros(1) subsetD)
  from inv_item [OF inv xU] obtain i where i: "load (items cs) x = Some i" "\<not> has_flag ITEM_SLABBED i" "x \<noteq> NULL" by metis
  have dl: "lru.dl (items cs) NULL (x # xs) NULL" "distinct (x # xs)" using I(3) Cons.prems(2,3) unfolding queues_def by metis+
  have nxt: "it_next i = first xs NULL" using dl(1) i(1) by simp
  have xM: "x \<in> members C" using I(5) Cons.prems(3) by (metis UN_iff UNIV_I list.set_intros(1))
  show ?case
  proof (cases "oldest_live cs \<le> it_time i")
    case False
    then have "\<not> recent cs x" using i(1) by (simp add: recent_def)
    moreover have "Q(c := x # xs) = Q" using Cons.prems(3) by auto
    moreover have "flush_queue x cs = Some cs" using False i by (subst flush_queue.simps) simp
    ultimately show ?thesis using inv by (intro exI [of _ cs] exI [of _ C] exI [of _ U]) simp
  next
    case True
    let ?U = "if refcount i = 0 then U(c := U c - {x}) else U"
    obtain cs1 C1 where u: "do_item_unlink_del x cs = Some cs1" "cache_inv cs1 C1 ?U (Q(c := remove1 x (Q c)))"
      "shrinks (\<lambda>_. True) cs C U cs1 C1 ?U" "members C1 = members C - {x}" "others_kept x (items cs) (items cs1)"
      by (rule shrinks_unlink [OF inv xU xM i(1) refl])
    have Q1: "Q(c := remove1 x (Q c)) = Q(c := xs)" using Cons.prems(3) by simp
    from Cons.IH [OF u(2) [unfolded Q1] Cons.prems(2) fun_upd_same, unfolded fun_upd_upd] obtain cs' C' U' where
      r: "flush_queue (first xs NULL) cs1 = Some cs'" "cache_inv cs' C' U' (Q(c := dropWhile (recent cs1) xs))"
      "shrinks (\<lambda>_. True) cs1 C1 ?U cs' C' U'" by (elim exE conjE) (rule that; assumption)
    have rec: "recent cs1 y = recent cs y" if "y \<in> set xs" for y
    proof -
      have "y \<noteq> x" using dl(2) that by auto
      moreover have "y \<in> set (x # xs)" using that by simp
      then obtain j where "load (items cs) y = Some j" using lru.dl_loaded [OF dl(1)] by blast
      moreover have "map_option body (load (items cs1) y) = map_option body (load (items cs) y)" if "y \<noteq> x"
        using u(5) that by (simp add: others_kept_def)
      ultimately show ?thesis using recent_kept [OF _ _ shrinksD(6) [OF u(3)]] by blast
    qed
    have rx: "recent cs x" using True i(1) by (simp add: recent_def)
    have "dropWhile (recent cs1) xs = dropWhile (recent cs) xs" using rec by (auto intro: dropWhile_cong)
    then have "dropWhile (recent cs) (x # xs) = dropWhile (recent cs1) xs" using rx by simp
    with r(2) have "cache_inv cs' C' U' (Q(c := dropWhile (recent cs) (x # xs)))" by metis
    moreover have "flush_queue (first (x # xs) NULL) cs = Some cs'" using True i nxt u(1) r(1) by (subst flush_queue.simps) simp
    moreover have "shrinks (\<lambda>_. True) cs C U cs' C' U'" by (rule shrinks_trans [OF u(3) r(3)]) simp
    ultimately show ?thesis by (intro exI [of _ cs'] exI [of _ C'] exI [of _ U'] conjI) assumption
  qed
qed

lemma flush_queues_spec:
  assumes "cache_inv cs C U Q" "c + n \<le> LARGEST_ID"
  shows "\<exists>cs' C' U' Q'. flush_queues n c cs = Some cs' \<and> cache_inv cs' C' U' Q' \<and> shrinks (\<lambda>_. True) cs C U cs' C' U' \<and>
    (\<forall>d. Q' d = (if c \<le> d \<and> d < c + n then dropWhile (recent cs) (Q d) else Q d))"
  using assms
proof (induction n arbitrary: cs C U Q c)
  case 0
  then show ?case by (intro exI [of _ cs] exI [of _ C] exI [of _ U] exI [of _ Q]) auto
next
  case (Suc n)
  note I = cache_invD [OF Suc.prems(1)]
  have c: "c < LARGEST_ID" using Suc.prems(2) by simp
  from flush_queue_spec [OF Suc.prems(1) c refl] obtain cs1 C1 U1 where f: "flush_queue (first (Q c) NULL) cs = Some cs1"
    "cache_inv cs1 C1 U1 (Q(c := dropWhile (recent cs) (Q c)))" "shrinks (\<lambda>_. True) cs C U cs1 C1 U1" by blast
  note S = shrinksD [OF f(3)]
  let ?Q1 = "Q(c := dropWhile (recent cs) (Q c))"
  have "Suc c + n \<le> LARGEST_ID" using Suc.prems(2) by simp
  from Suc.IH [OF f(2) this] obtain cs' C' U' Q' where r: "flush_queues n (Suc c) cs1 = Some cs'" "cache_inv cs' C' U' Q'"
    "shrinks (\<lambda>_. True) cs1 C1 U1 cs' C' U'" "\<forall>d. Q' d = (if Suc c \<le> d \<and> d < Suc c + n then dropWhile (recent cs1) (?Q1 d) else ?Q1 d)"
    by (elim exE conjE) (rule that; assumption)
  have rec: "recent cs1 y = recent cs y" if "y \<in> members C1" for y
  proof -
    have "y \<in> members C" using that S(1) by blast
    then obtain i where "load (items cs) y = Some i" by (rule members_loaded [OF I(1)])
    from recent_kept [OF _ this S(6)] S(3) that show ?thesis by simp
  qed
  have dw: "dropWhile (recent cs1) (?Q1 d) = dropWhile (recent cs) (Q d)" if "d \<noteq> c" for d
  proof -
    have "y \<in> members C1" if "y \<in> set (Q d)" for y using cache_invD(5) [OF f(2)] \<open>d \<noteq> c\<close> that by (auto intro!: exI [of _ d])
    with rec that show ?thesis by (auto intro: dropWhile_cong)
  qed
  have "Q' d = (if c \<le> d \<and> d < c + Suc n then dropWhile (recent cs) (Q d) else Q d)" for d
    using r(4) dw [of d] by (cases "d = c") auto
  moreover have "shrinks (\<lambda>_. True) cs C U cs' C' U'" by (rule shrinks_trans [OF f(3) r(3)]) simp
  moreover have "heads cs c = first (Q c) NULL" using I(3) c by (simp add: queues_def)
  then have "flush_queues (Suc n) c cs = Some cs'" using f(1) r(1) by simp
  ultimately show ?case
    using r(2) by (intro exI [of _ cs'] exI [of _ C'] exI [of _ U'] exI [of _ Q'] conjI allI) (assumption | simp)+
qed

end
