(* ===== verification/Mc_Alloc.thy ===== *)
theory Mc_Alloc
  imports Mc_Items
begin

text \<open>
  Allocation of items (\<open>do_item_alloc_del\<close> of \<open>items.c\<close>): where the memory of a new item comes
  from, and what is taken away for it. Between the moment a chunk is obtained and the moment its
  header is written the cache has a chunk that is in use for the allocator but no item yet:
  \<open>fresh_inv\<close>.
\<close>

subsection \<open>States that agree\<close>

lemma cache_inv_cong:
  assumes "table cs' = table cs" "slab cs' = slab cs" "items cs' = items cs" "heads cs' = heads cs" "tails cs' = tails cs" "sizes cs' = sizes cs"
  shows "cache_inv cs' C U Q = cache_inv cs C U Q"
  unfolding cache_inv_def queues_def assms ..

lemma cache_inv_slab:
  assumes inv: "cache_inv cs C U Q" and "slabs_inv sl' (items cs) U" "same_geometry (slab cs) sl'"
  shows "cache_inv (cs\<lparr> slab := sl' \<rparr>) C U Q"
proof -
  note I = cache_invD [OF inv]
  have "queues (cs\<lparr> slab := sl' \<rparr>) Q" using I(3) by (simp add: queues_def)
  moreover have "power_largest sl' = power_largest (slab cs)" using assms(3) by (simp add: same_geometry_def)
  ultimately show ?thesis unfolding cache_inv_def using I assms(2) by (intro conjI) simp_all
qed

lemma assoc_rep_on:
  assumes rep: "assoc_rep a h C" and view: "\<And>x. x \<in> members C \<Longrightarrow> load h' x = load h x"
  shows "assoc_rep a h' C"
proof -
  have key: "hc.key_at h' x = hc.key_at h x" if "x \<in> members C" for x using view [OF that] by (simp add: hc.key_at_def)
  have mem: "x \<in> members C" if "x \<in> set (C s)" for x s using that by (auto simp: members_def)
  have "inj_on (hc.key_at h') (members C) = inj_on (hc.key_at h) (members C)" by (rule inj_on_cong) (rule key)
  moreover have "hc.path h' (slot_head s a) (C s) NULL = hc.path h (slot_head s a) (C s) NULL" for s
    by (rule hc.path_frame) (rule view [OF mem])
  moreover have "\<forall>s. \<forall>x \<in> set (C s). chain_slot (key_hash (hc.key_at h' x)) a = s \<and> item_wf (the (load h' x))"
    using rep key [OF mem] view [OF mem] unfolding assoc_rep_def by (metis (no_types, lifting))
  ultimately show ?thesis using rep unfolding assoc_rep_def by (intro conjI) simp_all
qed

definition fresh_inv :: "cache \<Rightarrow> (item_pos \<Rightarrow> addr list) \<Rightarrow> (nat \<Rightarrow> addr set) \<Rightarrow> (nat \<Rightarrow> addr list) \<Rightarrow> nat \<Rightarrow> addr \<Rightarrow> bool" where
  "fresh_inv cs C U Q c a \<longleftrightarrow> power_largest (slab cs) < LARGEST_ID \<and> assoc_rep (table cs) (items cs) C \<and>
     slabs_inv (slab cs) (items cs) (U(c := insert a (U c))) \<and> queues cs Q \<and> (\<forall>d. d \<notin> classes (slab cs) \<longrightarrow> U d = {}) \<and> (\<forall>d. set (Q d) \<subseteq> U d) \<and>
     members C = (\<Union>d. set (Q d)) \<and> items_ok (items cs) U (members C) \<and> c \<in> classes (slab cs) \<and> (\<forall>d. a \<notin> U d) \<and>
     (\<exists>i. load (items cs) a = Some i \<and> it_clsid i = 0)"

lemma fresh_invD:
  assumes "fresh_inv cs C U Q c a"
  shows "assoc_rep (table cs) (items cs) C" "slabs_inv (slab cs) (items cs) (U(c := insert a (U c)))" "queues cs Q" "items_ok (items cs) U (members C)"
    "members C = (\<Union>c. set (Q c))" "\<forall>d. d \<notin> classes (slab cs) \<longrightarrow> U d = {}" "power_largest (slab cs) < LARGEST_ID" "\<forall>d. set (Q d) \<subseteq> U d"
    "c \<in> classes (slab cs)" "\<forall>d. a \<notin> U d" "\<exists>i. load (items cs) a = Some i \<and> it_clsid i = 0"
  using assms unfolding fresh_inv_def by - (elim conjE, assumption)+

subsection \<open>Getting a chunk\<close>

lemma slabs_alloc_spec:
  assumes inv: "cache_inv cs C U Q" and c: "c \<in> classes (slab cs)"
  obtains a cs' where "slabs_alloc n c cs = Some (a, cs')" "cs' = cs\<lparr> slab := slab cs', items := items cs' \<rparr>"
    "\<forall>d. \<forall>x \<in> U d. load (items cs') x = load (items cs) x" "same_geometry (slab cs) (slab cs')"
    "if a = NULL then cache_inv cs' C U Q else fresh_inv cs' C U Q c a"
proof -
  note I = cache_invD [OF inv]
  obtain a sl' h' where A: "do_slabs_alloc n c (slab cs) (items cs) = Some (a, sl', h')" "same_geometry (slab cs) sl'" "chunks_kept (slab cs) (items cs) h'"
    "if a = NULL then slabs_inv sl' h' U
     else a \<notin> U c \<and> a \<in> chunks (slabclass sl' c) \<and> slabs_inv sl' h' (U(c := insert a (U c))) \<and> it_clsid (the (load h' a)) = 0"
    using alloc_spec [OF I(2) c] by blast
  let ?cs = "cs\<lparr> slab := sl', items := h' \<rparr>"
  have cl: "classes sl' = classes (slab cs)" "power_largest sl' = power_largest (slab cs)" using A(2) by (simp_all add: same_geometry_def)
  have ld: "load h' x = load (items cs) x" if "x \<in> U d" for d x
  proof -
    have "d \<in> classes (slab cs)" using I(6) that by blast
    with in_use_chunk [OF I(2) this that] show ?thesis using A(3) by (simp add: chunks_kept_def)
  qed
  have memU: "\<exists>d. x \<in> U d" if "x \<in> members C" for x using that I(5,8) by blast
  have rep: "assoc_rep (table cs) h' C" by (rule assoc_rep_on [OF I(1)]) (use memU ld in blast)
  have q: "queues ?cs Q"
  proof -
    have "lru.dl h' NULL (Q d) NULL" if "d < LARGEST_ID" for d
      by (rule lru.dl_view [of _ _ "items cs"]) (use I(3,8) that ld in \<open>auto simp: queues_def dest!: spec [of _ d]\<close>)
    then show ?thesis using I(3) by (simp add: queues_def)
  qed
  have ok: "items_ok h' U (members C)" using I(4) ld unfolding items_ok_def by simp
  have "if a = NULL then cache_inv ?cs C U Q else fresh_inv ?cs C U Q c a"
  proof (cases "a = NULL")
    case True
    then show ?thesis unfolding cache_inv_def using A(4) I(5-8) rep q ok cl by (simp del: atLeastAtMost_iff)
  next
    case False
    have "a \<notin> U d" for d
    proof
      assume "a \<in> U d"
      then have d: "d \<in> classes (slab cs)" "a \<in> U d" using I(6) by blast+
      have sv: "slabs_inv sl' h' (U(c := insert a (U c)))" using A(4) False by simp
      have "a \<in> chunks (slabclass sl' d)" using in_use_chunk [OF sv, of d a] d cl(1) by simp
      then have "c = d" using chunk_class [OF sv, of c a d] A(4) False c d(1) cl(1) by simp
      then show False using d(2) A(4) False by simp
    qed
    moreover have "load h' a \<noteq> None"
      using slabs_inv_class [of sl' h' "U(c := insert a (U c))" c] A(4) False c cl(1) by (simp add: class_inv_def)
    ultimately show ?thesis unfolding fresh_inv_def using A(4) False I(5-8) rep q ok cl c by (auto simp del: atLeastAtMost_iff)
  qed
  moreover have "slabs_alloc n c cs = Some (a, ?cs)" using A(1) by (simp add: slabs_alloc_def)
  ultimately show ?thesis using that [of a ?cs] ld A(2) by simp
qed

lemma search_tail_spec:
  "lru.dl h NULL xs e \<Longrightarrow> \<exists>q. search_tail P h n (final_of NULL xs) = Some q \<and> (q = NULL \<or> q \<in> set xs \<and> P (the (load h q)))"
proof (induction n arbitrary: xs e)
  case (Suc n)
  show ?case
  proof (cases xs rule: rev_cases)
    case (snoc ys y)
    then obtain i where i: "load h y = Some i" "it_prev i = final_of NULL ys" "lru.dl h NULL ys y" using Suc.prems
      by (auto simp: lru.dl_append split: option.splits)
    with Suc.IH [OF i(3)] snoc show ?thesis by auto
  qed simp
qed simp

subsection \<open>Taking an item away\<close>

lemma adjust_spec:
  assumes inv: "slabs_inv sl h U" and c: "c \<in> classes sl"
  obtains sl' where "slabs_adjust_mem_requested c m n sl = Some sl'" "slabs_inv sl' h U" "same_geometry sl sl'"
proof -
  let ?p = "(slabclass sl c)\<lparr> requested := requested (slabclass sl c) - of_nat m + of_nat n \<rparr>"
  have geo: "chunks ?p = chunks (slabclass sl c)" "page_rest ?p = page_rest (slabclass sl c)" by (simp_all add: chunks_def page_rest_def)
  have "class_inv ?p h (U c)" using slabs_inv_class [OF inv c] unfolding class_inv_def geo by simp
  then have "slabs_inv (set_class c ?p sl) h (U(c := U c))" "same_geometry sl (set_class c ?p sl)"
    by (intro slabs_inv_set_class [OF inv]; simp)+
  moreover have "slabs_adjust_mem_requested c m n sl = Some (set_class c ?p sl)" using c by (simp add: slabs_adjust_mem_requested_def Let_def)
  ultimately show ?thesis using that by simp
qed

lemma search_queue:
  assumes inv: "cache_inv cs C U Q" and c: "c < LARGEST_ID"
  obtains q where "search_tail P (items cs) n (tails cs c) = Some q"
    "q \<noteq> NULL \<longrightarrow> q \<in> set (Q c) \<and> q \<in> U c \<and> q \<in> members C \<and> (\<exists>i. load (items cs) q = Some i \<and> P i)"
proof -
  note I = cache_invD [OF inv]
  have dl: "lru.dl (items cs) NULL (Q c) NULL" "tails cs c = final_of NULL (Q c)" using I(3) c by (simp_all add: queues_def)
  obtain q where q: "search_tail P (items cs) n (tails cs c) = Some q" "q = NULL \<or> q \<in> set (Q c) \<and> P (the (load (items cs) q))"
    using search_tail_spec [OF dl(1)] dl(2) by metis
  have "\<exists>i. load (items cs) q = Some i \<and> P i" if "q \<noteq> NULL" using q(2) lru.dl_loaded [OF dl(1), of q] that by auto
  moreover have "q \<in> U c \<and> q \<in> members C" if "q \<noteq> NULL" using q(2) that I(5,8) by blast
  ultimately show ?thesis using that [OF q(1)] q(2) by blast
qed

lemma no_orphans_removed:
  assumes "cache_inv cs C U Q" "it \<in> U c" "M' = members C - {it}"
  shows "no_orphans h (members C) (U(c := U c - {it})) M'"
  using in_use_class [OF assms(1,2)] unfolding no_orphans_def assms(3) by (auto split: if_splits)

text \<open>An item whose last access is not more than three hours ago is never repaired away.\<close>

definition young :: "cache \<Rightarrow> item \<Rightarrow> bool" where
  "young cs i \<longleftrightarrow> \<not> it_time i + TAIL_REPAIR_TIME < current_time cs"

lemma young_contents: "contents i = contents j \<Longrightarrow> young cs i = young cs j"
  using contents_refcount(2) [of i j] by (simp add: young_def)

lemma held_young: "contents i = contents j \<Longrightarrow> (refcount i \<noteq> 0 \<and> young cs i) = (refcount j \<noteq> 0 \<and> young cs j)"
  using contents_refcount(1) [of i j] young_contents [of i j cs] by simp

lemma evict_spec:
  assumes inv: "cache_inv cs C U Q" and c: "c < LARGEST_ID"
  obtains cs' C' U' Q' where "evict_one c cs = Some cs'" "cache_inv cs' C' U' Q'" "shrinks P cs C U cs' C' U'"
proof -
  obtain q where q: "search_tail (\<lambda>i. refcount i = 0) (items cs) 50 (tails cs c) = Some q"
    "q \<noteq> NULL \<longrightarrow> q \<in> set (Q c) \<and> q \<in> U c \<and> q \<in> members C \<and> (\<exists>i. load (items cs) q = Some i \<and> refcount i = 0)"
    by (rule search_queue [OF inv c, where P = "\<lambda>i. refcount i = 0" and n = 50])
  show ?thesis
  proof (cases "q = NULL")
    case True
    then show ?thesis using that [of cs C U Q] inv q(1) by (simp add: evict_one_def)
  next
    case False
    then obtain i where i: "q \<in> U c" "q \<in> members C" "load (items cs) q = Some i" "refcount i = 0" using q(2) by blast
    let ?cs = "if exptime i = 0 \<or> current_time cs < exptime i
         then (count_stat c (\<lambda>s. s\<lparr> evicted := evicted s + 1, evicted_time := current_time cs - it_time i,
           evicted_nonzero := (if exptime i \<noteq> 0 then evicted_nonzero s + 1 else evicted_nonzero s) \<rparr>) cs)\<lparr> evictions := evictions cs + 1 \<rparr>
         else (count_stat c (\<lambda>s. s\<lparr> is_reclaimed := is_reclaimed s + 1 \<rparr>) cs)\<lparr> reclaimed := reclaimed cs + 1 \<rparr>"
    have eq: "table ?cs = table cs" "slab ?cs = slab cs" "items ?cs = items cs" "heads ?cs = heads cs" "tails ?cs = tails cs" "sizes ?cs = sizes cs"
        "same_settings cs ?cs" "cas_id ?cs = cas_id cs" by (simp_all add: count_stat_def same_settings_def)
    have inv': "cache_inv ?cs C U Q" using inv by (simp only: cache_inv_cong [OF eq(1-6)])
    have ld: "load (items ?cs) q = Some i" "U(c := U c - {q}) = (if refcount i = 0 then U(c := U c - {q}) else U)" using i(3,4) eq(3) by simp_all
    obtain cs' C' where u: "do_item_unlink_del q ?cs = Some cs'" "cache_inv cs' C' (U(c := U c - {q})) (Q(c := remove1 q (Q c)))"
        "shrinks P ?cs C U cs' C' (U(c := U c - {q}))" by (rule shrinks_unlink [OF inv' i(1,2) ld])
    have "shrinks P cs C U cs' C' (U(c := U c - {q}))" using u(3) eq by (simp add: shrinks_def same_settings_def)
    moreover have "evict_one c cs = Some cs'" using q(1) False i(3) u(1) unfolding evict_one_def by (simp add: Let_def)
    ultimately show ?thesis using that u(2) by blast
  qed
qed

lemma repair_spec:
  assumes inv: "cache_inv cs C U Q" and c: "c < LARGEST_ID"
  obtains cs' C' U' Q' where "repair_tail c cs = Some cs'" "cache_inv cs' C' U' Q'" "shrinks (young cs) cs C U cs' C' U'"
proof -
  let ?P = "\<lambda>i. refcount i \<noteq> 0 \<and> it_time i + TAIL_REPAIR_TIME < current_time cs"
  obtain q where q: "search_tail ?P (items cs) 50 (tails cs c) = Some q"
    "q \<noteq> NULL \<longrightarrow> q \<in> set (Q c) \<and> q \<in> U c \<and> q \<in> members C \<and> (\<exists>i. load (items cs) q = Some i \<and> ?P i)"
    by (rule search_queue [OF inv c, where P = ?P and n = 50])
  show ?thesis
  proof (cases "q = NULL")
    case True
    then show ?thesis using that [of cs C U Q] inv q(1) by (simp add: repair_tail_def)
  next
    case False
    then obtain i where i: "q \<in> U c" "q \<in> members C" "load (items cs) q = Some i" "?P i" using q(2) by blast
    let ?cs0 = "count_stat c (\<lambda>s. s\<lparr> tailrepairs := tailrepairs s + 1 \<rparr>) cs"
    let ?j = "i\<lparr> refcount := 0 \<rparr>"
    let ?cs1 = "?cs0\<lparr> items := upd (items cs) q ?j \<rparr>"
    have "cache_inv (cs\<lparr> items := upd (items cs) q ?j \<rparr>) C U Q" by (rule cache_inv_touch [OF inv i(3)]) (simp_all add: view_defs)
    then have inv1: "cache_inv ?cs1 C U Q" by (subst cache_inv_cong) (simp_all add: count_stat_def)
    have ld: "load (items ?cs1) q = Some ?j" "U(c := U c - {q}) = (if refcount ?j = 0 then U(c := U c - {q}) else U)" using False by (simp_all add: heap_simps)
    obtain cs' C' where u: "do_item_unlink_del q ?cs1 = Some cs'" "cache_inv cs' C' (U(c := U c - {q})) (Q(c := remove1 q (Q c)))"
        "shrinks (young cs) ?cs1 C U cs' C' (U(c := U c - {q}))" "members C' = members C - {q}" "others_kept q (items ?cs1) (items cs')"
      by (rule shrinks_unlink [OF inv1 i(1,2) ld])
    note S = shrinksD [OF u(3)]
    have l1: "load (items ?cs1) x = load (items cs) x" if "x \<noteq> q" for x using that by (simp add: heap_simps)
    have old: "\<not> young cs i" using i(4) by (simp add: young_def)
    have "in_use_kept U (items cs) U (items ?cs1) (\<lambda>i. refcount i \<noteq> 0 \<and> young cs i)"
      unfolding in_use_kept_def
    proof (intro allI impI)
      fix d x j assume x: "x \<in> U d \<and> load (items cs) x = Some j \<and> refcount j \<noteq> 0 \<and> young cs j"
      then have "x \<noteq> q" using i(3) old by auto
      with l1 x show "x \<in> U d \<and> map_option contents (load (items ?cs1) x) = Some (contents j)" by simp
    qed
    moreover have "in_use_kept U (items ?cs1) (U(c := U c - {q})) (items cs') (\<lambda>i. refcount i \<noteq> 0 \<and> young cs i)"
      by (rule S(4))
    ultimately have "in_use_kept U (items cs) (U(c := U c - {q})) (items cs') (\<lambda>i. refcount i \<noteq> 0 \<and> young cs i)"
      by (rule in_use_kept_trans) (rule held_young)
    moreover have "bodies_kept (members C') cs cs'" using S(3) u(4) l1 by simp
    moreover have "same_settings cs cs'" "cas_id cs' = cas_id cs" "same_geometry (slab cs) (slab cs')"
      using S(6-8) by (simp_all add: count_stat_def same_settings_def)
    moreover have "no_orphans (items cs) (members C) (U(c := U c - {q})) (members C')" by (rule no_orphans_removed [OF inv i(1) u(4)])
    moreover have "unlinked_kept U (items cs) (members C) (U(c := U c - {q})) (items cs')"
      by (rule unlinked_kept_others [OF others_kept_trans [OF _ u(5)] i(2) disjI1 [OF refl]]) simp
    ultimately have "shrinks (young cs) cs C U cs' C' (U(c := U c - {q}))"
      using S(1,2) unfolding shrinks_def by blast
    moreover have "repair_tail c cs = Some cs'"
      using q(1) False u(1) set_item_Some [of ?cs0 q i] i(3) by (simp add: repair_tail_def Let_def count_stat_def)
    ultimately show ?thesis using that u(2) by blast
  qed
qed

text \<open>Reusing the memory of an expired item: it leaves the table and becomes a fresh chunk.\<close>

lemma fresh_from_item:
  assumes inv: "cache_inv cs C U Q" and it: "it \<in> U c" "it \<notin> members C" and i: "load (items cs) it = Some i"
  shows "fresh_inv (cs\<lparr> items := upd (items cs) it (i\<lparr> it_clsid := 0, refcount := 0 \<rparr>) \<rparr>) C (U(c := U c - {it})) Q c it"
proof -
  note I = cache_invD [OF inv]
  have c: "c \<in> classes (slab cs)" "it \<noteq> NULL" using inv_item [OF inv it(1)] by metis+
  let ?h = "upd (items cs) it (i\<lparr> it_clsid := 0, refcount := 0 \<rparr>)" and ?U = "U(c := U c - {it})"
  have "?U(c := insert it (?U c)) = U" using it(1) by (intro ext) auto
  then have "slabs_inv (slab cs) ?h (?U(c := insert it (?U c)))" using slabs_inv_item [OF I(2) c(1) it(1)] by metis
  moreover have "assoc_rep (table cs) ?h C" by (rule assoc_rep_keeps(1) [OF I(1)]) (simp add: keeps_upd i view_defs)
  moreover have "queues (cs\<lparr> items := ?h \<rparr>) Q" by (rule queues_keeps [OF I(3)]) (simp_all add: keeps_upd i view_defs)
  moreover have nU: "it \<notin> ?U d" for d using in_use_class [OF inv it(1), of d] by auto
  moreover have "items_ok ?h ?U (members C)"
    unfolding items_ok_def
  proof (intro allI ballI)
    fix d x assume x: "x \<in> ?U d"
    then have "x \<in> U d" "x \<noteq> it" using nU [of d] by (auto split: if_splits)
    with I(4) show "\<exists>i. load ?h x = Some i \<and> unat (it_clsid i) = d \<and> \<not> has_flag ITEM_SLABBED i \<and> (has_flag ITEM_LINKED i \<longleftrightarrow> x \<in> members C)"
      unfolding items_ok_def by (simp add: heap_simps)
  qed
  moreover have "set (Q d) \<subseteq> ?U d" for d
  proof -
    have "it \<notin> set (Q d)" using it(2) I(5) by blast
    then show ?thesis using I(8) [rule_format, of d] by (cases "d = c") auto
  qed
  moreover have "?U d = {}" if "d \<notin> classes (slab cs)" for d using I(6) that by auto
  moreover have "load ?h it = Some (i\<lparr> it_clsid := 0, refcount := 0 \<rparr>)" using c(2) by (simp add: heap_simps)
  ultimately show ?thesis unfolding fresh_inv_def using I(5,7) c(1) by (intro conjI allI impI) (assumption | simp)+
qed

lemma reclaim_spec:
  assumes inv: "cache_inv cs C U Q" and c: "c \<in> classes (slab cs)" "c < LARGEST_ID"
  obtains it cs' C' U' Q' where "reclaim_expired ntotal c cs = Some (it, cs')"
    "if it = NULL then cs' = cs else fresh_inv cs' C' U' Q' c it \<and> shrinks (young cs) cs C U cs' C' U'"
proof -
  let ?P = "\<lambda>i. refcount i = 0 \<and> exptime i \<noteq> 0 \<and> exptime i < current_time cs"
  obtain q where q: "search_tail ?P (items cs) 50 (tails cs c) = Some q"
    "q \<noteq> NULL \<longrightarrow> q \<in> set (Q c) \<and> q \<in> U c \<and> q \<in> members C \<and> (\<exists>i. load (items cs) q = Some i \<and> ?P i)"
    by (rule search_queue [OF inv c(2), where P = ?P and n = 50])
  show ?thesis
  proof (cases "q = NULL")
    case True
    then show ?thesis using that [of NULL cs] q(1) by (simp add: reclaim_expired_def)
  next
    case False
    then obtain i where i: "q \<in> U c" "q \<in> members C" "load (items cs) q = Some i" "?P i" using q(2) by blast
    have cl: "unat (it_clsid i) = c" using inv_item [OF inv i(1)] i(3) by (metis option.inject)
    let ?cs0 = "count_stat c (\<lambda>s. s\<lparr> is_reclaimed := is_reclaimed s + 1 \<rparr>) (cs\<lparr> reclaimed := reclaimed cs + 1 \<rparr>)"
    let ?j = "i\<lparr> refcount := 1 \<rparr>"
    let ?cs1 = "?cs0\<lparr> items := upd (items cs) q ?j \<rparr>"
    have "cache_inv (cs\<lparr> items := upd (items cs) q ?j \<rparr>) C U Q" by (rule cache_inv_touch [OF inv i(3)]) (simp_all add: view_defs)
    then have inv1: "cache_inv ?cs1 C U Q" by (subst cache_inv_cong) (simp_all add: count_stat_def)
    have sl1: "slab ?cs1 = slab cs" by (simp add: count_stat_def)
    obtain sl' where sl': "slabs_adjust_mem_requested c (unat (ntotal_of ?j)) (unat ntotal) (slab cs) = Some sl'"
      "slabs_inv sl' (items ?cs1) U" "same_geometry (slab cs) sl'" by (rule adjust_spec [OF cache_invD(2) [OF inv1, unfolded sl1] c(1)])
    let ?cs2 = "?cs1\<lparr> slab := sl' \<rparr>"
    have inv2: "cache_inv ?cs2 C U Q" by (rule cache_inv_slab [OF inv1 sl'(2)]) (simp only: sl1 sl'(3))
    have ld: "load (items ?cs2) q = Some ?j" "refcount ?j \<noteq> 0" using False by (simp_all add: heap_simps)
    obtain cs3 C' Q' where u: "do_item_unlink_del q ?cs2 = Some cs3" "members C' = members C - {q}" "cache_inv cs3 C' U Q'"
      "others_kept q (items ?cs2) (items cs3)" "same_settings ?cs2 cs3" "cas_id cs3 = cas_id ?cs2" "same_geometry (slab ?cs2) (slab cs3)"
      by (rule do_item_unlink_spec [OF inv2 i(1) ld(1)], rule that) (simp_all add: i)
    have qn: "q \<notin> members C'" using u(2) by simp
    obtain i3 where i3: "load (items cs3) q = Some i3" using inv_item [OF u(3) i(1)] by metis
    let ?cs' = "cs3\<lparr> items := upd (items cs3) q (i3\<lparr> it_clsid := 0, refcount := 0 \<rparr>) \<rparr>"
    have fresh: "fresh_inv ?cs' C' (U(c := U c - {q})) Q' c q" by (rule fresh_from_item [OF u(3) i(1) qn i3])
    have bd: "map_option body (load (items ?cs') x) = map_option body (load (items cs) x)" if "x \<noteq> q" for x
      using u(4) that by (simp add: others_kept_def heap_simps)
    have "in_use_kept U (items cs) (U(c := U c - {q})) (items ?cs') (\<lambda>i. refcount i \<noteq> 0 \<and> young cs i)"
      unfolding in_use_kept_def
    proof (intro allI impI)
      fix d x j assume x: "x \<in> U d \<and> load (items cs) x = Some j \<and> refcount j \<noteq> 0 \<and> young cs j"
      then have "x \<noteq> q" using i(3,4) by auto
      with bd [OF this] x obtain j' where "load (items ?cs') x = Some j'" "body j' = body j" by auto
      moreover from this(2) have "contents j' = contents j" by (rule contents_body)
      ultimately show "x \<in> (U(c := U c - {q})) d \<and> map_option contents (load (items ?cs') x) = Some (contents j)"
        using x \<open>x \<noteq> q\<close> by (cases "d = c") simp_all
    qed
    moreover have "bodies_kept (members C') cs ?cs'" using bd qn by metis
    moreover have "same_settings cs ?cs'" "cas_id ?cs' = cas_id cs" using u(5,6) by (simp_all add: same_settings_def count_stat_def)
    moreover have "same_geometry (slab cs) (slab ?cs')" using same_geometry_trans [OF sl'(3)] u(7) by simp
    moreover have "no_orphans (items cs) (members C) (U(c := U c - {q})) (members C')" by (rule no_orphans_removed [OF inv i(1) u(2)])
    moreover have "unlinked_kept U (items cs) (members C) (U(c := U c - {q})) (items ?cs')"
      by (rule unlinked_kept_others [of q _ _ _ _ _ c]) (use bd i(2) in \<open>simp_all add: others_kept_def\<close>)
    moreover have "members C' \<subseteq> members C" "\<forall>d. (U(c := U c - {q})) d \<subseteq> U d" using u(2) by auto
    ultimately have "shrinks (young cs) cs C U ?cs' C' (U(c := U c - {q}))" unfolding shrinks_def by blast
    moreover have "reclaim_expired ntotal c cs = Some (q, ?cs')"
      using q(1) False i(3) cl sl'(1) u(1) i3 set_item_Some [of ?cs0 q i] set_item_Some [of cs3 q i3]
      by (simp add: reclaim_expired_def Let_def count_stat_def heap_simps)
    ultimately show ?thesis using that [of q ?cs'] fresh False by simp
  qed
qed

subsection \<open>The new item\<close>

definition new_item :: "cache \<Rightarrow> nat \<Rightarrow> bytes \<Rightarrow> int \<Rightarrow> u32 \<Rightarrow> int \<Rightarrow> item \<Rightarrow> bool" where
  "new_item cs c key flags exp nb i \<longleftrightarrow> unat (it_clsid i) = c \<and> refcount i = 1 \<and> it_flags i = (if use_cas cs then ITEM_CAS else 0) \<and>
     nkey i = of_nat (length key) \<and> it_key i = key \<and> exptime i = exp \<and> nbytes i = nb \<and>
     nsuffix i = snd (snd (item_make_header (of_nat (length key + 1)) flags nb)) \<and>
     it_suffix i = take (unat (nsuffix i)) (fst (snd (item_make_header (of_nat (length key + 1)) flags nb))) \<and> it_data i = fresh_data cs (nat nb)"

lemma item_init_spec:
  assumes inv: "fresh_inv cs C U Q c it" and h: "item_make_header (of_nat (length key + 1)) flags nb = (ntotal, suffix, nsuf)"
  obtains cs' i where "item_init it c key exp nb suffix nsuf cs = Some cs'" "cache_inv cs' C (U(c := insert it (U c))) Q"
    "load (items cs') it = Some i" "new_item cs c key flags exp nb i" "\<forall>x. x \<noteq> it \<longrightarrow> load (items cs') x = load (items cs) x"
    "cs' = cs\<lparr> items := items cs' \<rparr>" "it \<notin> members C"
proof -
  note I = fresh_invD [OF inv]
  obtain i where i: "load (items cs) it = Some i" "it_clsid i = 0" "it \<noteq> NULL" using I(11) by auto
  have c: "c < LARGEST_ID" using I(7,9) by simp
  then have c8: "unat (of_nat c :: u8) = c" by (simp add: LARGEST_ID_def POWER_LARGEST_def unat_of_nat)
  have nm: "it \<notin> members C" using I(5,8,10) by blast
  let ?j = "i\<lparr> it_clsid := of_nat c, it_next := NULL, it_prev := NULL, h_next := NULL, refcount := 1,
       it_flags := (if use_cas cs then ITEM_CAS else 0), nkey := of_nat (length key), nbytes := nb, it_key := key, exptime := exp,
       it_suffix := take (unat nsuf) suffix, nsuffix := nsuf, it_data := fresh_data cs (nat nb) \<rparr>"
  let ?h = "upd (items cs) it ?j" and ?U = "U(c := insert it (U c))"
  have ld: "load ?h x = (if x = it then Some ?j else load (items cs) x)" for x using i(3) by (simp add: heap_simps)
  have "it \<noteq> heads cs c"
  proof -
    have "heads cs c = first (Q c) NULL" using I(3) c by (simp add: queues_def)
    then have "heads cs c = NULL \<or> heads cs c \<in> set (Q c)" by (cases "Q c") simp_all
    then show ?thesis using i(3) nm I(5) by auto
  qed
  then have run: "item_init it c key exp nb suffix nsuf cs = Some (cs\<lparr> items := ?h \<rparr>)"
    using i c by (simp add: item_init_def set_item_Some)
  have "slabs_inv (slab cs) ?h ?U" by (rule slabs_inv_item [OF I(2,9)]) simp
  moreover have "assoc_rep (table cs) ?h C" by (rule assoc_rep_on [OF I(1)]) (use ld nm in auto)
  moreover have "queues (cs\<lparr> items := ?h \<rparr>) Q"
  proof -
    have "lru.dl ?h NULL (Q d) NULL" if "d < LARGEST_ID" for d
    proof (rule lru.dl_upd_other)
      show "it \<notin> set (Q d)" using nm I(5) by blast
      show "lru.dl (items cs) NULL (Q d) NULL" using I(3) that by (simp add: queues_def)
    qed
    then show ?thesis using I(3) by (simp add: queues_def)
  qed
  moreover have "items_ok ?h ?U (members C)"
    unfolding items_ok_def
  proof (intro allI ballI)
    fix d x assume x: "x \<in> ?U d"
    have fl: "\<not> has_flag ITEM_SLABBED ?j" "\<not> has_flag ITEM_LINKED ?j" by (simp_all add: has_flag_def ITEM_CAS_def ITEM_SLABBED_def ITEM_LINKED_def)
    show "\<exists>i. load ?h x = Some i \<and> unat (it_clsid i) = d \<and> \<not> has_flag ITEM_SLABBED i \<and> (has_flag ITEM_LINKED i \<longleftrightarrow> x \<in> members C)"
    proof (cases "x = it")
      case True
      then have "d = c" using x I(10) by (auto split: if_splits)
      then show ?thesis using True ld fl c8 nm by simp
    next
      case False
      then have "x \<in> U d" using x by (auto split: if_splits)
      with I(4) False ld show ?thesis unfolding items_ok_def by simp
    qed
  qed
  moreover have "?U d = {}" if "d \<notin> classes (slab cs)" for d using I(6,9) that by auto
  moreover have "set (Q d) \<subseteq> ?U d" for d using I(8) [rule_format, of d] by (cases "d = c") auto
  ultimately have "cache_inv (cs\<lparr> items := ?h \<rparr>) C ?U Q"
    unfolding cache_inv_def using I(5,7) by (intro conjI allI impI) (assumption | simp)+
  moreover have "new_item cs c key flags exp nb ?j" using h c8 by (simp add: new_item_def)
  ultimately show ?thesis using that [OF run] ld nm by simp
qed

text \<open>Either there is no chunk, or there is a fresh one; items may have been taken away for it.\<close>

definition got_chunk :: "cache \<Rightarrow> (item_pos \<Rightarrow> addr list) \<Rightarrow> (nat \<Rightarrow> addr set) \<Rightarrow> nat \<Rightarrow> (addr \<times> cache) option \<Rightarrow> bool" where
  "got_chunk cs C U c r \<longleftrightarrow> (\<exists>it cs' C' U' Q'. r = Some (it, cs') \<and> shrinks (young cs) cs C U cs' C' U' \<and>
     (if it = NULL then cache_inv cs' C' U' Q' else fresh_inv cs' C' U' Q' c it))"

lemma young_settings: "same_settings cs cs' \<Longrightarrow> young cs' = young cs"
  by (auto simp: young_def fun_eq_iff same_settings_def)

lemma got_chunk_after:
  assumes "shrinks (young cs) cs C U cs1 C1 U1" "got_chunk cs1 C1 U1 c r"
  shows "got_chunk cs C U c r"
proof -
  have y: "young cs1 = young cs" using assms(1) young_settings by (simp add: shrinks_def)
  obtain it cs' C' U' Q' where r: "r = Some (it, cs')" "shrinks (young cs) cs1 C1 U1 cs' C' U'"
    "if it = NULL then cache_inv cs' C' U' Q' else fresh_inv cs' C' U' Q' c it" using assms(2) unfolding got_chunk_def y by blast
  have "shrinks (young cs) cs C U cs' C' U'" by (rule shrinks_trans [OF assms(1) r(2)]) (rule young_contents)
  with r show ?thesis unfolding got_chunk_def by blast
qed

lemma got_chunk_slabs:
  assumes inv: "cache_inv cs C U Q" and c: "c \<in> classes (slab cs)"
  shows "got_chunk cs C U c (slabs_alloc n c cs)"
proof -
  obtain a cs' where a: "slabs_alloc n c cs = Some (a, cs')" "cs' = cs\<lparr> slab := slab cs', items := items cs' \<rparr>"
    "\<forall>d. \<forall>x \<in> U d. load (items cs') x = load (items cs) x" "same_geometry (slab cs) (slab cs')"
    "if a = NULL then cache_inv cs' C U Q else fresh_inv cs' C U Q c a" by (rule slabs_alloc_spec [OF inv c])
  obtain s h where "cs' = cs\<lparr> slab := s, items := h \<rparr>" using a(2) by blast
  then have "same_settings cs cs'" "cas_id cs' = cas_id cs" by (simp_all add: same_settings_def)
  moreover have "bodies_kept (members C) cs cs'" using a(3) member_in_use [OF inv] by metis
  moreover have "in_use_kept U (items cs) U (items cs') P" for P using a(3) unfolding in_use_kept_def by (metis option.map(2))
  moreover have "unlinked_kept U (items cs) (members C) U (items cs')" using a(3) unfolding unlinked_kept_def by metis
  ultimately have "shrinks (young cs) cs C U cs' C U" using a(4) by (simp add: shrinks_def)
  with a(1,5) show ?thesis unfolding got_chunk_def by blast
qed

lemma alloc_evicting_spec:
  assumes inv: "cache_inv cs C U Q" and c: "c \<in> classes (slab cs)" "c < LARGEST_ID"
  shows "got_chunk cs C U c (alloc_evicting ntotal c cs)"
proof -
  have oom: "cache_inv (count_oom c cs) C U Q = cache_inv cs C U Q" "shrinks P cs C U (count_oom c cs) C U" for cs C U Q P
    by (rule cache_inv_cong shrinks_stats; simp add: count_oom_def count_stat_def same_settings_def)+
  show ?thesis
  proof (cases "\<not> evict_to_free cs \<or> tails cs c = NULL")
    case True
    then have "alloc_evicting ntotal c cs = Some (NULL, count_oom c cs)" by (simp add: alloc_evicting_def)
    then show ?thesis unfolding got_chunk_def using oom inv by (metis option.inject)
  next
    case False
    obtain cs1 C1 U1 Q1 where e: "evict_one c cs = Some cs1" "cache_inv cs1 C1 U1 Q1" "shrinks (young cs) cs C U cs1 C1 U1"
      by (rule evict_spec [OF inv c(2)])
    have c1: "c \<in> classes (slab cs1)" using c(1) e(3) by (simp add: shrinks_def same_geometry_def)
    from got_chunk_after [OF e(3) got_chunk_slabs [OF e(2) c1, of "unat ntotal"]]
    obtain it cs2 C2 U2 Q2 where a: "slabs_alloc (unat ntotal) c cs1 = Some (it, cs2)" "shrinks (young cs) cs C U cs2 C2 U2"
      "if it = NULL then cache_inv cs2 C2 U2 Q2 else fresh_inv cs2 C2 U2 Q2 c it" unfolding got_chunk_def by blast
    show ?thesis
    proof (cases "it = NULL")
      case True
      have inv2: "cache_inv (count_oom c cs2) C2 U2 Q2" using a(3) True oom(1) by simp
      obtain cs3 C3 U3 Q3 where r: "repair_tail c (count_oom c cs2) = Some cs3" "cache_inv cs3 C3 U3 Q3"
        "shrinks (young (count_oom c cs2)) (count_oom c cs2) C2 U2 cs3 C3 U3" by (rule repair_spec [OF inv2 c(2)])
      have y: "young (count_oom c cs2) = young cs" using a(2) young_settings [of cs cs2] young_settings [of cs2 "count_oom c cs2"]
        by (simp add: shrinks_def count_oom_def count_stat_def same_settings_def)
      have s: "shrinks (young cs) cs C U cs3 C3 U3"
        using shrinks_trans [OF shrinks_trans [OF a(2) oom(2)] r(3) [unfolded y]] young_contents by metis
      have "c \<in> classes (slab cs3)" using c(1) s by (simp add: shrinks_def same_geometry_def)
      from got_chunk_after [OF s got_chunk_slabs [OF r(2) this]] show ?thesis
        using False e(1) a(1) True r(1) by (simp add: alloc_evicting_def)
    next
      case ne: False
      then have "alloc_evicting ntotal c cs = Some (it, cs2)" using False e(1) a(1) by (simp add: alloc_evicting_def)
      then show ?thesis unfolding got_chunk_def using a(2,3) by blast
    qed
  qed
qed

lemma do_item_alloc_spec:
  assumes inv: "cache_inv cs C U Q" and pl: "1 \<le> power_largest (slab cs)"
  shows "\<exists>it cs' C' U' Q'. do_item_alloc_del key flags exp nb cs = Some (it, cs') \<and> shrinks (young cs) cs C U cs' C' U' \<and>
    (if it = NULL then cache_inv cs' C' U' Q'
     else \<exists>c i. cache_inv cs' C' (U'(c := insert it (U' c))) Q' \<and> (\<forall>d. it \<notin> U' d) \<and> it \<notin> members C' \<and> load (items cs') it = Some i \<and>
       new_item cs c key flags exp nb i \<and>
       unat (fst (item_make_header (of_nat (length key + 1)) flags nb) + (if use_cas cs then 8 else 0)) \<le> sc_size (slabclass (slab cs') c))"
proof -
  obtain ntotal0 suffix nsuf where h: "item_make_header (of_nat (length key + 1)) flags nb = (ntotal0, suffix, nsuf)"
    by (metis prod_cases3)
  define ntotal where "ntotal = ntotal0 + (if use_cas cs then 8 else 0)"
  have nt: "(if use_cas cs then ntotal0 + 8 else ntotal0) = ntotal" by (simp add: ntotal_def)
  have lp: "power_largest (slab cs) < LARGEST_ID" using cache_invD(7) [OF inv] .
  obtain c where c: "slabs_clsid (slab cs) (unat ntotal) = Some c" "c \<noteq> 0 \<longrightarrow> c \<le> power_largest (slab cs) \<and> unat ntotal \<le> sc_size (slabclass (slab cs) c)"
  proof (cases "unat ntotal = 0")
    case False
    obtain c where "clsid_loop (slab cs) (unat ntotal) 1 = Some c" "fits_first (slab cs) (unat ntotal) 1 c"
      using clsid_loop_spec [of 1 "slab cs" "unat ntotal"] pl lp by (auto simp: LARGEST_ID_def)
    then show ?thesis using that [of c] False by (auto simp: slabs_clsid_def POWER_SMALLEST_def fits_first_def)
  qed (use that [of 0] in \<open>simp add: slabs_clsid_def\<close>)
  show ?thesis
  proof (cases "c = 0")
    case True
    then have "do_item_alloc_del key flags exp nb cs = Some (NULL, cs)" using h c(1) nt by (simp add: do_item_alloc_del_def Let_def)
    then show ?thesis using inv by (intro exI [of _ NULL] exI [of _ cs] exI [of _ C] exI [of _ U] exI [of _ Q]) simp
  next
    case False
    then have cc: "c \<in> classes (slab cs)" "c < LARGEST_ID" "unat ntotal \<le> sc_size (slabclass (slab cs) c)"
      using c(2) lp by (auto simp: POWER_SMALLEST_def)
    obtain it0 cs0 C0 U0 Q0 where r: "reclaim_expired ntotal c cs = Some (it0, cs0)"
      "if it0 = NULL then cs0 = cs else fresh_inv cs0 C0 U0 Q0 c it0 \<and> shrinks (young cs) cs C U cs0 C0 U0" by (rule reclaim_spec [OF inv cc(1,2)])
    define g where "g = (if it0 \<noteq> NULL then Some (it0, cs0)
         else do { (it, cs) \<leftarrow> slabs_alloc (unat ntotal) c cs0; if it \<noteq> NULL then Some (it, cs) else alloc_evicting ntotal c cs })"
    have "got_chunk cs C U c g"
    proof (cases "it0 = NULL")
      case True
      then have cs0: "cs0 = cs" using r(2) by simp
      obtain it1 cs1 C1 U1 Q1 where a: "slabs_alloc (unat ntotal) c cs = Some (it1, cs1)" "shrinks (young cs) cs C U cs1 C1 U1"
        "if it1 = NULL then cache_inv cs1 C1 U1 Q1 else fresh_inv cs1 C1 U1 Q1 c it1"
        using got_chunk_slabs [OF inv cc(1), of "unat ntotal"] unfolding got_chunk_def by blast
      show ?thesis
      proof (cases "it1 = NULL")
        case it1: True
        have "c \<in> classes (slab cs1)" using cc(1) a(2) by (simp add: shrinks_def same_geometry_def)
        with a(3) it1 have "got_chunk cs1 C1 U1 c (alloc_evicting ntotal c cs1)" by (intro alloc_evicting_spec [OF _ _ cc(2)]) simp_all
        from got_chunk_after [OF a(2) this] show ?thesis using True it1 cs0 a(1) by (simp add: g_def)
      next
        case it1: False
        then have "g = Some (it1, cs1)" using True cs0 a(1) by (simp add: g_def)
        then show ?thesis unfolding got_chunk_def using a(2,3) by blast
      qed
    next
      case it0: False
      then have "g = Some (it0, cs0)" "fresh_inv cs0 C0 U0 Q0 c it0" "shrinks (young cs) cs C U cs0 C0 U0" using r(2) by (simp_all add: g_def)
      with it0 show ?thesis unfolding got_chunk_def by auto
    qed
    then obtain it cs1 C1 U1 Q1 where g: "g = Some (it, cs1)" "shrinks (young cs) cs C U cs1 C1 U1"
      "if it = NULL then cache_inv cs1 C1 U1 Q1 else fresh_inv cs1 C1 U1 Q1 c it" unfolding got_chunk_def by blast
    have run: "do_item_alloc_del key flags exp nb cs =
        (if it = NULL then Some (NULL, cs1) else do { cs \<leftarrow> item_init it c key exp nb suffix nsuf cs1; Some (it, cs) })"
      by (simp only: do_item_alloc_del_def h Let_def prod.case nt c(1) Option.bind.bind_lunit False if_False
          linorder_not_le [THEN iffD2, OF cc(2)] r(1) g_def [symmetric] g(1))
    show ?thesis
    proof (cases "it = NULL")
      case True
      then show ?thesis using run g(2,3) by (intro exI [of _ NULL] exI [of _ cs1] exI [of _ C1] exI [of _ U1] exI [of _ Q1]) simp
    next
      case ne: False
      then have fr: "fresh_inv cs1 C1 U1 Q1 c it" using g(3) by simp
      let ?U = "U1(c := insert it (U1 c))"
      note S = shrinksD [OF g(2)]
      obtain cs' i where init: "item_init it c key exp nb suffix nsuf cs1 = Some cs'" "cache_inv cs' C1 ?U Q1"
        "load (items cs') it = Some i" "new_item cs1 c key flags exp nb i" "\<forall>x. x \<noteq> it \<longrightarrow> load (items cs') x = load (items cs1) x"
        "cs' = cs1\<lparr> items := items cs' \<rparr>" "it \<notin> members C1" by (rule item_init_spec [OF fr h])
      obtain h' where cs': "cs' = cs1\<lparr> items := h' \<rparr>" using init(6) by blast
      have nU: "\<forall>d. it \<notin> U1 d" by (rule fresh_invD(10) [OF fr])
      have "in_use_kept U (items cs) U1 (items cs') (\<lambda>i. refcount i \<noteq> 0 \<and> young cs i)"
        using S(4) nU init(5) unfolding in_use_kept_def by metis
      moreover have "bodies_kept (members C1) cs cs'" using S(3) init(5,7) by metis
      moreover have "unlinked_kept U (items cs) (members C) U1 (items cs')" using S(9) nU init(5) unfolding unlinked_kept_def by metis
      ultimately have sh: "shrinks (young cs) cs C U cs' C1 U1" using S(1,2,5-8) by (simp add: shrinks_def cs' same_settings_def)
      have "new_item cs c key flags exp nb i" using init(4) S(6) by (simp add: new_item_def same_settings_def)
      moreover have "sc_size (slabclass (slab cs') c) = sc_size (slabclass (slab cs) c)" using shrinksD(8) [OF sh] by (simp add: same_geometry_def)
      then have "unat (fst (item_make_header (of_nat (length key + 1)) flags nb) + (if use_cas cs then 8 else 0)) \<le> sc_size (slabclass (slab cs') c)"
        using cc(3) unfolding h by (simp add: ntotal_def)
      moreover have "do_item_alloc_del key flags exp nb cs = Some (it, cs')" using run ne init(1) by simp
      ultimately show ?thesis using init(2,3,7) sh nU
        by - (rule exI [of _ it], rule exI [of _ cs'], rule exI [of _ C1], rule exI [of _ U1], rule exI [of _ Q1], unfold if_not_P [OF ne],
            intro conjI, assumption, assumption, rule exI [of _ c], rule exI [of _ i], intro conjI, assumption+)
    qed
  qed
qed

end
