(* ===== verification/Mc_Cache.thy ===== *)
theory Mc_Cache
  imports Mc_Alloc "HOL-Library.Multiset"
begin

text \<open>
  The cache as its clients use it. A client gets a reference to an item from \<open>do_item_alloc_del\<close>
  or \<open>do_item_get_del\<close> and gives it back with \<open>do_item_remove_del\<close>; in between it may fill,
  link, unlink, replace and update the item. \<open>H\<close> is the multiset of the references that are held.

  \<open>cache_step\<close> assumes what the code does: keys have at most 250 bytes (checked by the command
  parser), an item has fewer than 65535 holders (the reference count is a 16-bit number), and no
  linked item is held whose last access was more than three hours ago (the assumption that
  \<open>do_item_alloc_del\<close> states when it repairs the end of a queue).
\<close>

definition holder_rest :: "cache \<Rightarrow> addr multiset \<Rightarrow> bool" where
  "holder_rest cs H \<longleftrightarrow> (\<forall>x \<in># H. \<forall>i. load (items cs) x = Some i \<and> has_flag ITEM_LINKED i \<longrightarrow> young cs i)"

inductive call :: "cache \<times> addr multiset \<Rightarrow> cache \<times> addr multiset \<Rightarrow> bool" where
  alloc: "length key \<le> 250 \<Longrightarrow> do_item_alloc_del key flags exp nb cs = Some (it, cs') \<Longrightarrow>
     call (cs, H) (cs', if it = NULL then H else add_mset it H)"
| get: "\<forall>x. count H x < 65535 \<Longrightarrow> do_item_get_del key cs = Some (it, cs') \<Longrightarrow>
     call (cs, H) (cs', if it = NULL then H else add_mset it H)"
| get_nocheck: "\<forall>x. count H x < 65535 \<Longrightarrow> do_item_get_nocheck key cs = Some (it, cs') \<Longrightarrow>
     call (cs, H) (cs', if it = NULL then H else add_mset it H)"
| remove: "it \<in># H \<Longrightarrow> do_item_remove_del it cs = Some cs' \<Longrightarrow> call (cs, H) (cs', H - {#it#})"
| fill: "it \<in># H \<Longrightarrow> load (items cs) it = Some i \<Longrightarrow> call (cs, H) (cs\<lparr> items := upd (items cs) it (i\<lparr> it_data := d \<rparr>) \<rparr>, H)"
| link: "it \<in># H \<Longrightarrow> load (items cs) it = Some i \<Longrightarrow> \<not> has_flag ITEM_LINKED i \<Longrightarrow> assoc_find (ITEM_key i) (table cs) (items cs) = Some NULL \<Longrightarrow>
     do_item_link_del it cs = Some cs' \<Longrightarrow> call (cs, H) (cs', H)"
| unlink: "it \<in># H \<Longrightarrow> do_item_unlink_del it cs = Some cs' \<Longrightarrow> call (cs, H) (cs', H)"
| update: "it \<in># H \<Longrightarrow> do_item_update it cs = Some cs' \<Longrightarrow> call (cs, H) (cs', H)"
| replace: "it \<in># H \<Longrightarrow> new_it \<in># H \<Longrightarrow> load (items cs) it = Some i \<Longrightarrow> load (items cs) new_it = Some n \<Longrightarrow> has_flag ITEM_LINKED i \<Longrightarrow>
     \<not> has_flag ITEM_LINKED n \<Longrightarrow> ITEM_key n = ITEM_key i \<Longrightarrow> do_item_replace_del it new_it cs = Some cs' \<Longrightarrow> call (cs, H) (cs', H)"
| flush: "do_item_flush_expired_del cs = Some cs' \<Longrightarrow> call (cs, H) (cs', H)"
| settings: "call (cs, H) (cs\<lparr> current_time := t, oldest_live := ol \<rparr>, H)"

definition cache_step :: "cache \<times> addr multiset \<Rightarrow> cache \<times> addr multiset \<Rightarrow> bool" where
  "cache_step s s' \<longleftrightarrow> call s s' \<and> holder_rest (fst s') (snd s')"

subsection \<open>References and reference counts\<close>

text \<open>Every chunk in use is linked or held, and its reference count is the number of its holders.\<close>

definition item_inv :: "addr multiset \<Rightarrow> addr set \<Rightarrow> addr \<Rightarrow> item \<Rightarrow> bool" where
  "item_inv H M x i \<longleftrightarrow> item_wf i \<and> count H x < 65536 \<and> refcount i = of_nat (count H x) \<and> (x \<in> M \<or> x \<in># H)"

definition held_ok :: "cache \<Rightarrow> addr multiset \<Rightarrow> addr set \<Rightarrow> (nat \<Rightarrow> addr set) \<Rightarrow> bool" where
  "held_ok cs H M U \<longleftrightarrow> (\<forall>x \<in># H. \<exists>c. x \<in> U c) \<and> (\<forall>c. \<forall>x \<in> U c. \<forall>i. load (items cs) x = Some i \<longrightarrow> item_inv H M x i)"

definition sys_ok :: "cache \<Rightarrow> addr multiset \<Rightarrow> (item_pos \<Rightarrow> addr list) \<Rightarrow> (nat \<Rightarrow> addr set) \<Rightarrow> (nat \<Rightarrow> addr list) \<Rightarrow> bool" where
  "sys_ok cs H C U Q \<longleftrightarrow> cache_inv cs C U Q \<and> 1 \<le> power_largest (slab cs) \<and> held_ok cs H (members C) U"

lemma count16: "n < 65536 \<Longrightarrow> (of_nat n :: u16) = 0 \<longleftrightarrow> n = 0"
  by (simp add: word_unat_eq_iff unat_of_nat)

lemma item_inv_body:
  assumes "body j = body i"
  shows "item_inv H M x j = item_inv H M x i"
proof -
  have "item_wf j = item_wf i" "refcount j = refcount i"
    using assms by (cases i; cases j; simp add: body_def item_wf_def)+
  then show ?thesis by (simp add: item_inv_def)
qed

lemma held_okD:
  assumes "held_ok cs H M U" "x \<in> U c" "load (items cs) x = Some i"
  shows "item_wf i" "count H x < 65536" "refcount i = of_nat (count H x)" "x \<in> M \<or> x \<in># H"
    "refcount i = 0 \<longleftrightarrow> x \<notin># H"
proof -
  have "item_inv H M x i" using assms unfolding held_ok_def by blast
  then show "item_wf i" "count H x < 65536" "refcount i = of_nat (count H x)" "x \<in> M \<or> x \<in># H"
    by (simp_all add: item_inv_def)
  then show "refcount i = 0 \<longleftrightarrow> x \<notin># H" using count16 by (simp add: not_in_iff)
qed

text \<open>Operations that remove items.\<close>

lemma held_shrinks:
  assumes inv: "cache_inv cs C U Q" and ok: "held_ok cs H (members C) U" and sh: "shrinks P cs C U cs' C' U'"
    and P: "\<And>x i. x \<in># H \<Longrightarrow> x \<in> members C \<Longrightarrow> load (items cs) x = Some i \<Longrightarrow> P i"
  shows "held_ok cs' H (members C') U'"
proof -
  note S = shrinksD [OF sh]
  have kept: "x \<in> U' c \<and> (\<exists>j. load (items cs') x = Some j \<and> item_wf j = item_wf i \<and> refcount j = refcount i)"
    if x: "x \<in> U c" "load (items cs) x = Some i" "x \<in># H" for c x i
  proof (cases "x \<in> members C")
    case True
    have "refcount i \<noteq> 0" "P i" using held_okD(5) [OF ok x(1,2)] x P True by simp_all
    then have "x \<in> U' c" "map_option contents (load (items cs') x) = Some (contents i)" using S(4) x(1,2) unfolding in_use_kept_def by blast+
    then obtain j where "x \<in> U' c" "load (items cs') x = Some j" "contents j = contents i" by auto
    moreover from this(3) have "item_wf j = item_wf i" by (cases i; cases j; simp add: contents_def body_def item_wf_def)
    ultimately show ?thesis using contents_refcount [of j i] by blast
  next
    case False
    then have "x \<in> U' c" "map_option body (load (items cs') x) = Some (body i)" using S(9) x(1,2) unfolding unlinked_kept_def by force+
    then obtain j where "x \<in> U' c" "load (items cs') x = Some j" "body j = body i" by auto
    moreover from this(3) have "item_wf j = item_wf i" "refcount j = refcount i"
      by (cases i; cases j; simp add: body_def item_wf_def)+
    ultimately show ?thesis by blast
  qed
  have loaded: "\<exists>i. load (items cs) x = Some i" if "x \<in> U c" for c x using inv_item [OF inv that] by metis
  have "\<exists>c. x \<in> U' c" if "x \<in># H" for x
  proof -
    obtain c where "x \<in> U c" using ok \<open>x \<in># H\<close> unfolding held_ok_def by blast
    with kept loaded [OF this] that show ?thesis by blast
  qed
  moreover have "item_inv H (members C') x j" if x: "x \<in> U' c" "load (items cs') x = Some j" for c x j
  proof -
    have xU: "x \<in> U c" using x(1) S(2) by blast
    then obtain i where i: "load (items cs) x = Some i" using loaded by blast
    note D = held_okD [OF ok xU i]
    show ?thesis
    proof (cases "x \<in># H")
      case True
      from kept [OF xU i True] x(2) have "item_wf j = item_wf i" "refcount j = refcount i" by auto
      then show ?thesis using D True unfolding item_inv_def by auto
    next
      case False
      then have "x \<in> members C" "refcount i = 0" using D by auto
      then have "x \<in> members C'" using S(5) x(1) i unfolding no_orphans_def by (metis option.inject)
      moreover from this have "map_option body (load (items cs') x) = map_option body (load (items cs) x)" using S(3) by blast
      then have "body j = body i" using x(2) i by simp
      then have "item_wf j = item_wf i" "refcount j = refcount i" by (cases i; cases j; simp add: body_def item_wf_def)+
      ultimately show ?thesis using D False by (simp add: item_inv_def)
    qed
  qed
  ultimately show ?thesis unfolding held_ok_def by blast
qed

text \<open>Operations on one item.\<close>

lemma held_single:
  assumes inv: "cache_inv cs C U Q" and ok: "held_ok cs H (members C) U" and k: "others_kept it (items cs) (items cs')"
    and sets: "\<And>c x. x \<noteq> it \<Longrightarrow> x \<in> U' c \<longleftrightarrow> x \<in> U c" "\<And>x. x \<noteq> it \<Longrightarrow> x \<in> M' \<longleftrightarrow> x \<in> members C" "\<And>x. x \<noteq> it \<Longrightarrow> count H' x = count H x"
    and it: "\<And>c j. it \<in> U' c \<Longrightarrow> load (items cs') it = Some j \<Longrightarrow> item_inv H' M' it j" "it \<in># H' \<Longrightarrow> \<exists>c. it \<in> U' c"
  shows "held_ok cs' H' M' U'"
proof -
  have "\<exists>c. x \<in> U' c" if "x \<in># H'" for x
  proof (cases "x = it")
    case True
    then show ?thesis using it(2) that by blast
  next
    case False
    then have "x \<in># H" using sets(3) [OF False] that by (metis count_greater_zero_iff)
    then obtain c where "x \<in> U c" using ok unfolding held_ok_def by blast
    then show ?thesis using sets(1) [OF False] by blast
  qed
  moreover have "item_inv H' M' x j" if x: "x \<in> U' c" "load (items cs') x = Some j" for c x j
  proof (cases "x = it")
    case True
    then show ?thesis using it(1) x by blast
  next
    case False
    then have xU: "x \<in> U c" using sets(1) x(1) by blast
    then obtain i where i: "load (items cs) x = Some i" using inv_item [OF inv] by metis
    have "map_option body (load (items cs') x) = map_option body (load (items cs) x)" using k False unfolding others_kept_def by blast
    then have "body j = body i" using i x(2) by simp
    then have "item_inv H (members C) x j" using item_inv_body ok xU i unfolding held_ok_def by metis
    moreover have "x \<in># H' \<longleftrightarrow> x \<in># H" using sets(3) [OF False] by (metis count_greater_zero_iff)
    ultimately show ?thesis using sets(2,3) [OF False] by (simp add: item_inv_def)
  qed
  ultimately show ?thesis unfolding held_ok_def by blast
qed

lemma sys_hold:
  assumes sys: "sys_ok cs H C U Q" and p: "p \<in> members C" "load (items cs) p = Some i" "count H p < 65535"
  shows "sys_ok (cs\<lparr> items := upd (items cs) p (i\<lparr> refcount := refcount i + 1 \<rparr>) \<rparr>) (add_mset p H) C U Q"
proof -
  have inv: "cache_inv cs C U Q" and ok: "held_ok cs H (members C) U" and pl: "1 \<le> power_largest (slab cs)" using sys by (simp_all add: sys_ok_def)
  obtain c where c: "p \<in> U c" using member_in_use [OF inv p(1)] by metis
  note D = held_okD [OF ok c p(2)]
  let ?cs = "cs\<lparr> items := upd (items cs) p (i\<lparr> refcount := refcount i + 1 \<rparr>) \<rparr>"
  have "held_ok ?cs (add_mset p H) (members C) U"
  proof (rule held_single [OF inv ok, of p])
    show "item_inv (add_mset p H) (members C) p j" if "load (items ?cs) p = Some j" for j
    proof -
      have "j = i\<lparr> refcount := refcount i + 1 \<rparr>" using that p(2) by (auto simp: heap_simps)
      then show ?thesis using D(1-3) p by (simp add: item_inv_def item_wf_def)
    qed
  qed (use c in auto)
  then show ?thesis using cache_inv_hold(2) [OF inv p(2)] pl by (simp add: sys_ok_def)
qed

lemma sys_shrinks:
  assumes "sys_ok cs H C U Q" "cache_inv cs' C' U' Q'" "shrinks P cs C U cs' C' U'"
    and "\<And>x i. x \<in># H \<Longrightarrow> x \<in> members C \<Longrightarrow> load (items cs) x = Some i \<Longrightarrow> P i"
  shows "sys_ok cs' H C' U' Q'"
  using assms held_shrinks [of cs C U Q H P cs' C' U'] shrinksD(8) [OF assms(3)] unfolding sys_ok_def by (simp add: same_geometry_def)

lemma holder_rest_young:
  assumes "sys_ok cs H C U Q" "holder_rest cs H" "x \<in># H" "x \<in> members C" "load (items cs) x = Some i"
  shows "young cs i"
proof -
  have inv: "cache_inv cs C U Q" using assms(1) by (simp add: sys_ok_def)
  obtain c where "x \<in> U c" using member_in_use [OF inv assms(4)] by metis
  then have "has_flag ITEM_LINKED i" using inv_item [OF inv] assms(4,5) by (metis option.inject)
  then show ?thesis using assms(2,3,5) unfolding holder_rest_def by blast
qed

subsection \<open>Every call returns and keeps the references right\<close>

lemma sys_okD:
  assumes "sys_ok cs H C U Q"
  shows "cache_inv cs C U Q" "held_ok cs H (members C) U" "1 \<le> power_largest (slab cs)"
  using assms by (simp_all add: sys_ok_def)

lemma held_in_use:
  assumes "sys_ok cs H C U Q" "x \<in># H"
  obtains c i where "x \<in> U c" "load (items cs) x = Some i" "refcount i = of_nat (count H x)" "0 < count H x" "count H x < 65536" "item_wf i" "refcount i \<noteq> 0"
proof -
  note S = sys_okD [OF assms(1)]
  obtain c where c: "x \<in> U c" using S(2) assms(2) unfolding held_ok_def by blast
  then obtain i where i: "load (items cs) x = Some i" using inv_item [OF S(1)] by metis
  show ?thesis by (rule that [OF c i]) (use held_okD [OF S(2) c i] assms(2) in auto)
qed

lemma sys_alloc:
  assumes sys: "sys_ok cs H C U Q" and rest: "holder_rest cs H"
  shows "\<exists>it cs' C' U' Q'. do_item_alloc_del key flags exp nb cs = Some (it, cs') \<and> sys_ok cs' (if it = NULL then H else add_mset it H) C' U' Q'"
proof -
  note S = sys_okD [OF sys]
  obtain it cs' C' U' Q' where a: "do_item_alloc_del key flags exp nb cs = Some (it, cs')" "shrinks (young cs) cs C U cs' C' U'"
    "if it = NULL then cache_inv cs' C' U' Q'
     else \<exists>c i. cache_inv cs' C' (U'(c := insert it (U' c))) Q' \<and> (\<forall>d. it \<notin> U' d) \<and> it \<notin> members C' \<and> load (items cs') it = Some i \<and>
       new_item cs c key flags exp nb i \<and>
       unat (fst (item_make_header (of_nat (length key + 1)) flags nb) + (if use_cas cs then 8 else 0)) \<le> sc_size (slabclass (slab cs') c)"
    using do_item_alloc_spec [OF S(1,3), of key flags exp nb] by blast
  have young: "\<And>x i. x \<in># H \<Longrightarrow> x \<in> members C \<Longrightarrow> load (items cs) x = Some i \<Longrightarrow> young cs i" by (rule holder_rest_young [OF sys rest])
  have pl: "1 \<le> power_largest (slab cs')" using S(3) shrinksD(8) [OF a(2)] by (simp add: same_geometry_def)
  have ok: "held_ok cs' H (members C') U'" by (rule held_shrinks [OF S(1,2) a(2) young])
  show ?thesis
  proof (cases "it = NULL")
    case True
    then show ?thesis using a(1,3) ok pl unfolding sys_ok_def by auto
  next
    case False
    then obtain c i where n: "cache_inv cs' C' (U'(c := insert it (U' c))) Q'" "\<forall>d. it \<notin> U' d" "it \<notin> members C'" "load (items cs') it = Some i"
      "new_item cs c key flags exp nb i" using a(3) by auto
    have new: "it \<notin># H" using ok n(2) unfolding held_ok_def by blast
    have "item_wf i" "refcount i = 1" using n(5) by (simp_all add: new_item_def item_wf_def unat_of_nat)
    then have inew: "item_inv (add_mset it H) (members C') it i" using new by (simp add: item_inv_def not_in_iff)
    have "held_ok cs' (add_mset it H) (members C') (U'(c := insert it (U' c)))"
      unfolding held_ok_def
    proof (intro conjI ballI allI impI)
      show "\<exists>d. x \<in> (U'(c := insert it (U' c))) d" if "x \<in># add_mset it H" for x
      proof (cases "x = it")
        case False
        then have "x \<in># H" using that by simp
        then obtain d where "x \<in> U' d" using ok unfolding held_ok_def by blast
        then show ?thesis by (intro exI [of _ d]) auto
      qed (auto intro: exI [of _ c])
      show "item_inv (add_mset it H) (members C') x j" if "x \<in> (U'(c := insert it (U' c))) d" "load (items cs') x = Some j" for d x j
      proof (cases "x = it")
        case True
        then show ?thesis using inew n(4) that(2) by simp
      next
        case False
        then have "x \<in> U' d" using that(1) by (auto split: if_splits)
        then have "item_inv H (members C') x j" using ok that(2) unfolding held_ok_def by blast
        then show ?thesis using False by (simp add: item_inv_def)
      qed
    qed
    then show ?thesis using a(1) n(1) pl False unfolding sys_ok_def by auto
  qed
qed

lemma sys_unlink:
  assumes sys: "sys_ok cs H C U Q" and it: "it \<in> U c" "load (items cs) it = Some i"
  shows "\<exists>cs' C' U' Q'. do_item_unlink_del it cs = Some cs' \<and> sys_ok cs' H C' U' Q' \<and> members C' = members C - {it} \<and>
    others_kept it (items cs) (items cs')"
proof (cases "it \<in> members C")
  case True
  note S = sys_okD [OF sys]
  obtain cs' C' where u: "do_item_unlink_del it cs = Some cs'" "cache_inv cs' C' (if refcount i = 0 then U(c := U c - {it}) else U) (Q(c := remove1 it (Q c)))"
    "shrinks (\<lambda>_. True) cs C U cs' C' (if refcount i = 0 then U(c := U c - {it}) else U)" "members C' = members C - {it}"
    "others_kept it (items cs) (items cs')" by (rule shrinks_unlink [OF S(1) it(1) True it(2) refl])
  from sys_shrinks [OF sys u(2,3)] u(1,4,5) show ?thesis by blast
next
  case False
  have "\<not> has_flag ITEM_LINKED i" using inv_item [OF sys_okD(1) [OF sys] it(1)] it(2) False by (metis option.inject)
  then show ?thesis using sys it(2) False
    by (intro exI [of _ cs] exI [of _ C] exI [of _ U] exI [of _ Q]) (simp add: do_item_unlink_del_def others_kept_def)
qed

lemma sys_get:
  assumes sys: "sys_ok cs H C U Q"
  shows "\<exists>it cs'. do_item_get_del key cs = Some (it, cs') \<and>
    ((\<forall>x. count H x < 65535) \<longrightarrow> (\<exists>C' U' Q'. sys_ok cs' (if it = NULL then H else add_mset it H) C' U' Q'))"
proof (cases "key \<in> hc.key_at (items cs) ` members C")
  case False
  then have "do_item_get_del key cs = Some (NULL, cs)" by (rule do_item_get_spec(1) [OF sys_okD(1) [OF sys]])
  then show ?thesis using sys by auto
next
  case True
  note S = sys_okD [OF sys]
  from True obtain p where p: "p \<in> members C" "hc.key_at (items cs) p = key" by auto
  obtain c where c: "p \<in> U c" using member_in_use [OF S(1) p(1)] by metis
  obtain i where i: "load (items cs) p = Some i" using inv_item [OF S(1) c] by metis
  then have key: "ITEM_key i = key" and nn: "p \<noteq> NULL" using p(2) by (auto simp: hc.key_at_def)
  show ?thesis
  proof (cases "flushed cs i \<or> expired cs i")
    case True
    obtain cs' C' U' Q' where u: "do_item_unlink_del p cs = Some cs'" "sys_ok cs' H C' U' Q'" using sys_unlink [OF sys c i] by blast
    then show ?thesis using do_item_get_spec(3) [OF S(1) p(1) i key True u(1)] by auto
  next
    case False
    then have r: "do_item_get_del key cs = Some (p, cs\<lparr> items := upd (items cs) p (i\<lparr> refcount := refcount i + 1 \<rparr>) \<rparr>)"
      using do_item_get_spec(2) [OF S(1) p(1) i key] by blast
    then show ?thesis using sys_hold [OF sys p(1) i] nn by auto
  qed
qed

lemma sys_get_nocheck:
  assumes sys: "sys_ok cs H C U Q"
  shows "\<exists>it cs'. do_item_get_nocheck key cs = Some (it, cs') \<and>
    ((\<forall>x. count H x < 65535) \<longrightarrow> (\<exists>C' U' Q'. sys_ok cs' (if it = NULL then H else add_mset it H) C' U' Q'))"
proof (cases "key \<in> hc.key_at (items cs) ` members C")
  case False
  note rep = cache_invD(1) [OF sys_okD(1) [OF sys]]
  have "do_item_get_nocheck key cs = Some (NULL, cs)" using assoc_find_none [OF rep False] by (simp add: do_item_get_nocheck_def hold_def)
  then show ?thesis using sys by auto
next
  case True
  note S = sys_okD [OF sys]
  from True obtain p where p: "p \<in> members C" "hc.key_at (items cs) p = key" by auto
  obtain i where i: "load (items cs) p = Some i" using members_loaded [OF cache_invD(1) [OF S(1)] p(1)] by metis
  then have "do_item_get_nocheck key cs = Some (p, cs\<lparr> items := upd (items cs) p (i\<lparr> refcount := refcount i + 1 \<rparr>) \<rparr>)"
    using assoc_find_member [OF cache_invD(1) [OF S(1)] p(1)] p(2) cache_inv_hold(1) [OF S(1) i] by (simp add: do_item_get_nocheck_def)
  moreover have "p \<noteq> NULL" using i by auto
  ultimately show ?thesis using sys_hold [OF sys p(1) i] by auto
qed

lemma sys_remove:
  assumes sys: "sys_ok cs H C U Q" and it: "it \<in># H"
  shows "\<exists>cs' C' U' Q'. do_item_remove_del it cs = Some cs' \<and> sys_ok cs' (H - {#it#}) C' U' Q'"
proof -
  note S = sys_okD [OF sys]
  obtain c i where i: "it \<in> U c" "load (items cs) it = Some i" "refcount i = of_nat (count H it)" "0 < count H it" "count H it < 65536" "item_wf i" "refcount i \<noteq> 0"
    by (rule held_in_use [OF sys it])
  have le1: "refcount i \<le> 1 \<longleftrightarrow> count H it = 1"
  proof -
    have "unat (refcount i) = count H it" using i(3,5) by (simp add: unat_of_nat)
    then have "refcount i \<le> 1 \<longleftrightarrow> count H it \<le> 1" by (simp add: word_le_nat_alt)
    then show ?thesis using i(4) by linarith
  qed
  let ?freed = "refcount i \<le> 1 \<and> it \<notin> members C"
  let ?U = "if ?freed then U(c := U c - {it}) else U"
  obtain cs' where r: "do_item_remove_del it cs = Some cs'" "cache_inv cs' C ?U Q" "others_kept it (items cs) (items cs')" "same_settings cs cs'"
    "\<not> ?freed \<longrightarrow> map_option body (load (items cs') it) = Some ((body i)\<lparr> refcount := (if refcount i = 0 then 0 else refcount i - 1) \<rparr>)" "same_geometry (slab cs) (slab cs')"
    by (rule do_item_remove_spec [OF S(1) i(1,2)], rule that) (assumption | blast)+
  have "held_ok cs' (H - {#it#}) (members C) ?U"
  proof (rule held_single [OF S(1,2) r(3)])
    show "x \<in> ?U d \<longleftrightarrow> x \<in> U d" if "x \<noteq> it" for d x using that by auto
    show "count (H - {#it#}) x = count H x" if "x \<noteq> it" for x using that by simp
    show "item_inv (H - {#it#}) (members C) it j" if "it \<in> ?U d" "load (items cs') it = Some j" for d j
    proof -
      have nf: "\<not> ?freed"
      proof
        assume f: ?freed
        then show False using that(1) in_use_class [OF S(1) i(1), of d] by (auto split: if_splits)
      qed
      then have "body j = (body i)\<lparr> refcount := refcount i - 1 \<rparr>" using r(5) that(2) i(7) by simp
      then have "item_wf j = item_wf i" "refcount j = refcount i - 1" by (cases i; cases j; simp add: body_def item_wf_def)+
      moreover have "(of_nat (count H it) :: u16) - 1 = of_nat (count H it - 1)" using i(4) by (simp add: of_nat_diff)
      ultimately show ?thesis using i(3,5,6) nf le1 by (auto simp: item_inv_def not_in_iff in_diff_count)
    qed
    show "\<exists>c. it \<in> ?U c" if "it \<in># H - {#it#}"
    proof -
      have "count H it \<noteq> 1" using that by (metis count_greater_zero_iff count_single count_diff diff_self_eq_0 less_irrefl)
      then show ?thesis using i(1) le1 by auto
    qed
  qed simp
  moreover have "1 \<le> power_largest (slab cs')" using S(3) r(6) by (simp add: same_geometry_def)
  ultimately show ?thesis using r(1,2) unfolding sys_ok_def by blast
qed

text \<open>Calls that change one held item, other than the number of its holders.\<close>

lemma sys_single:
  assumes sys: "sys_ok cs H C U Q" and it: "it \<in># H" "load (items cs) it = Some i"
    and inv': "cache_inv cs' C' U Q'" and k: "others_kept it (items cs) (items cs')" and slab: "power_largest (slab cs') = power_largest (slab cs)"
    and M: "\<And>x. x \<noteq> it \<Longrightarrow> x \<in> members C' \<longleftrightarrow> x \<in> members C"
    and j: "\<And>j. load (items cs') it = Some j \<Longrightarrow> item_wf j = item_wf i \<and> refcount j = refcount i"
  shows "sys_ok cs' H C' U Q'"
proof -
  note S = sys_okD [OF sys]
  obtain c where c: "it \<in> U c" "item_inv H (members C) it i" using held_in_use [OF sys it(1)] S(2) it(2) unfolding held_ok_def by metis
  have "held_ok cs' H (members C') U"
    by (rule held_single [OF S(1,2) k]) (use M c it(1) j in \<open>auto simp: item_inv_def\<close>)
  then show ?thesis using inv' S(3) slab by (simp add: sys_ok_def)
qed

lemma sys_fill:
  assumes sys: "sys_ok cs H C U Q" and it: "it \<in># H" "load (items cs) it = Some i"
  shows "sys_ok (cs\<lparr> items := upd (items cs) it (i\<lparr> it_data := d \<rparr>) \<rparr>) H C U Q"
proof (rule sys_single [OF sys it])
  show "cache_inv (cs\<lparr> items := upd (items cs) it (i\<lparr> it_data := d \<rparr>) \<rparr>) C U Q"
    by (rule cache_inv_touch [OF sys_okD(1) [OF sys] it(2)]) (simp_all add: view_defs)
qed (use it(2) in \<open>auto simp: heap_simps item_wf_def\<close>)

lemma body_changed:
  assumes "body j = (body i)\<lparr> it_flags := f, it_time := t, it_cas := v \<rparr>"
  shows "item_wf j = item_wf i" "refcount j = refcount i"
  using assms by (cases i; cases j; simp add: body_def item_wf_def)+

lemma sys_link:
  assumes sys: "sys_ok cs H C U Q" and it: "it \<in># H" "load (items cs) it = Some i" "\<not> has_flag ITEM_LINKED i"
    and new: "ITEM_key i \<notin> hc.key_at (items cs) ` members C"
  shows "\<exists>cs' C' Q'. do_item_link_del it cs = Some cs' \<and> sys_ok cs' H C' U Q' \<and> members C' = insert it (members C)"
proof -
  note S = sys_okD [OF sys]
  obtain c where c: "it \<in> U c" "item_wf i" using held_in_use [OF sys it(1)] it(2) by (metis option.inject)
  have nm: "it \<notin> members C" using inv_item [OF S(1) c(1)] it(2,3) by (metis option.inject)
  obtain cs' C' i' where l: "do_item_link_del it cs = Some cs'" "cache_inv cs' C' U (Q(c := it # Q c))" "members C' = insert it (members C)"
    "others_kept it (items cs) (items cs')" "load (items cs') it = Some i'"
    "body i' = (body i)\<lparr> it_flags := it_flags i OR ITEM_LINKED, it_time := current_time cs, it_cas := link_cas cs i \<rparr>" "slab cs' = slab cs"
    using do_item_link_spec [OF S(1) c(1) nm it(2) c(2) new] by metis
  have "sys_ok cs' H C' U (Q(c := it # Q c))"
    by (rule sys_single [OF sys it(1,2) l(2,4)]) (use l(3,5,7) body_changed [OF l(6)] in auto)
  with l(1,3) show ?thesis by blast
qed

lemma sys_update:
  assumes sys: "sys_ok cs H C U Q" and it: "it \<in># H"
  shows "\<exists>cs' Q'. do_item_update it cs = Some cs' \<and> sys_ok cs' H C U Q'"
proof -
  note S = sys_okD [OF sys]
  obtain c i where c: "it \<in> U c" "load (items cs) it = Some i" using held_in_use [OF sys it] by metis
  obtain cs' Q' where u: "do_item_update it cs = Some cs'" "cache_inv cs' C U Q'" "others_kept it (items cs) (items cs')"
    "map_option body (load (items cs') it) = Some (if it \<in> members C \<and> it_time i < current_time cs - ITEM_UPDATE_INTERVAL
       then (body i)\<lparr> it_time := current_time cs \<rparr> else body i)" "slab cs' = slab cs"
    using do_item_update_spec [OF S(1) c] by metis
  have "item_wf j = item_wf i \<and> refcount j = refcount i" if "load (items cs') it = Some j" for j
    using u(4) that by (cases i; cases j) (auto simp: body_def item_wf_def split: if_splits)
  then have "sys_ok cs' H C U Q'" by (intro sys_single [OF sys it c(2) u(2,3)]) (use u(5) in auto)
  with u(1) show ?thesis by blast
qed

lemma sys_replace:
  assumes sys: "sys_ok cs H C U Q" and it: "it \<in># H" "load (items cs) it = Some i" "has_flag ITEM_LINKED i"
    and new: "new_it \<in># H" "load (items cs) new_it = Some n" "\<not> has_flag ITEM_LINKED n" "ITEM_key n = ITEM_key i"
  shows "\<exists>cs' C' U' Q'. do_item_replace_del it new_it cs = Some cs' \<and> sys_ok cs' H C' U' Q'"
proof -
  note S = sys_okD [OF sys]
  obtain c where c: "it \<in> U c" using held_in_use [OF sys it(1)] by metis
  have m: "it \<in> members C" "\<not> has_flag ITEM_SLABBED i" using inv_item [OF S(1) c] it(2,3) by (metis option.inject)+
  obtain cs1 C1 U1 Q1 where u: "do_item_unlink_del it cs = Some cs1" "sys_ok cs1 H C1 U1 Q1" "members C1 = members C - {it}"
    "others_kept it (items cs) (items cs1)" using sys_unlink [OF sys c it(2)] by blast
  obtain d where d: "new_it \<in> U d" using held_in_use [OF sys new(1)] by metis
  have nm: "new_it \<notin> members C" "new_it \<noteq> it" using inv_item [OF S(1) d] new(2,3) m(1) by (metis option.inject)+
  have bd: "map_option body (load (items cs1) x) = map_option body (load (items cs) x)" if "x \<noteq> it" for x
    using u(4) that by (simp add: others_kept_def)
  obtain n1 where n1: "load (items cs1) new_it = Some n1" "body n1 = body n" using bd [OF nm(2)] new(2) by auto
  have key: "ITEM_key j1 = ITEM_key j" "has_flag ITEM_LINKED j1 = has_flag ITEM_LINKED j" if "body j1 = body j" for j1 j
    using that by (cases j1; cases j; simp add: body_def ITEM_key_def has_flag_def)+
  have "ITEM_key n1 \<notin> hc.key_at (items cs1) ` members C1"
  proof
    assume "ITEM_key n1 \<in> hc.key_at (items cs1) ` members C1"
    then obtain x where x: "x \<in> members C1" "hc.key_at (items cs1) x = ITEM_key n1" by auto
    then have xm: "x \<in> members C" "x \<noteq> it" using u(3) by auto
    obtain j where j: "load (items cs) x = Some j" by (rule members_loaded [OF cache_invD(1) [OF S(1)] xm(1)])
    then obtain j1 where j1: "load (items cs1) x = Some j1" "body j1 = body j" using bd [OF xm(2)] by auto
    have "ITEM_key j = ITEM_key i" using x(2) j1(1) key(1) [OF j1(2)] key(1) [OF n1(2)] new(4) by (simp add: hc.key_at_def)
    then have "hc.key_at (items cs) x = hc.key_at (items cs) it" using j it(2) by (simp add: hc.key_at_def)
    moreover have "inj_on (hc.key_at (items cs)) (members C)" using cache_invD(1) [OF S(1)] by (simp add: assoc_rep_def)
    ultimately show False using xm m(1) by (metis inj_onD)
  qed
  from sys_link [OF u(2) new(1) n1(1) _ this] key(2) [OF n1(2)] new(3) obtain cs' C' Q' where
    "do_item_link_del new_it cs1 = Some cs'" "sys_ok cs' H C' U1 Q'" by blast
  then show ?thesis using u(1) m(2) it(2) by (auto simp: do_item_replace_del_def)
qed

lemma sys_flush:
  assumes sys: "sys_ok cs H C U Q"
  shows "\<exists>cs' C' U' Q'. do_item_flush_expired_del cs = Some cs' \<and> sys_ok cs' H C' U' Q'"
proof (cases "oldest_live cs = 0")
  case False
  have "0 + LARGEST_ID \<le> LARGEST_ID" by simp
  from flush_queues_spec [OF sys_okD(1) [OF sys] this] obtain cs' C' U' Q' where
    f: "flush_queues LARGEST_ID 0 cs = Some cs'" "cache_inv cs' C' U' Q'" "shrinks (\<lambda>_. True) cs C U cs' C' U'" by blast
  from sys_shrinks [OF sys f(2,3)] f(1) False show ?thesis by (auto simp: do_item_flush_expired_del_def)
qed (use sys in \<open>auto simp: do_item_flush_expired_del_def\<close>)

lemma sys_settings: "sys_ok cs H C U Q \<Longrightarrow> sys_ok (cs\<lparr> current_time := t, oldest_live := ol \<rparr>) H C U Q"
  using cache_inv_cong [of "cs\<lparr> current_time := t, oldest_live := ol \<rparr>" cs C U Q] by (simp add: sys_ok_def held_ok_def)

subsection \<open>Runs\<close>

lemma found_none:
  assumes "assoc_rep a h C" "assoc_find key a h = Some NULL"
  shows "key \<notin> hc.key_at h ` members C"
proof
  assume "key \<in> hc.key_at h ` members C"
  then obtain p where "p \<in> members C" "key = hc.key_at h p" by auto
  with assoc_find_member [OF assms(1)] assms(2) members_loaded [OF assms(1)] show False by force
qed

lemma call_preserves:
  assumes "call s s'" "sys_ok (fst s) (snd s) C U Q" "holder_rest (fst s) (snd s)"
  shows "\<exists>C' U' Q'. sys_ok (fst s') (snd s') C' U' Q'"
  using assms
proof (cases rule: call.cases)
  case (alloc key flags exp nb cs it cs' H)
  then show ?thesis using sys_alloc [of cs H C U Q key flags exp nb] assms(2,3) by auto
next
  case (get H key cs it cs')
  then show ?thesis using sys_get [of cs H C U Q key] assms(2) by auto
next
  case (get_nocheck H key cs it cs')
  then show ?thesis using sys_get_nocheck [of cs H C U Q key] assms(2) by auto
next
  case (remove it H cs cs')
  then show ?thesis using sys_remove [of cs H C U Q it] assms(2) by auto
next
  case (fill it H cs i d)
  then show ?thesis using sys_fill [of cs H C U Q it i d] assms(2) by auto
next
  case (link it H cs i cs')
  have "sys_ok cs H C U Q" using link(1) assms(2) by simp
  from found_none [OF cache_invD(1) [OF sys_okD(1) [OF this]] link(6)] have "ITEM_key i \<notin> hc.key_at (items cs) ` members C" .
  then show ?thesis using sys_link [of cs H C U Q it i] link assms(2) by auto
next
  case (unlink it H cs cs')
  from unlink(1) assms(2) have "sys_ok cs H C U Q" by simp
  from held_in_use [OF this unlink(3)] obtain c i where "it \<in> U c" "load (items cs) it = Some i" by blast
  then show ?thesis using sys_unlink [of cs H C U Q it c i] unlink assms(2) by auto
next
  case (update it H cs cs')
  then show ?thesis using sys_update [of cs H C U Q it] assms(2) by auto
next
  case (replace it H new_it cs i n cs')
  then show ?thesis using sys_replace [of cs H C U Q it i new_it n] assms(2) by auto
next
  case (flush cs cs' H)
  then show ?thesis using sys_flush [of cs H C U Q] assms(2) by auto
next
  case (settings cs H t ol)
  then show ?thesis using sys_settings [of cs H C U Q t ol] assms(2) by auto
qed

text \<open>The cache after initialisation: an empty table, an allocator with no chunk in use, empty queues.\<close>

definition start :: "cache \<Rightarrow> bool" where
  "start cs \<longleftrightarrow> assoc_rep (table cs) (items cs) (\<lambda>_. []) \<and> slabs_inv (slab cs) (items cs) (\<lambda>_. {}) \<and> power_largest (slab cs) \<in> {1..<LARGEST_ID} \<and>
     heads cs = (\<lambda>_. NULL) \<and> tails cs = (\<lambda>_. NULL) \<and> sizes cs = (\<lambda>_. 0)"

lemma start_sys_ok: "start cs \<Longrightarrow> sys_ok cs {#} (\<lambda>_. []) (\<lambda>_. {}) (\<lambda>_. [])"
  by (simp add: start_def sys_ok_def cache_inv_def queues_def held_ok_def items_ok_def members_def)

lemma run_sys_ok:
  assumes "start cs0" "cache_step\<^sup>*\<^sup>* (cs0, {#}) s"
  shows "(\<exists>C U Q. sys_ok (fst s) (snd s) C U Q) \<and> holder_rest (fst s) (snd s)"
  using assms(2)
proof (induction rule: rtranclp_induct)
  case base
  then show ?case using start_sys_ok [OF assms(1)] by (auto simp: holder_rest_def)
next
  case (step s s')
  then show ?case using call_preserves unfolding cache_step_def by blast
qed


subsection \<open>A run\<close>

text \<open>One slab class with one chunk of 1024 bytes to a page; the first item of a client.\<close>

definition one_class :: slabs where
  "one_class = slabs_init (\<lambda>_. False) (\<lambda>n. n) 48 1024 None 65536 False no_slabs"

definition start_cache :: cache where
  "start_cache = \<lparr> table = small_table, slab = one_class, items = item_heap0, heads = (\<lambda>_. NULL), tails = (\<lambda>_. NULL), sizes = (\<lambda>_. 0),
     itemstats = (\<lambda>_. \<lparr> evicted = 0, evicted_nonzero = 0, evicted_time = 0, is_reclaimed = 0, outofmemory = 0, tailrepairs = 0 \<rparr>),
     cas_id = 0, curr_items = 0, total_items = 0, curr_bytes = 0, evictions = 0, reclaimed = 0, current_time = 2, oldest_live = 0,
     use_cas = True, evict_to_free = True, fresh_data = (\<lambda>n. replicate n 0) \<rparr>"

lemma start_cache_start: "start start_cache"
proof -
  have c: "\<forall>n. False \<longrightarrow> chunk_align n \<le> 1024" "\<forall>n :: nat. 0 < n \<longrightarrow> 0 < n" by auto
  have "slabs_inv one_class item_heap0 (\<lambda>_. {})"
    using slabs_init_spec [OF no_slabs_hyps(1-4) c, of 48 None 65536 False item_heap0] by (simp add: one_class_def Let_def)
  moreover have "power_largest one_class = 1"
    by (simp add: one_class_def slabs_init_def Let_def init_classes.simps no_slabs_def POWER_SMALLEST_def)
  ultimately show ?thesis using small_table_rep by (simp add: start_def start_cache_def LARGEST_ID_def POWER_LARGEST_def)
qed

lemma header_small: "item_make_header 3 0 10 = (67, [32, 48, 32, 56, 13, 10], 6)"
  by (simp add: item_make_header_def show_int_def SIZEOF_ITEM_def digits.simps)

lemma start_reclaim: "reclaim_expired n 1 start_cache = Some (NULL, start_cache)"
proof -
  have "search_tail P h k NULL = Some NULL" for P h k by (cases k) simp_all
  moreover have "tails start_cache = (\<lambda>_. NULL)" by (simp add: start_cache_def)
  ultimately show ?thesis by (simp add: reclaim_expired_def)
qed

lemma one_class_eq: "one_class = no_slabs\<lparr> mem_limit := 65536, slabclass := (\<lambda>_. empty_class)(1 := empty_class\<lparr> sc_size := 1024, perslab := 1 \<rparr>), power_largest := 1 \<rparr>"
  by (simp add: one_class_def slabs_init_def Let_def init_classes.simps POWER_SMALLEST_def)

lemma one_class_clsid: "0 < n \<Longrightarrow> n \<le> 1024 \<Longrightarrow> slabs_clsid one_class n = Some 1"
  by (simp add: one_class_eq slabs_clsid_def clsid_loop.simps POWER_SMALLEST_def MAX_NUMBER_OF_SLAB_CLASSES_def POWER_LARGEST_def)

lemma start_slab: "\<exists>cs. slabs_alloc 75 1 start_cache = Some (1, cs)"
  by (simp add: slabs_alloc_def start_cache_def do_slabs_alloc_def one_class_eq Let_def no_slabs_def POWER_SMALLEST_def empty_class_def 
   do_slabs_newslab_def grow_slab_list_def memory_allocate_def set_class_def slots_top_ok_def bump_malloc_def clear_page_def)

lemma start_alloc: "\<exists>cs. do_item_alloc_del [1, 2] 0 0 10 start_cache = Some (1, cs)"
proof -
  obtain it cs where "do_item_alloc_del [1, 2] 0 0 10 start_cache = Some (it, cs)"
    using sys_alloc [OF start_sys_ok [OF start_cache_start], of "[1, 2]" 0 0 10] by (auto simp: holder_rest_def)
  moreover obtain cs1 where "slabs_alloc 75 1 start_cache = Some (1, cs1)" using start_slab by blast
  moreover have "slab start_cache = one_class" "use_cas start_cache" by (simp_all add: start_cache_def)
  ultimately show ?thesis using one_class_clsid [of 75] start_reclaim header_small
    by (auto simp: do_item_alloc_del_def LARGEST_ID_def POWER_LARGEST_def split: bind_splits)
qed

lemma start_run:
  "\<exists>cs i c. cache_step\<^sup>*\<^sup>* (start_cache, {#}) (cs, {#1#}) \<and> load (items cs) 1 = Some i \<and> new_item start_cache c [1, 2] 0 0 10 i \<and>
     \<not> has_flag ITEM_LINKED i \<and> same_settings start_cache cs \<and> do_item_alloc_del [1, 2] 0 0 10 start_cache = Some (1, cs)"
proof -
  note S = sys_okD [OF start_sys_ok [OF start_cache_start]]
  obtain cs where a: "do_item_alloc_del [1, 2] 0 0 10 start_cache = Some (1, cs)" using start_alloc by blast
  from do_item_alloc_spec [OF S(1,3), of "[1, 2]" 0 0 10] a obtain c i C' U' where
    i: "load (items cs) 1 = Some i" "new_item start_cache c [1, 2] 0 0 10 i" "shrinks (young start_cache) start_cache (\<lambda>_. []) (\<lambda>_. {}) cs C' U'" by auto
  have nl: "\<not> has_flag ITEM_LINKED i" using i(2) by (simp add: new_item_def has_flag_def ITEM_CAS_def ITEM_LINKED_def)
  with i(1) have "holder_rest cs {#1#}" by (simp add: holder_rest_def)
  moreover have "call (start_cache, {#}) (cs, {#1#})" using call.alloc [OF _ a, of "{#}"] by simp
  ultimately have "cache_step (start_cache, {#}) (cs, {#1#})" by (simp add: cache_step_def)
  then show ?thesis using i(1,2) nl shrinksD(6) [OF i(3)] a by blast
qed


end
