(* ===== verification/Mc_Map.thy ===== *)
theory Mc_Map
  imports Mc_Cache
begin

text \<open>
  What clients rely on: the cache is a map from keys to items (\<open>lookup\<close>), and the \<open>payload\<close> of an
  item they hold, which is everything but its links, its flag \<open>ITEM_LINKED\<close>, the time of its last
  access and the number of its holders. The operations of \<open>items.c\<close> are specified by what they do to
  both, in any state in which the references are right (\<open>refs_ok\<close>).
\<close>

definition lookup :: "cache \<Rightarrow> bytes \<Rightarrow> addr option" where
  "lookup cs key = (case assoc_find key (table cs) (items cs) of None \<Rightarrow> None | Some p \<Rightarrow> if p = NULL then None else Some p)"

definition payload :: "item \<Rightarrow> item" where
  "payload i = (contents i)\<lparr> refcount := 0, it_time := 0 \<rparr>"

definition kept :: "addr set \<Rightarrow> cache \<Rightarrow> cache \<Rightarrow> bool" where
  "kept A cs cs' \<longleftrightarrow> (\<forall>x \<in> A. map_option payload (load (items cs') x) = map_option payload (load (items cs) x))"

definition refs_ok :: "cache \<Rightarrow> addr multiset \<Rightarrow> bool" where
  "refs_ok cs H \<longleftrightarrow> (\<exists>C U Q. sys_ok cs H C U Q)"

text \<open>Items that are held or linked.\<close>

definition live :: "cache \<Rightarrow> addr multiset \<Rightarrow> addr set" where
  "live cs H = set_mset H \<union> ran (lookup cs)"

lemma payload_eq:
  "contents i = contents j \<Longrightarrow> payload i = payload j"
  "body i = body j \<Longrightarrow> payload i = payload j"
  "body j = (body i)\<lparr> refcount := r \<rparr> \<Longrightarrow> payload j = payload i"
  "body j = (body i)\<lparr> it_time := t \<rparr> \<Longrightarrow> payload j = payload i"
  "payload (i\<lparr> refcount := r \<rparr>) = payload i"
  for i j :: item
  by (simp add: payload_def) (cases i; cases j; simp add: payload_def contents_def body_def)+

lemma payload_load:
  assumes "map_option body (load h' x) = map_option body (load h x)"
  shows "map_option payload (load h' x) = map_option payload (load h x)"
proof -
  have "payload (body i) = payload i" for i by (cases i) (simp add: payload_def contents_def body_def)
  then show ?thesis using arg_cong [OF assms, of "map_option payload"] by (simp add: option.map_comp comp_def)
qed

lemma payload_parts:
  assumes "payload i = payload j"
  shows "ITEM_key i = ITEM_key j" "nkey i = nkey j" "nbytes i = nbytes j" "it_data i = it_data j" "it_cas i = it_cas j" "it_suffix i = it_suffix j"
    "nsuffix i = nsuffix j" "exptime i = exptime j" "it_clsid i = it_clsid j" "it_key i = it_key j"
  using assms by (cases i; cases j; simp add: payload_def contents_def body_def ITEM_key_def)+

lemma payload_cas:
  assumes "payload i = payload j"
  shows "ITEM_get_cas i = ITEM_get_cas j" "has_flag ITEM_CAS i = has_flag ITEM_CAS j"
proof -
  have f: "it_flags i AND NOT ITEM_LINKED = it_flags j AND NOT ITEM_LINKED" using assms by (cases i; cases j; simp add: payload_def contents_def body_def)
  have "has_flag ITEM_CAS k \<longleftrightarrow> bit (it_flags k AND NOT ITEM_LINKED) 1" for k by (simp add: flag_bits bit_and_iff bit_not_iff flag_const)
  then show c: "has_flag ITEM_CAS i = has_flag ITEM_CAS j" using f by simp
  show "ITEM_get_cas i = ITEM_get_cas j" using payload_parts(5) [OF assms] c by (simp add: ITEM_get_cas_def)
qed

lemma kept_refl [simp]: "kept A cs cs"
  by (simp add: kept_def)

lemma kept_trans: "kept A cs cs1 \<Longrightarrow> kept B cs1 cs2 \<Longrightarrow> D \<subseteq> A \<Longrightarrow> D \<subseteq> B \<Longrightarrow> kept D cs cs2"
  unfolding kept_def by (metis subsetD)

lemma kept_mono: "kept A cs cs' \<Longrightarrow> B \<subseteq> A \<Longrightarrow> kept B cs cs'"
  unfolding kept_def by blast

lemma kept_load:
  assumes "kept A cs cs'" "x \<in> A" "load (items cs) x = Some i"
  obtains j where "load (items cs') x = Some j" "payload j = payload i"
proof -
  have "map_option payload (load (items cs') x) = Some (payload i)" using assms by (simp add: kept_def)
  then show ?thesis using that by auto
qed

subsection \<open>The map\<close>

lemma lookup_iff:
  assumes "assoc_rep (table cs) (items cs) C"
  shows "lookup cs key = Some p \<longleftrightarrow> p \<in> members C \<and> hc.key_at (items cs) p = key"
proof -
  obtain q where q: "assoc_find key (table cs) (items cs) = Some q" "q \<noteq> NULL \<longrightarrow> q \<in> members C \<and> hc.key_at (items cs) q = key"
    "q = NULL \<longrightarrow> key \<notin> hc.key_at (items cs) ` members C" using assoc_find_spec [OF assms, of key] by metis
  have inj: "inj_on (hc.key_at (items cs)) (members C)" using assms by (simp add: assoc_rep_def)
  have "NULL \<notin> members C" using members_loaded [OF assms, of NULL] by (metis load_NULL option.distinct(1))
  then show ?thesis using q inj by (auto simp: lookup_def inj_on_def)
qed

lemma lookup_none:
  assumes "assoc_rep (table cs) (items cs) C" "lookup cs key = None"
  shows "key \<notin> hc.key_at (items cs) ` members C"
proof
  assume "key \<in> hc.key_at (items cs) ` members C"
  then obtain p where "lookup cs key = Some p" using lookup_iff [OF assms(1)] by auto
  then show False using assms(2) by simp
qed

lemma map_eqI: "(\<And>k p. f k = Some p \<longleftrightarrow> g k = Some p) \<Longrightarrow> f = g"
  by (rule ext) (metis option.exhaust)

lemma key_at_body:
  assumes "map_option body (load h' x) = map_option body (load h x)"
  shows "hc.key_at h' x = hc.key_at h x"
proof -
  have "ITEM_key j = ITEM_key i" if "body j = body i" for i j using that by (cases i; cases j; simp add: body_def ITEM_key_def)
  note key = this
  show ?thesis
  proof (cases "load h x")
    case None
    then show ?thesis using assms by (simp add: hc.key_at_def)
  next
    case (Some i)
    then obtain j where "load h' x = Some j" "body j = body i" using assms by auto
    then show ?thesis using Some key [of j i] by (simp add: hc.key_at_def)
  qed
qed

lemma lookup_change:
  assumes rep: "assoc_rep (table cs) (items cs) C" and rep': "assoc_rep (table cs') (items cs') C'" and k: "others_kept it (items cs) (items cs')"
    and mem: "members C' - {it} = members C - {it}"
  shows "it \<in> members C' \<Longrightarrow> hc.key_at (items cs') it = key \<Longrightarrow> it \<in> members C \<longrightarrow> hc.key_at (items cs) it = key \<Longrightarrow> lookup cs' = (lookup cs)(key \<mapsto> it)"
    and "it \<notin> members C' \<Longrightarrow> it \<in> members C \<Longrightarrow> hc.key_at (items cs) it = key \<Longrightarrow> lookup cs' = (lookup cs)(key := None)"
    and "it \<notin> members C' \<Longrightarrow> it \<notin> members C \<Longrightarrow> lookup cs' = lookup cs"
proof -
  note L = lookup_iff [OF rep] lookup_iff [OF rep']
  have key: "hc.key_at (items cs') x = hc.key_at (items cs) x" if "x \<noteq> it" for x
    by (rule key_at_body) (use k that in \<open>simp add: others_kept_def\<close>)
  have mem': "x \<in> members C' \<longleftrightarrow> x \<in> members C" if "x \<noteq> it" for x using mem that by blast
  have other: "lookup cs' kk = Some p \<longleftrightarrow> lookup cs kk = Some p" if "p \<noteq> it" for kk p
    by (simp only: L key [OF that] mem' [OF that])
  show "lookup cs' = (lookup cs)(key \<mapsto> it)" if "it \<in> members C'" "hc.key_at (items cs') it = key" "it \<in> members C \<longrightarrow> hc.key_at (items cs) it = key"
  proof (rule map_eqI)
    fix kk p
    have "lookup cs' key = Some it" using L(2) that by simp
    moreover have "lookup cs' kk = Some it \<longleftrightarrow> kk = key" using L(2) that by auto
    moreover have "lookup cs kk = Some it \<Longrightarrow> kk = key" using L(1) that(3) by auto
    ultimately show "lookup cs' kk = Some p \<longleftrightarrow> ((lookup cs)(key \<mapsto> it)) kk = Some p" using other [of p kk] by (cases "p = it") auto
  qed
  show "lookup cs' = (lookup cs)(key := None)" if "it \<notin> members C'" "it \<in> members C" "hc.key_at (items cs) it = key"
  proof (rule map_eqI)
    fix kk p
    have "lookup cs key = Some it" using L(1) that by simp
    moreover have "lookup cs' kk \<noteq> Some it" using L(2) that by auto
    moreover have "lookup cs kk = Some it \<longleftrightarrow> kk = key" using L(1) that by auto
    ultimately show "lookup cs' kk = Some p \<longleftrightarrow> ((lookup cs)(key := None)) kk = Some p" using other [of p kk] by (cases "p = it") auto
  qed
  show "lookup cs' = lookup cs" if "it \<notin> members C'" "it \<notin> members C"
  proof (rule map_eqI)
    fix kk p show "lookup cs' kk = Some p \<longleftrightarrow> lookup cs kk = Some p" using other [of p kk] L that by (cases "p = it") auto
  qed
qed

lemma lookup_shrinks:
  assumes "cache_inv cs C U Q" "cache_inv cs' C' V' Q'" "shrinks P cs C U cs' C' U'"
  shows "lookup cs' \<subseteq>\<^sub>m lookup cs"
proof -
  note S = shrinksD [OF assms(3)]
  have "lookup cs k = Some p" if "lookup cs' k = Some p" for k p
  proof -
    have p: "p \<in> members C'" "hc.key_at (items cs') p = k" using that lookup_iff [OF cache_invD(1) [OF assms(2)]] by auto
    then show ?thesis using S(1,3) key_at_body lookup_iff [OF cache_invD(1) [OF assms(1)]] by (metis (full_types) subsetD)
  qed
  then show ?thesis by (auto simp: map_le_def dom_def)
qed

lemma ran_lookup: "cache_inv cs C U Q \<Longrightarrow> ran (lookup cs) = members C"
  using lookup_iff [OF cache_invD(1)] by (auto simp: ran_def)

lemma refs_okE:
  assumes "refs_ok cs H"
  obtains C U Q where "sys_ok cs H C U Q" "cache_inv cs C U Q"
  using assms sys_okD(1) unfolding refs_ok_def by blast

text \<open>An item that is held is linked if and only if it is found under its key.\<close>

lemma held_linked:
  assumes "refs_ok cs H" "x \<in># H" "load (items cs) x = Some i"
  shows "has_flag ITEM_LINKED i \<longleftrightarrow> lookup cs (ITEM_key i) = Some x"
proof -
  obtain C U Q where S: "sys_ok cs H C U Q" "cache_inv cs C U Q" by (rule refs_okE [OF assms(1)])
  obtain c where c: "x \<in> U c" by (rule held_in_use [OF S(1) assms(2)])
  have "has_flag ITEM_LINKED i \<longleftrightarrow> x \<in> members C" using inv_item [OF S(2) c] assms(3) by (metis option.inject)
  also have "\<dots> \<longleftrightarrow> lookup cs (ITEM_key i) = Some x" using lookup_iff [OF cache_invD(1) [OF S(2)]] assms(3) by (simp add: hc.key_at_def)
  finally show ?thesis .
qed

subsection \<open>The operations\<close>

lemma kept_shrinks:
  assumes sys: "sys_ok cs H C U Q" and inv': "cache_inv cs' C' V' Q'" and sh: "shrinks P cs C U cs' C' U'"
    and P: "\<And>x i. x \<in># H \<Longrightarrow> x \<in> members C \<Longrightarrow> load (items cs) x = Some i \<Longrightarrow> P i"
  shows "kept (live cs' H) cs cs'"
  unfolding kept_def live_def
proof (intro ballI)
  note S = shrinksD [OF sh]
  fix x assume "x \<in> set_mset H \<union> ran (lookup cs')"
  then consider "x \<in> members C'" | "x \<in># H" "x \<in> members C" | "x \<in># H" "x \<notin> members C" using ran_lookup [OF inv'] by blast
  then show "map_option payload (load (items cs') x) = map_option payload (load (items cs) x)"
  proof cases
    case 1
    then show ?thesis using payload_load S(3) by blast
  next
    case 2
    obtain c i where i: "x \<in> U c" "load (items cs) x = Some i" "refcount i \<noteq> 0" using held_in_use [OF sys 2(1)] by metis
    then have "map_option contents (load (items cs') x) = Some (contents i)" using S(4) P [OF 2 i(2)] unfolding in_use_kept_def by blast
    then obtain j where "load (items cs') x = Some j" "contents j = contents i" by auto
    then show ?thesis using i(2) payload_eq(1) [of j i] by simp
  next
    case 3
    obtain c where "x \<in> U c" using held_in_use [OF sys 3(1)] by metis
    then show ?thesis using payload_load S(9) 3(2) unfolding unlinked_kept_def by blast
  qed
qed

lemma kept_others:
  assumes "others_kept it (items cs) (items cs')" "it \<in> A \<Longrightarrow> map_option payload (load (items cs') it) = map_option payload (load (items cs) it)"
  shows "kept A cs cs'"
  unfolding kept_def
proof
  fix x assume x: "x \<in> A"
  show "map_option payload (load (items cs') x) = map_option payload (load (items cs) x)"
  proof (cases "x = it")
    case False
    then have "map_option body (load (items cs') x) = map_option body (load (items cs) x)" using assms(1) by (simp add: others_kept_def)
    then show ?thesis by (rule payload_load)
  qed (use assms(2) x in simp)
qed

definition settings_kept :: "cache \<Rightarrow> cache \<Rightarrow> bool" where
  "settings_kept cs cs' \<longleftrightarrow> same_settings cs cs' \<and> cas_id cs' = cas_id cs"

lemma map_alloc:
  assumes ok: "refs_ok cs H" and rest: "holder_rest cs H"
  obtains it cs' where "do_item_alloc_del key flags exp nb cs = Some (it, cs')" "lookup cs' \<subseteq>\<^sub>m lookup cs" "kept (live cs' H) cs cs'" "settings_kept cs cs'"
    "it = NULL \<longrightarrow> refs_ok cs' H"
    "it \<noteq> NULL \<longrightarrow> it \<notin># H \<and> refs_ok cs' (add_mset it H) \<and> it \<notin> ran (lookup cs') \<and> (\<exists>c i. load (items cs') it = Some i \<and> new_item cs c key flags exp nb i \<and>
       unat (fst (item_make_header (of_nat (length key + 1)) flags nb) + (if use_cas cs then 8 else 0)) \<le> sc_size (slabclass (slab cs') c))"
proof -
  obtain C U Q where sys: "sys_ok cs H C U Q" "cache_inv cs C U Q" by (rule refs_okE [OF ok])
  note S = sys_okD [OF sys(1)]
  from do_item_alloc_spec [OF S(1,3), of key flags exp nb] obtain it cs' C' U' Q' where
    a: "do_item_alloc_del key flags exp nb cs = Some (it, cs')" "shrinks (young cs) cs C U cs' C' U'" and
    b: "if it = NULL then cache_inv cs' C' U' Q'
     else \<exists>c i. cache_inv cs' C' (U'(c := insert it (U' c))) Q' \<and> (\<forall>d. it \<notin> U' d) \<and> it \<notin> members C' \<and> load (items cs') it = Some i \<and>
       new_item cs c key flags exp nb i \<and>
       unat (fst (item_make_header (of_nat (length key + 1)) flags nb) + (if use_cas cs then 8 else 0)) \<le> sc_size (slabclass (slab cs') c)" by blast
  have young: "\<And>x i. x \<in># H \<Longrightarrow> x \<in> members C \<Longrightarrow> load (items cs) x = Some i \<Longrightarrow> young cs i" by (rule holder_rest_young [OF sys(1) rest])
  note sh = shrinksD [OF a(2)]
  have st: "settings_kept cs cs'" using sh(6,7) by (simp add: settings_kept_def)
  from sys_alloc [OF sys(1) rest, of key flags exp nb] a(1) have ok': "refs_ok cs' (if it = NULL then H else add_mset it H)"
    unfolding refs_ok_def by auto
  have ok'': "held_ok cs' H (members C') U'" by (rule held_shrinks [OF S(1,2) a(2) young])
  obtain U2 where inv': "cache_inv cs' C' U2 Q'" using b by (metis (full_types))
  note le = lookup_shrinks [OF S(1) inv' a(2)]
  have k: "kept (live cs' H) cs cs'" by (rule kept_shrinks [OF sys(1) inv' a(2) young])
  have new: "it \<noteq> NULL \<longrightarrow> it \<notin># H \<and> it \<notin> ran (lookup cs') \<and> (\<exists>c i. load (items cs') it = Some i \<and> new_item cs c key flags exp nb i \<and>
       unat (fst (item_make_header (of_nat (length key + 1)) flags nb) + (if use_cas cs then 8 else 0)) \<le> sc_size (slabclass (slab cs') c))"
  proof
    assume "it \<noteq> NULL"
    with b obtain c i where n: "\<forall>d. it \<notin> U' d" "it \<notin> members C'" "load (items cs') it = Some i" "new_item cs c key flags exp nb i"
      "unat (fst (item_make_header (of_nat (length key + 1)) flags nb) + (if use_cas cs then 8 else 0)) \<le> sc_size (slabclass (slab cs') c)" by auto
    have "it \<notin># H" using ok'' n(1) unfolding held_ok_def by blast
    with n(2-5) ran_lookup [OF inv'] show "it \<notin># H \<and> it \<notin> ran (lookup cs') \<and> (\<exists>c i. load (items cs') it = Some i \<and> new_item cs c key flags exp nb i \<and>
       unat (fst (item_make_header (of_nat (length key + 1)) flags nb) + (if use_cas cs then 8 else 0)) \<le> sc_size (slabclass (slab cs') c))" by blast
  qed
  show ?thesis by (rule that [OF a(1) le k st]) (use ok' new in auto)
qed

lemma map_unlink:
  assumes ok: "refs_ok cs H" and it: "it \<in># H" "load (items cs) it = Some i"
  obtains cs' where "do_item_unlink_del it cs = Some cs'" "refs_ok cs' H" "kept (live cs' H) cs cs'" "settings_kept cs cs'"
    "lookup cs' = (if lookup cs (ITEM_key i) = Some it then (lookup cs)(ITEM_key i := None) else lookup cs)"
proof -
  obtain C U Q where sys: "sys_ok cs H C U Q" "cache_inv cs C U Q" by (rule refs_okE [OF ok])
  obtain c where c: "it \<in> U c" by (rule held_in_use [OF sys(1) it(1)])
  obtain cs' C' U' Q' where u: "do_item_unlink_del it cs = Some cs'" "sys_ok cs' H C' U' Q'" "members C' = members C - {it}"
    "others_kept it (items cs) (items cs')" using sys_unlink [OF sys(1) c it(2)] by blast
  note inv' = sys_okD(1) [OF u(2)]
  have key: "hc.key_at (items cs) it = ITEM_key i" using it(2) by (simp add: hc.key_at_def)
  have mem: "members C' - {it} = members C - {it}" "it \<notin> members C'" using u(3) by auto
  have lk: "it \<in> members C \<longleftrightarrow> lookup cs (ITEM_key i) = Some it" using lookup_iff [OF cache_invD(1) [OF sys(2)]] key by simp
  note L = lookup_change(2,3) [OF cache_invD(1) [OF sys(2)] cache_invD(1) [OF inv'] u(4) mem(1) mem(2)]
  obtain cs2 where d: "do_item_unlink_del it cs = Some cs2" "same_settings cs cs2" "cas_id cs2 = cas_id cs"
    "refcount i \<noteq> 0 \<or> it \<notin> members C \<longrightarrow> map_option body (load (items cs2) it) = Some ((body i)\<lparr> it_flags := it_flags i AND NOT ITEM_LINKED \<rparr>)"
    by (rule do_item_unlink_spec [OF sys(2) c it(2)]) blast
  have "refcount i \<noteq> 0" using held_in_use [OF sys(1) it(1)] it(2) by (metis option.inject)
  then obtain j where "load (items cs') it = Some j" "body j = (body i)\<lparr> it_flags := it_flags i AND NOT ITEM_LINKED \<rparr>" using d(1,4) u(1) by auto
  then have "map_option payload (load (items cs') it) = map_option payload (load (items cs) it)"
    using payload_eq(1) [OF contents_body(2)] it(2) by simp
  then have "kept (live cs' H) cs cs'" by (rule kept_others [OF u(4)])
  then show ?thesis using u(1,2) d(1-3) L(1) [OF _ key] L(2) lk by (intro that) (auto simp: refs_ok_def settings_kept_def)
qed

lemma map_link:
  assumes ok: "refs_ok cs H" and it: "it \<in># H" "load (items cs) it = Some i" "lookup cs (ITEM_key i) = None"
  obtains cs' i' where "do_item_link_del it cs = Some cs'" "refs_ok cs' H" "kept (live cs' H - {it}) cs cs'" "same_settings cs cs'" "cas_id cs' = next_cas cs i"
    "lookup cs' = (lookup cs)(ITEM_key i \<mapsto> it)" "load (items cs') it = Some i'" "payload i' = (payload i)\<lparr> it_cas := link_cas cs i \<rparr>"
proof -
  obtain C U Q where sys: "sys_ok cs H C U Q" "cache_inv cs C U Q" by (rule refs_okE [OF ok])
  note rep = cache_invD(1) [OF sys(2)]
  have nl: "\<not> has_flag ITEM_LINKED i" using held_linked [OF ok it(1,2)] it(3) by simp
  have new: "ITEM_key i \<notin> hc.key_at (items cs) ` members C" by (rule lookup_none [OF rep it(3)])
  obtain cs' C' Q' where u: "do_item_link_del it cs = Some cs'" "sys_ok cs' H C' U Q'" "members C' = insert it (members C)"
    using sys_link [OF sys(1) it(1,2) nl new] by blast
  obtain c where c: "it \<in> U c" "item_wf i" using held_in_use [OF sys(1) it(1)] it(2) by (metis option.inject)
  have nm: "it \<notin> members C" using inv_item [OF sys(2) c(1)] it(2) nl by (metis option.inject)
  obtain i' where d: "others_kept it (items cs) (items cs')" "load (items cs') it = Some i'" "same_settings cs cs'" "cas_id cs' = next_cas cs i"
    "body i' = (body i)\<lparr> it_flags := it_flags i OR ITEM_LINKED, it_time := current_time cs, it_cas := link_cas cs i \<rparr>"
    by (rule do_item_link_spec [OF sys(2) c(1) nm it(2) c(2) new]) (use u(1) in auto)
  have clear: "(it_flags i OR ITEM_LINKED) AND NOT ITEM_LINKED = it_flags i AND NOT ITEM_LINKED" by (auto simp: bit_eq_iff bit_and_iff bit_or_iff bit_not_iff)
  have p: "payload i' = (payload i)\<lparr> it_cas := link_cas cs i \<rparr>" using d(5) clear by (cases i; cases i'; simp add: payload_def contents_def body_def)
  have "ITEM_key i' = ITEM_key i" using d(5) by (cases i; cases i'; simp add: body_def ITEM_key_def)
  then have "hc.key_at (items cs') it = ITEM_key i" using d(2) by (simp add: hc.key_at_def)
  then have "lookup cs' = (lookup cs)(ITEM_key i \<mapsto> it)"
    using lookup_change(1) [OF rep cache_invD(1) [OF sys_okD(1) [OF u(2)]] d(1)] u(3) nm by auto
  moreover have "kept (live cs' H - {it}) cs cs'" by (rule kept_others [OF d(1)]) simp
  ultimately show ?thesis using u(1,2) d(2-4) p by (intro that) (auto simp: refs_ok_def)
qed

lemma map_update:
  assumes ok: "refs_ok cs H" and it: "it \<in># H"
  obtains cs' where "do_item_update it cs = Some cs'" "refs_ok cs' H" "kept (live cs' H) cs cs'" "settings_kept cs cs'" "lookup cs' = lookup cs"
proof -
  obtain C U Q where sys: "sys_ok cs H C U Q" "cache_inv cs C U Q" by (rule refs_okE [OF ok])
  obtain cs' Q' where u: "do_item_update it cs = Some cs'" "sys_ok cs' H C U Q'" using sys_update [OF sys(1) it] by blast
  obtain c i where c: "it \<in> U c" "load (items cs) it = Some i" using held_in_use [OF sys(1) it] by metis
  obtain d: "others_kept it (items cs) (items cs')" "same_settings cs cs'" "cas_id cs' = cas_id cs"
    "map_option body (load (items cs') it) = Some (if it \<in> members C \<and> it_time i < current_time cs - ITEM_UPDATE_INTERVAL
       then (body i)\<lparr> it_time := current_time cs \<rparr> else body i)"
    by (rule do_item_update_spec [OF sys(2) c]) (use u(1) in auto)
  obtain j where j: "load (items cs') it = Some j" "body j = (if it \<in> members C \<and> it_time i < current_time cs - ITEM_UPDATE_INTERVAL
       then (body i)\<lparr> it_time := current_time cs \<rparr> else body i)" using d(4) by auto
  have p: "payload j = payload i" using j(2) payload_eq(2) [of j i] payload_eq(4) [where i=i and j=j] by (auto split: if_splits)
  then have key: "hc.key_at (items cs') it = hc.key_at (items cs) it" using payload_parts(1) [OF p] j(1) c(2) by (simp add: hc.key_at_def)
  note L = lookup_change [OF cache_invD(1) [OF sys(2)] cache_invD(1) [OF sys_okD(1) [OF u(2)]] d(1) refl]
  have "lookup cs' = lookup cs"
  proof (cases "it \<in> members C")
    case True
    then show ?thesis using L(1) [OF True key] lookup_iff [OF cache_invD(1) [OF sys(2)]] by (simp add: fun_upd_idem)
  qed (rule L(3))
  moreover have "kept (live cs' H) cs cs'" by (rule kept_others [OF d(1)]) (simp add: j(1) c(2) p)
  ultimately show ?thesis using u d(2,3) by (intro that [of cs']) (auto simp: refs_ok_def settings_kept_def)
qed

lemma map_remove:
  assumes ok: "refs_ok cs H" and it: "it \<in># H"
  obtains cs' where "do_item_remove_del it cs = Some cs'" "refs_ok cs' (H - {#it#})" "kept (live cs' (H - {#it#})) cs cs'" "settings_kept cs cs'"
    "lookup cs' = lookup cs"
proof -
  obtain C U Q where sys: "sys_ok cs H C U Q" "cache_inv cs C U Q" by (rule refs_okE [OF ok])
  obtain cs' C1 U1 Q1 where u: "do_item_remove_del it cs = Some cs'" "sys_ok cs' (H - {#it#}) C1 U1 Q1" using sys_remove [OF sys(1) it] by blast
  obtain c i where i: "it \<in> U c" "load (items cs) it = Some i" "refcount i = of_nat (count H it)" "count H it < 65536"
    by (rule held_in_use [OF sys(1) it])
  let ?freed = "refcount i \<le> 1 \<and> it \<notin> members C"
  obtain V where d: "cache_inv cs' C V Q" "others_kept it (items cs) (items cs')" "same_settings cs cs'" "cas_id cs' = cas_id cs"
    "\<not> ?freed \<longrightarrow> map_option body (load (items cs') it) = Some ((body i)\<lparr> refcount := (if refcount i = 0 then 0 else refcount i - 1) \<rparr>)"
    by (rule do_item_remove_spec [OF sys(2) i(1,2)]) (use u(1) in auto)
  have p: "map_option payload (load (items cs') it) = map_option payload (load (items cs) it)" if "\<not> ?freed"
  proof -
    have "map_option body (load (items cs') it) = Some ((body i)\<lparr> refcount := (if refcount i = 0 then 0 else refcount i - 1) \<rparr>)" using d(5) that by blast
    then obtain j where "load (items cs') it = Some j" "body j = (body i)\<lparr> refcount := (if refcount i = 0 then 0 else refcount i - 1) \<rparr>" by auto
    then show ?thesis using payload_eq(3) [where i=i and j=j] i(2) by simp
  qed
  note rep = cache_invD(1) [OF sys(2)] cache_invD(1) [OF d(1)]
  note L = lookup_change [OF rep d(2) refl]
  have "lookup cs' = lookup cs"
  proof (cases "it \<in> members C")
    case True
    then obtain j where j: "load (items cs') it = Some j" "payload j = payload i" using p i(2) by auto
    have "hc.key_at (items cs') it = hc.key_at (items cs) it" using payload_parts(1) [OF j(2)] j(1) i(2) by (simp add: hc.key_at_def)
    then show ?thesis using L(1) [OF True] True lookup_iff [OF rep(1)] by (simp add: fun_upd_idem)
  qed (rule L(3))
  moreover have "kept (live cs' (H - {#it#})) cs cs'"
  proof (rule kept_others [OF d(2)])
    assume "it \<in> live cs' (H - {#it#})"
    then have "it \<in># H - {#it#} \<or> it \<in> members C" using ran_lookup [OF d(1)] by (auto simp: live_def)
    moreover have "\<not> refcount i \<le> 1" if "it \<in># H - {#it#}"
    proof -
      have "2 \<le> count H it" using that by (metis count_diff count_greater_zero_iff count_single less_diff_conv one_add_one Suc_leI Suc_1 add_Suc plus_1_eq_Suc add_0)
      moreover have "unat (refcount i) = count H it" using i(3,4) by (simp add: unat_of_nat)
      ultimately show ?thesis by (simp add: word_le_nat_alt)
    qed
    ultimately show "map_option payload (load (items cs') it) = map_option payload (load (items cs) it)" using p by blast
  qed
  ultimately show ?thesis using u d(3,4) by (intro that [of cs']) (auto simp: refs_ok_def settings_kept_def)
qed

lemma map_replace:
  assumes ok: "refs_ok cs H" and it: "it \<in># H" "load (items cs) it = Some i"
    and new: "new_it \<in># H" "load (items cs) new_it = Some n" "ITEM_key n = ITEM_key i"
    and key: "lookup cs (ITEM_key i) \<in> {None, Some it}" "lookup cs (ITEM_key i) \<noteq> Some new_it"
  obtains cs' n' where "do_item_replace_del it new_it cs = Some cs'" "refs_ok cs' H" "kept (live cs' H - {new_it}) cs cs'" "same_settings cs cs'"
    "cas_id cs' = next_cas cs n" "lookup cs' = (lookup cs)(ITEM_key i \<mapsto> new_it)" "load (items cs') new_it = Some n'"
    "payload n' = (payload n)\<lparr> it_cas := link_cas cs n \<rparr>"
proof -
  obtain C U Q where sys: "sys_ok cs H C U Q" "cache_inv cs C U Q" by (rule refs_okE [OF ok])
  obtain c where c: "it \<in> U c" by (rule held_in_use [OF sys(1) it(1)])
  have ns: "\<not> has_flag ITEM_SLABBED i" using inv_item [OF sys(2) c] it(2) by (metis option.inject)
  obtain cs1 where u: "do_item_unlink_del it cs = Some cs1" "refs_ok cs1 H" "kept (live cs1 H) cs cs1" "settings_kept cs cs1"
    "lookup cs1 = (if lookup cs (ITEM_key i) = Some it then (lookup cs)(ITEM_key i := None) else lookup cs)" by (rule map_unlink [OF ok it])
  have l1: "lookup cs1 = (lookup cs)(ITEM_key i := None)" using u(5) key(1) by (auto simp: fun_upd_idem)
  obtain n1 where n1: "load (items cs1) new_it = Some n1" "payload n1 = payload n"
    by (rule kept_load [OF u(3) _ new(2)]) (use new(1) in \<open>auto simp: live_def\<close>)
  have k1: "ITEM_key n1 = ITEM_key i" using payload_parts(1) [OF n1(2)] new(3) by simp
  obtain cs' n' where l: "do_item_link_del new_it cs1 = Some cs'" "refs_ok cs' H" "kept (live cs' H - {new_it}) cs1 cs'" "same_settings cs1 cs'"
    "cas_id cs' = next_cas cs1 n1" "lookup cs' = (lookup cs1)(ITEM_key n1 \<mapsto> new_it)" "load (items cs') new_it = Some n'"
    "payload n' = (payload n1)\<lparr> it_cas := link_cas cs1 n1 \<rparr>" by (rule map_link [OF u(2) new(1) n1(1)]) (use l1 k1 in auto)
  have cas: "next_cas cs1 n1 = next_cas cs n" "link_cas cs1 n1 = link_cas cs n"
    using u(4) payload_cas(2) [OF n1(2)] payload_parts(5) [OF n1(2)] by (simp_all add: next_cas_def link_cas_def settings_kept_def same_settings_def)
  have "live cs' H - {new_it} \<subseteq> live cs1 H" using l(6) by (auto simp: live_def ran_def split: if_splits)
  then have "kept (live cs' H - {new_it}) cs cs'" using kept_trans [OF u(3) l(3)] by blast
  moreover have "do_item_replace_del it new_it cs = Some cs'" using it(2) ns u(1) l(1) by (simp add: do_item_replace_del_def)
  moreover have "same_settings cs cs'" using u(4) l(4) by (simp add: settings_kept_def same_settings_def)
  moreover have "lookup cs' = (lookup cs)(ITEM_key i \<mapsto> new_it)" using l(6) l1 k1 by simp
  moreover have "payload n' = (payload n)\<lparr> it_cas := link_cas cs n \<rparr>" using l(8) n1(2) cas by simp
  ultimately show ?thesis using that l(2,5,7) cas by simp
qed

text \<open>A look-up removes the item if it was flushed or has expired.\<close>

definition stale :: "cache \<Rightarrow> addr \<Rightarrow> bool" where
  "stale cs p \<longleftrightarrow> (case load (items cs) p of None \<Rightarrow> False | Some i \<Rightarrow> flushed cs i \<or> expired cs i)"

lemma map_get:
  assumes ok: "refs_ok cs H" and H: "\<forall>x. count H x < 65535"
  obtains it cs' where "do_item_get_del key cs = Some (it, cs')" "refs_ok cs' (if it = NULL then H else add_mset it H)" "kept (live cs' H) cs cs'"
    "settings_kept cs cs'"
    "if it = NULL then lookup cs' = (lookup cs)(key := None) \<and> (\<forall>p. lookup cs key = Some p \<longrightarrow> stale cs p)
     else lookup cs key = Some it \<and> \<not> stale cs it \<and> lookup cs' = lookup cs \<and>
       (\<exists>i. load (items cs) it = Some i \<and> load (items cs') it = Some (i\<lparr> refcount := refcount i + 1 \<rparr>) \<and> ITEM_key i = key) \<and>
       (\<forall>x. x \<noteq> it \<longrightarrow> load (items cs') x = load (items cs) x)"
proof -
  obtain C U Q where sys: "sys_ok cs H C U Q" "cache_inv cs C U Q" by (rule refs_okE [OF ok])
  note rep = cache_invD(1) [OF sys(2)]
  show ?thesis
  proof (cases "lookup cs key")
    case None
    have "key \<notin> hc.key_at (items cs) ` members C" by (rule lookup_none [OF rep None])
    then have "do_item_get_del key cs = Some (NULL, cs)" by (rule do_item_get_spec(1) [OF sys(2)])
    then show ?thesis using that [of NULL cs] ok None by (simp add: settings_kept_def same_settings_def fun_upd_idem)
  next
    case (Some p)
    then have p: "p \<in> members C" "hc.key_at (items cs) p = key" using lookup_iff [OF rep] by auto
    obtain c where c: "p \<in> U c" using member_in_use [OF sys(2) p(1)] by metis
    obtain i where i: "load (items cs) p = Some i" using inv_item [OF sys(2) c] by metis
    have key: "ITEM_key i = key" and nn: "p \<noteq> NULL" using p(2) i by (auto simp: hc.key_at_def)
    show ?thesis
    proof (cases "flushed cs i \<or> expired cs i")
      case True
      obtain cs' C' where u: "do_item_unlink_del p cs = Some cs'" "cache_inv cs' C' (if refcount i = 0 then U(c := U c - {p}) else U) (Q(c := remove1 p (Q c)))"
        "shrinks (\<lambda>_. True) cs C U cs' C' (if refcount i = 0 then U(c := U c - {p}) else U)" "members C' = members C - {p}"
        "others_kept p (items cs) (items cs')" by (rule shrinks_unlink [OF sys(2) c p(1) i refl])
      have "do_item_get_del key cs = Some (NULL, cs')" using do_item_get_spec(3) [OF sys(2) p(1) i key True u(1)] .
      moreover have "refs_ok cs' H" using sys_shrinks [OF sys(1) u(2,3)] unfolding refs_ok_def by blast
      moreover have "kept (live cs' H) cs cs'" by (rule kept_shrinks [OF sys(1) u(2,3)]) simp
      moreover have "settings_kept cs cs'" using shrinksD(6,7) [OF u(3)] by (simp add: settings_kept_def)
      moreover have "lookup cs' = (lookup cs)(key := None)"
        by (rule lookup_change(2) [OF rep cache_invD(1) [OF u(2)] u(5) _ _ p]) (use u(4) in auto)
      moreover have "stale cs p" using True i by (simp add: stale_def)
      ultimately show ?thesis using that [of NULL cs'] Some by simp
    next
      case False
      let ?cs = "cs\<lparr> items := upd (items cs) p (i\<lparr> refcount := refcount i + 1 \<rparr>) \<rparr>"
      have ld: "load (items ?cs) x = (if x = p then Some (i\<lparr> refcount := refcount i + 1 \<rparr>) else load (items cs) x)" for x
        using i by (auto simp: heap_simps)
      have "do_item_get_del key cs = Some (p, ?cs)" using do_item_get_spec(2) [OF sys(2) p(1) i key] False by blast
      moreover have "refs_ok ?cs (add_mset p H)" using sys_hold [OF sys(1) p(1) i] H unfolding refs_ok_def by blast
      moreover have "kept (live ?cs H) cs ?cs" using ld i by (simp add: kept_def payload_eq(5))
      moreover have "settings_kept cs ?cs" by (simp add: settings_kept_def same_settings_def)
      moreover have "lookup ?cs = lookup cs"
      proof -
        have "lookup ?cs = (lookup cs)(key \<mapsto> p)"
          by (rule lookup_change(1) [OF rep cache_invD(1) [OF cache_inv_hold(2) [OF sys(2) i]]])
            (use p ld i key in \<open>auto simp: hc.key_at_def ITEM_key_def others_kept_def\<close>)
        then show ?thesis using Some by (simp add: fun_upd_idem)
      qed
      moreover have "\<not> stale cs p" using False i by (simp add: stale_def)
      ultimately show ?thesis using that [of p ?cs] Some nn ld i key by simp
    qed
  qed
qed

lemma map_flush:
  assumes ok: "refs_ok cs H"
  obtains cs' where "do_item_flush_expired_del cs = Some cs'" "refs_ok cs' H" "kept (live cs' H) cs cs'" "settings_kept cs cs'" "lookup cs' \<subseteq>\<^sub>m lookup cs"
proof -
  obtain C U Q where sys: "sys_ok cs H C U Q" "cache_inv cs C U Q" by (rule refs_okE [OF ok])
  show ?thesis
  proof (cases "oldest_live cs = 0")
    case True
    then show ?thesis using that [of cs] ok by (simp add: do_item_flush_expired_del_def settings_kept_def same_settings_def)
  next
    case False
    have "0 + LARGEST_ID \<le> LARGEST_ID" by simp
    from flush_queues_spec [OF sys(2) this] obtain cs' C' U' Q' where
      f: "flush_queues LARGEST_ID 0 cs = Some cs'" "cache_inv cs' C' U' Q'" "shrinks (\<lambda>_. True) cs C U cs' C' U'" by blast
    have "do_item_flush_expired_del cs = Some cs'" using f(1) False by (simp add: do_item_flush_expired_del_def)
    moreover have "refs_ok cs' H" using sys_shrinks [OF sys(1) f(2,3)] unfolding refs_ok_def by blast
    moreover have "kept (live cs' H) cs cs'" by (rule kept_shrinks [OF sys(1) f(2,3)]) simp
    moreover have "settings_kept cs cs'" using shrinksD(6,7) [OF f(3)] by (simp add: settings_kept_def)
    ultimately show ?thesis using that [of cs'] lookup_shrinks [OF sys(2) f(2,3)] by blast
  qed
qed

subsection \<open>The contract of the cache\<close>

lemma run_refs_ok:
  assumes "start cs0" "cache_step\<^sup>*\<^sup>* (cs0, {#}) (cs, H)"
  shows "refs_ok cs H" "holder_rest cs H"
  using run_sys_ok [OF assms] by (auto simp: refs_ok_def)

lemma held_loaded:
  assumes "refs_ok cs H" "it \<in># H"
  obtains i where "load (items cs) it = Some i"
proof -
  obtain C U Q where sys: "sys_ok cs H C U Q" by (rule refs_okE [OF assms(1)])
  show ?thesis by (rule held_in_use [OF sys assms(2)]) (rule that)
qed

lemma held_operations:
  assumes ok: "refs_ok cs H" and it: "it \<in># H"
  shows "\<exists>i. load (items cs) it = Some i \<and>
      (\<exists>cs'. do_item_unlink_del it cs = Some cs' \<and> kept (live cs' H) cs cs' \<and>
         lookup cs' = (if lookup cs (ITEM_key i) = Some it then (lookup cs)(ITEM_key i := None) else lookup cs)) \<and>
      (\<exists>cs'. do_item_update it cs = Some cs' \<and> lookup cs' = lookup cs \<and> kept (live cs' H) cs cs') \<and>
      (\<exists>cs'. do_item_remove_del it cs = Some cs' \<and> lookup cs' = lookup cs \<and> kept (live cs' (H - {#it#})) cs cs') \<and>
      (lookup cs (ITEM_key i) = None \<longrightarrow> (\<exists>cs' i'. do_item_link_del it cs = Some cs' \<and> lookup cs' = (lookup cs)(ITEM_key i \<mapsto> it) \<and>
         kept (live cs' H - {it}) cs cs' \<and> load (items cs') it = Some i' \<and> payload i' = (payload i)\<lparr> it_cas := link_cas cs i \<rparr>)) \<and>
      (\<forall>new_it \<in># H. \<forall>n. load (items cs) new_it = Some n \<and> ITEM_key n = ITEM_key i \<and> lookup cs (ITEM_key i) = Some it \<and> new_it \<noteq> it \<longrightarrow>
         (\<exists>cs' n'. do_item_replace_del it new_it cs = Some cs' \<and> lookup cs' = (lookup cs)(ITEM_key i \<mapsto> new_it) \<and>
           kept (live cs' H - {new_it}) cs cs' \<and> load (items cs') new_it = Some n' \<and> payload n' = (payload n)\<lparr> it_cas := link_cas cs n \<rparr>))"
proof -
  obtain i where i: "load (items cs) it = Some i" by (rule held_loaded [OF ok it])
  show ?thesis
  proof (intro exI [of _ i] conjI impI ballI allI)
    show "\<exists>cs'. do_item_unlink_del it cs = Some cs' \<and> kept (live cs' H) cs cs' \<and>
       lookup cs' = (if lookup cs (ITEM_key i) = Some it then (lookup cs)(ITEM_key i := None) else lookup cs)"
      by (rule map_unlink [OF ok it i]) blast
    show "\<exists>cs'. do_item_update it cs = Some cs' \<and> lookup cs' = lookup cs \<and> kept (live cs' H) cs cs'"
      by (rule map_update [OF ok it]) blast
    show "\<exists>cs'. do_item_remove_del it cs = Some cs' \<and> lookup cs' = lookup cs \<and> kept (live cs' (H - {#it#})) cs cs'"
      by (rule map_remove [OF ok it]) blast
    show "\<exists>cs' i'. do_item_link_del it cs = Some cs' \<and> lookup cs' = (lookup cs)(ITEM_key i \<mapsto> it) \<and>
       kept (live cs' H - {it}) cs cs' \<and> load (items cs') it = Some i' \<and> payload i' = (payload i)\<lparr> it_cas := link_cas cs i \<rparr>"
      if "lookup cs (ITEM_key i) = None"
      by (rule map_link [OF ok it i that]) blast
    show "\<exists>cs' n'. do_item_replace_del it new_it cs = Some cs' \<and> lookup cs' = (lookup cs)(ITEM_key i \<mapsto> new_it) \<and>
         kept (live cs' H - {new_it}) cs cs' \<and> load (items cs') new_it = Some n' \<and> payload n' = (payload n)\<lparr> it_cas := link_cas cs n \<rparr>"
      if new: "new_it \<in># H" "load (items cs) new_it = Some n \<and> ITEM_key n = ITEM_key i \<and> lookup cs (ITEM_key i) = Some it \<and> new_it \<noteq> it" for new_it n
    proof -
      have "load (items cs) new_it = Some n" "ITEM_key n = ITEM_key i" using new(2) by auto
      then show ?thesis by (rule map_replace [OF ok it i new(1)]) (use new(2) in auto)
    qed
  qed (rule i)
qed

lemma new_item_size:
  assumes n: "new_item cs c key flags exp nb i" and "length key \<le> 250" "0 \<le> nb" "nb \<le> INT_MAX"
  shows "ITEM_ntotal i = int (unat (fst (item_make_header (of_nat (length key + 1)) flags nb) + (if use_cas cs then 8 else 0)))"
proof -
  define w where "w = fst (item_make_header (of_nat (length key + 1)) flags nb)"
  obtain nsuf where h: "snd (snd (item_make_header (of_nat (length key + 1)) flags nb)) = nsuf"
    "w = of_nat (SIZEOF_ITEM + unat (of_nat (length key + 1) :: u8) + unat nsuf) + of_int nb"
    unfolding w_def by (simp add: item_make_header_def Let_def)
  obtain m where m: "nb = int m" "m < 2 ^ 31" using assms(3,4) by (metis INT_MAX_def nat_0_le nat_less_iff of_nat_numeral of_nat_power zle_diff1_eq int_eq_iff)
  have k: "unat (of_nat (length key + 1) :: u8) = length key + 1" "unat (of_nat (length key) :: u8) = length key"
    using assms(2) unat_of_nat [where 'a=8, of "length key + 1"] unat_of_nat [where 'a=8, of "length key"] by simp_all
  have cas: "has_flag ITEM_CAS i \<longleftrightarrow> use_cas cs" using n by (simp add: new_item_def has_flag_def ITEM_CAS_def)
  let ?t = "SIZEOF_ITEM + (length key + 1) + unat nsuf + m + (if use_cas cs then 8 else 0)"
  have "unat nsuf < 256" using unsigned_less [of nsuf] by simp
  then have lt: "?t < 2 ^ 64" using m(2) assms(2) by (simp add: SIZEOF_ITEM_def)
  have "w + (if use_cas cs then 8 else 0) = (of_nat ?t :: u64)" unfolding h(2) k m(1) by simp
  then have "unat (w + (if use_cas cs then 8 else 0)) = ?t" using lt by (simp only: unat_of_nat) simp
  moreover have "ITEM_ntotal i = int ?t" using n h(1) k m(1) cas by (simp add: ITEM_ntotal_def new_item_def)
  ultimately show ?thesis by (simp only: w_def [symmetric])
qed

text \<open>
  C13: The cache is a map from keys to items. In every state that its clients reach, an item that a
  client links is found under its key, one that it unlinks is not found any more, replacing an item
  that is found by one with the same key updates the map at that key, and updating the
  time of an item or giving it back changes nothing. A look-up returns the item of the map,
  or removes it from the map if it was flushed or has expired; flushing only removes items. Items
  that are held or found keep their contents, but for the CAS id of the item that is linked.
\<close>

theorem cache_is_a_map:
  assumes "start cs0" and "cache_step\<^sup>*\<^sup>* (cs0, {#}) (cs, H)" and "\<forall>x. count H x < 65535"
  shows "(\<exists>it cs'. do_item_get_del key cs = Some (it, cs') \<and> kept (live cs' H) cs cs' \<and>
      (if it = NULL then lookup cs' = (lookup cs)(key := None) \<and> (\<forall>p. lookup cs key = Some p \<longrightarrow> stale cs p)
       else lookup cs key = Some it \<and> \<not> stale cs it \<and> lookup cs' = lookup cs)) \<and>
    (\<exists>cs'. do_item_flush_expired_del cs = Some cs' \<and> lookup cs' \<subseteq>\<^sub>m lookup cs \<and> kept (live cs' H) cs cs') \<and>
    (\<forall>it \<in># H. \<exists>i. load (items cs) it = Some i \<and>
      (\<exists>cs'. do_item_unlink_del it cs = Some cs' \<and> kept (live cs' H) cs cs' \<and>
         lookup cs' = (if lookup cs (ITEM_key i) = Some it then (lookup cs)(ITEM_key i := None) else lookup cs)) \<and>
      (\<exists>cs'. do_item_update it cs = Some cs' \<and> lookup cs' = lookup cs \<and> kept (live cs' H) cs cs') \<and>
      (\<exists>cs'. do_item_remove_del it cs = Some cs' \<and> lookup cs' = lookup cs \<and> kept (live cs' (H - {#it#})) cs cs') \<and>
      (lookup cs (ITEM_key i) = None \<longrightarrow> (\<exists>cs' i'. do_item_link_del it cs = Some cs' \<and> lookup cs' = (lookup cs)(ITEM_key i \<mapsto> it) \<and>
         kept (live cs' H - {it}) cs cs' \<and> load (items cs') it = Some i' \<and> payload i' = (payload i)\<lparr> it_cas := link_cas cs i \<rparr>)) \<and>
      (\<forall>new_it \<in># H. \<forall>n. load (items cs) new_it = Some n \<and> ITEM_key n = ITEM_key i \<and> lookup cs (ITEM_key i) = Some it \<and> new_it \<noteq> it \<longrightarrow>
         (\<exists>cs' n'. do_item_replace_del it new_it cs = Some cs' \<and> lookup cs' = (lookup cs)(ITEM_key i \<mapsto> new_it) \<and>
           kept (live cs' H - {new_it}) cs cs' \<and> load (items cs') new_it = Some n' \<and> payload n' = (payload n)\<lparr> it_cas := link_cas cs n \<rparr>)))"
proof -
  note ok = run_refs_ok [OF assms(1,2)]
  have get: "\<exists>it cs'. do_item_get_del key cs = Some (it, cs') \<and> kept (live cs' H) cs cs' \<and>
      (if it = NULL then lookup cs' = (lookup cs)(key := None) \<and> (\<forall>p. lookup cs key = Some p \<longrightarrow> stale cs p)
       else lookup cs key = Some it \<and> \<not> stale cs it \<and> lookup cs' = lookup cs)"
    by (rule map_get [OF ok(1) assms(3), of key]) (auto split: if_splits)
  have flush: "\<exists>cs'. do_item_flush_expired_del cs = Some cs' \<and> lookup cs' \<subseteq>\<^sub>m lookup cs \<and> kept (live cs' H) cs cs'"
    by (rule map_flush [OF ok(1)]) blast
  show ?thesis using get flush held_operations [OF ok(1)] by blast
qed


theorem cache_is_a_map_witness:
  "\<exists>cs i cs'. cache_step\<^sup>*\<^sup>* (start_cache, {#}) (cs, {#1#}) \<and> load (items cs) 1 = Some i \<and> do_item_unlink_del 1 cs = Some cs' \<and>
     lookup cs' = (if lookup cs (ITEM_key i) = Some 1 then (lookup cs)(ITEM_key i := None) else lookup cs)"
proof -
  obtain cs where run: "cache_step\<^sup>*\<^sup>* (start_cache, {#}) (cs, {#1#})" using start_run by blast
  have c: "\<forall>x. count {#1#} x < 65535" "1 \<in># {#1#}" by simp_all
  from bspec [OF conjunct2 [OF conjunct2 [OF cache_is_a_map [OF start_cache_start run c(1)]]] c(2)]
  show ?thesis using run by (elim exE conjE) (intro exI conjI, assumption+)
qed


end
