(* ===== verification/Mc_Store.thy ===== *)
theory Mc_Store
  imports Mc_Map
begin

text \<open>
  \<open>memcached/memcached-1.4.6-ffwd/memcached.c\<close>: the delegated functions behind the storage and the
  arithmetic commands, \<open>do_store_item_del\<close> and \<open>do_add_delta_del\<close>. Of a connection and its thread
  there are the CAS id that is reported to the client and the statistics that are written here.
  The data of an item has \<open>nbytes\<close> bytes; \<open>None\<close> is a failed assertion or an access out of range.
\<close>

datatype store_item_type = NOT_STORED | STORED | EXISTS | NOT_FOUND

datatype delta_result_type = OK | NON_NUMERIC | EOM | DELTA_ITEM_NOT_FOUND | DELTA_ITEM_CAS_MISMATCH

datatype nread = NREAD_ADD | NREAD_SET | NREAD_REPLACE | NREAD_APPEND | NREAD_PREPEND | NREAD_CAS

record conn =
  c_cas :: u64
  cas_misses :: u64
  cas_hits :: "nat \<Rightarrow> u64"
  cas_badval :: "nat \<Rightarrow> u64"
  incr_hits :: "nat \<Rightarrow> u64"
  decr_hits :: "nat \<Rightarrow> u64"

text \<open>\<open>memcpy(ITEM_data(it) + off, src, n)\<close>.\<close>

definition copy_at :: "int \<Rightarrow> bytes \<Rightarrow> int \<Rightarrow> bytes \<Rightarrow> bytes option" where
  "copy_at off src n dst =
     (if 0 \<le> off \<and> 0 \<le> n \<and> n \<le> int (length src) \<and> off + n \<le> int (length dst)
      then Some (take (nat off) dst @ take (nat n) src @ drop (nat (off + n)) dst) else None)"

definition write_data :: "addr \<Rightarrow> int \<Rightarrow> bytes \<Rightarrow> int \<Rightarrow> cache \<Rightarrow> cache option" where
  "write_data it off src n cs = do {
     i \<leftarrow> load (items cs) it;
     d \<leftarrow> copy_at off src n (it_data i);
     set_item it (\<lambda>i. i\<lparr> it_data := d \<rparr>) cs }"

text \<open>\<open>(int) strtol(str, NULL, 10)\<close>, and \<open>atoi(str)\<close>.\<close>

definition int_of_string :: "bytes \<Rightarrow> int option" where
  "int_of_string str = do { (_, v, _) \<leftarrow> strtoll str; Some (sint (ucast v :: u32)) }"

subsection \<open>The storage commands\<close>

definition release :: "addr \<Rightarrow> cache \<Rightarrow> cache option" where
  "release it cs = (if it \<noteq> NULL then do_item_remove_del it cs else Some cs)"

definition store_done :: "store_item_type \<Rightarrow> addr \<Rightarrow> addr \<Rightarrow> addr \<Rightarrow> conn \<Rightarrow> cache \<Rightarrow> (store_item_type \<times> conn \<times> cache) option" where
  "store_done stored it old_it new_it c cs = do {
     cs \<leftarrow> release old_it cs;
     cs \<leftarrow> release new_it cs;
     if stored = STORED
     then do { i \<leftarrow> load (items cs) it; Some (stored, c\<lparr> c_cas := ITEM_get_cas i \<rparr>, cs) }
     else Some (stored, c, cs) }"

definition store_link :: "addr \<Rightarrow> addr \<Rightarrow> addr \<Rightarrow> conn \<Rightarrow> cache \<Rightarrow> (store_item_type \<times> conn \<times> cache) option" where
  "store_link it old_it new_it c cs = do {
     cs \<leftarrow> (if old_it \<noteq> NULL then do_item_replace_del old_it it cs else do_item_link_del it cs);
     i \<leftarrow> load (items cs) it;
     store_done STORED it old_it new_it (c\<lparr> c_cas := ITEM_get_cas i \<rparr>) cs }"

definition store_cas :: "addr \<Rightarrow> addr \<Rightarrow> conn \<Rightarrow> cache \<Rightarrow> (store_item_type \<times> conn \<times> cache) option" where
  "store_cas it old_it c cs =
     (if old_it = NULL then store_done NOT_FOUND it old_it NULL (c\<lparr> cas_misses := cas_misses c + 1 \<rparr>) cs
      else do {
        i \<leftarrow> load (items cs) it;
        old \<leftarrow> load (items cs) old_it;
        let s = unat (it_clsid old);
        if ITEM_get_cas i = ITEM_get_cas old
        then do {
          cs \<leftarrow> do_item_replace_del old_it it cs;
          store_done STORED it old_it NULL (c\<lparr> cas_hits := (cas_hits c)(s := cas_hits c s + 1) \<rparr>) cs }
        else store_done EXISTS it old_it NULL (c\<lparr> cas_badval := (cas_badval c)(s := cas_badval c s + 1) \<rparr>) cs })"

definition store_join :: "addr \<Rightarrow> nread \<Rightarrow> addr \<Rightarrow> conn \<Rightarrow> cache \<Rightarrow> (store_item_type \<times> conn \<times> cache) option" where
  "store_join it comm old_it c cs = do {
     i \<leftarrow> load (items cs) it;
     old \<leftarrow> load (items cs) old_it;
     if ITEM_get_cas i \<noteq> 0 \<and> ITEM_get_cas i \<noteq> ITEM_get_cas old then store_done EXISTS it old_it NULL c cs
     else do {
       flags \<leftarrow> int_of_string (it_suffix old @ it_data old);
       (new_it, cs) \<leftarrow> do_item_alloc_del (ITEM_key i) flags (exptime old) (nbytes i + nbytes old - 2) cs;
       if new_it = NULL then do { cs \<leftarrow> release old_it cs; Some (NOT_STORED, c, cs) }
       else do {
         i \<leftarrow> load (items cs) it;
         old \<leftarrow> load (items cs) old_it;
         cs \<leftarrow> (if comm = NREAD_APPEND
               then do { cs \<leftarrow> write_data new_it 0 (it_data old) (nbytes old) cs;
                         write_data new_it (nbytes old - 2) (it_data i) (nbytes i) cs }
               else do { cs \<leftarrow> write_data new_it 0 (it_data i) (nbytes i) cs;
                         write_data new_it (nbytes i - 2) (it_data old) (nbytes old) cs });
         store_link new_it old_it new_it c cs } } }"

definition do_store_item_del :: "addr \<Rightarrow> nread \<Rightarrow> conn \<Rightarrow> cache \<Rightarrow> (store_item_type \<times> conn \<times> cache) option" where
  "do_store_item_del it comm c cs = do {
     i \<leftarrow> load (items cs) it;
     (old_it, cs) \<leftarrow> do_item_get_del (ITEM_key i) cs;
     if old_it \<noteq> NULL \<and> comm = NREAD_ADD
     then do { cs \<leftarrow> do_item_update old_it cs; store_done NOT_STORED it old_it NULL c cs }
     else if old_it = NULL \<and> comm \<in> {NREAD_REPLACE, NREAD_APPEND, NREAD_PREPEND}
     then store_done NOT_STORED it old_it NULL c cs
     else if comm = NREAD_CAS then store_cas it old_it c cs
     else if comm \<in> {NREAD_APPEND, NREAD_PREPEND} then store_join it comm old_it c cs
     else store_link it old_it NULL c cs }"

subsection \<open>The arithmetic commands\<close>

text \<open>
  \<open>cas\<close> is \<open>None\<close> for a null pointer; \<open>after\<close> is the memory behind the data of the item, which
  \<open>safe_strtoull\<close> may read. The result comes with the contents of \<open>buf\<close> and \<open>*cas\<close>.
\<close>

definition delta_value :: "bool \<Rightarrow> u64 \<Rightarrow> u64 \<Rightarrow> u64" where
  "delta_value incr delta v = (if incr then v + delta else if v < delta then 0 else v - delta)"

definition count_delta :: "bool \<Rightarrow> nat \<Rightarrow> conn \<Rightarrow> conn" where
  "count_delta incr s c =
     (if incr then c\<lparr> incr_hits := (incr_hits c)(s := incr_hits c s + 1) \<rparr> else c\<lparr> decr_hits := (decr_hits c)(s := decr_hits c s + 1) \<rparr>)"

definition delta_realloc :: "addr \<Rightarrow> item \<Rightarrow> bytes \<Rightarrow> bytes \<Rightarrow> cache \<Rightarrow> (bool \<times> cache) option" where
  "delta_realloc it i after buf cs = do {
     let res = int (length buf);
     flags \<leftarrow> int_of_string (tl (it_suffix i) @ it_data i @ after);
     (new_it, cs) \<leftarrow> do_item_alloc_del (ITEM_key i) flags (exptime i) (res + 2) cs;
     if new_it = NULL then do { cs \<leftarrow> do_item_remove_del it cs; Some (False, cs) }
     else do {
       cs \<leftarrow> write_data new_it 0 buf res cs;
       cs \<leftarrow> write_data new_it res [13, 10] 2 cs;
       cs \<leftarrow> do_item_replace_del it new_it cs;
       cs \<leftarrow> do_item_remove_del new_it cs;
       Some (True, cs) } }"

definition delta_in_place :: "addr \<Rightarrow> item \<Rightarrow> bytes \<Rightarrow> cache \<Rightarrow> cache option" where
  "delta_in_place it i buf cs = do {
     let res = int (length buf);
     cs \<leftarrow> set_link_cas it cs;
     cs \<leftarrow> write_data it 0 buf res cs;
     write_data it res (replicate (nat (nbytes i - res - 2)) 32) (nbytes i - res - 2) cs }"

definition delta_reply :: "addr \<Rightarrow> bytes \<Rightarrow> u64 option \<Rightarrow> conn \<Rightarrow> bool \<times> cache \<Rightarrow> (delta_result_type \<times> bytes \<times> u64 option \<times> conn \<times> cache) option" where
  "delta_reply it buf cas c = (\<lambda>(stored, cs).
     if \<not> stored then Some (EOM, buf @ [0], cas, c, cs)
     else do {
       i \<leftarrow> load (items cs) it;
       let cas = map_option (\<lambda>_. ITEM_get_cas i) cas;
       cs \<leftarrow> do_item_remove_del it cs;
       Some (OK, buf @ [0], cas, c, cs) })"

definition do_add_delta_del :: "conn \<Rightarrow> bytes \<Rightarrow> bool \<Rightarrow> u64 \<Rightarrow> u64 option \<Rightarrow> bytes \<Rightarrow> bytes \<Rightarrow> cache \<Rightarrow>
    (delta_result_type \<times> bytes \<times> u64 option \<times> conn \<times> cache) option" where
  "do_add_delta_del c key incr delta cas after buf cs = do {
     (it, cs) \<leftarrow> do_item_get_del key cs;
     if it = NULL then Some (DELTA_ITEM_NOT_FOUND, buf, cas, c, cs)
     else do {
       i \<leftarrow> load (items cs) it;
       if (case cas of None \<Rightarrow> False | Some v \<Rightarrow> v \<noteq> 0 \<and> ITEM_get_cas i \<noteq> v)
       then do { cs \<leftarrow> do_item_remove_del it cs; Some (DELTA_ITEM_CAS_MISMATCH, buf, cas, c, cs) }
       else do {
         (numeric, v) \<leftarrow> safe_strtoull (it_data i @ after);
         if \<not> numeric then do { cs \<leftarrow> do_item_remove_del it cs; Some (NON_NUMERIC, buf, cas, c, cs) }
         else do {
           let buf = digits (unat (delta_value incr delta v));
           let c = count_delta incr (unat (it_clsid i)) c;
           res \<leftarrow> (if nbytes i < int (length buf) + 2 \<or> refcount i \<noteq> 1 then delta_realloc it i after buf cs
                  else do { cs \<leftarrow> delta_in_place it i buf cs; Some (True, cs) });
           delta_reply it buf cas c res } } } }"

subsection \<open>Writing to an item that is held\<close>

lemma map_touch:
  assumes ok: "refs_ok cs H" and it: "it \<in># H" "load (items cs) it = Some i"
    and j: "hash_view j = hash_view i" "lru_view j = lru_view i" "state_view j = state_view i" "refcount j = refcount i"
    and cs': "cs' = cs\<lparr> items := upd (items cs) it j, cas_id := v \<rparr>"
  shows "refs_ok cs' H" "kept (live cs' H - {it}) cs cs'" "lookup cs' = lookup cs" "load (items cs') it = Some j"
proof -
  obtain C U Q where sys: "sys_ok cs H C U Q" "cache_inv cs C U Q" by (rule refs_okE [OF ok])
  have nn: "it \<noteq> NULL" using it(2) by auto
  then have ld: "load (items cs') x = (if x = it then Some j else load (items cs) x)" for x by (simp add: cs' heap_simps)
  have inv: "cache_inv cs' C U Q"
    by (rule iffD2 [OF cache_inv_cong cache_inv_touch [OF sys(2) it(2) j(1-3)]]) (simp_all add: cs')
  have k: "others_kept it (items cs) (items cs')" using ld by (simp add: others_kept_def)
  have wf: "item_wf j = item_wf i" and key: "ITEM_key j = ITEM_key i" using j(1) by (simp_all add: hash_view_def item_wf_def ITEM_key_def)
  have "sys_ok cs' H C U Q" by (rule sys_single [OF sys(1) it inv k]) (use ld wf j(4) in \<open>auto simp: cs'\<close>)
  then show "refs_ok cs' H" by (auto simp: refs_ok_def)
  show "kept (live cs' H - {it}) cs cs'" by (rule kept_others [OF k]) simp
  show "load (items cs') it = Some j" using ld by simp
  note L = lookup_change [OF cache_invD(1) [OF sys(2)] cache_invD(1) [OF inv] k refl]
  have kk: "hc.key_at (items cs') it = hc.key_at (items cs) it" using ld it(2) key by (simp add: hc.key_at_def)
  show "lookup cs' = lookup cs"
  proof (cases "it \<in> members C")
    case True
    then show ?thesis using L(1) [OF True kk] lookup_iff [OF cache_invD(1) [OF sys(2)]] by (simp add: fun_upd_idem)
  qed (rule L(3))
qed

lemma map_write:
  assumes ok: "refs_ok cs H" and it: "it \<in># H" "load (items cs) it = Some i" and d: "copy_at off src n (it_data i) = Some d"
  obtains cs' where "write_data it off src n cs = Some cs'" "refs_ok cs' H" "kept (live cs' H - {it}) cs cs'" "lookup cs' = lookup cs"
    "load (items cs') it = Some (i\<lparr> it_data := d \<rparr>)" "settings_kept cs cs'"
proof -
  let ?cs = "cs\<lparr> items := upd (items cs) it (i\<lparr> it_data := d \<rparr>) \<rparr>"
  have "write_data it off src n cs = Some ?cs" using it(2) d by (simp add: write_data_def set_item_Some)
  moreover note T = map_touch [OF ok it, of "i\<lparr> it_data := d \<rparr>" ?cs "cas_id cs"]
  ultimately show ?thesis using that [of ?cs] T by (simp add: view_defs settings_kept_def same_settings_def)
qed

subsection \<open>Storing\<close>

definition holding :: "addr \<Rightarrow> addr multiset \<Rightarrow> addr multiset" where
  "holding x H = (if x = NULL then H else add_mset x H)"

lemma release_spec:
  assumes ok: "refs_ok cs (holding x H)"
  obtains cs' where "release x cs = Some cs'" "refs_ok cs' H" "kept (live cs' H) cs cs'" "settings_kept cs cs'" "lookup cs' = lookup cs"
proof (cases "x = NULL")
  case True
  then show ?thesis using that [of cs] ok by (simp add: release_def holding_def settings_kept_def same_settings_def)
next
  case False
  have x: "x \<in># add_mset x H" by simp
  have ok': "refs_ok cs (add_mset x H)" using ok False by (simp add: holding_def)
  obtain cs' where r: "do_item_remove_del x cs = Some cs'" "refs_ok cs' (add_mset x H - {#x#})" "kept (live cs' (add_mset x H - {#x#})) cs cs'"
    "settings_kept cs cs'" "lookup cs' = lookup cs" by (rule map_remove [OF ok' x])
  then show ?thesis using that [of cs'] False by (simp add: release_def)
qed

lemma store_done_spec:
  assumes ok: "refs_ok cs (holding old_it (holding new_it H))" and it: "stored = STORED \<longrightarrow> it \<in> live cs H \<and> load (items cs) it = Some i"
  obtains c' cs' where "store_done stored it old_it new_it c cs = Some (stored, c', cs')" "refs_ok cs' H" "kept (live cs' H) cs cs'" "settings_kept cs cs'"
    "lookup cs' = lookup cs" "c' = (if stored = STORED then c\<lparr> c_cas := ITEM_get_cas i \<rparr> else c)"
proof -
  obtain cs1 where a: "release old_it cs = Some cs1" "refs_ok cs1 (holding new_it H)" "kept (live cs1 (holding new_it H)) cs cs1" "settings_kept cs cs1"
    "lookup cs1 = lookup cs" by (rule release_spec [OF ok])
  obtain cs2 where b: "release new_it cs1 = Some cs2" "refs_ok cs2 H" "kept (live cs2 H) cs1 cs2" "settings_kept cs1 cs2" "lookup cs2 = lookup cs1"
    by (rule release_spec [OF a(2)])
  have sub: "live cs2 H \<subseteq> live cs1 (holding new_it H)" using b(5) by (auto simp: live_def holding_def)
  have k: "kept (live cs2 H) cs cs2" by (rule kept_trans [OF a(3) b(3) sub]) simp
  have st: "settings_kept cs cs2" using a(4) b(4) by (simp add: settings_kept_def same_settings_def)
  have lv: "live cs2 H = live cs H" using a(5) b(5) by (simp add: live_def)
  show ?thesis
  proof (cases "stored = STORED")
    case True
    then have l: "it \<in> live cs2 H" "load (items cs) it = Some i" using it lv by auto
    obtain j where j: "load (items cs2) it = Some j" "payload j = payload i" by (rule kept_load [OF k l])
    then show ?thesis using that [of "c\<lparr> c_cas := ITEM_get_cas i \<rparr>" cs2] a(1,5) b(1,2,5) k st True payload_cas(1) [OF j(2)] by (simp add: store_done_def)
  next
    case False
    then show ?thesis using that [of c cs2] a(1,5) b(1,2,5) k st by (simp add: store_done_def)
  qed
qed

lemma map_exchange:
  assumes ok: "refs_ok cs H" and it: "it \<in># H" "load (items cs) it = Some i" and new: "lookup cs (ITEM_key i) \<noteq> Some it"
    and old: "if old_it = NULL then lookup cs (ITEM_key i) = None else old_it \<in># H \<and> lookup cs (ITEM_key i) \<in> {None, Some old_it} \<and>
      (\<exists>j. load (items cs) old_it = Some j \<and> ITEM_key j = ITEM_key i)"
  obtains cs' i' where "(if old_it \<noteq> NULL then do_item_replace_del old_it it cs else do_item_link_del it cs) = Some cs'" "refs_ok cs' H"
    "kept (live cs' H - {it}) cs cs'" "same_settings cs cs'" "cas_id cs' = next_cas cs i" "lookup cs' = (lookup cs)(ITEM_key i \<mapsto> it)"
    "load (items cs') it = Some i'" "payload i' = (payload i)\<lparr> it_cas := link_cas cs i \<rparr>"
proof (cases "old_it = NULL")
  case True
  then have "lookup cs (ITEM_key i) = None" using old by simp
  from map_link [OF ok it this] show ?thesis using that True by (metis (no_types, lifting))
next
  case False
  then have "old_it \<in># H \<and> lookup cs (ITEM_key i) \<in> {None, Some old_it} \<and> (\<exists>j. load (items cs) old_it = Some j \<and> ITEM_key j = ITEM_key i)"
    using old by simp
  then obtain j where j: "old_it \<in># H" "lookup cs (ITEM_key i) \<in> {None, Some old_it}" "load (items cs) old_it = Some j" "ITEM_key j = ITEM_key i" by blast
  from map_replace [OF ok j(1,3) it j(4) [symmetric]] j(2,4) new obtain cs' i' where "do_item_replace_del old_it it cs = Some cs'" "refs_ok cs' H"
    "kept (live cs' H - {it}) cs cs'" "same_settings cs cs'" "cas_id cs' = next_cas cs i" "lookup cs' = (lookup cs)(ITEM_key j \<mapsto> it)"
    "load (items cs') it = Some i'" "payload i' = (payload i)\<lparr> it_cas := link_cas cs i \<rparr>" by metis
  then show ?thesis using that False j(4) by simp
qed

lemma store_link_spec:
  assumes ok: "refs_ok cs (holding old_it (holding new_it H))" and it: "it \<in># holding new_it H" "load (items cs) it = Some i"
    and new: "lookup cs (ITEM_key i) \<noteq> Some it"
    and old: "if old_it = NULL then lookup cs (ITEM_key i) = None else lookup cs (ITEM_key i) \<in> {None, Some old_it} \<and>
      (\<exists>j. load (items cs) old_it = Some j \<and> ITEM_key j = ITEM_key i)"
  obtains c' cs' i' where "store_link it old_it new_it c cs = Some (STORED, c', cs')" "refs_ok cs' H" "kept (live cs' H - {it}) cs cs'" "same_settings cs cs'"
    "lookup cs' = (lookup cs)(ITEM_key i \<mapsto> it)" "load (items cs') it = Some i'" "payload i' = (payload i)\<lparr> it_cas := link_cas cs i \<rparr>"
    "c' = c\<lparr> c_cas := ITEM_get_cas i' \<rparr>"
proof -
  let ?H = "holding old_it (holding new_it H)"
  have it': "it \<in># ?H" using it(1) by (simp add: holding_def)
  have old': "if old_it = NULL then lookup cs (ITEM_key i) = None else old_it \<in># ?H \<and> lookup cs (ITEM_key i) \<in> {None, Some old_it} \<and>
      (\<exists>j. load (items cs) old_it = Some j \<and> ITEM_key j = ITEM_key i)" using old by (cases "old_it = NULL") (simp_all add: holding_def)
  obtain cs1 i1 where x: "(if old_it \<noteq> NULL then do_item_replace_del old_it it cs else do_item_link_del it cs) = Some cs1" "refs_ok cs1 ?H"
    "kept (live cs1 ?H - {it}) cs cs1" "same_settings cs cs1" "cas_id cs1 = next_cas cs i" "lookup cs1 = (lookup cs)(ITEM_key i \<mapsto> it)"
    "load (items cs1) it = Some i1" "payload i1 = (payload i)\<lparr> it_cas := link_cas cs i \<rparr>"
    by (rule map_exchange [OF ok it' it(2) new old'])
  have lv: "it \<in> live cs1 H" using x(6) by (auto simp: live_def ran_def)
  then have s: "STORED = STORED \<longrightarrow> it \<in> live cs1 H \<and> load (items cs1) it = Some i1" using x(7) by simp
  obtain c' cs' where d: "store_done STORED it old_it new_it (c\<lparr> c_cas := ITEM_get_cas i1 \<rparr>) cs1 = Some (STORED, c', cs')" "refs_ok cs' H"
    "kept (live cs' H) cs1 cs'" "settings_kept cs1 cs'" "lookup cs' = lookup cs1"
    "c' = (if STORED = STORED then c\<lparr> c_cas := ITEM_get_cas i1 \<rparr>\<lparr> c_cas := ITEM_get_cas i1 \<rparr> else c\<lparr> c_cas := ITEM_get_cas i1 \<rparr>)"
    by (rule store_done_spec [OF x(2) s])
  obtain i' where i': "load (items cs') it = Some i'" "payload i' = payload i1"
    by (rule kept_load [OF d(3) _ x(7)]) (use lv d(5) in \<open>simp add: live_def\<close>)
  have run: "store_link it old_it new_it c cs = Some (STORED, c', cs')" using x(1,7) d(1) by (simp add: store_link_def split: if_splits)
  have sub: "live cs' H - {it} \<subseteq> live cs1 ?H - {it}" using d(5) by (auto simp: live_def holding_def)
  have k: "kept (live cs' H - {it}) cs cs'" by (rule kept_trans [OF x(3) d(3) sub]) blast
  show ?thesis
    by (rule that [OF run d(2) k _ _ i'(1)])
      (use x(4,6,8) d(4-6) i'(2) payload_cas(1) [OF i'(2)] in \<open>simp_all add: settings_kept_def same_settings_def\<close>)
qed

text \<open>The item that a look-up finds.\<close>

definition found :: "cache \<Rightarrow> bytes \<Rightarrow> addr option" where
  "found cs key = (case lookup cs key of None \<Rightarrow> None | Some p \<Rightarrow> if stale cs p then None else Some p)"

lemma found_get:
  assumes ok: "refs_ok cs H" and H: "\<forall>x. count H x < 65535"
  obtains it cs' where "do_item_get_del key cs = Some (it, cs')" "refs_ok cs' (holding it H)" "kept (live cs' H) cs cs'" "settings_kept cs cs'"
    "lookup cs' = (lookup cs)(key := found cs key)" "found cs key = (if it = NULL then None else Some it)"
    "it \<noteq> NULL \<longrightarrow> (\<exists>i. load (items cs) it = Some i \<and> load (items cs') it = Some (i\<lparr> refcount := refcount i + 1 \<rparr>) \<and> ITEM_key i = key) \<and>
      (\<forall>x. x \<noteq> it \<longrightarrow> load (items cs') x = load (items cs) x)"
proof -
  obtain it cs' where g: "do_item_get_del key cs = Some (it, cs')" "refs_ok cs' (if it = NULL then H else add_mset it H)" "kept (live cs' H) cs cs'"
    "settings_kept cs cs'"
    "if it = NULL then lookup cs' = (lookup cs)(key := None) \<and> (\<forall>p. lookup cs key = Some p \<longrightarrow> stale cs p)
     else lookup cs key = Some it \<and> \<not> stale cs it \<and> lookup cs' = lookup cs \<and>
       (\<exists>i. load (items cs) it = Some i \<and> load (items cs') it = Some (i\<lparr> refcount := refcount i + 1 \<rparr>) \<and> ITEM_key i = key) \<and>
       (\<forall>x. x \<noteq> it \<longrightarrow> load (items cs') x = load (items cs) x)" by (rule map_get [OF ok H, of key])
  have f: "found cs key = (if it = NULL then None else Some it)" using g(5) by (auto simp: found_def split: option.splits if_splits)
  show ?thesis
  proof (rule that [OF g(1) _ g(3,4) _ f])
    show "refs_ok cs' (holding it H)" using g(2) by (simp add: holding_def)
    show "lookup cs' = (lookup cs)(key := found cs key)" using g(5) f by (auto split: if_splits simp: fun_upd_idem)
  qed (use g(5) in auto)
qed

text \<open>What the storage commands report: the CAS id of the item that is found, and of the new item.\<close>

definition store_verdict :: "nread \<Rightarrow> u64 option \<Rightarrow> u64 \<Rightarrow> store_item_type" where
  "store_verdict comm old v = (case comm of
     NREAD_SET \<Rightarrow> STORED
   | NREAD_ADD \<Rightarrow> (if old = None then STORED else NOT_STORED)
   | NREAD_REPLACE \<Rightarrow> (if old = None then NOT_STORED else STORED)
   | NREAD_CAS \<Rightarrow> (case old of None \<Rightarrow> NOT_FOUND | Some w \<Rightarrow> if v = w then STORED else EXISTS)
   | _ \<Rightarrow> (case old of None \<Rightarrow> NOT_STORED | Some w \<Rightarrow> if v \<noteq> 0 \<and> v \<noteq> w then EXISTS else STORED))"

definition found_cas :: "cache \<Rightarrow> bytes \<Rightarrow> u64 option" where
  "found_cas cs key = map_option (\<lambda>p. ITEM_get_cas (the (load (items cs) p))) (found cs key)"

text \<open>The outcome of a command that stores \<open>it\<close> or nothing.\<close>

definition store_outcome :: "store_item_type \<Rightarrow> addr \<Rightarrow> item \<Rightarrow> addr multiset \<Rightarrow> cache \<Rightarrow> conn \<Rightarrow> cache \<Rightarrow> bool" where
  "store_outcome r it i H cs c' cs' \<longleftrightarrow> refs_ok cs' H \<and> kept (live cs' H - {it}) cs cs' \<and> same_settings cs cs' \<and>
     lookup cs' = (lookup cs)(ITEM_key i := if r = STORED then Some it else found cs (ITEM_key i)) \<and>
     (\<exists>i'. load (items cs') it = Some i' \<and>
       (if r = STORED then payload i' = (payload i)\<lparr> it_cas := link_cas cs i \<rparr> \<and> c_cas c' = ITEM_get_cas i' else payload i' = payload i))"

text \<open>The state after the look-up of the key of \<open>it\<close>.\<close>

definition looked_up :: "cache \<Rightarrow> addr \<Rightarrow> item \<Rightarrow> addr multiset \<Rightarrow> addr \<Rightarrow> cache \<Rightarrow> bool" where
  "looked_up cs it i H old_it cs1 \<longleftrightarrow> refs_ok cs1 (holding old_it H) \<and> kept (live cs1 H) cs cs1 \<and> settings_kept cs cs1 \<and>
     lookup cs1 = (lookup cs)(ITEM_key i := found cs (ITEM_key i)) \<and> found cs (ITEM_key i) = (if old_it = NULL then None else Some old_it) \<and>
     (\<exists>i1. load (items cs1) it = Some i1 \<and> payload i1 = payload i \<and> link_cas cs1 i1 = link_cas cs i) \<and>
     (old_it \<noteq> NULL \<longrightarrow> (\<exists>j k. load (items cs) old_it = Some j \<and> load (items cs1) old_it = Some k \<and> payload k = payload j \<and> ITEM_key j = ITEM_key i \<and> k = j\<lparr> refcount := refcount j + 1 \<rparr>) \<and>
       (\<forall>x. x \<noteq> old_it \<longrightarrow> load (items cs1) x = load (items cs) x))"

lemma look_up:
  assumes ok: "refs_ok cs H" and it: "it \<in># H" "load (items cs) it = Some i" and H: "\<forall>x. count H x < 65535"
  obtains old_it cs1 where "do_item_get_del (ITEM_key i) cs = Some (old_it, cs1)" "looked_up cs it i H old_it cs1"
proof -
  obtain old_it cs1 where g: "do_item_get_del (ITEM_key i) cs = Some (old_it, cs1)" "refs_ok cs1 (holding old_it H)" "kept (live cs1 H) cs cs1" "settings_kept cs cs1"
    "lookup cs1 = (lookup cs)(ITEM_key i := found cs (ITEM_key i))" "found cs (ITEM_key i) = (if old_it = NULL then None else Some old_it)"
    "old_it \<noteq> NULL \<longrightarrow> (\<exists>j. load (items cs) old_it = Some j \<and> load (items cs1) old_it = Some (j\<lparr> refcount := refcount j + 1 \<rparr>) \<and> ITEM_key j = ITEM_key i) \<and>
      (\<forall>x. x \<noteq> old_it \<longrightarrow> load (items cs1) x = load (items cs) x)" by (rule found_get [OF ok H, of "ITEM_key i"])
  obtain i1 where i1: "load (items cs1) it = Some i1" "payload i1 = payload i"
    by (rule kept_load [OF g(3) _ it(2)]) (use it(1) in \<open>simp add: live_def\<close>)
  have lc: "link_cas cs1 i1 = link_cas cs i" using g(4) payload_cas(2) [OF i1(2)] payload_parts(5) [OF i1(2)]
    by (simp add: link_cas_def settings_kept_def same_settings_def)
  have "looked_up cs it i H old_it cs1" unfolding looked_up_def using g(2-7) i1 lc payload_eq(5) by auto
  with g(1) show ?thesis by (rule that)
qed

lemma looked_upD:
  assumes "looked_up cs it i H old_it cs1"
  shows "refs_ok cs1 (holding old_it H)" "kept (live cs1 H) cs cs1" "settings_kept cs cs1"
    "lookup cs1 = (lookup cs)(ITEM_key i := found cs (ITEM_key i))" "found cs (ITEM_key i) = (if old_it = NULL then None else Some old_it)"
  using assms unfolding looked_up_def by - (elim conjE, assumption)+

text \<open>The two ways in which a command ends.\<close>

lemma not_stored_outcome:
  assumes L: "looked_up cs it i H old_it cs1" and it: "it \<in># H" and r: "r \<noteq> STORED"
    and c2: "refs_ok cs2 (holding old_it H)" "kept (live cs2 (holding old_it H)) cs1 cs2" "lookup cs2 = lookup cs1" "settings_kept cs1 cs2"
  obtains cs' where "store_done r it old_it NULL c cs2 = Some (r, c, cs')" "store_outcome r it i H cs c cs'"
proof -
  note l = looked_upD [OF L]
  obtain i1 where i1: "load (items cs1) it = Some i1" "payload i1 = payload i" using L unfolding looked_up_def by blast
  have s: "r = STORED \<longrightarrow> it \<in> live cs2 H \<and> load (items cs2) it = Some i" using r by simp
  have "refs_ok cs2 (holding old_it (holding NULL H))" using c2(1) by (simp add: holding_def)
  from store_done_spec [OF this s] obtain c' cs' where d: "store_done r it old_it NULL c cs2 = Some (r, c', cs')" "refs_ok cs' H" "kept (live cs' H) cs2 cs'"
    "settings_kept cs2 cs'" "lookup cs' = lookup cs2" "c' = (if r = STORED then c\<lparr> c_cas := ITEM_get_cas i \<rparr> else c)" by blast
  have "live cs' H \<subseteq> live cs2 (holding old_it H)" "live cs' H \<subseteq> live cs1 H" using d(5) c2(3) by (auto simp: live_def holding_def)
  then have k: "kept (live cs' H) cs1 cs'" "kept (live cs' H) cs cs'" using kept_trans [OF c2(2) d(3)] kept_trans [OF l(2)] by blast+
  obtain i' where "load (items cs') it = Some i'" "payload i' = payload i1"
    by (rule kept_load [OF k(1) _ i1(1)]) (use it in \<open>simp add: live_def\<close>)
  then have "store_outcome r it i H cs c cs'"
    unfolding store_outcome_def using d(2,4,5) c2(3,4) l(3,4) k(2) kept_mono [OF k(2)] i1(2) r by (simp add: settings_kept_def same_settings_def)
  then show ?thesis using that d(1,6) r by simp
qed

lemma stored_outcome:
  assumes L: "looked_up cs it i H old_it cs1" and it: "it \<in># H" and ne: "lookup cs (ITEM_key i) \<noteq> Some it"
  obtains c' cs' where "store_link it old_it NULL c cs1 = Some (STORED, c', cs')" "store_outcome STORED it i H cs c' cs'"
proof -
  note l = looked_upD [OF L]
  obtain i1 where i1: "load (items cs1) it = Some i1" "payload i1 = payload i" "link_cas cs1 i1 = link_cas cs i" using L unfolding looked_up_def by blast
  have key: "ITEM_key i1 = ITEM_key i" by (rule payload_parts(1) [OF i1(2)])
  have old: "if old_it = NULL then lookup cs1 (ITEM_key i1) = None else lookup cs1 (ITEM_key i1) \<in> {None, Some old_it} \<and>
      (\<exists>j. load (items cs1) old_it = Some j \<and> ITEM_key j = ITEM_key i1)"
  proof (cases "old_it = NULL")
    case False
    then obtain j k where "load (items cs1) old_it = Some k" "payload k = payload j" "ITEM_key j = ITEM_key i" using L unfolding looked_up_def by blast
    then show ?thesis using False l(4,5) key payload_parts(1) [of k j] by auto
  qed (use l(4,5) key in simp)
  have ne1: "lookup cs1 (ITEM_key i1) \<noteq> Some it" using l(4) ne key by (auto simp: found_def split: option.splits if_splits)
  have ok: "refs_ok cs1 (holding old_it (holding NULL H))" "it \<in># holding NULL H" using l(1) it by (simp_all add: holding_def)
  obtain c' cs' i' where d: "store_link it old_it NULL c cs1 = Some (STORED, c', cs')" "refs_ok cs' H" "kept (live cs' H - {it}) cs1 cs'" "same_settings cs1 cs'"
    "lookup cs' = (lookup cs1)(ITEM_key i1 \<mapsto> it)" "load (items cs') it = Some i'" "payload i' = (payload i1)\<lparr> it_cas := link_cas cs1 i1 \<rparr>"
    "c' = c\<lparr> c_cas := ITEM_get_cas i' \<rparr>" by (rule store_link_spec [OF ok i1(1) ne1 old])
  have "live cs' H - {it} \<subseteq> live cs1 H" using d(5) by (auto simp: live_def ran_def split: if_splits)
  then have "kept (live cs' H - {it}) cs cs'" using kept_trans [OF l(2) d(3)] by blast
  then have "store_outcome STORED it i H cs c' cs'"
    unfolding store_outcome_def using d(2,4-8) l(3,4) i1(2,3) key by (simp add: settings_kept_def same_settings_def)
  with d(1) show ?thesis by (rule that)
qed

lemma store_link_cas:
  assumes "store_link it old_it NULL c cs = Some (STORED, c', cs')" "old_it \<noteq> NULL"
  shows "(do { cs \<leftarrow> do_item_replace_del old_it it cs; store_done STORED it old_it NULL c cs }) = Some (STORED, c', cs')"
  using assms by (auto simp: store_link_def store_done_def split: bind_splits)

lemma store_item_outcome:
  assumes ok: "refs_ok cs H" and it: "it \<in># H" "load (items cs) it = Some i" and ne: "lookup cs (ITEM_key i) \<noteq> Some it" and H: "\<forall>x. count H x < 65535"
    and comm: "comm \<in> {NREAD_ADD, NREAD_SET, NREAD_REPLACE, NREAD_CAS}" and r: "r = store_verdict comm (found_cas cs (ITEM_key i)) (ITEM_get_cas i)"
  obtains c' cs' where "do_store_item_del it comm c cs = Some (r, c', cs')" "store_outcome r it i H cs c' cs'"
proof -
  obtain old_it cs1 where g: "do_item_get_del (ITEM_key i) cs = Some (old_it, cs1)" and L: "looked_up cs it i H old_it cs1" by (rule look_up [OF ok it H])
  note l = looked_upD [OF L]
  obtain i1 where i1: "load (items cs1) it = Some i1" "payload i1 = payload i" using L unfolding looked_up_def by blast
  have refl: "kept (live cs1 (holding old_it H)) cs1 cs1" "settings_kept cs1 cs1" by (simp_all add: settings_kept_def same_settings_def)
  have keep: "\<exists>cs'. store_done r it old_it NULL c cs1 = Some (r, c, cs') \<and> store_outcome r it i H cs c cs'" if "r \<noteq> STORED" for c
    by (rule not_stored_outcome [OF L it(1) that l(1) refl(1) _ refl(2)]) auto
  have link: "\<exists>c' cs'. store_link it old_it NULL c cs1 = Some (STORED, c', cs') \<and> store_outcome STORED it i H cs c' cs'" for c
    by (rule stored_outcome [OF L it(1) ne, of c]) blast
  show ?thesis
  proof (cases "old_it = NULL")
    case True
    then have "found_cas cs (ITEM_key i) = None" using l(5) by (simp add: found_cas_def)
    then have r': "r = (if comm = NREAD_CAS then NOT_FOUND else if comm = NREAD_REPLACE then NOT_STORED else STORED)"
      using r comm by (auto simp: store_verdict_def)
    show ?thesis
    proof (cases "r = STORED")
      case False
      then have "do_store_item_del it comm c cs = store_done r it old_it NULL (if comm = NREAD_CAS then c\<lparr> cas_misses := cas_misses c + 1 \<rparr> else c) cs1"
        using it(2) g True r' by (auto simp: do_store_item_del_def store_cas_def split: if_splits)
      then show ?thesis using keep [OF False] that by metis
    next
      case True': True
      then have "do_store_item_del it comm c cs = store_link it old_it NULL c cs1"
        using it(2) g True r' comm by (auto simp: do_store_item_del_def split: if_splits)
      then show ?thesis using link [of c] that True' by metis
    qed
  next
    case False
    then obtain j k where jk: "load (items cs) old_it = Some j" "load (items cs1) old_it = Some k" "payload k = payload j" using L unfolding looked_up_def by blast
    have cas: "ITEM_get_cas i1 = ITEM_get_cas i" "ITEM_get_cas k = ITEM_get_cas j" using payload_cas(1) [OF i1(2)] payload_cas(1) [OF jk(3)] by simp_all
    have f: "found_cas cs (ITEM_key i) = Some (ITEM_get_cas j)" using l(5) False jk(1) by (simp add: found_cas_def)
    have x: "old_it \<in># holding old_it H" using False by (simp add: holding_def)
    consider (add) "comm = NREAD_ADD" "r = NOT_STORED" | (cas) "comm = NREAD_CAS" "r = (if ITEM_get_cas i = ITEM_get_cas j then STORED else EXISTS)"
      | (set) "comm \<in> {NREAD_SET, NREAD_REPLACE}" "r = STORED" using r f comm by (auto simp: store_verdict_def)
    then show ?thesis
    proof cases
      case add
      obtain cs2 where u: "do_item_update old_it cs1 = Some cs2" "refs_ok cs2 (holding old_it H)" "kept (live cs2 (holding old_it H)) cs1 cs2" "settings_kept cs1 cs2"
        "lookup cs2 = lookup cs1" by (rule map_update [OF l(1) x])
      have "r \<noteq> STORED" using add(2) by simp
      from not_stored_outcome [OF L it(1) this u(2,3,5,4)] obtain cs' where "store_done r it old_it NULL c cs2 = Some (r, c, cs')" "store_outcome r it i H cs c cs'" by blast
      then show ?thesis using that it(2) g False add u(1) by (simp add: do_store_item_del_def)
    next
      case cas
      let ?s = "unat (it_clsid k)"
      show ?thesis
      proof (cases "ITEM_get_cas i = ITEM_get_cas j")
        case True
        obtain c' cs' where "store_link it old_it NULL (c\<lparr> cas_hits := (cas_hits c)(?s := cas_hits c ?s + 1) \<rparr>) cs1 = Some (STORED, c', cs')"
          "store_outcome STORED it i H cs c' cs'" using link by blast
        then show ?thesis using that it(2) g False cas i1(1) jk(2) \<open>ITEM_get_cas i1 = _\<close> \<open>ITEM_get_cas k = _\<close> True
          by (auto simp: do_store_item_del_def store_cas_def Let_def dest!: store_link_cas)
      next
        case ne: False
        then have "r \<noteq> STORED" using cas(2) by simp
        from keep [OF this] obtain c' cs' where "c' = c\<lparr> cas_badval := (cas_badval c)(?s := cas_badval c ?s + 1) \<rparr>"
          "store_done r it old_it NULL c' cs1 = Some (r, c', cs')" "store_outcome r it i H cs c' cs'" by blast
        then show ?thesis using that it(2) g False cas i1(1) jk(2) \<open>ITEM_get_cas i1 = _\<close> \<open>ITEM_get_cas k = _\<close> ne
          by (simp add: do_store_item_del_def store_cas_def Let_def)
      qed
    next
      case set
      then have "do_store_item_del it comm c cs = store_link it old_it NULL c cs1" using it(2) g False by (auto simp: do_store_item_del_def)
      then show ?thesis using link [of c] that set(2) by metis
    qed
  qed
qed

subsection \<open>Appending and prepending\<close>

text \<open>The new text, in which the line end of the first text is overwritten.\<close>

definition joined :: "bytes \<Rightarrow> bytes \<Rightarrow> bytes" where
  "joined a b = take (length a - 2) a @ b"

definition data_ok :: "item \<Rightarrow> bool" where
  "data_ok i \<longleftrightarrow> nbytes i = int (length (it_data i)) \<and> 2 \<le> length (it_data i)"

lemma copy_two:
  assumes "length d = length a + length b - 2" "2 \<le> length a" "2 \<le> length b"
  shows "\<exists>d1. copy_at 0 a (int (length a)) d = Some d1 \<and> copy_at (int (length a) - 2) b (int (length b)) d1 = Some (joined a b)"
proof -
  let ?d = "a @ drop (length a) d"
  have "copy_at 0 a (int (length a)) d = Some ?d" using assms by (simp add: copy_at_def)
  moreover have "copy_at (int (length a) - 2) b (int (length b)) ?d = Some (joined a b)"
  proof -
    have "nat (int (length a) - 2) = length a - 2" "nat (int (length a) - 2 + int (length b)) = length d" using assms by linarith+
    moreover have "int (length a) - 2 + int (length b) = int (length ?d)" "length ?d = length d" using assms by auto
    ultimately show ?thesis using assms(2,3) by (simp add: copy_at_def joined_def)
  qed
  ultimately show ?thesis by blast
qed

lemma write_joined:
  assumes ok: "refs_ok cs H" and new: "new_it \<in># H" "load (items cs) new_it = Some n" "length (it_data n) = length (it_data a) + length (it_data b) - 2"
    and d: "data_ok a" "data_ok b"
  obtains cs' where "(do { cs \<leftarrow> write_data new_it 0 (it_data a) (nbytes a) cs; write_data new_it (nbytes a - 2) (it_data b) (nbytes b) cs }) = Some cs'"
    "refs_ok cs' H" "kept (live cs' H - {new_it}) cs cs'" "lookup cs' = lookup cs" "load (items cs') new_it = Some (n\<lparr> it_data := joined (it_data a) (it_data b) \<rparr>)"
    "settings_kept cs cs'"
proof -
  have l: "2 \<le> length (it_data a)" "2 \<le> length (it_data b)" and nb: "nbytes a = int (length (it_data a))" "nbytes b = int (length (it_data b))"
    using d by (simp_all add: data_ok_def)
  obtain d1 where c: "copy_at 0 (it_data a) (nbytes a) (it_data n) = Some d1"
    "copy_at (nbytes a - 2) (it_data b) (nbytes b) (it_data (n\<lparr> it_data := d1 \<rparr>)) = Some (joined (it_data a) (it_data b))"
    using copy_two [OF new(3) l] nb by auto
  obtain cs1 where w: "write_data new_it 0 (it_data a) (nbytes a) cs = Some cs1" "refs_ok cs1 H" "kept (live cs1 H - {new_it}) cs cs1" "lookup cs1 = lookup cs"
    "load (items cs1) new_it = Some (n\<lparr> it_data := d1 \<rparr>)" "settings_kept cs cs1" by (rule map_write [OF ok new(1,2) c(1)])
  obtain cs2 where w2: "write_data new_it (nbytes a - 2) (it_data b) (nbytes b) cs1 = Some cs2" "refs_ok cs2 H" "kept (live cs2 H - {new_it}) cs1 cs2"
    "lookup cs2 = lookup cs1" "load (items cs2) new_it = Some (n\<lparr> it_data := d1 \<rparr>\<lparr> it_data := joined (it_data a) (it_data b) \<rparr>)" "settings_kept cs1 cs2"
    by (rule map_write [OF w(2) new(1) w(5) c(2)])
  have "live cs2 H = live cs1 H" using w2(4) by (simp add: live_def)
  then have "kept (live cs2 H - {new_it}) cs cs2" using kept_trans [OF w(3) w2(3)] by simp
  then show ?thesis using that [of cs2] w(1,4,6) w2 by (simp add: settings_kept_def same_settings_def)
qed

text \<open>The outcome of a command that replaces the item found under a key by a new one.\<close>

definition replaced :: "cache \<Rightarrow> bytes \<Rightarrow> addr multiset \<Rightarrow> cache \<Rightarrow> addr \<Rightarrow> item \<Rightarrow> bool" where
  "replaced cs key H cs' new_it n \<longleftrightarrow> lookup cs' key = Some new_it \<and> lookup cs' \<subseteq>\<^sub>m (lookup cs)(key \<mapsto> new_it) \<and> new_it \<notin># H \<and>
     kept (live cs' H - {new_it}) cs cs' \<and> load (items cs') new_it = Some n \<and> ITEM_key n = key"

lemma alloc_beside:
  assumes L: "looked_up cs it i H old_it cs1" and old: "old_it \<noteq> NULL" and rest: "holder_rest cs H"
    and young: "\<And>j. load (items cs) old_it = Some j \<Longrightarrow> young cs j" and fresh: "\<And>n. length (fresh_data cs n) = n"
    and nb: "0 \<le> nb" and key: "length (ITEM_key i) \<le> 250"
  obtains new_it cs2 where "do_item_alloc_del (ITEM_key i) flags exp nb cs1 = Some (new_it, cs2)" "lookup cs2 \<subseteq>\<^sub>m lookup cs1"
    "kept (live cs2 (holding old_it H)) cs1 cs2" "settings_kept cs1 cs2" "new_it = NULL \<longrightarrow> refs_ok cs2 (holding old_it H)"
    "new_it \<noteq> NULL \<longrightarrow> refs_ok cs2 (holding old_it (holding new_it H)) \<and> new_it \<notin># holding old_it H \<and> new_it \<notin> ran (lookup cs2) \<and>
       (\<exists>n. load (items cs2) new_it = Some n \<and> ITEM_key n = ITEM_key i \<and> nbytes n = nb \<and> exptime n = exp \<and> length (it_data n) = nat nb)"
proof -
  note l = looked_upD [OF L]
  obtain j k where jk: "load (items cs) old_it = Some j" "load (items cs1) old_it = Some k" "k = j\<lparr> refcount := refcount j + 1 \<rparr>"
    using L old unfolding looked_up_def by blast
  have others: "load (items cs1) x = load (items cs) x" if "x \<noteq> old_it" for x using L old that unfolding looked_up_def by blast
  have t: "current_time cs1 = current_time cs" "fresh_data cs1 = fresh_data cs" using l(3) by (simp_all add: settings_kept_def same_settings_def)
  have rest1: "holder_rest cs1 (holding old_it H)"
    unfolding holder_rest_def
  proof (intro ballI allI impI)
    fix x h assume x: "x \<in># holding old_it H" "load (items cs1) x = Some h \<and> has_flag ITEM_LINKED h"
    show "young cs1 h"
    proof (cases "x = old_it")
      case True
      then show ?thesis using x(2) jk young [OF jk(1)] t by (auto simp: young_def)
    next
      case False
      then show ?thesis using x others [OF False] rest t unfolding holder_rest_def young_def holding_def by (metis insert_iff set_mset_add_mset_insert)
    qed
  qed
  obtain new_it cs2 where a: "do_item_alloc_del (ITEM_key i) flags exp nb cs1 = Some (new_it, cs2)" "lookup cs2 \<subseteq>\<^sub>m lookup cs1"
    "kept (live cs2 (holding old_it H)) cs1 cs2" "settings_kept cs1 cs2" "new_it = NULL \<longrightarrow> refs_ok cs2 (holding old_it H)" and
    b: "new_it \<noteq> NULL \<longrightarrow> new_it \<notin># holding old_it H \<and> refs_ok cs2 (add_mset new_it (holding old_it H)) \<and> new_it \<notin> ran (lookup cs2) \<and>
      (\<exists>c n. load (items cs2) new_it = Some n \<and> new_item cs1 c (ITEM_key i) flags exp nb n \<and>
       unat (fst (item_make_header (of_nat (length (ITEM_key i) + 1)) flags nb) + (if use_cas cs1 then 8 else 0)) \<le> sc_size (slabclass (slab cs2) c))"
    by (rule map_alloc [OF l(1) rest1])
  have n: "ITEM_key n = ITEM_key i \<and> nbytes n = nb \<and> exptime n = exp \<and> length (it_data n) = nat nb" if "new_item cs1 c (ITEM_key i) flags exp nb n" for c n
    using that key fresh t(2) unat_of_nat [where 'a=8, of "length (ITEM_key i)"] by (simp add: new_item_def ITEM_key_def [of n])
  have comm: "new_it \<noteq> NULL \<Longrightarrow> add_mset new_it (holding old_it H) = holding old_it (holding new_it H)" by (simp add: holding_def)
  have b': "new_it \<noteq> NULL \<longrightarrow> refs_ok cs2 (holding old_it (holding new_it H)) \<and> new_it \<notin># holding old_it H \<and> new_it \<notin> ran (lookup cs2) \<and>
       (\<exists>n. load (items cs2) new_it = Some n \<and> ITEM_key n = ITEM_key i \<and> nbytes n = nb \<and> exptime n = exp \<and> length (it_data n) = nat nb)"
    using b n comm by metis
  show ?thesis by (rule that [OF a b'])
qed

lemma link_new:
  assumes L: "looked_up cs it i H old_it cs1" and old: "old_it \<noteq> NULL"
    and c2: "lookup cs2 \<subseteq>\<^sub>m lookup cs1" "kept (live cs2 (holding old_it H)) cs1 cs2"
    and new: "refs_ok cs3 (holding old_it (holding new_it H))" "new_it \<noteq> NULL" "new_it \<notin># holding old_it H" "new_it \<notin> ran (lookup cs2)"
      "load (items cs3) new_it = Some n" "ITEM_key n = ITEM_key i"
    and c3: "kept (live cs2 (holding old_it H)) cs2 cs3" "lookup cs3 = lookup cs2"
  obtains c' cs' n' where "store_link new_it old_it new_it c cs3 = Some (STORED, c', cs')" "refs_ok cs' H" "replaced cs (ITEM_key i) H cs' new_it n'"
    "payload n' = (payload n)\<lparr> it_cas := link_cas cs3 n \<rparr>" "c_cas c' = ITEM_get_cas n'"
proof -
  note l = looked_upD [OF L]
  obtain j k where jk: "load (items cs1) old_it = Some k" "payload k = payload j" "ITEM_key j = ITEM_key i" using L old unfolding looked_up_def by blast
  have held: "old_it \<in> live cs2 (holding old_it H)" using old by (simp add: live_def holding_def)
  obtain k2 where k2: "load (items cs2) old_it = Some k2" "payload k2 = payload k" by (rule kept_load [OF c2(2) held jk(1)])
  obtain k3 where k3: "load (items cs3) old_it = Some k3" "payload k3 = payload k2" by (rule kept_load [OF c3(1) held k2(1)])
  have "ITEM_key k3 = ITEM_key n" using payload_parts(1) [OF k3(2)] payload_parts(1) [OF k2(2)] payload_parts(1) [OF jk(2)] jk(3) new(6) by simp
  moreover have in2: "lookup cs2 (ITEM_key i) \<in> {None, Some old_it}"
    using c2(1) l(4,5) old by (cases "lookup cs2 (ITEM_key i)") (auto simp: map_le_def dom_def)
  ultimately have o: "if old_it = NULL then lookup cs3 (ITEM_key n) = None else lookup cs3 (ITEM_key n) \<in> {None, Some old_it} \<and>
      (\<exists>j. load (items cs3) old_it = Some j \<and> ITEM_key j = ITEM_key n)" using old k3(1) new(6) c3(2) by simp
  have ne: "lookup cs3 (ITEM_key n) \<noteq> Some new_it" using new(4) c3(2) by (auto simp: ran_def)
  have mem: "new_it \<in># holding new_it H" using new(2) by (simp add: holding_def)
  obtain c' cs' n' where d: "store_link new_it old_it new_it c cs3 = Some (STORED, c', cs')" "refs_ok cs' H" "kept (live cs' H - {new_it}) cs3 cs'" "same_settings cs3 cs'"
    "lookup cs' = (lookup cs3)(ITEM_key n \<mapsto> new_it)" "load (items cs') new_it = Some n'" "payload n' = (payload n)\<lparr> it_cas := link_cas cs3 n \<rparr>"
    "c' = c\<lparr> c_cas := ITEM_get_cas n' \<rparr>" by (rule store_link_spec [OF new(1) mem new(5) ne o])
  have le: "lookup cs' \<subseteq>\<^sub>m (lookup cs)(ITEM_key i \<mapsto> new_it)"
    using c2(1) l(4) unfolding d(5) c3(2) new(6) by (auto simp: map_le_def dom_def split: if_splits)
  have "ran (lookup cs') - {new_it} \<subseteq> ran (lookup cs2)" unfolding d(5) c3(2) by (auto simp: ran_def split: if_splits)
  moreover have "ran (lookup cs2) \<subseteq> ran (lookup cs1)" using c2(1) by (auto simp: ran_def map_le_def dom_def) metis
  ultimately have sub: "live cs' H - {new_it} \<subseteq> live cs2 (holding old_it H)" "live cs' H - {new_it} \<subseteq> live cs1 H" by (auto simp: live_def holding_def)
  have "kept (live cs' H - {new_it}) cs2 cs'" by (rule kept_trans [OF c3(1) d(3) sub(1)]) simp
  then have "kept (live cs' H - {new_it}) cs1 cs'" by (rule kept_trans [OF c2(2) _ sub(1)]) simp
  then have "kept (live cs' H - {new_it}) cs cs'" by (rule kept_trans [OF l(2) _ sub(2)]) simp
  moreover have "ITEM_key n' = ITEM_key i"
  proof -
    have "ITEM_key n' = ITEM_key n" using d(7) by (cases n'; cases n; simp add: payload_def contents_def body_def ITEM_key_def)
    then show ?thesis using new(6) by simp
  qed
  moreover have "new_it \<notin># H" using new(3) by (auto simp: holding_def split: if_splits)
  ultimately have "replaced cs (ITEM_key i) H cs' new_it n'" unfolding replaced_def using le d(5,6) new(6) by simp
  from that [OF d(1,2) this d(7)] d(8) show ?thesis by simp
qed

text \<open>What a command that appends or prepends leaves behind: \<open>old\<close> is the item found, \<open>i\<close> the one with the text to be added.\<close>

definition join_outcome :: "nread \<Rightarrow> item \<Rightarrow> item \<Rightarrow> addr multiset \<Rightarrow> cache \<Rightarrow> store_item_type \<Rightarrow> conn \<Rightarrow> cache \<Rightarrow> bool" where
  "join_outcome comm i old H cs r c' cs' \<longleftrightarrow> refs_ok cs' H \<and>
     (if ITEM_get_cas i \<noteq> 0 \<and> ITEM_get_cas i \<noteq> ITEM_get_cas old then r = EXISTS \<and> lookup cs' = lookup cs \<and> kept (live cs' H) cs cs'
      else r = NOT_STORED \<and> lookup cs' \<subseteq>\<^sub>m lookup cs \<and> kept (live cs' H) cs cs' \<or>
        r = STORED \<and> (\<exists>new_it n. replaced cs (ITEM_key i) H cs' new_it n \<and> exptime n = exptime old \<and> nbytes n = nbytes i + nbytes old - 2 \<and>
          it_data n = (if comm = NREAD_APPEND then joined (it_data old) (it_data i) else joined (it_data i) (it_data old)) \<and> c_cas c' = ITEM_get_cas n))"

lemma join_new:
  assumes L: "looked_up cs it i H old_it cs1" and it: "it \<in># H" and old: "old_it \<noteq> NULL"
    and i1: "load (items cs1) it = Some i1" "payload i1 = payload i" and k: "load (items cs1) old_it = Some k" "payload k = payload j" and d: "data_ok i" "data_ok j"
    and c2: "lookup cs2 \<subseteq>\<^sub>m lookup cs1" "kept (live cs2 (holding old_it H)) cs1 cs2"
    and new: "refs_ok cs2 (holding old_it (holding new_it H))" "new_it \<noteq> NULL" "new_it \<notin># holding old_it H" "new_it \<notin> ran (lookup cs2)"
      "load (items cs2) new_it = Some n" "ITEM_key n = ITEM_key i" "nbytes n = nbytes i + nbytes j - 2" "exptime n = exptime j"
      "length (it_data n) = length (it_data i) + length (it_data j) - 2" and cas: "ITEM_get_cas i = 0 \<or> ITEM_get_cas i = ITEM_get_cas j"
  obtains c' cs' where "(do {
       i \<leftarrow> load (items cs2) it;
       old \<leftarrow> load (items cs2) old_it;
       cs \<leftarrow> (if comm = NREAD_APPEND
             then do { cs \<leftarrow> write_data new_it 0 (it_data old) (nbytes old) cs2; write_data new_it (nbytes old - 2) (it_data i) (nbytes i) cs }
             else do { cs \<leftarrow> write_data new_it 0 (it_data i) (nbytes i) cs2; write_data new_it (nbytes i - 2) (it_data old) (nbytes old) cs });
       store_link new_it old_it new_it c cs }) = Some (STORED, c', cs')" "join_outcome comm i j H cs STORED c' cs'"
proof -
  have lv: "it \<in> live cs2 (holding old_it H)" "old_it \<in> live cs2 (holding old_it H)" using it old by (auto simp: live_def holding_def)
  obtain i2 where i2: "load (items cs2) it = Some i2" "payload i2 = payload i1" by (rule kept_load [OF c2(2) lv(1) i1(1)])
  obtain k2 where k2: "load (items cs2) old_it = Some k2" "payload k2 = payload k" by (rule kept_load [OF c2(2) lv(2) k(1)])
  have pi: "payload i2 = payload i" "payload k2 = payload j" using i2(2) i1(2) k2(2) k(2) by simp_all
  note di = payload_parts(3,4) [OF pi(1)] payload_parts(3,4) [OF pi(2)]
  have mem: "new_it \<in># holding old_it (holding new_it H)" using new(2) by (simp add: holding_def)
  let ?d = "if comm = NREAD_APPEND then joined (it_data j) (it_data i) else joined (it_data i) (it_data j)"
  obtain a b where ab: "a = (if comm = NREAD_APPEND then k2 else i2)" "b = (if comm = NREAD_APPEND then i2 else k2)" by blast
  have dab: "data_ok a" "data_ok b" "length (it_data n) = length (it_data a) + length (it_data b) - 2" "joined (it_data a) (it_data b) = ?d"
    using d di new(9) ab by (auto simp: data_ok_def)
  obtain cs3 where w: "(do { cs \<leftarrow> write_data new_it 0 (it_data a) (nbytes a) cs2; write_data new_it (nbytes a - 2) (it_data b) (nbytes b) cs }) = Some cs3"
    "refs_ok cs3 (holding old_it (holding new_it H))" "kept (live cs3 (holding old_it (holding new_it H)) - {new_it}) cs2 cs3" "lookup cs3 = lookup cs2"
    "load (items cs3) new_it = Some (n\<lparr> it_data := joined (it_data a) (it_data b) \<rparr>)" "settings_kept cs2 cs3"
    by (rule write_joined [OF new(1) mem new(5) dab(3,1,2)])
  have "live cs2 (holding old_it H) \<subseteq> live cs3 (holding old_it (holding new_it H)) - {new_it}"
    using new(3,4) w(4) by (auto simp: live_def holding_def)
  then have k3: "kept (live cs2 (holding old_it H)) cs2 cs3" by (rule kept_mono [OF w(3)])
  have key: "ITEM_key (n\<lparr> it_data := joined (it_data a) (it_data b) \<rparr>) = ITEM_key i" using new(6) by (simp add: ITEM_key_def)
  obtain c' cs' n' where s: "store_link new_it old_it new_it c cs3 = Some (STORED, c', cs')" "refs_ok cs' H" "replaced cs (ITEM_key i) H cs' new_it n'"
    "payload n' = (payload (n\<lparr> it_data := joined (it_data a) (it_data b) \<rparr>))\<lparr> it_cas := link_cas cs3 (n\<lparr> it_data := joined (it_data a) (it_data b) \<rparr>) \<rparr>"
    "c_cas c' = ITEM_get_cas n'" by (rule link_new [OF L old c2 w(2) new(2-4) w(5) key k3 w(4)])
  have "exptime n' = exptime n" "nbytes n' = nbytes n" "it_data n' = joined (it_data a) (it_data b)"
    using s(4) by (cases n'; cases n; simp add: payload_def contents_def body_def)+
  then have ex: "\<exists>new_it n. replaced cs (ITEM_key i) H cs' new_it n \<and> exptime n = exptime j \<and> nbytes n = nbytes i + nbytes j - 2 \<and>
      it_data n = ?d \<and> c_cas c' = ITEM_get_cas n"
    by (intro exI [of _ new_it] exI [of _ n']) (use s(3,5) new(7,8) dab(4) in simp)
  have nc: "\<not> (ITEM_get_cas i \<noteq> 0 \<and> ITEM_get_cas i \<noteq> ITEM_get_cas j)" using cas by blast
  have "join_outcome comm i j H cs STORED c' cs'" unfolding join_outcome_def if_not_P [OF nc] using s(2) ex by blast
  moreover have "(if comm = NREAD_APPEND
             then do { cs \<leftarrow> write_data new_it 0 (it_data k2) (nbytes k2) cs2; write_data new_it (nbytes k2 - 2) (it_data i2) (nbytes i2) cs }
             else do { cs \<leftarrow> write_data new_it 0 (it_data i2) (nbytes i2) cs2; write_data new_it (nbytes i2 - 2) (it_data k2) (nbytes k2) cs }) = Some cs3"
    using w(1) ab by (cases "comm = NREAD_APPEND") simp_all
  ultimately show ?thesis using that i2(1) k2(1) s(1) by simp
qed

lemma store_join_spec:
  assumes L: "looked_up cs it i H old_it cs1" and it: "it \<in># H" "load (items cs) it = Some i"
    and old: "old_it \<noteq> NULL" "load (items cs) old_it = Some j" and rest: "holder_rest cs H"
    and young: "young cs j" and fresh: "\<And>n. length (fresh_data cs n) = n" and d: "data_ok i" "data_ok j" and key: "length (ITEM_key i) \<le> 250"
    and flags: "int_of_string (it_suffix j @ it_data j) = Some flags" and comm: "comm \<in> {NREAD_APPEND, NREAD_PREPEND}"
  obtains r c' cs' where "store_join it comm old_it c cs1 = Some (r, c', cs')" "join_outcome comm i j H cs r c' cs'"
proof -
  note l = looked_upD [OF L]
  obtain i1 where i1: "load (items cs1) it = Some i1" "payload i1 = payload i" using L unfolding looked_up_def by blast
  obtain k where k: "load (items cs1) old_it = Some k" "payload k = payload j" "k = j\<lparr> refcount := refcount j + 1 \<rparr>"
    using L old unfolding looked_up_def by (metis (no_types, lifting) option.inject)
  note pi = payload_parts [OF i1(2)] payload_cas(1) [OF i1(2)] note pk = payload_parts [OF k(2)] payload_cas(1) [OF k(2)]
  have refl: "kept (live cs1 (holding old_it H)) cs1 cs1" "settings_kept cs1 cs1" by (simp_all add: settings_kept_def same_settings_def)
  have f: "found cs (ITEM_key i) = Some old_it" using l(5) old by simp
  have same: "(lookup cs)(ITEM_key i := found cs (ITEM_key i)) = lookup cs" using f by (auto simp: found_def fun_upd_idem split: option.splits if_splits)
  show ?thesis
  proof (cases "ITEM_get_cas i \<noteq> 0 \<and> ITEM_get_cas i \<noteq> ITEM_get_cas j")
    case True
    have "EXISTS \<noteq> STORED" by simp
    from not_stored_outcome [OF L it(1) this l(1) refl(1) _ refl(2)] obtain cs' where e: "store_done EXISTS it old_it NULL c cs1 = Some (EXISTS, c, cs')"
      "store_outcome EXISTS it i H cs c cs'" by blast
    have kk: "kept (live cs' H) cs cs'"
    proof -
      obtain i' where i': "load (items cs') it = Some i'" "payload i' = payload i" and ko: "kept (live cs' H - {it}) cs cs'" using e(2) unfolding store_outcome_def by auto
      show ?thesis using ko i' it(2) unfolding kept_def by auto
    qed
    have "store_join it comm old_it c cs1 = Some (EXISTS, c, cs')" using i1(1) k(1) pi pk True e(1) by (simp add: store_join_def)
    moreover have "join_outcome comm i j H cs EXISTS c cs'" using e(2) True kk same unfolding join_outcome_def store_outcome_def by simp
    ultimately show ?thesis by (rule that)
  next
    case False
    let ?nb = "nbytes i1 + nbytes k - 2"
    have nb: "0 \<le> ?nb" "?nb = nbytes i + nbytes j - 2" "nat ?nb = length (it_data i) + length (it_data j) - 2" using d pi(3) pk(3) by (auto simp: data_ok_def)
    have yj: "\<And>j'. load (items cs) old_it = Some j' \<Longrightarrow> young cs j'" using young old(2) by simp
    obtain new_it cs2 where a: "do_item_alloc_del (ITEM_key i) flags (exptime k) ?nb cs1 = Some (new_it, cs2)" "lookup cs2 \<subseteq>\<^sub>m lookup cs1"
      "kept (live cs2 (holding old_it H)) cs1 cs2" "settings_kept cs1 cs2" "new_it = NULL \<longrightarrow> refs_ok cs2 (holding old_it H)" and
      b: "new_it \<noteq> NULL \<longrightarrow> refs_ok cs2 (holding old_it (holding new_it H)) \<and> new_it \<notin># holding old_it H \<and> new_it \<notin> ran (lookup cs2) \<and>
       (\<exists>n. load (items cs2) new_it = Some n \<and> ITEM_key n = ITEM_key i \<and> nbytes n = ?nb \<and> exptime n = exptime k \<and> length (it_data n) = nat ?nb)"
      by (rule alloc_beside [OF L old(1) rest yj fresh nb(1) key])
    have run: "store_join it comm old_it c cs1 = (if new_it = NULL then do { cs \<leftarrow> release old_it cs2; Some (NOT_STORED, c, cs) }
       else do {
         i \<leftarrow> load (items cs2) it;
         old \<leftarrow> load (items cs2) old_it;
         cs \<leftarrow> (if comm = NREAD_APPEND
               then do { cs \<leftarrow> write_data new_it 0 (it_data old) (nbytes old) cs2; write_data new_it (nbytes old - 2) (it_data i) (nbytes i) cs }
               else do { cs \<leftarrow> write_data new_it 0 (it_data i) (nbytes i) cs2; write_data new_it (nbytes i - 2) (it_data old) (nbytes old) cs });
         store_link new_it old_it new_it c cs })"
      using i1(1) k(1) pi pk False flags a(1) by (simp add: store_join_def) blast
    show ?thesis
    proof (cases "new_it = NULL")
      case True
      with a(5) have "refs_ok cs2 (holding old_it H)" by simp
      then obtain cs' where r: "release old_it cs2 = Some cs'" "refs_ok cs' H" "kept (live cs' H) cs2 cs'" "lookup cs' = lookup cs2" by (rule release_spec)
      have sub: "live cs' H \<subseteq> live cs2 (holding old_it H)" "live cs' H \<subseteq> live cs1 H"
        using r(4) a(2) by (auto simp: live_def holding_def ran_def map_le_def dom_def) metis
      have "kept (live cs' H) cs1 cs'" by (rule kept_trans [OF a(3) r(3) sub(1)]) simp
      then have "kept (live cs' H) cs cs'" by (rule kept_trans [OF l(2) _ sub(2)]) simp
      moreover have "lookup cs' \<subseteq>\<^sub>m lookup cs" using r(4) a(2) l(4) same by simp
      ultimately have "join_outcome comm i j H cs NOT_STORED c cs'" unfolding join_outcome_def using r(2) False by simp
      then show ?thesis using that run True r(1) by simp
    next
      case ne: False
      with b obtain n where n: "refs_ok cs2 (holding old_it (holding new_it H))" "new_it \<notin># holding old_it H" "new_it \<notin> ran (lookup cs2)"
        "load (items cs2) new_it = Some n" "ITEM_key n = ITEM_key i" "nbytes n = ?nb" "exptime n = exptime k" "length (it_data n) = nat ?nb" by blast
      obtain c' cs' where "(do {
         i \<leftarrow> load (items cs2) it;
         old \<leftarrow> load (items cs2) old_it;
         cs \<leftarrow> (if comm = NREAD_APPEND
               then do { cs \<leftarrow> write_data new_it 0 (it_data old) (nbytes old) cs2; write_data new_it (nbytes old - 2) (it_data i) (nbytes i) cs }
               else do { cs \<leftarrow> write_data new_it 0 (it_data i) (nbytes i) cs2; write_data new_it (nbytes i - 2) (it_data old) (nbytes old) cs });
         store_link new_it old_it new_it c cs }) = Some (STORED, c', cs')" "join_outcome comm i j H cs STORED c' cs'"
        by (rule join_new [OF L it(1) old(1) i1 k(1,2) d a(2,3) n(1) ne n(2-5)]) (use n(6-8) nb(2,3) pk(8) False in auto)
      then show ?thesis using that run ne by simp
    qed
  qed
qed

text \<open>The flags that were printed into the suffix of an item are read back.\<close>

lemma flags_read:
  assumes "c_int fl" "\<forall>b \<in> set sp. isspace b"
  shows "int_of_string (sp @ show_int fl @ 32 # rest) = Some fl"
proof -
  have f: "- (2 ^ 63) \<le> fl" "fl < 2 ^ 63" "- (2 ^ 31) \<le> fl" "fl < 2 ^ 31" using assms(1) by (simp_all add: c_int_def INT_MIN_def INT_MAX_def)
  have "\<not> isdigit 32" by (simp add: isdigit_def)
  from strtoll_show_int [OF assms(2) this f(1,2), of rest] have "int_of_string (sp @ show_int fl @ 32 # rest) = Some (sint (ucast (of_int fl :: u64) :: u32))"
    by (simp add: int_of_string_def)
  also have "(ucast (of_int fl :: u64) :: u32) = of_int fl" by (simp add: ucast_eq uint_word_of_int_eq word_of_int_eq_iff take_bit_take_bit min_def)
  also have "sint (of_int fl :: u32) = fl" using f(3,4) by (simp add: sint_sbintrunc' signed_take_bit_int_eq_self)
  finally show ?thesis .
qed

definition has_flags :: "int \<Rightarrow> item \<Rightarrow> bool" where
  "has_flags fl i \<longleftrightarrow> c_int fl \<and> (\<exists>rest. it_suffix i = 32 # show_int fl @ 32 # rest)"

lemma has_flags_read:
  assumes "has_flags fl i"
  shows "int_of_string (it_suffix i @ rest) = Some fl" "int_of_string (tl (it_suffix i) @ rest) = Some fl"
proof -
  obtain r where r: "c_int fl" "it_suffix i = 32 # show_int fl @ 32 # r" using assms by (auto simp: has_flags_def)
  show "int_of_string (it_suffix i @ rest) = Some fl" using flags_read [OF r(1), of "[32]" "r @ rest"] r(2) by (simp add: isspace_def)
  show "int_of_string (tl (it_suffix i) @ rest) = Some fl" using flags_read [OF r(1), of "[]" "r @ rest"] r(2) by simp
qed

lemma store_join_outcome:
  assumes ok: "refs_ok cs H" "holder_rest cs H" and it: "it \<in># H" "load (items cs) it = Some i" and H: "\<forall>x. count H x < 65535"
    and comm: "comm \<in> {NREAD_APPEND, NREAD_PREPEND}" and fresh: "\<forall>n. length (fresh_data cs n) = n"
    and d: "data_ok i" "length (ITEM_key i) \<le> 250"
    and old: "\<forall>p j. found cs (ITEM_key i) = Some p \<and> load (items cs) p = Some j \<longrightarrow> data_ok j \<and> young cs j \<and> (\<exists>fl. has_flags fl j)"
  shows "\<exists>r c' cs'. do_store_item_del it comm c cs = Some (r, c', cs') \<and>
    (case found cs (ITEM_key i) of None \<Rightarrow> r = NOT_STORED \<and> store_outcome r it i H cs c' cs'
     | Some p \<Rightarrow> \<exists>j. load (items cs) p = Some j \<and> join_outcome comm i j H cs r c' cs')"
proof -
  obtain old_it cs1 where g: "do_item_get_del (ITEM_key i) cs = Some (old_it, cs1)" and L: "looked_up cs it i H old_it cs1" by (rule look_up [OF ok(1) it H])
  note l = looked_upD [OF L]
  show ?thesis
  proof (cases "old_it = NULL")
    case True
    have ns: "NOT_STORED \<noteq> STORED" by simp
    have refl: "kept (live cs1 (holding old_it H)) cs1 cs1" "settings_kept cs1 cs1" by (simp_all add: settings_kept_def same_settings_def)
    from not_stored_outcome [OF L it(1) ns l(1) refl(1) _ refl(2)] obtain cs' where
      e: "store_done NOT_STORED it old_it NULL c cs1 = Some (NOT_STORED, c, cs')" "store_outcome NOT_STORED it i H cs c cs'" by blast
    then show ?thesis using it(2) g True comm l(5) by (auto simp: do_store_item_del_def)
  next
    case False
    then have f: "found cs (ITEM_key i) = Some old_it" using l(5) by simp
    obtain j where j: "load (items cs) old_it = Some j" using L False unfolding looked_up_def by blast
    obtain fl where o: "data_ok j" "young cs j" "has_flags fl j" using old f j by blast
    obtain r c' cs' where s: "store_join it comm old_it c cs1 = Some (r, c', cs')" "join_outcome comm i j H cs r c' cs'"
      by (rule store_join_spec [OF L it False j ok(2) o(2) _ d(1) o(1) d(2) has_flags_read(1) [OF o(3)] comm]) (use fresh in blast)
    have "do_store_item_del it comm c cs = Some (r, c', cs')" using it(2) g False comm s(1) by (auto simp: do_store_item_del_def)
    then show ?thesis using f j s(2) by auto
  qed
qed

subsection \<open>Arithmetic\<close>

text \<open>The state after the look-up of a key, in terms of the item \<open>j\<close> at \<open>p\<close> that is found.\<close>

lemma look_up_found:
  assumes ok: "refs_ok cs H" and H: "\<forall>x. count H x < 65535" and f: "found cs key = Some p" and j: "load (items cs) p = Some j"
  obtains cs1 k where "do_item_get_del key cs = Some (p, cs1)" "looked_up cs p j H p cs1" "load (items cs1) p = Some k" "payload k = payload j"
    "ITEM_key j = key" "p \<noteq> NULL" "refcount k = 1 \<longleftrightarrow> p \<notin># H" "link_cas cs1 k = link_cas cs j"
proof -
  obtain it cs1 where g: "do_item_get_del key cs = Some (it, cs1)" "refs_ok cs1 (holding it H)" "kept (live cs1 H) cs cs1" "settings_kept cs cs1"
    "lookup cs1 = (lookup cs)(key := found cs key)" "found cs key = (if it = NULL then None else Some it)"
    "it \<noteq> NULL \<longrightarrow> (\<exists>i. load (items cs) it = Some i \<and> load (items cs1) it = Some (i\<lparr> refcount := refcount i + 1 \<rparr>) \<and> ITEM_key i = key) \<and>
      (\<forall>x. x \<noteq> it \<longrightarrow> load (items cs1) x = load (items cs) x)" by (rule found_get [OF ok H, of key])
  have p: "it = p" "p \<noteq> NULL" using f g(6) by (auto split: if_splits)
  have k: "load (items cs1) p = Some (j\<lparr> refcount := refcount j + 1 \<rparr>)" "ITEM_key j = key" "\<forall>x. x \<noteq> p \<longrightarrow> load (items cs1) x = load (items cs) x"
    using g(7) p j by auto
  let ?k = "j\<lparr> refcount := refcount j + 1 \<rparr>"
  have pl: "payload ?k = payload j" by (rule payload_eq(5))
  have lc: "link_cas cs1 ?k = link_cas cs j" using g(4) payload_cas(2) [OF pl] by (simp add: link_cas_def settings_kept_def same_settings_def)
  have L: "looked_up cs p j H p cs1" unfolding looked_up_def using g(2-6) p k pl lc j f by auto
  obtain C U Q where sys: "sys_ok cs1 (holding p H) C U Q" using refs_okE [OF g(2)] p(1) by metis
  have ph: "p \<in># holding p H" using p(2) by (simp add: holding_def)
  have "refcount ?k = of_nat (count (holding p H) p)" "count (holding p H) p < 65536" using held_in_use [OF sys ph] k(1) by (metis option.inject)+
  then have rc: "refcount ?k = 1 \<longleftrightarrow> p \<notin># H"
    using p(2) by (auto simp: holding_def word_unat_eq_iff unat_of_nat not_in_iff simp del: of_nat_Suc)
  show ?thesis by (rule that [OF _ L k(1) pl k(2) p(2) rc lc]) (use g(1) p(1) in simp)
qed

lemma copy_number:
  assumes "length d = length b + 2"
  shows "\<exists>d1. copy_at 0 b (int (length b)) d = Some d1 \<and> copy_at (int (length b)) [13, 10] 2 d1 = Some (b @ [13, 10])"
  using assms by (intro exI [of _ "b @ drop (length b) d"]) (simp add: copy_at_def)

lemma copy_padded:
  assumes "length b + 2 \<le> length d"
  shows "\<exists>d1. copy_at 0 b (int (length b)) d = Some d1 \<and>
    copy_at (int (length b)) (replicate (length d - length b - 2) 32) (int (length d) - int (length b) - 2) d1 =
      Some (b @ replicate (length d - length b - 2) 32 @ drop (length d - 2) d)"
proof -
  have n: "nat (int (length d) - int (length b) - 2) = length d - length b - 2" "nat (int (length d) - 2) = length d - 2" using assms by linarith+
  show ?thesis using assms n by (intro exI [of _ "b @ drop (length b) d"]) (auto simp: copy_at_def)
qed

text \<open>A new item with the number takes the place of the item \<open>p\<close>, which is still held.\<close>

lemma delta_replace:
  assumes ok: "refs_ok cs (holding p (holding new_it H))" and p: "p \<noteq> NULL" "load (items cs) p = Some k"
    and new: "new_it \<noteq> NULL" "new_it \<notin># holding p H" "new_it \<notin> ran (lookup cs)" "load (items cs) new_it = Some n" "ITEM_key n = ITEM_key k" "length (it_data n) = length b + 2"
    and key: "lookup cs (ITEM_key k) \<in> {None, Some p}"
  obtains cs' n' where "(do {
       cs \<leftarrow> write_data new_it 0 b (int (length b)) cs;
       cs \<leftarrow> write_data new_it (int (length b)) [13, 10] 2 cs;
       cs \<leftarrow> do_item_replace_del p new_it cs;
       do_item_remove_del new_it cs }) = Some cs'" "refs_ok cs' (holding p H)" "kept (live cs' (holding p H) - {new_it}) cs cs'"
    "lookup cs' = (lookup cs)(ITEM_key k \<mapsto> new_it)" "load (items cs') new_it = Some n'" "it_data n' = b @ [13, 10]" "nbytes n' = nbytes n"
    "exptime n' = exptime n" "ITEM_key n' = ITEM_key k"
proof -
  let ?H = "holding p (holding new_it H)"
  have mem: "new_it \<in># ?H" "p \<in># ?H" using new(1) p(1) by (auto simp: holding_def)
  have np: "new_it \<noteq> p" using new(2) p(1) by (auto simp: holding_def)
  obtain d1 where c: "copy_at 0 b (int (length b)) (it_data n) = Some d1" "copy_at (int (length b)) [13, 10] 2 (it_data (n\<lparr> it_data := d1 \<rparr>)) = Some (b @ [13, 10])"
    using copy_number [OF new(6)] by auto
  obtain cs1 where w: "write_data new_it 0 b (int (length b)) cs = Some cs1" "refs_ok cs1 ?H" "kept (live cs1 ?H - {new_it}) cs cs1" "lookup cs1 = lookup cs"
    "load (items cs1) new_it = Some (n\<lparr> it_data := d1 \<rparr>)" by (rule map_write [OF ok mem(1) new(4) c(1)])
  obtain cs2 where w2: "write_data new_it (int (length b)) [13, 10] 2 cs1 = Some cs2" "refs_ok cs2 ?H" "kept (live cs2 ?H - {new_it}) cs1 cs2" "lookup cs2 = lookup cs1"
    "load (items cs2) new_it = Some (n\<lparr> it_data := d1 \<rparr>\<lparr> it_data := b @ [13, 10] \<rparr>)" by (rule map_write [OF w(2) mem(1) w(5) c(2)])
  have lv: "live cs1 ?H = live cs ?H" "live cs2 ?H = live cs ?H" using w(4) w2(4) by (simp_all add: live_def)
  have k02: "kept (live cs ?H - {new_it}) cs cs2" using kept_trans [OF w(3) w2(3)] lv by simp
  obtain k2 where k2: "load (items cs2) p = Some k2" "payload k2 = payload k" by (rule kept_load [OF k02 _ p(2)]) (use mem np in \<open>auto simp: live_def\<close>)
  let ?n = "n\<lparr> it_data := d1 \<rparr>\<lparr> it_data := b @ [13, 10] \<rparr>"
  have kk: "ITEM_key k2 = ITEM_key k" "ITEM_key ?n = ITEM_key k2" using payload_parts(1) [OF k2(2)] new(5) by (simp_all add: ITEM_key_def)
  have l2: "lookup cs2 = lookup cs" using w(4) w2(4) by simp
  have lk: "lookup cs2 (ITEM_key k2) \<in> {None, Some p}" "lookup cs2 (ITEM_key k2) \<noteq> Some new_it" using key new(3) kk(1) unfolding l2 by (auto simp: ran_def)
  obtain cs3 n' where r: "do_item_replace_del p new_it cs2 = Some cs3" "refs_ok cs3 ?H" "kept (live cs3 ?H - {new_it}) cs2 cs3" "same_settings cs2 cs3"
    "cas_id cs3 = next_cas cs2 ?n" "lookup cs3 = (lookup cs2)(ITEM_key k2 \<mapsto> new_it)" "load (items cs3) new_it = Some n'"
    "payload n' = (payload ?n)\<lparr> it_cas := link_cas cs2 ?n \<rparr>" by (rule map_replace [OF w2(2) mem(2) k2(1) mem(1) w2(5) kk(2) lk])
  obtain cs4 where v: "do_item_remove_del new_it cs3 = Some cs4" "refs_ok cs4 (?H - {#new_it#})" "kept (live cs4 (?H - {#new_it#})) cs3 cs4" "lookup cs4 = lookup cs3"
    by (rule map_remove [OF r(2) mem(1)])
  have H: "?H - {#new_it#} = holding p H" using new(1) np p(1) by (simp add: holding_def)
  have lv4: "new_it \<in> live cs4 (holding p H)" using v(4) r(6) by (auto simp: live_def ran_def)
  obtain n4 where n4: "load (items cs4) new_it = Some n4" "payload n4 = payload n'" by (rule kept_load [OF v(3) _ r(7)]) (use lv4 H in simp)
  have parts: "it_data n4 = b @ [13, 10]" "nbytes n4 = nbytes n" "exptime n4 = exptime n" "ITEM_key n4 = ITEM_key n"
    using trans [OF n4(2) r(8)] by (cases n4; cases n; simp add: payload_def contents_def body_def ITEM_key_def)+
  have l4: "lookup cs4 = (lookup cs)(ITEM_key k \<mapsto> new_it)" using v(4) r(6) l2 kk(1) by simp
  have sub: "live cs4 (holding p H) - {new_it} \<subseteq> live cs ?H - {new_it}" "live cs4 (holding p H) - {new_it} \<subseteq> live cs3 ?H - {new_it}"
  proof -
    have "ran (lookup cs4) - {new_it} \<subseteq> ran (lookup cs)" unfolding l4 by (auto simp: ran_def split: if_splits)
    then show "live cs4 (holding p H) - {new_it} \<subseteq> live cs ?H - {new_it}" by (auto simp: live_def holding_def)
    show "live cs4 (holding p H) - {new_it} \<subseteq> live cs3 ?H - {new_it}" using v(4) by (auto simp: live_def holding_def)
  qed
  have "kept (live cs4 (holding p H) - {new_it}) cs3 cs4" using v(3) H kept_mono by (metis Diff_subset)
  then have "kept (live cs4 (holding p H) - {new_it}) cs2 cs4" by (rule kept_trans [OF r(3) _ sub(2)]) simp
  then have "kept (live cs4 (holding p H) - {new_it}) cs cs4" by (rule kept_trans [OF k02 _ sub(1)]) simp
  then show ?thesis using that [of cs4 n4] w(1) w2(1) r(1) v(1,2) H l4 n4(1) parts new(5) by simp
qed

lemma delta_realloc_spec:
  assumes L: "looked_up cs p j H p cs1" and p: "p \<noteq> NULL" "load (items cs) p = Some j" "load (items cs1) p = Some k" "payload k = payload j" and rest: "holder_rest cs H"
    and young: "young cs j" and fresh: "\<And>n. length (fresh_data cs n) = n" and key: "length (ITEM_key j) \<le> 250" and flags: "has_flags fl j"
  obtains stored cs' where "delta_realloc p k after b cs1 = Some (stored, cs')"
    "\<not> stored \<longrightarrow> refs_ok cs' H \<and> lookup cs' \<subseteq>\<^sub>m lookup cs \<and> kept (live cs' H) cs cs'"
    "stored \<longrightarrow> refs_ok cs' (holding p H) \<and> (\<exists>new_it n. kept (live cs' (holding p H) - {new_it}) cs1 cs' \<and> new_it \<notin># holding p H \<and>
       lookup cs' \<subseteq>\<^sub>m (lookup cs)(ITEM_key j \<mapsto> new_it) \<and> lookup cs' (ITEM_key j) = Some new_it \<and> load (items cs') new_it = Some n \<and>
       it_data n = b @ [13, 10] \<and> nbytes n = int (length b) + 2 \<and> exptime n = exptime j \<and> ITEM_key n = ITEM_key j)"
proof -
  note l = looked_upD [OF L]
  note pk = payload_parts [OF p(4)]
  have f: "found cs (ITEM_key j) = Some p" using l(5) p(1) by simp
  have same: "lookup cs1 = lookup cs" "lookup cs (ITEM_key j) = Some p" using f l(4) by (auto simp: found_def fun_upd_idem split: option.splits if_splits)
  have fl: "int_of_string (tl (it_suffix k) @ it_data k @ after) = Some fl" using has_flags_read(2) [OF flags] pk(6) by simp
  have nb: "0 \<le> int (length b) + 2" by simp
  have yj: "\<And>j'. load (items cs) p = Some j' \<Longrightarrow> young cs j'" using young p(2) by simp
  obtain new_it cs2 where a: "do_item_alloc_del (ITEM_key j) fl (exptime k) (int (length b) + 2) cs1 = Some (new_it, cs2)" "lookup cs2 \<subseteq>\<^sub>m lookup cs1"
      "kept (live cs2 (holding p H)) cs1 cs2" "settings_kept cs1 cs2" "new_it = NULL \<longrightarrow> refs_ok cs2 (holding p H)" and
      b: "new_it \<noteq> NULL \<longrightarrow> refs_ok cs2 (holding p (holding new_it H)) \<and> new_it \<notin># holding p H \<and> new_it \<notin> ran (lookup cs2) \<and>
       (\<exists>n. load (items cs2) new_it = Some n \<and> ITEM_key n = ITEM_key j \<and> nbytes n = int (length b) + 2 \<and> exptime n = exptime k \<and> length (it_data n) = nat (int (length b) + 2))"
      by (rule alloc_beside [OF L p(1) rest yj fresh nb key])
  show ?thesis
  proof (cases "new_it = NULL")
    case True
    with a(5) have "refs_ok cs2 (holding p H)" by simp
    then obtain cs' where r: "release p cs2 = Some cs'" "refs_ok cs' H" "kept (live cs' H) cs2 cs'" "lookup cs' = lookup cs2" by (rule release_spec)
    have sub: "live cs' H \<subseteq> live cs2 (holding p H)" "live cs' H \<subseteq> live cs1 H"
      using r(4) a(2) by (auto simp: live_def holding_def ran_def map_le_def dom_def) metis
    have "kept (live cs' H) cs1 cs'" by (rule kept_trans [OF a(3) r(3) sub(1)]) simp
    then have "kept (live cs' H) cs cs'" by (rule kept_trans [OF l(2) _ sub(2)]) simp
    moreover have "delta_realloc p k after b cs1 = Some (False, cs')" using fl a(1) pk(1) True r(1) p(1) by (simp add: delta_realloc_def release_def)
    ultimately show ?thesis using that [of False cs'] r(2,4) a(2) same(1) by simp
  next
    case False
    with b obtain n where n: "refs_ok cs2 (holding p (holding new_it H))" "new_it \<notin># holding p H" "new_it \<notin> ran (lookup cs2)"
      "load (items cs2) new_it = Some n" "ITEM_key n = ITEM_key j" "nbytes n = int (length b) + 2" "exptime n = exptime k" "length (it_data n) = nat (int (length b) + 2)" by blast
    obtain k2 where k2: "load (items cs2) p = Some k2" "payload k2 = payload k" by (rule kept_load [OF a(3) _ p(3)]) (use p(1) in \<open>simp add: live_def holding_def\<close>)
    have kk: "ITEM_key k2 = ITEM_key j" using payload_parts(1) [OF k2(2)] pk(1) by simp
    have in2: "lookup cs2 (ITEM_key k2) \<in> {None, Some p}" using a(2) same unfolding kk by (cases "lookup cs2 (ITEM_key j)") (auto simp: map_le_def dom_def)
    have len: "length (it_data n) = length b + 2" "ITEM_key n = ITEM_key k2" using n(5,8) kk by simp_all
    obtain cs' n' where d: "(do {
       cs \<leftarrow> write_data new_it 0 b (int (length b)) cs2;
       cs \<leftarrow> write_data new_it (int (length b)) [13, 10] 2 cs;
       cs \<leftarrow> do_item_replace_del p new_it cs;
       do_item_remove_del new_it cs }) = Some cs'" "refs_ok cs' (holding p H)" "kept (live cs' (holding p H) - {new_it}) cs2 cs'"
      "lookup cs' = (lookup cs2)(ITEM_key k2 \<mapsto> new_it)" "load (items cs') new_it = Some n'" "it_data n' = b @ [13, 10]" "nbytes n' = nbytes n"
      "exptime n' = exptime n" "ITEM_key n' = ITEM_key k2" by (rule delta_replace [OF n(1) p(1) k2(1) False n(2-4) len(2,1) in2])
    have "live cs' (holding p H) - {new_it} \<subseteq> live cs2 (holding p H)" unfolding live_def d(4) by (auto simp: ran_def split: if_splits)
    then have k: "kept (live cs' (holding p H) - {new_it}) cs1 cs'" using kept_trans [OF a(3) d(3)] by blast
    have le: "lookup cs' \<subseteq>\<^sub>m (lookup cs)(ITEM_key j \<mapsto> new_it)" using a(2) same(1) unfolding d(4) kk by (auto simp: map_le_def dom_def)
    have "delta_realloc p k after b cs1 = Some (True, cs')" using fl a(1) pk(1) False d(1) by (auto simp: delta_realloc_def Let_def split: bind_splits)
    then show ?thesis
    proof (rule that)
      have "\<exists>new_it n. kept (live cs' (holding p H) - {new_it}) cs1 cs' \<and> new_it \<notin># holding p H \<and>
         lookup cs' \<subseteq>\<^sub>m (lookup cs)(ITEM_key j \<mapsto> new_it) \<and> lookup cs' (ITEM_key j) = Some new_it \<and> load (items cs') new_it = Some n \<and>
         it_data n = b @ [13, 10] \<and> nbytes n = int (length b) + 2 \<and> exptime n = exptime j \<and> ITEM_key n = ITEM_key j"
        by (intro exI [of _ new_it] exI [of _ n']) (use k n(2,6,7) le d(4-9) kk pk(8) in simp)
      with d(2) show "True \<longrightarrow> refs_ok cs' (holding p H) \<and> (\<exists>new_it n. kept (live cs' (holding p H) - {new_it}) cs1 cs' \<and> new_it \<notin># holding p H \<and>
         lookup cs' \<subseteq>\<^sub>m (lookup cs)(ITEM_key j \<mapsto> new_it) \<and> lookup cs' (ITEM_key j) = Some new_it \<and> load (items cs') new_it = Some n \<and>
         it_data n = b @ [13, 10] \<and> nbytes n = int (length b) + 2 \<and> exptime n = exptime j \<and> ITEM_key n = ITEM_key j)" by blast
    qed simp
  qed
qed

definition padded :: "bytes \<Rightarrow> bytes \<Rightarrow> bytes" where
  "padded b d = b @ replicate (length d - length b - 2) 32 @ drop (length d - 2) d"

lemma delta_in_place_spec:
  assumes ok: "refs_ok cs H" and p: "p \<in># H" "load (items cs) p = Some k" and d: "data_ok k" "length b + 2 \<le> length (it_data k)"
  obtains cs' where "delta_in_place p k b cs = Some cs'" "refs_ok cs' H" "kept (live cs' H - {p}) cs cs'" "lookup cs' = lookup cs"
    "load (items cs') p = Some (k\<lparr> it_cas := link_cas cs k, it_data := padded b (it_data k) \<rparr>)"
proof -
  let ?k = "k\<lparr> it_cas := link_cas cs k \<rparr>"
  let ?cs = "cs\<lparr> items := upd (items cs) p ?k, cas_id := next_cas cs k \<rparr>"
  have t: "refs_ok ?cs H" "kept (live ?cs H - {p}) cs ?cs" "lookup ?cs = lookup cs" "load (items ?cs) p = Some ?k"
    by (rule map_touch [OF ok p]; simp add: view_defs)+
  have nb: "nat (nbytes k - int (length b) - 2) = length (it_data k) - length b - 2" "nbytes k = int (length (it_data k))" using d by (auto simp: data_ok_def)
  obtain d1 where c: "copy_at 0 b (int (length b)) (it_data ?k) = Some d1"
    "copy_at (int (length b)) (replicate (nat (nbytes k - int (length b) - 2)) 32) (nbytes k - int (length b) - 2) (it_data (?k\<lparr> it_data := d1 \<rparr>)) = Some (padded b (it_data k))"
    using copy_padded [OF d(2)] nb by (auto simp: padded_def)
  obtain cs1 where w: "write_data p 0 b (int (length b)) ?cs = Some cs1" "refs_ok cs1 H" "kept (live cs1 H - {p}) ?cs cs1" "lookup cs1 = lookup ?cs"
    "load (items cs1) p = Some (?k\<lparr> it_data := d1 \<rparr>)" by (rule map_write [OF t(1) p(1) t(4) c(1)])
  obtain cs2 where w2: "write_data p (int (length b)) (replicate (nat (nbytes k - int (length b) - 2)) 32) (nbytes k - int (length b) - 2) cs1 = Some cs2" "refs_ok cs2 H"
    "kept (live cs2 H - {p}) cs1 cs2" "lookup cs2 = lookup cs1" "load (items cs2) p = Some (?k\<lparr> it_data := d1 \<rparr>\<lparr> it_data := padded b (it_data k) \<rparr>)"
    by (rule map_write [OF w(2) p(1) w(5) c(2)])
  have lv: "live cs2 H = live cs1 H" "live cs1 H = live ?cs H" using w(4) w2(4) by (simp_all add: live_def)
  have "kept (live cs2 H - {p}) ?cs cs2" by (rule kept_trans [OF w(3) w2(3)]) (simp_all add: lv)
  then have "kept (live cs2 H - {p}) cs cs2" by (rule kept_trans [OF t(2)]) (simp_all add: lv)
  moreover have "delta_in_place p k b cs = Some cs2" using set_link_cas_eq [OF p(2)] w(1) w2(1) by (simp add: delta_in_place_def Let_def)
  ultimately show ?thesis using that [of cs2] w2(2,4,5) w(4) t(3) by simp
qed

text \<open>The outcome of an increment or decrement of the item \<open>j\<close> at \<open>p\<close>, which holds the number \<open>v\<close>.\<close>

definition delta_kept :: "addr multiset \<Rightarrow> cache \<Rightarrow> u64 option \<Rightarrow> u64 option \<Rightarrow> cache \<Rightarrow> bool" where
  "delta_kept H cs cas cas' cs' \<longleftrightarrow> lookup cs' = lookup cs \<and> kept (live cs' H) cs cs' \<and> cas' = cas"

definition delta_stored :: "bytes \<Rightarrow> addr \<Rightarrow> item \<Rightarrow> addr multiset \<Rightarrow> cache \<Rightarrow> u64 option \<Rightarrow> u64 option \<Rightarrow> cache \<Rightarrow> bool" where
  "delta_stored text p j H cs cas cas' cs' \<longleftrightarrow> (\<exists>q n. load (items cs') q = Some n \<and> lookup cs' (ITEM_key j) = Some q \<and>
     lookup cs' \<subseteq>\<^sub>m (lookup cs)(ITEM_key j \<mapsto> q) \<and> kept (live cs' H - {q}) cs cs' \<and>
     (if nbytes j < int (length text) + 2 \<or> p \<in># H
      then q \<noteq> p \<and> q \<notin># H \<and> it_data n = text @ [13, 10] \<and> nbytes n = int (length text) + 2 \<and> cas' = map_option (\<lambda>_. ITEM_get_cas j) cas
      else q = p \<and> it_data n = padded text (it_data j) \<and> nbytes n = nbytes j \<and> cas' = map_option (\<lambda>_. ITEM_get_cas n) cas))"

definition delta_outcome :: "bool \<Rightarrow> bool \<Rightarrow> bytes \<Rightarrow> addr \<Rightarrow> item \<Rightarrow> addr multiset \<Rightarrow> cache \<Rightarrow> u64 option \<Rightarrow>
    delta_result_type \<Rightarrow> bytes \<Rightarrow> u64 option \<Rightarrow> cache \<Rightarrow> bool" where
  "delta_outcome mismatch numeric text p j H cs cas r buf' cas' cs' \<longleftrightarrow> refs_ok cs' H \<and>
     (if mismatch then r = DELTA_ITEM_CAS_MISMATCH \<and> delta_kept H cs cas cas' cs'
      else if \<not> numeric then r = NON_NUMERIC \<and> delta_kept H cs cas cas' cs'
      else r = EOM \<and> lookup cs' \<subseteq>\<^sub>m lookup cs \<and> kept (live cs' H) cs cs' \<and> cas' = cas \<or>
        r = OK \<and> buf' = text @ [0] \<and> delta_stored text p j H cs cas cas' cs')"

lemma delta_refused:
  assumes L: "looked_up cs p j H p cs1" and p: "p \<noteq> NULL"
  obtains cs' where "do_item_remove_del p cs1 = Some cs'" "refs_ok cs' H" "delta_kept H cs cas cas cs'"
proof -
  note l = looked_upD [OF L]
  obtain cs' where r: "release p cs1 = Some cs'" "refs_ok cs' H" "kept (live cs' H) cs1 cs'" "settings_kept cs1 cs'" "lookup cs' = lookup cs1" by (rule release_spec [OF l(1)])
  have same: "lookup cs1 = lookup cs" using l(4,5) p by (auto simp: found_def fun_upd_idem split: option.splits if_splits)
  have "kept (live cs' H) cs cs'" by (rule kept_trans [OF l(2) r(3)]) (simp_all add: live_def r(5))
  then show ?thesis using that [of cs'] r(1,2,5) p same by (simp add: release_def delta_kept_def)
qed

text \<open>Giving back the item after the number was stored.\<close>

lemma delta_finish:
  assumes L: "looked_up cs p j H p cs1" and p: "p \<noteq> NULL" and c2: "refs_ok cs2 (holding p H)" "kept (live cs2 (holding p H) - {q}) cs1 cs2"
    and q: "load (items cs2) q = Some n" "lookup cs2 (ITEM_key j) = Some q" "lookup cs2 \<subseteq>\<^sub>m (lookup cs)(ITEM_key j \<mapsto> q)"
  obtains cs' n' where "do_item_remove_del p cs2 = Some cs'" "refs_ok cs' H" "load (items cs') q = Some n'" "payload n' = payload n" "lookup cs' = lookup cs2"
    "kept (live cs' H - {q}) cs cs'"
proof -
  note l = looked_upD [OF L]
  obtain cs' where r: "release p cs2 = Some cs'" "refs_ok cs' H" "kept (live cs' H) cs2 cs'" "settings_kept cs2 cs'" "lookup cs' = lookup cs2" by (rule release_spec [OF c2(1)])
  have "q \<in> live cs' H" using q(2) r(5) by (auto simp: live_def ran_def)
  then obtain n' where n': "load (items cs') q = Some n'" "payload n' = payload n" using kept_load [OF r(3) _ q(1)] by blast
  have same: "lookup cs1 = lookup cs" using l(4,5) p by (auto simp: found_def fun_upd_idem split: option.splits if_splits)
  have "ran (lookup cs') - {q} \<subseteq> ran (lookup cs1)"
  proof
    fix x assume "x \<in> ran (lookup cs') - {q}"
    then obtain a where a: "lookup cs2 a = Some x" "x \<noteq> q" using r(5) by (auto simp: ran_def)
    then have "((lookup cs)(ITEM_key j \<mapsto> q)) a = Some x" using q(3) unfolding map_le_def by (metis domI)
    then have "lookup cs a = Some x" using a(2) by (auto split: if_splits)
    then show "x \<in> ran (lookup cs1)" using same by (auto simp: ran_def)
  qed
  then have sub: "live cs' H - {q} \<subseteq> live cs2 (holding p H) - {q}" "live cs' H - {q} \<subseteq> live cs1 H" using r(5) by (auto simp: live_def holding_def)
  have "kept (live cs' H - {q}) cs1 cs'" by (rule kept_trans [OF c2(2) r(3) sub(1)]) blast
  then have "kept (live cs' H - {q}) cs cs'" by (rule kept_trans [OF l(2) _ sub(2)]) simp
  then show ?thesis using that [of cs' n'] r(1,2,5) n' p by (simp add: release_def)
qed

lemma delta_big:
  assumes L: "looked_up cs p j H p cs1" and p: "p \<noteq> NULL" "load (items cs) p = Some j" "load (items cs1) p = Some k" "payload k = payload j" and rest: "holder_rest cs H"
    and young: "young cs j" and fresh: "\<And>n. length (fresh_data cs n) = n" and key: "length (ITEM_key j) \<le> 250" and flags: "has_flags fl j"
    and big: "nbytes j < int (length text) + 2 \<or> p \<in># H"
  shows "\<exists>r cas' cs'. (do { res \<leftarrow> delta_realloc p k after text cs1; delta_reply p text cas c res }) = Some (r, text @ [0], cas', c, cs') \<and>
    delta_outcome False True text p j H cs cas r (text @ [0]) cas' cs'"
proof -
  obtain stored cs2 where s: "delta_realloc p k after text cs1 = Some (stored, cs2)"
    "\<not> stored \<longrightarrow> refs_ok cs2 H \<and> lookup cs2 \<subseteq>\<^sub>m lookup cs \<and> kept (live cs2 H) cs cs2"
    "stored \<longrightarrow> refs_ok cs2 (holding p H) \<and> (\<exists>new_it n. kept (live cs2 (holding p H) - {new_it}) cs1 cs2 \<and> new_it \<notin># holding p H \<and>
       lookup cs2 \<subseteq>\<^sub>m (lookup cs)(ITEM_key j \<mapsto> new_it) \<and> lookup cs2 (ITEM_key j) = Some new_it \<and> load (items cs2) new_it = Some n \<and>
       it_data n = text @ [13, 10] \<and> nbytes n = int (length text) + 2 \<and> exptime n = exptime j \<and> ITEM_key n = ITEM_key j)"
    by (rule delta_realloc_spec [OF L p rest young fresh key flags])
  show ?thesis
  proof (cases stored)
    case False
    then show ?thesis using s(1,2) by (simp add: delta_outcome_def delta_reply_def)
  next
    case st: True
    with s(3) obtain q n where q: "refs_ok cs2 (holding p H)" "kept (live cs2 (holding p H) - {q}) cs1 cs2" "q \<notin># holding p H"
      "lookup cs2 \<subseteq>\<^sub>m (lookup cs)(ITEM_key j \<mapsto> q)" "lookup cs2 (ITEM_key j) = Some q" "load (items cs2) q = Some n"
      "it_data n = text @ [13, 10]" "nbytes n = int (length text) + 2" by blast
    have qp: "q \<noteq> p" "q \<notin># H" using q(3) p(1) by (auto simp: holding_def)
    obtain k2 where k2: "load (items cs2) p = Some k2" "payload k2 = payload k"
      by (rule kept_load [OF q(2) _ p(3)]) (use qp p(1) in \<open>auto simp: live_def holding_def\<close>)
    obtain cs' n' where z: "do_item_remove_del p cs2 = Some cs'" "refs_ok cs' H" "load (items cs') q = Some n'" "payload n' = payload n" "lookup cs' = lookup cs2"
      "kept (live cs' H - {q}) cs cs'" by (rule delta_finish [OF L p(1) q(1,2,6,5,4)])
    have "delta_stored text p j H cs cas (map_option (\<lambda>_. ITEM_get_cas k2) cas) cs'"
      unfolding delta_stored_def using z(3-6) q(4,5,7,8) qp big payload_parts(3,4) [OF z(4)] payload_cas(1) [OF k2(2)] payload_cas(1) [OF p(4)]
      by (intro exI [of _ q] exI [of _ n']) simp
    then show ?thesis using s(1) st k2(1) z(1,2) by (simp add: delta_outcome_def delta_reply_def)
  qed
qed

lemma delta_small:
  assumes L: "looked_up cs p j H p cs1" and p: "p \<noteq> NULL" "load (items cs1) p = Some k" "payload k = payload j" and d: "data_ok j"
    and small: "int (length text) + 2 \<le> nbytes j" "p \<notin># H"
  shows "\<exists>cas' cs'. (do { cs \<leftarrow> delta_in_place p k text cs1; delta_reply p text cas c (True, cs) }) = Some (OK, text @ [0], cas', c, cs') \<and>
    delta_outcome False True text p j H cs cas OK (text @ [0]) cas' cs'"
proof -
  note l = looked_upD [OF L] note pk = payload_parts [OF p(3)]
  have ph: "p \<in># holding p H" using p(1) by (simp add: holding_def)
  have dk: "data_ok k" "length text + 2 \<le> length (it_data k)" using d pk(3,4) small by (auto simp: data_ok_def)
  obtain cs2 where s: "delta_in_place p k text cs1 = Some cs2" "refs_ok cs2 (holding p H)" "kept (live cs2 (holding p H) - {p}) cs1 cs2" "lookup cs2 = lookup cs1"
    "load (items cs2) p = Some (k\<lparr> it_cas := link_cas cs1 k, it_data := padded text (it_data k) \<rparr>)" by (rule delta_in_place_spec [OF l(1) ph p(2) dk])
  have lk: "lookup cs2 (ITEM_key j) = Some p" "lookup cs2 \<subseteq>\<^sub>m (lookup cs)(ITEM_key j \<mapsto> p)"
    using s(4) l(4,5) p(1) by (auto simp: map_le_def found_def split: option.splits if_splits)
  obtain cs' n' where z: "do_item_remove_del p cs2 = Some cs'" "refs_ok cs' H" "load (items cs') p = Some n'"
    "payload n' = payload (k\<lparr> it_cas := link_cas cs1 k, it_data := padded text (it_data k) \<rparr>)" "lookup cs' = lookup cs2"
    "kept (live cs' H - {p}) cs cs'" by (rule delta_finish [OF L p(1) s(2,3,5) lk])
  have "delta_stored text p j H cs cas (map_option (\<lambda>_. ITEM_get_cas (k\<lparr> it_cas := link_cas cs1 k, it_data := padded text (it_data k) \<rparr>)) cas) cs'"
    unfolding delta_stored_def using z(3,5,6) lk small payload_parts(3,4) [OF z(4)] payload_cas(1) [OF z(4)] pk(3,4)
    by (intro exI [of _ p] exI [of _ n']) simp
  then show ?thesis using s(1,5) z(1,2) by (simp add: delta_outcome_def delta_reply_def)
qed

lemma add_delta_outcome:
  assumes ok: "refs_ok cs H" "holder_rest cs H" and H: "\<forall>x. count H x < 65535" and f: "found cs key = Some p" and j: "load (items cs) p = Some j"
    and fresh: "\<forall>n. length (fresh_data cs n) = n" and d: "data_ok j" "young cs j" "has_flags fl j" "length key \<le> 250"
    and parse: "safe_strtoull (it_data j @ after) = Some (numeric, v)" and t: "text = digits (unat (delta_value incr delta v))"
    and mismatch: "mismatch = (case cas of None \<Rightarrow> False | Some w \<Rightarrow> w \<noteq> 0 \<and> ITEM_get_cas j \<noteq> w)"
  shows "\<exists>r buf' cas' c' cs'. do_add_delta_del c key incr delta cas after buf cs = Some (r, buf', cas', c', cs') \<and>
    delta_outcome mismatch numeric text p j H cs cas r buf' cas' cs'"
proof -
  obtain cs1 k where g: "do_item_get_del key cs = Some (p, cs1)" and L: "looked_up cs p j H p cs1" and k: "load (items cs1) p = Some k" "payload k = payload j"
    "ITEM_key j = key" "p \<noteq> NULL" "refcount k = 1 \<longleftrightarrow> p \<notin># H" "link_cas cs1 k = link_cas cs j" by (rule look_up_found [OF ok(1) H f j])
  note pk = payload_parts [OF k(2)] payload_cas(1) [OF k(2)]
  have mm: "(case cas of None \<Rightarrow> False | Some w \<Rightarrow> w \<noteq> 0 \<and> ITEM_get_cas k \<noteq> w) = mismatch" using mismatch pk(11) by (simp split: option.splits)
  show ?thesis
  proof (cases "mismatch \<or> \<not> numeric")
    case True
    obtain cs' where r: "do_item_remove_del p cs1 = Some cs'" "refs_ok cs' H" "delta_kept H cs cas cas cs'" by (rule delta_refused [OF L k(4)])
    then show ?thesis using True g k(1,4) mm parse pk(4) by (auto simp: do_add_delta_del_def delta_outcome_def split: bind_splits)
  next
    case False
    let ?big = "nbytes j < int (length text) + 2 \<or> p \<in># H"
    let ?c = "count_delta incr (unat (it_clsid k)) c"
    have run: "do_add_delta_del c key incr delta cas after buf cs = (if ?big then do { res \<leftarrow> delta_realloc p k after text cs1; delta_reply p text cas ?c res }
        else do { cs \<leftarrow> delta_in_place p k text cs1; delta_reply p text cas ?c (True, cs) })"
      unfolding do_add_delta_del_def Let_def t using False g k(1,4,5) mm parse pk(3,4) by simp
    show ?thesis
    proof (cases ?big)
      case True
      have "length (ITEM_key j) \<le> 250" using d(4) k(3) by simp
      from delta_big [OF L k(4) j k(1,2) ok(2) d(2) _ this d(3) True, of after cas ?c] fresh False run True show ?thesis by auto
    next
      case small: False
      then have "int (length text) + 2 \<le> nbytes j" "p \<notin># H" by auto
      from delta_small [OF L k(4,1,2) d(1) this, of cas ?c] False run small show ?thesis by auto
    qed
  qed
qed

subsection \<open>The commands\<close>

text \<open>
  C15: The storage commands store what they are asked to. In every state of the cache that clients
  reach, \<open>do_store_item_del\<close> with a new item of a client returns for set, add, replace and cas exactly
  the verdict that follows from whether an item is found under the key and from the two CAS ids.
  If the verdict is \<open>STORED\<close> the new item is found under its key afterwards, with a new CAS id, which is reported to the client;
  otherwise the map is that of a look-up. Items that are held or found keep their contents, and the function keeps no reference.
\<close>

theorem store_item_correct:
  assumes "start cs0" "cache_step\<^sup>*\<^sup>* (cs0, {#}) (cs, H)" "\<forall>x. count H x < 65535" and "it \<in># H" "load (items cs) it = Some i" "\<not> has_flag ITEM_LINKED i"
    and "comm \<in> {NREAD_ADD, NREAD_SET, NREAD_REPLACE, NREAD_CAS}"
  shows "let r = store_verdict comm (found_cas cs (ITEM_key i)) (ITEM_get_cas i) in
    \<exists>c' cs'. do_store_item_del it comm c cs = Some (r, c', cs') \<and> store_outcome r it i H cs c' cs'"
proof -
  note ok = run_refs_ok [OF assms(1,2)]
  have "lookup cs (ITEM_key i) \<noteq> Some it" using held_linked [OF ok(1) assms(4,5)] assms(6) by simp
  from store_item_outcome [OF ok(1) assms(4,5) this assms(3,7) refl, of c] show ?thesis unfolding Let_def by metis
qed



subsection \<open>A run\<close>

definition new_conn :: conn where
  "new_conn = \<lparr> c_cas = 0, cas_misses = 0, cas_hits = (\<lambda>_. 0), cas_badval = (\<lambda>_. 0), incr_hits = (\<lambda>_. 0), decr_hits = (\<lambda>_. 0) \<rparr>"

text \<open>A client allocates an item, writes a number into it and links it.\<close>

definition five :: bytes where "five = [53, 32, 32, 32, 32, 32, 32, 32, 13, 10]"

lemma linked_time:
  assumes ok: "refs_ok cs H" and it: "it \<in># H" "load (items cs) it = Some i" "lookup cs (ITEM_key i) = None"
    and l: "do_item_link_del it cs = Some cs'" "load (items cs') it = Some i'"
  shows "it_time i' = current_time cs"
proof -
  obtain C U Q where sys: "sys_ok cs H C U Q" "cache_inv cs C U Q" by (rule refs_okE [OF ok])
  obtain c where c: "it \<in> U c" "item_wf i" using held_in_use [OF sys(1) it(1)] it(2) by (metis option.inject)
  have "\<not> has_flag ITEM_LINKED i" using held_linked [OF ok it(1,2)] it(3) by simp
  then have nm: "it \<notin> members C" using inv_item [OF sys(2) c(1)] it(2) by (metis option.inject)
  have new: "ITEM_key i \<notin> hc.key_at (items cs) ` members C" by (rule lookup_none [OF cache_invD(1) [OF sys(2)] it(3)])
  have "body i' = (body i)\<lparr> it_flags := it_flags i OR ITEM_LINKED, it_time := current_time cs, it_cas := link_cas cs i \<rparr>"
    by (rule do_item_link_spec [OF sys(2) c(1) nm it(2) c(2) new]) (use l in auto)
  then show ?thesis by (cases i'; cases i; simp add: body_def)
qed

lemma linked_run:
  "\<exists>cs i. cache_step\<^sup>*\<^sup>* (start_cache, {#}) (cs, {#1#}) \<and> load (items cs) 1 = Some i \<and> ITEM_key i = [1, 2] \<and> it_data i = five \<and> nbytes i = 10 \<and>
     has_flags 0 i \<and> young cs i \<and> found cs [1, 2] = Some 1 \<and> (\<forall>n. length (fresh_data cs n) = n)"
proof -
  obtain cs i c where run: "cache_step\<^sup>*\<^sup>* (start_cache, {#}) (cs, {#1#})" and i: "load (items cs) 1 = Some i" "new_item start_cache c [1, 2] 0 0 10 i"
    "\<not> has_flag ITEM_LINKED i" and st: "same_settings start_cache cs"
    and al: "do_item_alloc_del [1, 2] 0 0 10 start_cache = Some (1, cs)" using start_run by blast
  let ?i = "i\<lparr> it_data := five \<rparr>" and ?cs = "cs\<lparr> items := upd (items cs) 1 (i\<lparr> it_data := five \<rparr>) \<rparr>"
  have one: "1 \<in># {#1#}" by simp
  have "call (cs, {#1#}) (?cs, {#1#})" by (rule call.fill [OF one i(1)])
  moreover have ld: "load (items ?cs) 1 = Some ?i" by (simp add: heap_simps)
  then have "holder_rest ?cs {#1#}" using i(3) by (simp add: holder_rest_def has_flag_def)
  ultimately have run2: "cache_step\<^sup>*\<^sup>* (start_cache, {#}) (?cs, {#1#})" using run by (simp add: cache_step_def rtranclp.rtrancl_into_rtrancl)
  have nl: "\<not> has_flag ITEM_LINKED ?i" using i(3) by (simp add: has_flag_def)
  note ok = run_refs_ok [OF start_cache_start run] run_refs_ok [OF start_cache_start run2]
  have ok0: "refs_ok start_cache {#}" "holder_rest start_cache {#}" using start_sys_ok [OF start_cache_start] by (auto simp: refs_ok_def holder_rest_def)
  have "lookup cs \<subseteq>\<^sub>m lookup start_cache" by (rule map_alloc [OF ok0, of "[1, 2]" 0 0 10]) (use al in simp)
  moreover have "lookup start_cache k = None" for k
    using lookup_iff [of start_cache "\<lambda>_. []" k] small_table_rep by (cases "lookup start_cache k") (auto simp: start_cache_def members_def)
  ultimately have "lookup cs k = None" for k by (cases "lookup cs k") (auto simp: map_le_def dom_def)
  moreover have "lookup ?cs = lookup cs" by (rule map_touch(3) [OF ok(1) one i(1), of ?i _ "cas_id cs"]) (simp_all add: view_defs)
  ultimately have none: "lookup ?cs k = None" for k by simp
  have key: "ITEM_key ?i = [1, 2]" using i(2) by (simp add: new_item_def ITEM_key_def)
  obtain cs' i' where l: "do_item_link_del 1 ?cs = Some cs'" "same_settings ?cs cs'" "lookup cs' = (lookup ?cs)(ITEM_key ?i \<mapsto> 1)" "load (items cs') 1 = Some i'"
    "payload i' = (payload ?i)\<lparr> it_cas := link_cas ?cs ?i \<rparr>" by (rule map_link [OF ok(3) one ld none])
  have parts: "it_data i' = five" "nbytes i' = nbytes i" "it_suffix i' = it_suffix i" "exptime i' = exptime i" "ITEM_key i' = ITEM_key ?i"
    using l(5) by (cases i'; cases i; simp add: payload_def contents_def body_def ITEM_key_def)+
  have time: "it_time i' = current_time cs" using linked_time [OF ok(3) one ld none l(1,4)] by simp
  have "oldest_live cs' = 0" "current_time cs' = 2" "current_time cs = 2" "\<forall>n. length (fresh_data cs' n) = n" "exptime i = 0" "nbytes i = 10"
    using l(2) st i(2) by (simp_all add: same_settings_def start_cache_def new_item_def)
  note vals = this
  have yg: "young cs' i'" using vals time by (simp add: young_def TAIL_REPAIR_TIME_def)
  have "found cs' [1, 2] = Some 1" using l(3,4) key vals parts(4) by (simp add: found_def stale_def flushed_def expired_def)
  moreover have "has_flags 0 i'"
  proof -
    have "it_suffix i = [32, 48, 32, 56, 13, 10]" using i(2) header_small by (simp add: new_item_def)
    then show ?thesis using parts(3) by (simp add: has_flags_def c_int_def INT_MIN_def INT_MAX_def show_int_def digits.simps)
  qed
  moreover have "call (?cs, {#1#}) (cs', {#1#})"
  proof (rule call.link [OF one ld nl _ l(1)])
    obtain C U Q where sys: "cache_inv ?cs C U Q" by (rule refs_okE [OF ok(3)])
    obtain q where q: "assoc_find (ITEM_key ?i) (table ?cs) (items ?cs) = Some q" using assoc_find_spec [OF cache_invD(1) [OF sys], of "ITEM_key ?i"] by metis
    then show "assoc_find (ITEM_key ?i) (table ?cs) (items ?cs) = Some NULL" using none [of "ITEM_key ?i"] by (auto simp: lookup_def split: if_splits)
  qed
  moreover have "holder_rest cs' {#1#}" using l(4) yg by (simp add: holder_rest_def)
  ultimately show ?thesis using run2 l(4) parts key vals yg
    by (intro exI [of _ cs'] exI [of _ i'] conjI) (auto simp: cache_step_def intro: rtranclp.rtrancl_into_rtrancl)
qed

theorem store_item_correct_witness:
  "\<exists>cs i c' cs'. cache_step\<^sup>*\<^sup>* (start_cache, {#}) (cs, {#1#}) \<and> load (items cs) 1 = Some i \<and>
     do_store_item_del 1 NREAD_SET new_conn cs = Some (STORED, c', cs') \<and> store_outcome STORED 1 i {#1#} cs c' cs'"
proof -
  obtain cs i where r: "cache_step\<^sup>*\<^sup>* (start_cache, {#}) (cs, {#1#})" "load (items cs) 1 = Some i" "\<not> has_flag ITEM_LINKED i" using start_run by blast
  have h: "\<forall>x. count {#1#} x < 65535" "1 \<in># {#1#}" "NREAD_SET \<in> {NREAD_ADD, NREAD_SET, NREAD_REPLACE, NREAD_CAS}" by simp_all
  from store_item_correct [OF start_cache_start r(1) h(1,2) r(2,3) h(3), of new_conn] show ?thesis using r(1,2) by (auto simp: store_verdict_def)
qed



end
