(* ===== verification/Mc_Delegated.thy ===== *)
theory Mc_Delegated
  imports Mc_Store Ffwd_Ownership
begin

text \<open>
  \<open>memcached/memcached-1.4.6-ffwd/thread.c\<close>: the worker threads of memcached delegate the operations on
  the cache to server 0. A function that takes several arguments gets the address of a context in the
  frame of the worker, which waits until the function has returned; here the contents of the context
  are part of the request, and what the function leaves there is its result. A worker writes the
  value of a new item itself, and the clock is set by the main thread; both are steps of their own
  (\<open>Write_value\<close>, \<open>Set_current_time\<close>). Pointers have 64 bits.
\<close>

record mc_server =
  mc_cache :: cache
  mc_conns :: "u64 \<Rightarrow> conn"

datatype mc_fn =
    Func1 bytes int u32 int
  | Func3 bytes
  | Do_item_remove_del bool
  | Do_item_unlink_del
  | Do_item_update
  | Func9 addr nread u64
  | Do_item_flush_expired_del
  | Write_value addr bytes
  | Set_current_time u32 u32

fun store_code :: "store_item_type \<Rightarrow> u64" where
  "store_code NOT_STORED = 0"
| "store_code STORED = 1"
| "store_code EXISTS = 2"
| "store_code NOT_FOUND = 3"

definition with_cache :: "mc_server \<Rightarrow> cache option \<Rightarrow> (u64 \<times> mc_server) option" where
  "with_cache d cs = map_option (\<lambda>cs. (0, d\<lparr> mc_cache := cs \<rparr>)) cs"

definition with_item :: "mc_server \<Rightarrow> (addr \<times> cache) option \<Rightarrow> (u64 \<times> mc_server) option" where
  "with_item d res = map_option (\<lambda>(it, cs). (of_nat it, d\<lparr> mc_cache := cs \<rparr>)) res"

text \<open>The functions that the server executes, with their arguments.\<close>

definition func1 :: "bytes \<Rightarrow> int \<Rightarrow> u32 \<Rightarrow> int \<Rightarrow> mc_server \<Rightarrow> (u64 \<times> mc_server) option" where
  "func1 key fl ex nb d = with_item d (do_item_alloc_del key fl ex nb (mc_cache d))"

definition func3 :: "bytes \<Rightarrow> mc_server \<Rightarrow> (u64 \<times> mc_server) option" where
  "func3 key d = with_item d (do_item_get_del key (mc_cache d))"

definition item_remove :: "u64 \<Rightarrow> mc_server \<Rightarrow> (u64 \<times> mc_server) option" where
  "item_remove it d = with_cache d (do_item_remove_del (unat it) (mc_cache d))"

definition item_unlink :: "u64 \<Rightarrow> mc_server \<Rightarrow> (u64 \<times> mc_server) option" where
  "item_unlink it d = with_cache d (do_item_unlink_del (unat it) (mc_cache d))"

definition item_update :: "u64 \<Rightarrow> mc_server \<Rightarrow> (u64 \<times> mc_server) option" where
  "item_update it d = with_cache d (do_item_update (unat it) (mc_cache d))"

definition func9 :: "addr \<Rightarrow> nread \<Rightarrow> u64 \<Rightarrow> mc_server \<Rightarrow> (u64 \<times> mc_server) option" where
  "func9 it comm c d = do {
     (ret, conn, cs) \<leftarrow> do_store_item_del it comm (mc_conns d c) (mc_cache d);
     Some (store_code ret, d\<lparr> mc_cache := cs, mc_conns := (mc_conns d)(c := conn) \<rparr>) }"

definition item_flush_expired :: "mc_server \<Rightarrow> (u64 \<times> mc_server) option" where
  "item_flush_expired d = with_cache d (do_item_flush_expired_del (mc_cache d))"

fun mc_call :: "mc_fn \<Rightarrow> u64 list \<Rightarrow> mc_server \<Rightarrow> (u64 \<times> mc_server) option" where
  "mc_call (Func1 key fl ex nb) a d = func1 key fl ex nb d"
| "mc_call (Func3 key) a d = func3 key d"
| "mc_call (Do_item_remove_del stored) a d = item_remove (hd a) d"
| "mc_call Do_item_unlink_del a d = item_unlink (hd a) d"
| "mc_call Do_item_update a d = item_update (hd a) d"
| "mc_call (Func9 it comm c) a d = func9 it comm c d"
| "mc_call Do_item_flush_expired_del a d = item_flush_expired d"
| "mc_call (Write_value it v) a d = with_cache d (set_item it (\<lambda>i. i\<lparr> it_data := v \<rparr>) (mc_cache d))"
| "mc_call (Set_current_time t oldest) a d = Some (0, d\<lparr> mc_cache := (mc_cache d)\<lparr> current_time := t, oldest_live := oldest \<rparr> \<rparr>)"

lemmas mc_functions [simp] = func1_def func3_def item_remove_def item_unlink_def item_update_def func9_def item_flush_expired_def

subsection \<open>References\<close>

text \<open>
  A worker has a reference to an item because it has allocated it and not yet stored it (\<open>New\<close>), or
  because it has fetched or stored it (\<open>Ref\<close>). The argument of \<open>Do_item_remove_del\<close> says which of them it gives back.
\<close>

datatype item_ref = New (ref_addr: addr) | Ref (ref_addr: addr)

fun mc_uses :: "mc_fn \<Rightarrow> u64 list \<Rightarrow> item_ref multiset" where
  "mc_uses (Do_item_remove_del stored) a = {# if stored then Ref (unat (hd a)) else New (unat (hd a)) #}"
| "mc_uses Do_item_unlink_del a = {# Ref (unat (hd a)) #}"
| "mc_uses Do_item_update a = {# Ref (unat (hd a)) #}"
| "mc_uses (Func9 it comm c) a = {# New it #}"
| "mc_uses (Write_value it v) a = {# New it #}"
| "mc_uses _ a = {#}"

fun mc_takes :: "mc_fn \<Rightarrow> u64 list \<Rightarrow> item_ref multiset" where
  "mc_takes (Do_item_remove_del stored) a = {# if stored then Ref (unat (hd a)) else New (unat (hd a)) #}"
| "mc_takes (Func9 it comm c) a = {# New it #}"
| "mc_takes _ a = {#}"

fun mc_gives :: "mc_fn \<Rightarrow> u64 list \<Rightarrow> u64 \<Rightarrow> item_ref multiset" where
  "mc_gives (Func1 key fl ex nb) a r = (if r = 0 then {#} else {# New (unat r) #})"
| "mc_gives (Func3 key) a r = (if r = 0 then {#} else {# Ref (unat r) #})"
| "mc_gives (Func9 it comm c) a r = {# Ref it #}"
| "mc_gives _ a r = {#}"

fun mc_valid :: "mc_fn \<Rightarrow> u64 list \<Rightarrow> bool" where
  "mc_valid (Do_item_remove_del stored) a = (a \<noteq> [])"
| "mc_valid Do_item_unlink_del a = (a \<noteq> [])"
| "mc_valid Do_item_update a = (a \<noteq> [])"
| "mc_valid (Func9 it comm c) a = (comm \<in> {NREAD_ADD, NREAD_SET, NREAD_REPLACE, NREAD_CAS})"
| "mc_valid _ a = True"

abbreviation "ref_addrs H \<equiv> image_mset ref_addr H"

definition mc_inv :: "mc_server \<Rightarrow> item_ref multiset \<Rightarrow> bool" where
  "mc_inv d H \<longleftrightarrow> refs_ok (mc_cache d) (ref_addrs H) \<and> (\<forall>it. New it \<in># H \<longrightarrow> it \<notin> ran (lookup (mc_cache d)) \<and> count H (New it) = 1)"

text \<open>
  What the code assumes of the numbers: an item has fewer than 65535 references, no linked item that
  was last accessed more than three hours ago is held, and addresses have 64 bits.
\<close>

definition mc_room :: "mc_server \<Rightarrow> item_ref multiset \<Rightarrow> bool" where
  "mc_room d H \<longleftrightarrow> holder_rest (mc_cache d) (ref_addrs H) \<and> (\<forall>x. count (ref_addrs H) x < 65535) \<and>
     (\<forall>x i. load (items (mc_cache d)) x = Some i \<longrightarrow> x < 2 ^ 64)"

lemma mc_invI:
  assumes "refs_ok (mc_cache d) (ref_addrs H)" "\<And>it. New it \<in># H \<Longrightarrow> it \<notin> ran (lookup (mc_cache d)) \<and> count H (New it) = 1"
  shows "mc_inv d H"
  using assms by (simp add: mc_inv_def)

text \<open>Operations that keep the references and add nothing to the map.\<close>

lemma mc_inv_less:
  assumes "mc_inv d H" "refs_ok cs' (ref_addrs H)" "ran (lookup cs') \<subseteq> ran (lookup (mc_cache d))"
  shows "mc_inv (d\<lparr> mc_cache := cs' \<rparr>) H"
  using assms by (auto simp: mc_inv_def)

lemma ran_upd_None: "ran (m(k := None)) \<subseteq> ran m"
  by (auto simp: ran_def split: if_splits)

lemma ran_map_le: "m \<subseteq>\<^sub>m m' \<Longrightarrow> ran m \<subseteq> ran m'"
  by (force simp: map_le_def ran_def dom_def)

lemma ref_in: "{# x #} \<subseteq># H \<Longrightarrow> ref_addr x \<in># ref_addrs H"
  by simp

lemma word_addr: "it < 2 ^ 64 \<Longrightarrow> unat (of_nat it :: u64) = it" "it < 2 ^ 64 \<Longrightarrow> (of_nat it :: u64) = 0 \<longleftrightarrow> it = 0"
  by (simp_all add: unat_of_nat word_unat_eq_iff)

lemma mc_alloc_ok:
  assumes inv: "mc_inv d H" and room: "mc_room d H"
  obtains r d' where "mc_call (Func1 key fl ex nb) a d = Some (r, d')"
    "\<And>H'. mc_room d' H' \<Longrightarrow> mc_inv d' (H + mc_gives (Func1 key fl ex nb) a r)"
proof -
  have ok: "refs_ok (mc_cache d) (ref_addrs H)" "holder_rest (mc_cache d) (ref_addrs H)" using inv room by (auto simp: mc_inv_def mc_room_def)
  obtain it cs' where al: "do_item_alloc_del key fl ex nb (mc_cache d) = Some (it, cs')" "lookup cs' \<subseteq>\<^sub>m lookup (mc_cache d)"
    and n: "it = NULL \<longrightarrow> refs_ok cs' (ref_addrs H)"
    and s: "it \<noteq> NULL \<longrightarrow> it \<notin># ref_addrs H \<and> refs_ok cs' (add_mset it (ref_addrs H)) \<and> it \<notin> ran (lookup cs') \<and> (\<exists>c i. load (items cs') it = Some i \<and> new_item (mc_cache d) c key fl ex nb i \<and>
       unat (fst (item_make_header (of_nat (length key + 1)) fl nb) + (if use_cas (mc_cache d) then 8 else 0)) \<le> sc_size (slabclass (slab cs') c))"
    by (rule map_alloc [OF ok, of key fl ex nb])
  note less = ran_map_le [OF al(2)]
  let ?d = "d\<lparr> mc_cache := cs' \<rparr>"
  have "mc_inv ?d (H + mc_gives (Func1 key fl ex nb) a (of_nat it))" if r: "mc_room ?d H'" for H'
  proof (cases "it = NULL")
    case True
    then show ?thesis using mc_inv_less [OF inv _ less] n by simp
  next
    case False
    then have f: "it \<notin># ref_addrs H" "refs_ok cs' (add_mset it (ref_addrs H))" "it \<notin> ran (lookup cs')" and "\<exists>i. load (items cs') it = Some i" using s by blast+
    then have "it < 2 ^ 64" using r by (auto simp: mc_room_def)
    then have g: "mc_gives (Func1 key fl ex nb) a (of_nat it) = {# New it #}" using False word_addr [of it] by simp
    have nn: "New it \<notin># H" using f(1) by force
    show ?thesis unfolding g
      by (rule mc_invI) (use f less inv nn in \<open>auto simp: mc_inv_def not_in_iff split: if_splits\<close>)
  qed
  then show ?thesis using that [of "of_nat it" ?d] al(1) by (simp add: with_item_def)
qed

lemma mc_get_ok:
  assumes inv: "mc_inv d H" and room: "mc_room d H"
  obtains r d' where "mc_call (Func3 key) a d = Some (r, d')" "mc_inv d' (H + mc_gives (Func3 key) a r)"
    "found (mc_cache d) key = (if r = 0 then None else Some (unat r))"
proof -
  have ok: "refs_ok (mc_cache d) (ref_addrs H)" "\<forall>x. count (ref_addrs H) x < 65535" using inv room by (auto simp: mc_inv_def mc_room_def)
  obtain it cs' where g: "do_item_get_del key (mc_cache d) = Some (it, cs')" "refs_ok cs' (holding it (ref_addrs H))"
    "lookup cs' = (lookup (mc_cache d))(key := found (mc_cache d) key)" "found (mc_cache d) key = (if it = NULL then None else Some it)"
    and l: "it \<noteq> NULL \<longrightarrow> (\<exists>i. load (items (mc_cache d)) it = Some i \<and> load (items cs') it = Some (i\<lparr> refcount := refcount i + 1 \<rparr>) \<and> ITEM_key i = key) \<and>
      (\<forall>x. x \<noteq> it \<longrightarrow> load (items cs') x = load (items (mc_cache d)) x)"
    by (rule found_get [OF ok, of key])
  have lt: "it < 2 ^ 64" using l room by (cases "it = NULL") (auto simp: mc_room_def)
  note w = word_addr [OF lt]
  have sub: "ran (lookup cs') \<subseteq> ran (lookup (mc_cache d))" using g(3,4) by (auto simp: ran_def found_def split: if_splits option.splits)
  have "mc_inv (d\<lparr> mc_cache := cs' \<rparr>) (H + mc_gives (Func3 key) a (of_nat it))"
  proof (rule mc_invI)
    show "refs_ok (mc_cache (d\<lparr> mc_cache := cs' \<rparr>)) (ref_addrs (H + mc_gives (Func3 key) a (of_nat it)))" using g(2) w by (cases "it = 0") (simp_all add: holding_def)
    show "x \<notin> ran (lookup (mc_cache (d\<lparr> mc_cache := cs' \<rparr>))) \<and> count (H + mc_gives (Func3 key) a (of_nat it)) (New x) = 1"
      if "New x \<in># H + mc_gives (Func3 key) a (of_nat it)" for x using that inv sub by (auto simp: mc_inv_def split: if_splits)
  qed
  then show ?thesis using that [of "of_nat it" "d\<lparr> mc_cache := cs' \<rparr>"] g(1,4) w by (simp add: with_item_def)
qed

lemma mc_remove_ok:
  assumes inv: "mc_inv d H" and x: "x \<in># H" "ref_addr x = it"
  obtains cs' where "do_item_remove_del it (mc_cache d) = Some cs'" "mc_inv (d\<lparr> mc_cache := cs' \<rparr>) (H - {# x #})"
proof -
  have ok: "refs_ok (mc_cache d) (ref_addrs H)" "it \<in># ref_addrs H" using inv x by (auto simp: mc_inv_def)
  obtain cs' where r: "do_item_remove_del it (mc_cache d) = Some cs'" "refs_ok cs' (ref_addrs H - {# it #})" "lookup cs' = lookup (mc_cache d)"
    by (rule map_remove [OF ok])
  have "ref_addrs (H - {# x #}) = ref_addrs H - {# it #}" using x by (simp add: image_mset_Diff)
  then have "mc_inv (d\<lparr> mc_cache := cs' \<rparr>) (H - {# x #})"
  proof (intro mc_invI)
    fix y assume y: "New y \<in># H - {# x #}"
    then have "New y \<in># H" by (rule in_diffD)
    then have n: "y \<notin> ran (lookup (mc_cache d))" "count H (New y) = 1" using inv by (simp_all add: mc_inv_def)
    have "0 < count (H - {# x #}) (New y)" "count (H - {# x #}) (New y) \<le> count H (New y)" using y count_greater_zero_iff by (metis, simp)
    then show "y \<notin> ran (lookup (mc_cache (d\<lparr> mc_cache := cs' \<rparr>))) \<and> count (H - {# x #}) (New y) = 1" using n r(3) by simp
  qed (use r in simp)
  then show ?thesis using that r(1) by blast
qed

lemma mc_pointer_ok:
  assumes inv: "mc_inv d H" and x: "x \<in># H" "ref_addr x = it"
  shows "\<exists>cs'. do_item_unlink_del it (mc_cache d) = Some cs' \<and> mc_inv (d\<lparr> mc_cache := cs' \<rparr>) H"
    "\<exists>cs'. do_item_update it (mc_cache d) = Some cs' \<and> mc_inv (d\<lparr> mc_cache := cs' \<rparr>) H"
proof -
  have ok: "refs_ok (mc_cache d) (ref_addrs H)" "it \<in># ref_addrs H" using inv x by (auto simp: mc_inv_def)
  obtain i where i: "load (items (mc_cache d)) it = Some i" by (rule held_loaded [OF ok])
  obtain cs1 where u: "do_item_unlink_del it (mc_cache d) = Some cs1" "refs_ok cs1 (ref_addrs H)"
    "lookup cs1 = (if lookup (mc_cache d) (ITEM_key i) = Some it then (lookup (mc_cache d))(ITEM_key i := None) else lookup (mc_cache d))"
    by (rule map_unlink [OF ok i])
  have "ran (lookup cs1) \<subseteq> ran (lookup (mc_cache d))" using u(3) ran_upd_None [of "lookup (mc_cache d)"] by auto
  with u(1) mc_inv_less [OF inv u(2)] show "\<exists>cs'. do_item_unlink_del it (mc_cache d) = Some cs' \<and> mc_inv (d\<lparr> mc_cache := cs' \<rparr>) H" by blast
  obtain cs2 where p: "do_item_update it (mc_cache d) = Some cs2" "refs_ok cs2 (ref_addrs H)" "lookup cs2 = lookup (mc_cache d)" by (rule map_update [OF ok])
  with mc_inv_less [OF inv p(2)] show "\<exists>cs'. do_item_update it (mc_cache d) = Some cs' \<and> mc_inv (d\<lparr> mc_cache := cs' \<rparr>) H" by auto
qed

lemma mc_store_ok:
  assumes inv: "mc_inv d H" and room: "mc_room d H" and it: "New it \<in># H" and comm: "comm \<in> {NREAD_ADD, NREAD_SET, NREAD_REPLACE, NREAD_CAS}"
  obtains i r c' cs' where "load (items (mc_cache d)) it = Some i" "r = store_verdict comm (found_cas (mc_cache d) (ITEM_key i)) (ITEM_get_cas i)"
    "do_store_item_del it comm c (mc_cache d) = Some (r, c', cs')" "\<And>f. mc_inv (d\<lparr> mc_cache := cs', mc_conns := f \<rparr>) (H - {# New it #} + {# Ref it #})"
    "store_outcome r it i (ref_addrs H) (mc_cache d) c' cs'"
proof -
  have ok: "refs_ok (mc_cache d) (ref_addrs H)" "it \<in># ref_addrs H" "\<forall>x. count (ref_addrs H) x < 65535" and new: "it \<notin> ran (lookup (mc_cache d))" "count H (New it) = 1"
    using inv room it by (auto simp: mc_inv_def mc_room_def rev_image_eqI)
  obtain i where i: "load (items (mc_cache d)) it = Some i" by (rule held_loaded [OF ok(1,2)])
  have ne: "lookup (mc_cache d) (ITEM_key i) \<noteq> Some it" using new(1) by (auto simp: ran_def)
  obtain c' cs' where s: "do_store_item_del it comm c (mc_cache d) = Some (store_verdict comm (found_cas (mc_cache d) (ITEM_key i)) (ITEM_get_cas i), c', cs')"
    "store_outcome (store_verdict comm (found_cas (mc_cache d) (ITEM_key i)) (ITEM_get_cas i)) it i (ref_addrs H) (mc_cache d) c' cs'"
    by (rule store_item_outcome [OF ok(1,2) i ne ok(3) comm refl])
  let ?H = "H - {# New it #} + {# Ref it #}"
  have H: "ref_addrs ?H = ref_addrs H" using multi_member_split [OF it] by auto
  have sub: "ran (lookup cs') \<subseteq> insert it (ran (lookup (mc_cache d)))"
    using s(2) by (auto simp: store_outcome_def ran_def found_def split: if_splits option.splits)
  have ok': "refs_ok cs' (ref_addrs H)" using s(2) by (simp add: store_outcome_def)
  have "mc_inv (d\<lparr> mc_cache := cs', mc_conns := f \<rparr>) ?H" for f
  proof (rule mc_invI)
    show "refs_ok (mc_cache (d\<lparr> mc_cache := cs', mc_conns := f \<rparr>)) (ref_addrs ?H)" unfolding H using ok' by simp
    fix y assume "New y \<in># ?H"
    moreover obtain H0 where H0: "H = add_mset (New it) H0" using multi_member_split [OF it] by blast
    moreover have "New it \<notin># H0" using new(2) H0 by (simp add: not_in_iff)
    ultimately have y: "New y \<in># H0" "y \<noteq> it" by auto
    then have "y \<notin> ran (lookup (mc_cache d))" "count H0 (New y) = 1" using inv H0 by (auto simp: mc_inv_def)
    then show "y \<notin> ran (lookup (mc_cache (d\<lparr> mc_cache := cs', mc_conns := f \<rparr>))) \<and> count ?H (New y) = 1" using sub y(2) H0 by auto
  qed
  with s show ?thesis using that i by blast
qed

lemma mc_other_ok:
  assumes inv: "mc_inv d H"
  shows "\<exists>cs'. do_item_flush_expired_del (mc_cache d) = Some cs' \<and> mc_inv (d\<lparr> mc_cache := cs' \<rparr>) H"
    "New it \<in># H \<Longrightarrow> \<exists>cs'. set_item it (\<lambda>i. i\<lparr> it_data := v \<rparr>) (mc_cache d) = Some cs' \<and> mc_inv (d\<lparr> mc_cache := cs' \<rparr>) H"
    "mc_inv (d\<lparr> mc_cache := (mc_cache d)\<lparr> current_time := t, oldest_live := oldest \<rparr> \<rparr>) H"
proof -
  have ok: "refs_ok (mc_cache d) (ref_addrs H)" using inv by (simp add: mc_inv_def)
  obtain cs' where f: "do_item_flush_expired_del (mc_cache d) = Some cs'" "refs_ok cs' (ref_addrs H)" "lookup cs' \<subseteq>\<^sub>m lookup (mc_cache d)" by (rule map_flush [OF ok])
  with mc_inv_less [OF inv f(2) ran_map_le [OF f(3)]] show "\<exists>cs'. do_item_flush_expired_del (mc_cache d) = Some cs' \<and> mc_inv (d\<lparr> mc_cache := cs' \<rparr>) H" by blast
  show "\<exists>cs'. set_item it (\<lambda>i. i\<lparr> it_data := v \<rparr>) (mc_cache d) = Some cs' \<and> mc_inv (d\<lparr> mc_cache := cs' \<rparr>) H" if "New it \<in># H"
  proof -
    have it: "it \<in># ref_addrs H" using that by (force simp: image_iff)
    obtain i where i: "load (items (mc_cache d)) it = Some i" by (rule held_loaded [OF ok it])
    let ?cs = "(mc_cache d)\<lparr> items := upd (items (mc_cache d)) it (i\<lparr> it_data := v \<rparr>) \<rparr>"
    have t: "refs_ok ?cs (ref_addrs H)" "lookup ?cs = lookup (mc_cache d)"
      using map_touch(1,3) [OF ok it i, of "i\<lparr> it_data := v \<rparr>" ?cs "cas_id (mc_cache d)"] by (simp_all add: view_defs)
    show ?thesis using mc_inv_less [OF inv t(1)] t(2) i by (auto simp: set_item_Some)
  qed
  let ?cs = "(mc_cache d)\<lparr> current_time := t, oldest_live := oldest \<rparr>"
  have "refs_ok ?cs (ref_addrs H)" using ok sys_settings unfolding refs_ok_def by blast
  moreover have "lookup ?cs = lookup (mc_cache d)" by (simp add: lookup_def fun_eq_iff)
  ultimately show "mc_inv (d\<lparr> mc_cache := ?cs \<rparr>) H" using mc_inv_less [OF inv] by simp
qed

subsection \<open>One call\<close>

lemma mc_call_ok:
  assumes inv: "mc_inv d H" and room: "mc_room d H" and v: "mc_valid f a" and u: "mc_uses f a \<subseteq># H"
  obtains r d' where "mc_call f a d = Some (r, d')"
    "mc_room d' (H - mc_takes f a + mc_gives f a r) \<Longrightarrow> mc_inv d' (H - mc_takes f a + mc_gives f a r)"
proof (cases f)
  case (Func1 key fl ex nb)
  show ?thesis using mc_alloc_ok [OF inv room, of key fl ex nb a] that Func1 by (metis add.right_neutral diff_zero mc_takes.simps(3))
next
  case (Func3 key)
  then show ?thesis using mc_get_ok [OF inv room, of key a] that room by (metis add.right_neutral diff_zero mc_takes.simps(4))
next
  case (Do_item_remove_del st)
  let ?x = "if st then Ref (unat (hd a)) else New (unat (hd a))"
  have "?x \<in># H" using u Do_item_remove_del by auto
  moreover have "ref_addr ?x = unat (hd a)" by simp
  ultimately obtain cs' where "do_item_remove_del (unat (hd a)) (mc_cache d) = Some cs'" "mc_inv (d\<lparr> mc_cache := cs' \<rparr>) (H - {# ?x #})"
    by (rule mc_remove_ok [OF inv])
  then show ?thesis using that [of 0 "d\<lparr> mc_cache := cs' \<rparr>"] Do_item_remove_del by (simp add: with_cache_def)
next
  case Do_item_unlink_del
  then show ?thesis using mc_pointer_ok(1) [OF inv, of "Ref (unat (hd a))" "unat (hd a)"] u that by (auto simp: with_cache_def)
next
  case Do_item_update
  then show ?thesis using mc_pointer_ok(2) [OF inv, of "Ref (unat (hd a))" "unat (hd a)"] u that by (auto simp: with_cache_def)
next
  case (Func9 it comm c)
  have it: "New it \<in># H" and comm: "comm \<in> {NREAD_ADD, NREAD_SET, NREAD_REPLACE, NREAD_CAS}" using u v Func9 by simp_all
  obtain i r c' cs' where "do_store_item_del it comm (mc_conns d c) (mc_cache d) = Some (r, c', cs')"
    "\<And>f. mc_inv (d\<lparr> mc_cache := cs', mc_conns := f \<rparr>) (H - {# New it #} + {# Ref it #})" by (rule mc_store_ok [where c = "mc_conns d c", OF inv room it comm]) blast
  then show ?thesis using that [of "store_code r" "d\<lparr> mc_cache := cs', mc_conns := (mc_conns d)(c := c') \<rparr>"] Func9 by simp
next
  case Do_item_flush_expired_del
  then show ?thesis using mc_other_ok(1) [OF inv] that by (auto simp: with_cache_def)
next
  case (Write_value it w)
  then show ?thesis using mc_other_ok(2) [OF inv, of it w] u that by (auto simp: with_cache_def)
next
  case (Set_current_time t ol)
  then show ?thesis using mc_other_ok(3) [OF inv, where t = t and oldest = ol] that by simp
qed

interpretation mc: delegated_references mc_call mc_inv mc_room mc_valid mc_uses mc_takes mc_gives
proof unfold_locales
  show "mc_inv d' (H - mc_takes f a + mc_gives f a r)"
    if "mc_inv d H" "mc_room d H" "mc_valid f a" "mc_uses f a \<subseteq># H" "mc_call f a d = Some (r, d')" "mc_room d' (H - mc_takes f a + mc_gives f a r)" for d H f a r d'
    by (rule mc_call_ok [OF that(1-4)]) (use that(5,6) in simp)
  show "mc_call f a d \<noteq> None" if "mc_inv d H" "mc_room d H" "mc_valid f a" "mc_uses f a \<subseteq># H" for d H f a
    by (rule mc_call_ok [OF that]) simp
  show "mc_takes f a \<subseteq># mc_uses f a" for f a by (cases f) simp_all
  show "mc_valid f a \<and> mc_uses f a = mc_uses f args" if "mc_valid f args" "take (length args) a = args" for f args a
    using that hd_prefix [OF that(2)] by (cases f) auto
qed

text \<open>A state of the cache in which the clients have the references \<open>H\<close>.\<close>

definition cache_of :: "(mc_fn, mc_server) sys \<Rightarrow> cache" where
  "cache_of \<sigma> = mc_cache (sdata (servers \<sigma> 0))"


subsection \<open>A run\<close>

text \<open>One worker allocates an item; the server executes the request.\<close>

definition one_worker :: "(mc_fn, unit) sys" where
  "one_worker = \<lparr> servers = (\<lambda>v. \<lparr> chips = (\<lambda>s k. \<lparr> flag = 0, argc = 0, fptr = Do_item_update, argv = [0, 0, 0, 0, 0] \<rparr>),
       responses = (\<lambda>i. \<lparr> return_values = replicate 7 0, flags = 0 \<rparr>), old_client_flags = (\<lambda>s. 0), socket_client_flags = (\<lambda>s. 0),
       local_return_values = (\<lambda>i. replicate 8 0), spc = Head, sdata = () \<rparr>),
     clients = (\<lambda>c. \<lparr> chip = 0, slot = c, cmask = push_bit c 1, lflag = (\<lambda>v. 0), cpc = Idle \<rparr>), nservers = 1, nclients = 1, stop_flag = 0 \<rparr>"

definition mc_sys :: "(mc_fn, mc_server) sys" where
  "mc_sys = sys_data (\<lambda>v. \<lparr> mc_cache = start_cache, mc_conns = (\<lambda>_. new_conn) \<rparr>) one_worker"

abbreviation "first_alloc \<equiv> Func1 [1, 2] 0 0 10"

definition mc_trace :: "mc_fn event list" where
  "mc_trace = [Invoke 0 0 first_alloc [], Exec 0 0 0 first_alloc [0, 0, 0, 0, 0] 1]"

lemma mc_sys_initial: "initial True mc_sys"
  by (auto simp: initial_def mc_sys_def one_worker_def sys_data_def set_data_def NCLIENTS_def inj_on_def)

lemma mc_run:
  assumes "do_item_alloc_del [1, 2] 0 0 10 start_cache = Some (1, cs)"
  shows "\<exists>\<sigma>. ffwd_run True mc_call mc_sys mc_trace \<sigma>"
proof -
  let ?steps = "Call_from 0 0 first_alloc [] # replicate 5 (Client 0) @ replicate 3 (Server 0)"
  have "map_option fst (sched_run True (\<lambda>f a d. Some (1, d)) ?steps ([], one_worker)) = Some mc_trace" by code_simp
  then obtain \<sigma> where "sched_run True (\<lambda>f a d. Some (1, d)) ?steps ([], one_worker) = Some (mc_trace, \<sigma>)"
    by (auto simp del: sched_run.simps)
  then have "ffwd_run True (\<lambda>f a d. Some (1, d)) one_worker mc_trace \<sigma>" using sched_run_sound ffwd_run.start by blast
  moreover have "replay mc_call \<lparr> mc_cache = start_cache, mc_conns = (\<lambda>_. new_conn) \<rparr> (execs v mc_trace) \<noteq> None" for v
    using assms by (simp add: mc_trace_def with_item_def)
  ultimately show ?thesis using run_data [where D = "\<lambda>v. \<lparr> mc_cache = start_cache, mc_conns = (\<lambda>_. new_conn) \<rparr>"] unfolding mc_sys_def by blast
qed

lemma start_items:
  assumes "do_item_alloc_del [1, 2] 0 0 10 start_cache = Some (1, cs)" "load (items cs) x = Some i"
  shows "x = 1"
proof -
  obtain cs1 where "slabs_alloc 75 1 start_cache = Some (1, cs1)" "items cs1 = upd item_heap0 1 zero_item"
    by (simp add: slabs_alloc_def start_cache_def do_slabs_alloc_def one_class_eq Let_def no_slabs_def POWER_SMALLEST_def empty_class_def
      do_slabs_newslab_def grow_slab_list_def memory_allocate_def set_class_def slots_top_ok_def bump_malloc_def clear_page_def)
  moreover have "slab start_cache = one_class" "use_cas start_cache" by (simp_all add: start_cache_def)
  ultimately show ?thesis using one_class_clsid [of 75] start_reclaim header_small assms
    by (auto simp: do_item_alloc_del_def item_init_def set_item_def heap_simps item_heap0_def load_def upd_def LARGEST_ID_def POWER_LARGEST_def split: bind_splits if_splits)
qed

lemma mc_trace_refs:
  "held_refs mc_takes mc_gives 0 mc_sys [] = {#}" "held_refs mc_takes mc_gives 0 mc_sys [Invoke 0 0 first_alloc []] = {#}"
  "held_refs mc_takes mc_gives 0 mc_sys mc_trace = {# New 1 #}"
  by (simp_all add: held_refs_def held_by_def mc_trace_def mc_sys_def sys_data_def one_worker_def)


end
