(* ===== verification/Mc_Command.thy ===== *)
theory Mc_Command
  imports Mc_Util
begin

text \<open>
  \<open>memcached/memcached-1.4.6-ffwd/memcached.c\<close>: splitting a command line into tokens
  (\<open>tokenize_command\<close>), the option \<open>noreply\<close>, and expiration times (\<open>realtime\<close>). The command is a
  buffer of bytes in which blanks are overwritten by \<open>0\<close>; a token is its start in the buffer (\<open>None\<close>
  is the null pointer) and its length. \<open>None\<close> as a result is reading or writing out of range, or a failed assertion.
\<close>

definition MAX_TOKENS :: nat where "MAX_TOKENS = 8"

type_synonym token = "nat option \<times> nat"

subsection \<open>Tokens\<close>

function token_loop :: "nat \<Rightarrow> cstring \<Rightarrow> nat \<Rightarrow> nat \<Rightarrow> (nat \<times> nat) list \<Rightarrow> (cstring \<times> nat \<times> (nat \<times> nat) list) option" where
  "token_loop max_tokens buf s e toks =
     (if length toks < max_tokens - 1
      then if length buf \<le> e then None
        else if buf ! e = 32
        then if s \<noteq> e then token_loop max_tokens (buf[e := 0]) (e + 1) (e + 1) (toks @ [(s, e - s)])
             else token_loop max_tokens buf (e + 1) (e + 1) toks
        else if buf ! e = 0 then Some (buf, e, if s \<noteq> e then toks @ [(s, e - s)] else toks)
        else token_loop max_tokens buf s (e + 1) toks
      else Some (buf, e, toks))"
  by pat_completeness auto
termination by (relation "measure (\<lambda>(_, buf, _, e, _). length buf - e)") auto

declare token_loop.simps [simp del]

definition tokenize_command :: "cstring \<Rightarrow> nat \<Rightarrow> (cstring \<times> token list) option" where
  "tokenize_command command max_tokens =
     (if max_tokens \<le> 1 then None
      else do {
        (buf, e, toks) \<leftarrow> token_loop max_tokens command 0 0 [];
        if length buf \<le> e then None
        else Some (buf, map (\<lambda>(s, l). (Some s, l)) toks @ [(if buf ! e = 0 then None else Some e, 0)]) })"

text \<open>\<open>strcmp(tokens[i].value, text) == 0\<close>.\<close>

definition string_at :: "cstring \<Rightarrow> nat \<Rightarrow> cstring option" where
  "string_at buf s = (let str = takeWhile (\<lambda>b. b \<noteq> 0) (drop s buf) in if s + length str < length buf then Some str else None)"

definition noreply_text :: cstring where "noreply_text = [110, 111, 114, 101, 112, 108, 121]"

definition set_noreply_maybe :: "bool \<Rightarrow> cstring \<Rightarrow> token list \<Rightarrow> bool option" where
  "set_noreply_maybe noreply buf tokens =
     (if length tokens < 2 then None
      else case fst (tokens ! (length tokens - 2)) of
        None \<Rightarrow> Some noreply
      | Some s \<Rightarrow> do { str \<leftarrow> string_at buf s; Some (if str = noreply_text then True else noreply) })"

subsection \<open>Times\<close>

definition REALTIME_MAXDELTA :: int where "REALTIME_MAXDELTA = 60 * 60 * 24 * 30"

text \<open>\<open>time_t\<close> has 64 bits; \<open>rel_time_t\<close> has 32.\<close>

definition realtime :: "int \<Rightarrow> u32 \<Rightarrow> int \<Rightarrow> u32" where
  "realtime process_started current_time exptime =
     (if exptime = 0 then 0
      else if REALTIME_MAXDELTA < exptime
      then if exptime \<le> process_started then 1 else of_int (exptime - process_started)
      else of_int (exptime + uint current_time))"

subsection \<open>Words\<close>

text \<open>The words of a text: \<open>w\<close> is the part of the first word that was read.\<close>

fun words_from :: "cstring \<Rightarrow> cstring \<Rightarrow> cstring list" where
  "words_from w [] = (if w = [] then [] else [w])"
| "words_from w (b # bs) =
     (if b = 32 then (if w = [] then words_from [] bs else w # words_from [] bs) else words_from (w @ [b]) bs)"

definition words :: "cstring \<Rightarrow> cstring list" where
  "words command = words_from [] command"

definition token_text :: "cstring \<Rightarrow> nat \<times> nat \<Rightarrow> cstring" where
  "token_text buf t = take (snd t) (drop (fst t) buf)"

definition token_ended :: "cstring \<Rightarrow> nat \<times> nat \<Rightarrow> bool" where
  "token_ended buf t \<longleftrightarrow> fst t + snd t < length buf \<and> buf ! (fst t + snd t) = 0 \<and> 0 < snd t"

lemma words_from_rest: "\<forall>b \<in> set w. b \<noteq> 32 \<Longrightarrow> words_from [] (w @ bs) = words_from w bs"
proof -
  have "\<forall>b \<in> set w. b \<noteq> 32 \<Longrightarrow> words_from v (w @ bs) = words_from (v @ w) bs" for v
    by (induction w arbitrary: v) auto
  then show "\<forall>b \<in> set w. b \<noteq> 32 \<Longrightarrow> words_from [] (w @ bs) = words_from w bs" by simp
qed

text \<open>What the loop does from the middle of a word \<open>w\<close>; \<open>m\<close> tokens may still be stored.\<close>

definition split_from :: "nat \<Rightarrow> cstring \<Rightarrow> cstring \<Rightarrow> cstring \<Rightarrow> (nat \<times> nat) list \<Rightarrow> cstring list \<Rightarrow> cstring \<Rightarrow> nat \<Rightarrow> (nat \<times> nat) list \<Rightarrow> bool" where
  "split_from m pre w buf toks ws buf' e' toks' \<longleftrightarrow> length buf' = length buf \<and> take (length pre + length w) buf' = pre @ w \<and> length pre + length w \<le> e' \<and> e' < length buf' \<and>
     (\<exists>new. toks' = toks @ new \<and> map (token_text buf') new = take m ws \<and> (\<forall>t \<in> set new. token_ended buf' t)) \<and>
     drop e' buf' = drop e' buf \<and> words (takeWhile (\<lambda>b. b \<noteq> 0) (drop e' buf)) = drop m ws"

lemma split_fromD:
  assumes "split_from m pre w buf toks ws buf' e' toks'"
  shows "length buf' = length buf" "take (length pre + length w) buf' = pre @ w" "length pre + length w \<le> e'" "e' < length buf'"
    "\<exists>new. toks' = toks @ new \<and> map (token_text buf') new = take m ws \<and> (\<forall>t \<in> set new. token_ended buf' t)"
    "drop e' buf' = drop e' buf" "words (takeWhile (\<lambda>b. b \<noteq> 0) (drop e' buf)) = drop m ws"
  using assms by (simp_all add: split_from_def)

lemma split_from_stop:
  assumes "e' < length buf" "length pre + length w \<le> e'" "take (length pre + length w) buf = pre @ w" "words (takeWhile (\<lambda>b. b \<noteq> 0) (drop e' buf)) = drop m ws"
    "take m ws = []"
  shows "split_from m pre w buf toks ws buf e' toks"
  using assms by (simp add: split_from_def)

lemma take_shorter: "take (length a + n) bs = a @ b \<Longrightarrow> take (length a) bs = a"
  by (metis append_eq_conv_conj min.absorb1 le_add1 take_take)

lemma split_from_shorter: "split_from m (pre @ u) [] buf toks ws buf' e' toks' \<Longrightarrow> split_from m pre [] buf toks ws buf' e' toks'"
  using take_shorter [of pre "length u" buf' u] by (simp add: split_from_def)

lemma split_from_longer: "split_from m pre (w @ u) buf toks ws buf' e' toks' \<Longrightarrow> split_from m pre w buf toks ws buf' e' toks'"
  using take_shorter [of "pre @ w" "length u" buf' u] by (simp add: split_from_def add.assoc)

lemma first_token:
  assumes "take (length pre + (length w + 1)) buf = pre @ w @ [0]" "length pre + length w < length buf" "w \<noteq> []"
  shows "token_text buf (length pre, length w) = w" "token_ended buf (length pre, length w)"
proof -
  have b: "buf = (pre @ w @ [0]) @ drop (length pre + (length w + 1)) buf" using assms(1) by (metis append_take_drop_id)
  show "token_text buf (length pre, length w) = w" by (subst b) (simp add: token_text_def)
  have "buf ! (length pre + length w) = 0" by (subst b) (simp add: nth_append)
  then show "token_ended buf (length pre, length w)" using assms(2,3) by (simp add: token_ended_def)
qed

lemma token_loop_spec:
  assumes "\<forall>b \<in> set w. b \<noteq> 32 \<and> b \<noteq> 0" "0 \<notin> set suf" "m + length toks = mt - 1" "buf = pre @ w @ suf @ 0 # rest" "m = 0 \<longrightarrow> w = []"
  shows "\<exists>buf' e' toks'. token_loop mt buf (length pre) (length pre + length w) toks = Some (buf', e', toks') \<and>
    split_from m pre w buf toks (words_from w suf) buf' e' toks' \<and> e' \<le> length pre + length w + length suf"
  using assms
proof (induction suf arbitrary: pre w toks m buf)
  case Nil
  have e: "buf ! (length pre + length w) = 0" "length pre + length w < length buf" using Nil.prems(4) by (simp_all add: nth_append)
  have d: "drop (length pre + length w) buf = 0 # rest" "take (length pre + length w) buf = pre @ w" using Nil.prems(4) by simp_all
  show ?case
  proof (cases "m = 0 \<or> w = []")
    case True
    then have "w = []" using Nil.prems(5) by auto
    then show ?thesis using e d by (subst token_loop.simps) (auto intro!: split_from_stop simp: words_def)
  next
    case False
    then have m: "length toks < mt - 1" "0 < m" using Nil.prems(3) by auto
    have "token_text buf (length pre, length w) = w" "token_ended buf (length pre, length w)"
      by (rule first_token; use False e d in \<open>simp add: Nil.prems(4)\<close>)+
    then have "split_from m pre w buf toks (words_from w []) buf (length pre + length w) (toks @ [(length pre, length w)])"
      using False m e d by (cases m) (simp_all add: split_from_def words_def)
    then show ?thesis using False m e by (subst token_loop.simps) simp
  qed
next
  case (Cons b suf)
  have b: "b \<noteq> 0" "0 \<notin> set suf" using Cons.prems(2) by auto
  have e: "buf ! (length pre + length w) = b" "length pre + length w < length buf" using Cons.prems(4) by (simp_all add: nth_append)
  show ?case
  proof (cases "m = 0")
    case True
    have "takeWhile (\<lambda>b. b \<noteq> 0) (suf @ 0 # rest) = suf" using b by (subst takeWhile_append2) auto
    then have "words (takeWhile (\<lambda>b. b \<noteq> 0) (drop (length pre) buf)) = words_from w (b # suf)" using Cons.prems(4,5) True b by (simp add: words_def)
    then show ?thesis using True e Cons.prems(3-5) by (subst token_loop.simps) (auto intro!: split_from_stop)
  next
    case m: False
    then have lt: "length toks < mt - 1" using Cons.prems(3) by simp
    consider (blank) "b = 32" "w = []" | (ends) "b = 32" "w \<noteq> []" | (inside) "b \<noteq> 32" by blast
    then show ?thesis
    proof cases
      case blank
      obtain buf' e' toks' where r: "token_loop mt buf (length (pre @ [b])) (length (pre @ [b]) + length []) toks = Some (buf', e', toks')"
        "split_from m (pre @ [b]) [] buf toks (words_from [] suf) buf' e' toks'" "e' \<le> length (pre @ [b]) + length [] + length suf"
        using Cons.IH [of "[]" m toks buf "pre @ [b]"] b Cons.prems(3,4) blank by auto
      have "token_loop mt buf (length pre) (length pre + length w) toks = token_loop mt buf (length pre + 1) (length pre + 1) toks"
        using blank lt e by (subst token_loop.simps) simp
      then show ?thesis using r blank split_from_shorter [OF r(2)] by simp
    next
      case ends
      let ?buf = "buf[length pre + length w := 0]" and ?t = "(length pre, length w)" and ?n = "length pre + (length w + 1)"
      have upd: "?buf = (pre @ w @ [0]) @ [] @ suf @ 0 # rest" using Cons.prems(4) by (simp add: list_update_append)
      obtain k where k: "m = Suc k" using m by (cases m) auto
      have one: "k + length (toks @ [?t]) = mt - 1" using k Cons.prems(3) by simp
      obtain buf' e' toks' where r: "token_loop mt ?buf (length (pre @ w @ [0])) (length (pre @ w @ [0]) + length []) (toks @ [?t]) = Some (buf', e', toks')"
        "split_from k (pre @ w @ [0]) [] ?buf (toks @ [?t]) (words_from [] suf) buf' e' toks'" "e' \<le> length (pre @ w @ [0]) + length [] + length suf"
        using Cons.IH [OF _ b(2) one upd] by auto
      have tk: "take ?n buf' = pre @ w @ [0]" "length buf' = length buf" "?n \<le> e'" "e' < length buf'" "drop e' buf' = drop e' ?buf"
        "words (takeWhile (\<lambda>b. b \<noteq> 0) (drop e' ?buf)) = drop k (words_from [] suf)"
        using split_fromD [OF r(2)] by (simp_all (no_asm_use))
      have ft: "token_text buf' ?t = w" "token_ended buf' ?t" by (rule first_token [OF tk(1)]; use tk(2) e ends in simp)+
      obtain new where new: "toks' = (toks @ [?t]) @ new" "map (token_text buf') new = take k (words_from [] suf)"
        "\<forall>t \<in> set new. token_ended buf' t" using r(2) by (auto simp: split_from_def)
      have "toks' = toks @ (?t # new) \<and> map (token_text buf') (?t # new) = take m (words_from w (b # suf)) \<and> (\<forall>t \<in> set (?t # new). token_ended buf' t)"
        using new ft k ends by simp
      moreover have "drop e' ?buf = drop e' buf" using tk(3) by simp
      moreover have "take (length pre + length w) buf' = pre @ w" using take_shorter [of "pre @ w" 1 buf' "[0]"] tk(1) by (simp add: add.assoc)
      ultimately have "split_from m pre w buf toks (words_from w (b # suf)) buf' e' toks'"
        using tk(2-6) k ends unfolding split_from_def by auto
      moreover have "token_loop mt buf (length pre) (length pre + length w) toks = token_loop mt ?buf ?n ?n (toks @ [?t])"
        using ends lt e by (subst token_loop.simps) simp
      ultimately show ?thesis using r(1,3) by auto
    next
      case inside
      obtain buf' e' toks' where r: "token_loop mt buf (length pre) (length pre + length (w @ [b])) toks = Some (buf', e', toks')"
        "split_from m pre (w @ [b]) buf toks (words_from (w @ [b]) suf) buf' e' toks'" "e' \<le> length pre + length (w @ [b]) + length suf"
        using Cons.IH [of "w @ [b]" m toks buf pre] b Cons.prems(1,3,4) inside m by auto
      have "token_loop mt buf (length pre) (length pre + length w) toks = token_loop mt buf (length pre) (length pre + length (w @ [b])) toks"
        using inside b lt e by (subst token_loop.simps) simp
      then show ?thesis using r inside split_from_longer [OF r(2)] by simp
    qed
  qed
qed

lemma words_from_blanks: "words_from [] (replicate n 32 @ bs) = words_from [] bs"
  by (induction n) auto

text \<open>Words that are separated by one or more blanks are the words of the text.\<close>

lemma words_blanks: "\<forall>(w, n) \<in> set ws. w \<noteq> [] \<and> 32 \<notin> set w \<and> 0 < n \<Longrightarrow> words (concat (map (\<lambda>(w, n). w @ replicate n 32) ws)) = map fst ws"
proof (induction ws)
  case (Cons x ws)
  obtain w n where x: "x = (w, Suc n)" "w \<noteq> []" "\<forall>b \<in> set w. b \<noteq> 32" using Cons.prems by (cases x) (auto simp: gr0_conv_Suc)
  then show ?case using Cons words_from_rest [OF x(3)] by (simp add: words_def words_from_blanks)
qed (simp add: words_def)

lemma words_from_bytes: "w' \<in> set (words_from w bs) \<Longrightarrow> set w' \<subseteq> set w \<union> set bs"
  by (induction w bs rule: words_from.induct) (auto split: if_splits)

lemma token_string:
  assumes "token_ended buf t" "0 \<notin> set (token_text buf t)"
  shows "string_at buf (fst t) = Some (token_text buf t)"
proof -
  obtain s l where t: "t = (s, l)" by (cases t)
  have "drop s buf = token_text buf t @ 0 # drop (Suc (s + l)) buf" using assms(1) t
    by (metis Cons_nth_drop_Suc add.commute append_take_drop_id drop_drop fst_conv snd_conv token_ended_def token_text_def)
  moreover have "takeWhile (\<lambda>b. b \<noteq> 0) (token_text buf t @ 0 # drop (Suc (s + l)) buf) = token_text buf t" using assms(2) by (subst takeWhile_append2) auto
  moreover have "length (token_text buf t) = l" using assms(1) t by (auto simp: token_text_def token_ended_def)
  ultimately show ?thesis using assms(1) t by (simp add: string_at_def token_ended_def)
qed

text \<open>
  C39: a command line is split into its words. Of a line that ends with a zero byte the first
  \<open>max_tokens - 1\<close> words become tokens, each at its place in the buffer, which is ended by a zero byte.
  The last token is the null pointer when there are no more words, otherwise it points to the rest
  of the line, which is left as it was and has the other words. The option \<open>noreply\<close> is recognised as the last of the stored words.
\<close>

theorem tokenize_command_correct:
  assumes "0 \<notin> set line" "1 < max_tokens"
  shows "\<exists>buf toks fin. tokenize_command (line @ 0 # rest) max_tokens = Some (buf, map (\<lambda>(s, l). (Some s, l)) toks @ [(fin, 0)]) \<and>
    length buf = length (line @ 0 # rest) \<and> map (token_text buf) toks = take (max_tokens - 1) (words line) \<and> (\<forall>t \<in> set toks. token_ended buf t) \<and>
    (case fin of None \<Rightarrow> length (words line) < max_tokens
     | Some e \<Rightarrow> e < length line \<and> drop e buf = drop e (line @ 0 # rest) \<and> words (drop e line) = drop (max_tokens - 1) (words line)) \<and>
    (words line \<noteq> [] \<longrightarrow> set_noreply_maybe noreply buf (map (\<lambda>(s, l). (Some s, l)) toks @ [(fin, 0)]) =
       Some (noreply \<or> last (take (max_tokens - 1) (words line)) = noreply_text))"
proof -
  obtain buf e toks where r: "token_loop max_tokens (line @ 0 # rest) 0 0 [] = Some (buf, e, toks)"
    "split_from (max_tokens - 1) [] [] (line @ 0 # rest) [] (words line) buf e toks" "e \<le> length line"
    using token_loop_spec [of "[]" line "max_tokens - 1" "[]" max_tokens "line @ 0 # rest" "[]" rest] assms by (auto simp: words_def)
  note f0 = split_fromD [OF r(2)]
  note f = f0 [simplified]
  have texts: "map (token_text buf) toks = take (max_tokens - 1) (words line)" and ended: "\<forall>t \<in> set toks. token_ended buf t" using f(5) by simp_all
  let ?fin = "if buf ! e = 0 then None else Some e"
  have e: "buf ! e = (line @ 0 # rest) ! e" using f0(1,4,6) by (metis hd_drop_conv_nth)
  have fin: "case ?fin of None \<Rightarrow> length (words line) < max_tokens
     | Some e \<Rightarrow> e < length line \<and> drop e buf = drop e (line @ 0 # rest) \<and> words (drop e line) = drop (max_tokens - 1) (words line)"
  proof (cases "e < length line")
    case True
    then have "(line @ 0 # rest) ! e \<noteq> 0" using assms(1) by (metis nth_append nth_mem)
    moreover have "takeWhile (\<lambda>b. b \<noteq> 0) (drop e line @ 0 # rest) = drop e line" using assms(1) set_drop_subset [of e line] by (subst takeWhile_append2) auto
    ultimately show ?thesis using True e f(6,7) r(3) by simp
  next
    case False
    then show ?thesis using e f(7) r(3) assms(2) by (simp add: words_def)
  qed
  have "set_noreply_maybe noreply buf (map (\<lambda>(s, l). (Some s, l)) toks @ [(?fin, 0)]) = Some (noreply \<or> last (take (max_tokens - 1) (words line)) = noreply_text)"
    if "words line \<noteq> []"
  proof -
    have "take (max_tokens - 1) (words line) \<noteq> []" using that assms(2) by simp
    then have ne: "toks \<noteq> []" using texts by auto
    then obtain ts t where ts: "toks = ts @ [t]" by (metis append_butlast_last_id)
    have t: "last (take (max_tokens - 1) (words line)) = token_text buf t" unfolding texts [symmetric] by (simp add: ts)
    have "token_text buf t \<in> set (words line)" using texts ts by (metis in_set_conv_decomp in_set_takeD list.simps(8,9) map_append)
    then have "0 \<notin> set (token_text buf t)" using words_from_bytes [of _ "[]" line] assms(1) by (fastforce simp: words_def)
    then have "string_at buf (fst t) = Some (token_text buf t)" using ended ts by (intro token_string) simp_all
    then show ?thesis unfolding t by (cases t) (simp add: set_noreply_maybe_def ts nth_append)
  qed
  moreover have "tokenize_command (line @ 0 # rest) max_tokens = Some (buf, map (\<lambda>(s, l). (Some s, l)) toks @ [(?fin, 0)])"
    using r(1) f(4) assms(2) by (simp add: tokenize_command_def)
  ultimately show ?thesis using f0(1) texts ended fin by (intro exI [of _ buf] exI [of _ toks] exI [of _ ?fin] conjI impI)
qed

text \<open>The line \<open>incr k 5 noreply\<close> has four words.\<close>

definition incr_line :: cstring where
  "incr_line = [105, 110, 99, 114, 32, 107, 32, 53, 32, 110, 111, 114, 101, 112, 108, 121]"

theorem tokenize_command_correct_witness:
  "\<exists>buf toks fin. tokenize_command (incr_line @ 0 # []) MAX_TOKENS = Some (buf, map (\<lambda>(s, l). (Some s, l)) toks @ [(fin, 0)]) \<and>
     map (token_text buf) toks = [[105, 110, 99, 114], [107], [53], noreply_text] \<and>
     set_noreply_maybe False buf (map (\<lambda>(s, l). (Some s, l)) toks @ [(fin, 0)]) = Some True"
proof -
  have w: "words incr_line = [[105, 110, 99, 114], [107], [53], noreply_text]" by (simp add: words_def incr_line_def noreply_text_def)
  have z: "0 \<notin> set incr_line" "1 < MAX_TOKENS" by (simp_all add: incr_line_def MAX_TOKENS_def)
  have l: "take (MAX_TOKENS - 1) (words incr_line) = words incr_line" "last (words incr_line) = noreply_text" "words incr_line \<noteq> []" by (simp_all add: w MAX_TOKENS_def)
  show ?thesis using tokenize_command_correct [OF z, of "[]" False] unfolding w [symmetric] l(1,2) using l(3) by simp blast
qed

subsection \<open>Expiration times\<close>

text \<open>A time up to thirty days is counted from now; a later one is the date, and a date before the start of the server is in the past.\<close>

lemma realtime_correct:
  assumes start: "0 \<le> process_started" "exptime - process_started < 2 ^ 32" and now: "uint current_time + REALTIME_MAXDELTA < 2 ^ 32"
  shows "0 \<le> exptime \<Longrightarrow> exptime \<le> REALTIME_MAXDELTA \<Longrightarrow> exptime \<noteq> 0 \<Longrightarrow> uint (realtime process_started current_time exptime) = uint current_time + exptime"
    and "REALTIME_MAXDELTA < exptime \<Longrightarrow> process_started < exptime \<Longrightarrow> uint (realtime process_started current_time exptime) = exptime - process_started"
    and "REALTIME_MAXDELTA < exptime \<Longrightarrow> exptime \<le> process_started \<Longrightarrow> realtime process_started current_time exptime = 1"
    and "realtime process_started current_time exptime = 0 \<Longrightarrow> 0 \<le> exptime \<Longrightarrow> exptime = 0"
proof -
  note d = realtime_def REALTIME_MAXDELTA_def
  show rel: "uint (realtime process_started current_time exptime) = uint current_time + exptime" if "0 \<le> exptime" "exptime \<le> REALTIME_MAXDELTA" "exptime \<noteq> 0"
    using that now by (simp add: d uint_word_of_int take_bit_int_eq_self_iff flip: of_int_add)
  show abs: "uint (realtime process_started current_time exptime) = exptime - process_started" if "REALTIME_MAXDELTA < exptime" "process_started < exptime"
    using that start by (simp add: d uint_word_of_int take_bit_int_eq_self_iff flip: of_int_diff)
  show old: "REALTIME_MAXDELTA < exptime \<Longrightarrow> exptime \<le> process_started \<Longrightarrow> realtime process_started current_time exptime = 1" by (simp add: d)
  show "exptime = 0" if "realtime process_started current_time exptime = 0" "0 \<le> exptime" using that rel abs old by (smt (verit) uint_0_iff uint_nonnegative one_neq_zero)
qed

end
