(* ===== verification/Mc_Thread.thy ===== *)
theory Mc_Thread
  imports Linked_Heap
begin

text \<open>
  \<open>memcached/memcached-1.4.6-ffwd/thread.c\<close>: handing connections over to the worker threads. The main
  thread puts a new connection on the queue of a worker, in turn, and wakes it up; the worker takes it from the queue. The entries of
  the queues come from a free list that is refilled by 64 at a time. The functions hold the lock of
  the queue or of the free list. The rest of \<open>dispatch_conn_new\<close> and \<open>thread_libevent_process\<close>
  works on an entry that no other thread sees, so each is one step. \<open>None\<close> is an access through a null pointer.
\<close>

definition ITEMS_PER_ALLOC :: nat where "ITEMS_PER_ALLOC = 64"

datatype conn_states = conn_listening | conn_new_cmd | conn_waiting | conn_read | conn_parse_cmd | conn_write | conn_nread |
  conn_swallow | conn_closing | conn_mwrite | conn_max_state

datatype network_transport = local_transport | tcp_transport | udp_transport

record cq_item =
  sfd :: int
  init_state :: conn_states
  event_flags :: int
  read_buffer_size :: int
  transport :: network_transport
  cq_next :: addr

record cq =
  cq_head :: addr
  cq_tail :: addr

text \<open>\<open>alloc_block\<close> is the choice of \<open>malloc\<close> for a block of items, \<open>NULL\<close> if there is no memory; \<open>notify\<close> is the
  number of bytes in the wake-up pipe of a thread.\<close>

record dispatcher =
  cq_heap :: "cq_item heap"
  alloc_block :: "(addr \<rightharpoonup> cq_item) \<Rightarrow> addr"
  cqi_freelist :: addr
  conn_queue :: "nat \<Rightarrow> cq"
  last_thread :: int
  notify :: "nat \<Rightarrow> nat"

subsection \<open>Queues\<close>

definition cq_init :: "nat \<Rightarrow> dispatcher \<Rightarrow> dispatcher" where
  "cq_init t s = s\<lparr> conn_queue := (conn_queue s)(t := \<lparr> cq_head = NULL, cq_tail = NULL \<rparr>) \<rparr>"

definition cq_pop :: "nat \<Rightarrow> dispatcher \<Rightarrow> (addr \<times> dispatcher) option" where
  "cq_pop t s = do {
     let q = conn_queue s t;
     let item = cq_head q;
     if item = NULL then Some (item, s)
     else do {
       n \<leftarrow> load (cq_heap s) item;
       let q = q\<lparr> cq_head := cq_next n \<rparr>;
       let q = (if cq_head q = NULL then q\<lparr> cq_tail := NULL \<rparr> else q);
       Some (item, s\<lparr> conn_queue := (conn_queue s)(t := q) \<rparr>) } }"

definition cq_push :: "nat \<Rightarrow> addr \<Rightarrow> dispatcher \<Rightarrow> dispatcher option" where
  "cq_push t item s = do {
     h \<leftarrow> modify (cq_heap s) item (cq_next_update (\<lambda>_. NULL));
     let q = conn_queue s t;
     (h, q) \<leftarrow> (if cq_tail q = NULL then Some (h, q\<lparr> cq_head := item \<rparr>)
               else do { h \<leftarrow> modify h (cq_tail q) (cq_next_update (\<lambda>_. item)); Some (h, q) });
     Some (s\<lparr> cq_heap := h, conn_queue := (conn_queue s)(t := q\<lparr> cq_tail := item \<rparr>) \<rparr>) }"

subsection \<open>Free entries\<close>

text \<open>The fresh block, with unspecified contents.\<close>

definition malloc_block :: "dispatcher \<Rightarrow> addr \<times> cq_item heap" where
  "malloc_block s = (let h = cq_heap s; b = alloc_block s (cells h) in
     if b = NULL then (NULL, h)
     else (b, h\<lparr> cells := (\<lambda>a. if b \<le> a \<and> a < b + ITEMS_PER_ALLOC then Some (junk h a) else cells h a) \<rparr>))"

function link_items :: "addr \<Rightarrow> nat \<Rightarrow> cq_item heap \<Rightarrow> cq_item heap option" where
  "link_items item i h =
     (if i < ITEMS_PER_ALLOC then do {
        h \<leftarrow> modify h (item + (i - 1)) (cq_next_update (\<lambda>_. item + i));
        link_items item (i + 1) h }
      else Some h)"
  by pat_completeness auto
termination by (relation "measure (\<lambda>(_, i, _). ITEMS_PER_ALLOC - i)") auto

declare link_items.simps [simp del]

definition cqi_new :: "dispatcher \<Rightarrow> (addr \<times> dispatcher) option" where
  "cqi_new s =
     (if cqi_freelist s \<noteq> NULL then do {
        let item = cqi_freelist s;
        n \<leftarrow> load (cq_heap s) item;
        Some (item, s\<lparr> cqi_freelist := cq_next n \<rparr>) }
      else do {
        let (item, h) = malloc_block s;
        if item = NULL then Some (NULL, s)
        else do {
          h \<leftarrow> link_items item 2 h;
          h \<leftarrow> modify h (item + (ITEMS_PER_ALLOC - 1)) (cq_next_update (\<lambda>_. cqi_freelist s));
          Some (item, s\<lparr> cq_heap := h, cqi_freelist := item + 1 \<rparr>) } })"

definition cqi_free :: "addr \<Rightarrow> dispatcher \<Rightarrow> dispatcher option" where
  "cqi_free item s = do {
     h \<leftarrow> modify (cq_heap s) item (cq_next_update (\<lambda>_. cqi_freelist s));
     Some (s\<lparr> cq_heap := h, cqi_freelist := item \<rparr>) }"

subsection \<open>Handing over a connection\<close>

type_synonym connection = "int \<times> conn_states \<times> int \<times> int \<times> network_transport"

text \<open>\<open>written\<close> says whether the byte could be written to the pipe of the thread; the code reports a failure and goes on.\<close>

definition dispatch_conn_new :: "int \<Rightarrow> connection \<Rightarrow> bool \<Rightarrow> dispatcher \<Rightarrow> dispatcher option" where
  "dispatch_conn_new num_threads = (\<lambda>(fd, st, ev, rbs, tr) written s. do {
     (item, s) \<leftarrow> cqi_new s;
     let tid = c_mod (last_thread s + 1) num_threads;
     let s = s\<lparr> last_thread := tid \<rparr>;
     h \<leftarrow> modify (cq_heap s) item (\<lambda>n. n\<lparr> sfd := fd, init_state := st, event_flags := ev, read_buffer_size := rbs, transport := tr \<rparr>);
     s \<leftarrow> cq_push (nat tid) item (s\<lparr> cq_heap := h \<rparr>);
     Some (if written then s\<lparr> notify := (notify s)(nat tid := notify s (nat tid) + 1) \<rparr> else s) })"

text \<open>What the worker passes to \<open>conn_new\<close>, and what becomes of the connection. The argument \<open>conn_new\<close> says whether the connection could be
  set up, which depends on the results of \<open>malloc\<close> and of libevent's \<open>event_add\<close>. A byte is read from the pipe if there is one.\<close>

definition conn_data :: "cq_item \<Rightarrow> connection" where
  "conn_data n = (sfd n, init_state n, event_flags n, read_buffer_size n, transport n)"

datatype outcome = Nothing | Served connection | Closed connection | Exited connection

definition thread_libevent_process :: "(connection \<Rightarrow> bool) \<Rightarrow> nat \<Rightarrow> dispatcher \<Rightarrow> (outcome \<times> dispatcher) option" where
  "thread_libevent_process conn_new t s = do {
     let s = s\<lparr> notify := (notify s)(t := notify s t - 1) \<rparr>;
     (item, s) \<leftarrow> cq_pop t s;
     if item = NULL then Some (Nothing, s)
     else do {
       n \<leftarrow> load (cq_heap s) item;
       if conn_new (conn_data n) then do { s \<leftarrow> cqi_free item s; Some (Served (conn_data n), s) }
       else if transport n = udp_transport then Some (Exited (conn_data n), s)
       else do { s \<leftarrow> cqi_free item s; Some (Closed (conn_data n), s) } } }"

text \<open>Set-up, as far as it concerns the queues; \<open>setup_thread\<close> initializes the queue of each thread.\<close>

definition thread_init :: "nat \<Rightarrow> cq_item heap \<Rightarrow> ((addr \<rightharpoonup> cq_item) \<Rightarrow> addr) \<Rightarrow> dispatcher" where
  "thread_init nthreads h alloc = fold cq_init [0..<nthreads] \<lparr> cq_heap = h, alloc_block = alloc, cqi_freelist = NULL,
     conn_queue = (\<lambda>_. \<lparr> cq_head = NULL, cq_tail = NULL \<rparr>), last_thread = -1, notify = (\<lambda>_. 0) \<rparr>"

text \<open>A run: the main thread dispatches, and a worker is woken up while its pipe is readable. \<open>exit\<close> ends the run.
  The result is what the workers did, in order.\<close>

definition is_exit :: "outcome \<Rightarrow> bool" where
  "is_exit r = (case r of Exited _ \<Rightarrow> True | _ \<Rightarrow> False)"

datatype dispatch_event = Dispatch connection bool | Wake nat

fun dispatch_run :: "int \<Rightarrow> (connection \<Rightarrow> bool) \<Rightarrow> dispatch_event list \<Rightarrow> dispatcher \<Rightarrow> ((nat \<times> outcome) list \<times> dispatcher) option" where
  "dispatch_run num_threads conn_new [] s = Some ([], s)"
| "dispatch_run num_threads conn_new (Dispatch c written # es) s = do {
     s \<leftarrow> dispatch_conn_new num_threads c written s;
     dispatch_run num_threads conn_new es s }"
| "dispatch_run num_threads conn_new (Wake t # es) s =
     (if notify s t = 0 then dispatch_run num_threads conn_new es s
      else do {
        (r, s) \<leftarrow> thread_libevent_process conn_new t s;
        if is_exit r then Some ([(t, r)], s)
        else do { (rs, s) \<leftarrow> dispatch_run num_threads conn_new es s; Some ((t, r) # rs, s) } })"

subsection \<open>Lists of entries\<close>

interpretation ql: linked cq_next "\<lambda>q. cq_next_update (\<lambda>_. q)" conn_data
  by unfold_locales (simp_all add: conn_data_def)

text \<open>\<open>L None\<close> is the free list, \<open>L (Some t)\<close> the queue of thread \<open>t\<close>.\<close>

definition list_head :: "dispatcher \<Rightarrow> nat option \<Rightarrow> addr" where
  "list_head s x = (case x of None \<Rightarrow> cqi_freelist s | Some t \<Rightarrow> cq_head (conn_queue s t))"

definition lists_ok :: "dispatcher \<Rightarrow> (nat option \<Rightarrow> addr list) \<Rightarrow> bool" where
  "lists_ok s L \<longleftrightarrow> (\<forall>x. ql.path (cq_heap s) (list_head s x) (L x) NULL) \<and> (\<forall>x y. x \<noteq> y \<longrightarrow> set (L x) \<inter> set (L y) = {}) \<and>
     (\<forall>t. cq_tail (conn_queue s t) = (if L (Some t) = [] then NULL else last (L (Some t)))) \<and>
     (\<forall>c. finite (dom c) \<longrightarrow> alloc_block s c \<noteq> NULL \<and> (\<forall>i < ITEMS_PER_ALLOC. c (alloc_block s c + i) = None)) \<and> finite (dom (cells (cq_heap s)))"

lemma path_range:
  assumes "lo < hi" "\<forall>a. lo \<le> a \<and> a < hi \<longrightarrow> (\<exists>n. load h a = Some n \<and> cq_next n = (if a + 1 = hi then q else a + 1))"
  shows "ql.path h lo [lo..<hi] q"
  using assms
proof (induction "hi - lo" arbitrary: lo)
  case (Suc k)
  obtain n where n: "load h lo = Some n" "cq_next n = (if lo + 1 = hi then q else lo + 1)" using Suc.prems by blast
  show ?case
  proof (cases "lo + 1 = hi")
    case True
    then have "[lo..<hi] = [lo]" by auto
    then show ?thesis using n True by simp
  next
    case False
    then have "ql.path h (lo + 1) [lo + 1..<hi] q" using Suc.hyps(1) [of "lo + 1"] Suc.hyps(2) Suc.prems by auto
    then show ?thesis using n False Suc.prems(1) by (simp add: upt_conv_Cons)
  qed
qed simp

lemma link_items_spec:
  assumes "1 \<le> i" "i \<le> ITEMS_PER_ALLOC" "\<forall>a. b + i \<le> a + 1 \<and> a < b + ITEMS_PER_ALLOC \<longrightarrow> load h a \<noteq> None"
  shows "\<exists>h'. link_items b i h = Some h' \<and> finite (dom (cells h')) = finite (dom (cells h)) \<and>
    (\<forall>a. load h' a = (if b + i \<le> a + 1 \<and> a + 1 < b + ITEMS_PER_ALLOC then map_option (cq_next_update (\<lambda>_. a + 1)) (load h a) else load h a))"
  using assms
proof (induction "ITEMS_PER_ALLOC - i" arbitrary: i h)
  case 0
  then have "\<not> i < ITEMS_PER_ALLOC" by simp
  then show ?case using 0 by (subst link_items.simps) auto
next
  case (Suc k)
  have lt: "i < ITEMS_PER_ALLOC" "k = ITEMS_PER_ALLOC - (i + 1)" "1 \<le> i + 1" "i + 1 \<le> ITEMS_PER_ALLOC" using Suc.hyps(2) by simp_all
  obtain n where n: "load h (b + (i - 1)) = Some n" using Suc.prems(1,3) lt(1) by fastforce
  let ?h = "upd h (b + (i - 1)) (n\<lparr> cq_next := b + i \<rparr>)"
  have nn: "b + (i - 1) \<noteq> 0" using n by (metis load_NULL option.distinct(1))
  have "\<forall>a. b + (i + 1) \<le> a + 1 \<and> a < b + ITEMS_PER_ALLOC \<longrightarrow> load ?h a \<noteq> None" using Suc.prems(3) by (simp add: heap_simps)
  from Suc.hyps(1) [OF lt(2-4) this] obtain h' where h': "link_items b (i + 1) ?h = Some h'" "finite (dom (cells h')) = finite (dom (cells ?h))"
    "\<forall>a. load h' a = (if b + (i + 1) \<le> a + 1 \<and> a + 1 < b + ITEMS_PER_ALLOC then map_option (cq_next_update (\<lambda>_. a + 1)) (load ?h a) else load ?h a)" by blast
  have "link_items b i h = Some h'" using lt(1) n h'(1) by (subst link_items.simps) (simp add: heap_simps)
  moreover have "load h' a = (if b + i \<le> a + 1 \<and> a + 1 < b + ITEMS_PER_ALLOC then map_option (cq_next_update (\<lambda>_. a + 1)) (load h a) else load h a)" for a
  proof (cases "a = b + (i - 1)")
    case True
    then have "a + 1 = b + i" using Suc.prems(1) by simp
    then show ?thesis using h'(3) n nn lt(1) True by (simp add: heap_simps)
  next
    case False
    then have "b + (i + 1) \<le> a + 1 \<longleftrightarrow> b + i \<le> a + 1" using Suc.prems(1) by arith
    then show ?thesis using h'(3) False by (simp add: heap_simps)
  qed
  moreover have "finite (dom (cells h')) = finite (dom (cells h))" using h'(2) by (simp add: heap_simps)
  ultimately show ?case by blast
qed

subsection \<open>The operations on the lists\<close>

definition detached :: "dispatcher \<Rightarrow> (nat option \<Rightarrow> addr list) \<Rightarrow> addr \<Rightarrow> bool" where
  "detached s L a \<longleftrightarrow> load (cq_heap s) a \<noteq> None \<and> (\<forall>x. a \<notin> set (L x))"

abbreviation contents :: "dispatcher \<Rightarrow> (nat option \<Rightarrow> addr list) \<Rightarrow> nat \<Rightarrow> connection list" where
  "contents s L t \<equiv> ql.keys_at (cq_heap s) (L (Some t))"

lemma lists_okD:
  assumes "lists_ok s L"
  shows "ql.path (cq_heap s) (cqi_freelist s) (L None) NULL" "ql.path (cq_heap s) (cq_head (conn_queue s t)) (L (Some t)) NULL"
    "x \<noteq> y \<Longrightarrow> set (L x) \<inter> set (L y) = {}" "cq_tail (conn_queue s t) = (if L (Some t) = [] then NULL else last (L (Some t)))"
    "finite (dom c) \<Longrightarrow> alloc_block s c \<noteq> NULL" "finite (dom c) \<Longrightarrow> i < ITEMS_PER_ALLOC \<Longrightarrow> c (alloc_block s c + i) = None"
    "finite (dom (cells (cq_heap s)))"
proof -
  have all: "\<forall>x. ql.path (cq_heap s) (list_head s x) (L x) NULL" using assms by (simp add: lists_ok_def)
  show "ql.path (cq_heap s) (cqi_freelist s) (L None) NULL" using all [rule_format, of None] by (simp add: list_head_def)
  show "ql.path (cq_heap s) (cq_head (conn_queue s t)) (L (Some t)) NULL" using all [rule_format, of "Some t"] by (simp add: list_head_def)
qed (use assms in \<open>auto simp: lists_ok_def\<close>)

lemma lists_okI:
  assumes "ql.path (cq_heap s) (cqi_freelist s) (L None) NULL" "\<And>t. ql.path (cq_heap s) (cq_head (conn_queue s t)) (L (Some t)) NULL"
    "\<And>x y. x \<noteq> y \<Longrightarrow> set (L x) \<inter> set (L y) = {}" "\<And>t. cq_tail (conn_queue s t) = (if L (Some t) = [] then NULL else last (L (Some t)))"
    "\<And>c. finite (dom c) \<Longrightarrow> alloc_block s c \<noteq> NULL" "\<And>c i. finite (dom c) \<Longrightarrow> i < ITEMS_PER_ALLOC \<Longrightarrow> c (alloc_block s c + i) = None"
    "finite (dom (cells (cq_heap s)))"
  shows "lists_ok s L"
  using assms unfolding lists_ok_def list_head_def by (simp split: option.split)

lemma disjoint_add:
  assumes "\<And>x y. x \<noteq> y \<Longrightarrow> set (L x) \<inter> set (L y) = {}" "\<And>x. set ys \<inter> set (L x) = {}" "set zs \<subseteq> set ys \<union> set (L k)" "x \<noteq> y"
  shows "set ((L(k := zs)) x) \<inter> set ((L(k := zs)) y) = {}"
proof -
  have "set zs \<inter> set (L z) = {}" if "z \<noteq> k" for z using assms(1) [OF that] assms(2) [of z] assms(3) by blast
  then show ?thesis using assms(1) [OF assms(4)] assms(4) by auto
qed

lemma cqi_free_spec:
  assumes ok: "lists_ok s L" and a: "detached s L a"
  shows "\<exists>s'. cqi_free a s = Some s' \<and> lists_ok s' (L(None := a # L None)) \<and> (\<forall>t. contents s' L t = contents s L t) \<and>
    last_thread s' = last_thread s \<and> notify s' = notify s"
proof -
  obtain n where n: "load (cq_heap s) a = Some n" using a by (auto simp: detached_def)
  have a': "a \<noteq> 0" "\<And>x. a \<notin> set (L x)" using n a by (auto simp: detached_def)
  let ?s = "s\<lparr> cq_heap := upd (cq_heap s) a (n\<lparr> cq_next := cqi_freelist s \<rparr>), cqi_freelist := a \<rparr>"
  have "lists_ok ?s (L(None := a # L None))"
  proof (rule lists_okI)
    show "set ((L(None := a # L None)) x) \<inter> set ((L(None := a # L None)) y) = {}" if "x \<noteq> y" for x y
      by (rule disjoint_add [of L "[a]", OF _ _ _ that]) (use lists_okD [OF ok] a' in auto)
  qed (use lists_okD [OF ok] a' in \<open>auto simp: heap_simps\<close>)
  moreover have "contents ?s L t = contents s L t" for t using n by (simp add: conn_data_def)
  moreover have "cqi_free a s = Some ?s" using n by (simp add: cqi_free_def heap_simps)
  ultimately show ?thesis by fastforce
qed

lemma cq_push_spec:
  assumes ok: "lists_ok s L" and a: "detached s L a"
  shows "\<exists>s'. cq_push t a s = Some s' \<and> lists_ok s' (L(Some t := L (Some t) @ [a])) \<and>
    (\<forall>b. ql.key_at (cq_heap s') b = ql.key_at (cq_heap s) b) \<and> last_thread s' = last_thread s \<and> notify s' = notify s"
proof -
  obtain n where n: "load (cq_heap s) a = Some n" using a by (auto simp: detached_def)
  have a': "a \<noteq> 0" "\<And>x. a \<notin> set (L x)" using n a by (auto simp: detached_def)
  let ?h = "upd (cq_heap s) a (n\<lparr> cq_next := NULL \<rparr>)"
  note D = lists_okD [OF ok]
  show ?thesis
  proof (cases "L (Some t) = []")
    case True
    let ?s = "s\<lparr> cq_heap := ?h, conn_queue := (conn_queue s)(t := (conn_queue s t)\<lparr> cq_head := a, cq_tail := a \<rparr>) \<rparr>"
    have "lists_ok ?s (L(Some t := L (Some t) @ [a]))"
      by (rule lists_okI) (use D a' True in \<open>auto simp: heap_simps\<close>)
    moreover have "cq_push t a s = Some ?s" using n True D(4) [of t] by (simp add: cq_push_def heap_simps)
    moreover have "ql.key_at ?h b = ql.key_at (cq_heap s) b" for b using n by (simp add: conn_data_def)
    ultimately show ?thesis by fastforce
  next
    case False
    then obtain as l where as: "L (Some t) = as @ [l]" by (metis rev_exhaust)
    have p: "ql.path (cq_heap s) (cq_head (conn_queue s t)) (as @ [l]) NULL" using D(2) [of t] as by simp
    then obtain m where m: "load (cq_heap s) l = Some m" using ql.path_loaded by fastforce
    have l: "l \<noteq> 0" "l \<noteq> a" "l \<notin> set as" "\<And>x. x \<noteq> Some t \<Longrightarrow> l \<notin> set (L x)"
      using m a'(2) [of "Some t"] as ql.path_distinct [OF p] D(3) [of _ "Some t"] by auto
    let ?h' = "upd ?h l (m\<lparr> cq_next := a \<rparr>)"
    let ?s = "s\<lparr> cq_heap := ?h', conn_queue := (conn_queue s)(t := (conn_queue s t)\<lparr> cq_tail := a \<rparr>) \<rparr>"
    have "ql.path ?h (cq_head (conn_queue s t)) (as @ [l]) NULL" using p a'(2) [of "Some t"] as by simp
    then have "ql.path ?h' (cq_head (conn_queue s t)) (as @ [l]) a"
      by (rule ql.path_redirect) (use l m in \<open>auto simp: heap_simps\<close>)
    then have "ql.path ?h' (cq_head (conn_queue s t)) (as @ [l, a]) NULL"
      using ql.path_append [of ?h' _ "as @ [l]" "[a]" NULL] a'(1) l by (simp add: heap_simps)
    then have "lists_ok ?s (L(Some t := L (Some t) @ [a]))"
    proof (intro lists_okI)
      show "set ((L(Some t := L (Some t) @ [a])) x) \<inter> set ((L(Some t := L (Some t) @ [a])) y) = {}" if "x \<noteq> y" for x y
        by (rule disjoint_add [of L "[a]", OF _ _ _ that]) (use D a' in auto)
    qed (use D a' l as in \<open>auto simp: heap_simps\<close>)
    moreover have "cq_push t a s = Some ?s" using n m l as D(4) [of t] by (simp add: cq_push_def heap_simps)
    moreover have "ql.key_at ?h' b = ql.key_at (cq_heap s) b" for b using n m l by (simp add: ql.key_at_def heap_simps conn_data_def)
    ultimately show ?thesis by fastforce
  qed
qed

lemma cq_pop_spec:
  assumes ok: "lists_ok s L"
  shows "L (Some t) = [] \<Longrightarrow> cq_pop t s = Some (NULL, s)"
    and "L (Some t) = a # as \<Longrightarrow> a \<noteq> NULL \<and> (\<exists>s'. cq_pop t s = Some (a, s') \<and> lists_ok s' (L(Some t := as)) \<and> detached s' (L(Some t := as)) a \<and>
      cq_heap s' = cq_heap s \<and> last_thread s' = last_thread s \<and> notify s' = notify s)"
proof -
  note D = lists_okD [OF ok]
  show "cq_pop t s = Some (NULL, s)" if "L (Some t) = []" using D(2) [of t] that by (simp add: cq_pop_def)
  assume L: "L (Some t) = a # as"
  then obtain n where n: "load (cq_heap s) a = Some n" "cq_head (conn_queue s t) = a" "ql.path (cq_heap s) (cq_next n) as NULL"
    using D(2) [of t] by (auto split: option.splits)
  have a: "a \<noteq> 0" "a \<notin> set as" "\<And>x. x \<noteq> Some t \<Longrightarrow> a \<notin> set (L x)"
    using n(1) ql.path_distinct [OF D(2) [of t]] L D(3) [of _ "Some t"] by auto
  have e: "cq_next n = NULL \<longleftrightarrow> as = []" using n(3) ql.path_not_NULL [OF n(3)] by (cases as) auto
  let ?q = "(conn_queue s t)\<lparr> cq_head := cq_next n \<rparr>"
  let ?s = "s\<lparr> conn_queue := (conn_queue s)(t := if cq_next n = NULL then ?q\<lparr> cq_tail := NULL \<rparr> else ?q) \<rparr>"
  have sub: "set ((L(Some t := as)) x) \<subseteq> set (L x)" for x using L by auto
  have "lists_ok ?s (L(Some t := as))"
  proof (rule lists_okI)
    show "set ((L(Some t := as)) x) \<inter> set ((L(Some t := as)) y) = {}" if "x \<noteq> y" for x y
      using D(3) [OF that] sub [of x] sub [of y] by blast
  qed (use D n(3) e L in auto)
  moreover have "detached ?s (L(Some t := as)) a" using n(1) a by (simp add: detached_def)
  moreover have "cq_pop t s = Some (a, ?s)" using n a by (simp add: cq_pop_def)
  ultimately show "a \<noteq> NULL \<and> (\<exists>s'. cq_pop t s = Some (a, s') \<and> lists_ok s' (L(Some t := as)) \<and> detached s' (L(Some t := as)) a \<and>
      cq_heap s' = cq_heap s \<and> last_thread s' = last_thread s \<and> notify s' = notify s)" using a(1) by fastforce
qed

text \<open>A new block of entries: the first is returned, the others are the free list.\<close>

lemma cqi_new_block:
  assumes ok: "lists_ok s L" and empty: "cqi_freelist s = NULL"
  shows "\<exists>b h. cqi_new s = Some (b, s\<lparr> cq_heap := h, cqi_freelist := b + 1 \<rparr>) \<and> finite (dom (cells h)) \<and>
    (\<forall>a. if b \<le> a \<and> a < b + 64 then load (cq_heap s) a = None else load h a = load (cq_heap s) a) \<and>
    load h b \<noteq> None \<and> ql.path h (b + 1) [b + 1..<b + 64] NULL"
proof -
  note D = lists_okD [OF ok]
  define b where "b = alloc_block s (cells (cq_heap s))"
  have b: "b \<noteq> NULL" "\<And>i. i < 64 \<Longrightarrow> cells (cq_heap s) (b + i) = None"
    using D(5-7) by (auto simp: b_def ITEMS_PER_ALLOC_def)
  have new: "load (cq_heap s) a = None" if "b \<le> a" "a < b + 64" for a
    using b(2) [of "a - b"] that by (simp add: load_def)
  define h1 where "h1 = snd (malloc_block s)"
  have h1: "malloc_block s = (b, h1)" "finite (dom (cells h1))"
    "load h1 a = (if b \<le> a \<and> a < b + 64 then Some (junk (cq_heap s) a) else load (cq_heap s) a)" for a
    using b(1) D(7) by (auto simp: h1_def malloc_block_def Let_def b_def [symmetric] load_def ITEMS_PER_ALLOC_def dom_if dom_def
      intro: finite_subset [of _ "{b..<b + 64} \<union> dom (cells (cq_heap s))"])
  obtain h2 where h2: "link_items b 2 h1 = Some h2" "finite (dom (cells h2))"
    "\<And>a. load h2 a = (if b + 2 \<le> a + 1 \<and> a + 1 < b + 64 then map_option (cq_next_update (\<lambda>_. a + 1)) (load h1 a) else load h1 a)"
    using link_items_spec [of 2 b h1] h1(2,3) by (auto simp: ITEMS_PER_ALLOC_def)
  obtain n where n: "load h2 (b + 63) = Some n" using h1(3) [of "b + 63"] h2(3) [of "b + 63"] by simp
  let ?h = "upd h2 (b + 63) (n\<lparr> cq_next := NULL \<rparr>)"
  have "\<forall>a. if b \<le> a \<and> a < b + 64 then load (cq_heap s) a = None else load ?h a = load (cq_heap s) a"
    using new h1(3) h2(3) by (auto simp: heap_simps)
  moreover have "load ?h b \<noteq> None" using h2(3) [of b] h1(3) [of b] by (simp add: heap_simps)
  moreover have "ql.path ?h (b + 1) [b + 1..<b + 64] NULL"
  proof (rule path_range)
    show "\<forall>a. b + 1 \<le> a \<and> a < b + 64 \<longrightarrow> (\<exists>n. load ?h a = Some n \<and> cq_next n = (if a + 1 = b + 64 then NULL else a + 1))"
      using h2(3) h1(3) by (auto simp: heap_simps)
  qed simp
  moreover have "cqi_new s = Some (b, s\<lparr> cq_heap := ?h, cqi_freelist := b + 1 \<rparr>)"
    using empty h1(1) b(1) h2(1) n by (simp add: cqi_new_def heap_simps ITEMS_PER_ALLOC_def)
  moreover have "finite (dom (cells ?h))" using h2(2) by (simp add: heap_simps)
  ultimately show ?thesis by blast
qed

lemma cqi_new_spec:
  assumes ok: "lists_ok s L"
  shows "\<exists>a s' L'. cqi_new s = Some (a, s') \<and> lists_ok s' L' \<and> detached s' L' a \<and> (\<forall>t. L' (Some t) = L (Some t) \<and> contents s' L' t = contents s L t) \<and>
    last_thread s' = last_thread s \<and> notify s' = notify s"
proof (cases "cqi_freelist s = NULL")
  case False
  note D = lists_okD [OF ok]
  obtain as where as: "L None = cqi_freelist s # as" using False D(1) by (cases "L None") auto
  then obtain n where n: "load (cq_heap s) (cqi_freelist s) = Some n" "ql.path (cq_heap s) (cq_next n) as NULL"
    using D(1) by (auto split: option.splits)
  let ?s = "s\<lparr> cqi_freelist := cq_next n \<rparr>" and ?L = "L(None := as)"
  have "lists_ok ?s ?L"
  proof (rule lists_okI)
    show "set (?L x) \<inter> set (?L y) = {}" if "x \<noteq> y" for x y
      by (rule disjoint_add [of L "[]", OF _ _ _ that]) (use D as in auto)
  qed (use D n(2) in auto)
  moreover have "detached ?s ?L (cqi_freelist s)"
    using n(1) as ql.path_distinct [OF D(1)] D(3) [of None] by (fastforce simp: detached_def)
  moreover have "cqi_new s = Some (cqi_freelist s, ?s)" using False n by (simp add: cqi_new_def)
  ultimately show ?thesis by (intro exI [of _ "cqi_freelist s"] exI [of _ ?s] exI [of _ ?L]) simp
next
  case True
  note D = lists_okD [OF ok]
  obtain b h where new: "cqi_new s = Some (b, s\<lparr> cq_heap := h, cqi_freelist := b + 1 \<rparr>)" and fin: "finite (dom (cells h))"
    and cases: "\<And>a. if b \<le> a \<and> a < b + 64 then load (cq_heap s) a = None else load h a = load (cq_heap s) a"
    and b: "load h b \<noteq> None" and path: "ql.path h (b + 1) [b + 1..<b + 64] NULL"
    using cqi_new_block [OF ok True] by blast
  let ?L = "L(None := [b + 1..<b + 64])" and ?s = "s\<lparr> cq_heap := h, cqi_freelist := b + 1 \<rparr>"
  have out: "\<not> (b \<le> a \<and> a < b + 64)" and old: "load h a = load (cq_heap s) a" if "a \<in> set (L x)" for a x
  proof -
    have "\<exists>n. load (cq_heap s) a = Some n" using that D(1,2) ql.path_loaded by (cases x) blast+
    then show "\<not> (b \<le> a \<and> a < b + 64)" "load h a = load (cq_heap s) a" using cases [of a] by (auto split: if_splits)
  qed
  have frame: "ql.path h p (L x) q = ql.path (cq_heap s) p (L x) q" for p q x by (rule ql.path_frame) (rule old)
  have keys: "ql.keys_at h (L x) = ql.keys_at (cq_heap s) (L x)" for x by (rule ql.keys_at_frame) (rule old)
  have "lists_ok ?s ?L"
  proof (rule lists_okI)
    show "set (?L x) \<inter> set (?L y) = {}" if "x \<noteq> y" for x y
      by (rule disjoint_add [of L "[b + 1..<b + 64]", OF _ _ _ that]) (use D(3) out in fastforce)+
  qed (use D frame fin path in auto)
  moreover have "detached ?s ?L b" using b out [of b] by (auto simp: detached_def)
  ultimately show ?thesis using keys new by (intro exI [of _ b] exI [of _ ?s] exI [of _ ?L]) simp
qed

lemma cqi_new_no_memory:
  "cqi_freelist s = NULL \<Longrightarrow> alloc_block s (cells (cq_heap s)) = NULL \<Longrightarrow> cqi_new s = Some (NULL, s) \<and> dispatch_conn_new k c w s = None"
  by (simp add: cqi_new_def malloc_block_def Let_def dispatch_conn_new_def modify_eq split: prod.split)

subsection \<open>Every connection to its thread, in order\<close>

text \<open>\<open>Q t\<close> are the connections waiting for thread \<open>t\<close>.\<close>

definition queues_hold :: "dispatcher \<Rightarrow> (nat \<Rightarrow> connection list) \<Rightarrow> bool" where
  "queues_hold s Q \<longleftrightarrow> (\<exists>L. lists_ok s L \<and> (\<forall>t. contents s L t = Q t))"

definition outcome_of :: "(connection \<Rightarrow> bool) \<Rightarrow> connection \<Rightarrow> outcome" where
  "outcome_of conn_new c = (if conn_new c then Served c else if snd (snd (snd (snd c))) = udp_transport then Exited c else Closed c)"

lemma lists_ok_notify [simp]:
  "lists_ok (s\<lparr> notify := v \<rparr>) L = lists_ok s L" "lists_ok (s\<lparr> last_thread := k \<rparr>) L = lists_ok s L"
  by (simp_all add: lists_ok_def list_head_def cong: option.case_cong)

lemma queues_hold_notify [simp]: "queues_hold (s\<lparr> notify := v \<rparr>) Q = queues_hold s Q"
  by (simp add: queues_hold_def)

lemma detached_write:
  assumes ok: "lists_ok s L" and a: "detached s L a"
  shows "lists_ok (s\<lparr> cq_heap := upd (cq_heap s) a m \<rparr>) L" "detached (s\<lparr> cq_heap := upd (cq_heap s) a m \<rparr>) L a"
    "contents (s\<lparr> cq_heap := upd (cq_heap s) a m \<rparr>) L t = contents s L t" "ql.key_at (upd (cq_heap s) a m) a = conn_data m"
proof -
  have a': "a \<noteq> 0" "\<And>x. a \<notin> set (L x)" using a by (auto simp: detached_def)
  show "lists_ok (s\<lparr> cq_heap := upd (cq_heap s) a m \<rparr>) L" by (rule lists_okI) (use lists_okD [OF ok] a' in \<open>auto simp: heap_simps\<close>)
  show "detached (s\<lparr> cq_heap := upd (cq_heap s) a m \<rparr>) L a" using a' by (simp add: detached_def heap_simps)
  show "contents (s\<lparr> cq_heap := upd (cq_heap s) a m \<rparr>) L t = contents s L t"
    using a'(2) [of "Some t"] by (auto intro!: ql.key_at_frame simp: heap_simps)
  show "ql.key_at (upd (cq_heap s) a m) a = conn_data m" using a' by (simp add: ql.key_at_def heap_simps)
qed

lemma dispatch_step:
  assumes q: "queues_hold s Q" and n: "0 < n" "-1 \<le> last_thread s" and k: "k = nat (last_thread s + 1) mod nat n"
  shows "\<exists>s'. dispatch_conn_new n c w s = Some s' \<and> queues_hold s' (Q(k := Q k @ [c])) \<and> last_thread s' = int k \<and>
    notify s' = (if w then (notify s)(k := notify s k + 1) else notify s)"
proof -
  obtain fd st ev rbs tr where c: "c = (fd, st, ev, rbs, tr)" by (cases c)
  obtain L where L: "lists_ok s L" "\<And>t. contents s L t = Q t" using q by (auto simp: queues_hold_def)
  obtain a s1 L1 where s1: "cqi_new s = Some (a, s1)" "lists_ok s1 L1" "detached s1 L1 a" "\<And>t. contents s1 L1 t = Q t"
    "last_thread s1 = last_thread s" "notify s1 = notify s" using cqi_new_spec [OF L(1)] L(2) by metis
  have tid: "c_mod (last_thread s + 1) n = int k" using n k by (simp add: zmod_int)
  obtain m where m: "load (cq_heap s1) a = Some m" using s1(3) by (auto simp: detached_def)
  let ?m = "m\<lparr> sfd := fd, init_state := st, event_flags := ev, read_buffer_size := rbs, transport := tr \<rparr>"
  let ?s2 = "s1\<lparr> last_thread := int k, cq_heap := upd (cq_heap s1) a ?m \<rparr>"
  have s2: "lists_ok ?s2 L1" "detached ?s2 L1 a" "\<And>t. contents ?s2 L1 t = Q t" "ql.key_at (cq_heap ?s2) a = c"
    using detached_write [of "s1\<lparr> last_thread := int k \<rparr>" L1 a ?m] s1(2-4) by (simp_all add: conn_data_def c detached_def)
  obtain s3 where s3: "cq_push k a ?s2 = Some s3" "lists_ok s3 (L1(Some k := L1 (Some k) @ [a]))"
    "\<And>b. ql.key_at (cq_heap s3) b = ql.key_at (cq_heap ?s2) b" "last_thread s3 = int k" "notify s3 = notify s"
    using cq_push_spec [OF s2(1,2), of k] s1(6) by auto
  have "contents s3 (L1(Some k := L1 (Some k) @ [a])) t = (Q(k := Q k @ [c])) t" for t
    using s2(3) [of t] s2(4) unfolding s3(3) [abs_def] by auto
  then have "queues_hold s3 (Q(k := Q k @ [c]))" using s3(2) unfolding queues_hold_def by blast
  moreover have "dispatch_conn_new n c w s = Some (if w then s3\<lparr> notify := (notify s3)(k := notify s3 k + 1) \<rparr> else s3)"
    using s1(1,5) tid m s3(1) by (simp add: dispatch_conn_new_def c heap_simps)
  ultimately show ?thesis using s3(4,5) by auto
qed

lemma process_step:
  assumes q: "queues_hold s Q" and Q: "Q t = c # cs"
  shows "\<exists>s'. thread_libevent_process conn_new t s = Some (outcome_of conn_new c, s') \<and> last_thread s' = last_thread s \<and>
    notify s' = (notify s)(t := notify s t - 1) \<and> (\<not> is_exit (outcome_of conn_new c) \<longrightarrow> queues_hold s' (Q(t := cs)))"
proof -
  let ?s = "s\<lparr> notify := (notify s)(t := notify s t - 1) \<rparr>"
  obtain L where L: "lists_ok ?s L" "\<And>t. contents ?s L t = Q t" using q by (auto simp: queues_hold_def)
  obtain a as where a: "L (Some t) = a # as" "ql.key_at (cq_heap s) a = c" "ql.keys_at (cq_heap s) as = cs"
    using L(2) [of t] Q by auto
  obtain s1 where s1: "cq_pop t ?s = Some (a, s1)" "lists_ok s1 (L(Some t := as))" "detached s1 (L(Some t := as)) a"
    "cq_heap s1 = cq_heap s" "last_thread s1 = last_thread s" "notify s1 = notify ?s" "a \<noteq> NULL"
    using cq_pop_spec(2) [OF L(1) a(1)] by auto
  obtain m where m: "load (cq_heap s1) a = Some m" using s1(3) by (auto simp: detached_def)
  have c: "conn_data m = c" "transport m = snd (snd (snd (snd c)))" using m a(2) s1(4) by (auto simp: conn_data_def)
  obtain s2 where s2: "cqi_free a s1 = Some s2" "lists_ok s2 (L(Some t := as, None := a # L None))"
    "\<And>u. contents s2 (L(Some t := as)) u = contents s1 (L(Some t := as)) u" "last_thread s2 = last_thread s1" "notify s2 = notify s1"
    using cqi_free_spec [OF s1(2,3)] by auto
  have "contents s2 (L(Some t := as, None := a # L None)) u = (Q(t := cs)) u" for u
    using s2(3) [of u] L(2) [of u] s1(4) a(3) by (cases "u = t") (simp_all del: map_eq_conv)
  then have "queues_hold s2 (Q(t := cs))" using s2(2) unfolding queues_hold_def by blast
  then show ?thesis using s1 s2(1,4,5) m c by (simp add: thread_libevent_process_def outcome_of_def is_exit_def)
qed

fun outcome_conn :: "outcome \<Rightarrow> connection list" where
  "outcome_conn Nothing = []"
| "outcome_conn (Served c) = [c]"
| "outcome_conn (Closed c) = [c]"
| "outcome_conn (Exited c) = [c]"

text \<open>The connections thread \<open>t\<close> took from its queue, and the connections dispatched, with the fate of the wake-up byte.\<close>

definition taken :: "nat \<Rightarrow> (nat \<times> outcome) list \<Rightarrow> connection list" where
  "taken t rs = concat (map (\<lambda>(u, r). if u = t then outcome_conn r else []) rs)"

definition dispatched :: "dispatch_event list \<Rightarrow> (connection \<times> bool) list" where
  "dispatched es = concat (map (\<lambda>e. case e of Dispatch c w \<Rightarrow> [(c, w)] | Wake _ \<Rightarrow> []) es)"

definition assigned :: "nat \<Rightarrow> nat \<Rightarrow> nat \<Rightarrow> dispatch_event list \<Rightarrow> (connection \<times> bool) list" where
  "assigned n k t es = nths (dispatched es) {i. (i + k) mod n = t}"

lemma assigned_simps [simp]:
  "assigned n k t [] = []" "assigned n k t (Wake u # es) = assigned n k t es"
  "assigned n k t (Dispatch c w # es) = (if k mod n = t then [(c, w)] else []) @ assigned n (k mod n + 1) t es"
proof -
  have "Suc (i + k mod n) mod n = Suc (i + k) mod n" for i by (metis add_Suc mod_add_right_eq)
  then show "assigned n k t (Dispatch c w # es) = (if k mod n = t then [(c, w)] else []) @ assigned n (k mod n + 1) t es"
    by (simp add: assigned_def dispatched_def nths_Cons)
qed (simp_all add: assigned_def dispatched_def)

lemma outcome_of_conn [simp]: "outcome_conn (outcome_of conn_new c) = [c]"
  by (auto simp: outcome_of_def)

lemma taken_simps [simp]:
  "taken t [] = []" "taken t ((u, r) # rs) = (if u = t then outcome_conn r else []) @ taken t rs"
  by (simp_all add: taken_def)

definition exits :: "(nat \<times> outcome) list \<Rightarrow> bool" where
  "exits rs \<longleftrightarrow> list_ex (\<lambda>(_, r). is_exit r) rs"

text \<open>The number of connections whose wake-up byte was lost.\<close>

definition lost :: "(connection \<times> bool) list \<Rightarrow> nat" where
  "lost cws = length (filter (\<lambda>(_, w). \<not> w) cws)"

text \<open>What a run from \<open>s\<close>, with the connections \<open>Q\<close> waiting, has done.\<close>

definition run_result :: "int \<Rightarrow> dispatcher \<Rightarrow> (nat \<Rightarrow> connection list) \<Rightarrow> dispatch_event list \<Rightarrow> (nat \<times> outcome) list \<Rightarrow> dispatcher \<Rightarrow> bool" where
  "run_result n s Q es rs s' \<longleftrightarrow> (let as = (\<lambda>t. assigned (nat n) (nat (last_thread s + 1)) t es) in
     if exits rs then \<forall>t. \<exists>rest. taken t rs @ rest = Q t @ map fst (as t)
     else \<exists>Q'. queues_hold s' Q' \<and> (\<forall>t. taken t rs @ Q' t = Q t @ map fst (as t) \<and>
       length (Q' t) + notify s t = length (Q t) + notify s' t + lost (as t)))"

lemma run_result_dispatch:
  assumes "run_result n s1 (Q(k := Q k @ [c])) es rs s'" "last_thread s1 = int k" "k = nat (last_thread s + 1) mod nat n"
    "notify s1 = (if w then (notify s)(k := notify s k + 1) else notify s)"
  shows "run_result n s Q (Dispatch c w # es) rs s'"
proof (cases "exits rs")
  case True
  then have all: "\<exists>rest. taken t rs @ rest = (Q(k := Q k @ [c])) t @ map fst (assigned (nat n) (k + 1) t es)" for t
    using assms(1,2) by (simp add: run_result_def Let_def nat_add_distrib)
  have "\<exists>rest. taken t rs @ rest = Q t @ map fst (assigned (nat n) (nat (last_thread s + 1)) t (Dispatch c w # es))" for t
    using all [of t] by (cases "k = t") (simp_all add: assms(3) [symmetric])
  then show ?thesis using True by (simp add: run_result_def Let_def del: assigned_simps)
next
  case False
  let ?as = "\<lambda>t. assigned (nat n) (k + 1) t es"
  obtain Q' where Q': "queues_hold s' Q'" "\<And>t. taken t rs @ Q' t = (Q(k := Q k @ [c])) t @ map fst (?as t)"
    "\<And>t. length (Q' t) + notify s1 t = length ((Q(k := Q k @ [c])) t) + notify s' t + lost (?as t)"
    using assms(1,2) False by (auto simp: run_result_def Let_def nat_add_distrib)
  have "length (Q' t) + notify s t = length (Q t) + notify s' t + lost (assigned (nat n) (nat (last_thread s + 1)) t (Dispatch c w # es))" for t
    using Q'(3) [of t] assms(4) by (cases w; cases "k = t") (simp_all add: assms(3) [symmetric] lost_def)
  moreover have "taken t rs @ Q' t = Q t @ map fst (assigned (nat n) (nat (last_thread s + 1)) t (Dispatch c w # es))" for t
    using Q'(2) [of t] by (simp add: assms(3) [symmetric])
  ultimately show ?thesis using Q'(1) False by (auto simp: run_result_def Let_def)
qed

lemma run_result_wake:
  assumes "run_result n s1 (Q(t := cs)) es rs s'" "last_thread s1 = last_thread s" "Q t = c # cs" "notify s t \<noteq> 0"
    "notify s1 = (notify s)(t := notify s t - 1)" "\<not> is_exit (outcome_of conn_new c)"
  shows "run_result n s Q (Wake t # es) ((t, outcome_of conn_new c) # rs) s'"
proof -
  have ex: "exits ((t, outcome_of conn_new c) # rs) = exits rs" using assms(6) by (simp add: exits_def)
  show ?thesis
  proof (cases "exits rs")
    case True
    then have all: "\<exists>rest. taken u rs @ rest = (Q(t := cs)) u @ map fst (assigned (nat n) (nat (last_thread s + 1)) u es)" for u
      using assms(1,2) by (simp add: run_result_def Let_def)
    have "\<exists>rest. taken u ((t, outcome_of conn_new c) # rs) @ rest = Q u @ map fst (assigned (nat n) (nat (last_thread s + 1)) u es)" for u
      using all [of u] assms(3) by (cases "u = t") auto
    then show ?thesis using True ex by (simp add: run_result_def Let_def)
  next
    case False
    let ?as = "\<lambda>t. assigned (nat n) (nat (last_thread s + 1)) t es"
    obtain Q' where Q': "queues_hold s' Q'" "\<And>u. taken u rs @ Q' u = (Q(t := cs)) u @ map fst (?as u)"
      "\<And>u. length (Q' u) + notify s1 u = length ((Q(t := cs)) u) + notify s' u + lost (?as u)"
      using assms(1,2) False by (auto simp: run_result_def Let_def)
    have "length (Q' u) + notify s u = length (Q u) + notify s' u + lost (?as u)" for u
      using Q'(3) [of u] assms(3-5) by (cases "u = t") auto
    moreover have "taken u ((t, outcome_of conn_new c) # rs) @ Q' u = Q u @ map fst (?as u)" for u
      using Q'(2) [of u] assms(3) by auto
    ultimately show ?thesis using Q'(1) False ex by (simp del: taken_simps add: run_result_def Let_def) blast
  qed
qed

lemma dispatch_run_result:
  assumes "queues_hold s Q" "0 < n" "-1 \<le> last_thread s" "\<forall>t. notify s t \<le> length (Q t)"
  shows "\<exists>rs s'. dispatch_run n conn_new es s = Some (rs, s') \<and> run_result n s Q es rs s'"
  using assms
proof (induction n conn_new es s arbitrary: Q rule: dispatch_run.induct)
  case (1 n conn_new s)
  then show ?case by (auto simp: run_result_def exits_def lost_def)
next
  case (2 n conn_new c w es s)
  define k where "k = nat (last_thread s + 1) mod nat n"
  obtain s1 where s1: "dispatch_conn_new n c w s = Some s1" "queues_hold s1 (Q(k := Q k @ [c]))" "last_thread s1 = int k"
    "notify s1 = (if w then (notify s)(k := notify s k + 1) else notify s)"
    using dispatch_step [OF 2(2,3,4) k_def] by blast
  have le: "\<forall>t. notify s1 t \<le> length ((Q(k := Q k @ [c])) t)" and last: "-1 \<le> last_thread s1" using 2(5) s1(3,4) by (auto simp: le_SucI)
  obtain rs s' where "dispatch_run n conn_new es s1 = Some (rs, s')" "run_result n s1 (Q(k := Q k @ [c])) es rs s'"
    using 2(1) [OF s1(1) s1(2) 2(3) last le] by blast
  then show ?case using s1(1) run_result_dispatch [OF _ s1(3) k_def s1(4)] by auto
next
  case (3 n conn_new t es s)
  show ?case
  proof (cases "notify s t = 0")
    case True
    then show ?thesis using 3(1) [OF True 3(3-6)] by (simp add: run_result_def)
  next
    case False
    then obtain c cs where Q: "Q t = c # cs" using 3(6) by (cases "Q t") (auto dest: spec [of _ t])
    obtain s1 where s1: "thread_libevent_process conn_new t s = Some (outcome_of conn_new c, s1)" "last_thread s1 = last_thread s"
      "notify s1 = (notify s)(t := notify s t - 1)" "\<not> is_exit (outcome_of conn_new c) \<Longrightarrow> queues_hold s1 (Q(t := cs))"
      using process_step [OF 3(3) Q] by blast
    show ?thesis
    proof (cases "is_exit (outcome_of conn_new c)")
      case True
      have "\<exists>rest. taken u [(t, outcome_of conn_new c)] @ rest = Q u @ xs" for u xs using Q by (cases "u = t") auto
      moreover have "exits [(t, outcome_of conn_new c)]" using True by (simp add: exits_def)
      ultimately have "run_result n s Q (Wake t # es) [(t, outcome_of conn_new c)] s1" by (simp add: run_result_def Let_def del: taken_simps)
      then show ?thesis using False s1(1) True by simp
    next
      case nexit: False
      have le: "\<forall>u. notify s1 u \<le> length ((Q(t := cs)) u)" using 3(6) s1(3) Q by (auto dest: spec [of _ t])
      have "-1 \<le> last_thread s1" using s1(2) 3(5) by simp
      then obtain rs s' where run: "dispatch_run n conn_new es s1 = Some (rs, s')" "run_result n s1 (Q(t := cs)) es rs s'"
        using 3(2) [OF False s1(1) refl nexit s1(4) [OF nexit] 3(4) _ le] by blast
      show ?thesis using False s1(1) nexit run(1) run_result_wake [OF run(2) s1(2) Q False s1(3) nexit] by auto
    qed
  qed
qed

lemma thread_init_queues:
  assumes "\<forall>c. finite (dom c) \<longrightarrow> alloc c \<noteq> NULL \<and> (\<forall>i < ITEMS_PER_ALLOC. c (alloc c + i) = None)" "finite (dom (cells h))"
  shows "queues_hold (thread_init n h alloc) (\<lambda>_. [])" "last_thread (thread_init n h alloc) = -1" "notify (thread_init n h alloc) t = 0"
proof -
  let ?s = "\<lparr> cq_heap = h, alloc_block = alloc, cqi_freelist = NULL, conn_queue = (\<lambda>_. \<lparr> cq_head = NULL, cq_tail = NULL \<rparr>), last_thread = -1, notify = (\<lambda>_. 0) \<rparr>"
  have "cq_init t ?s = ?s" for t by (simp add: cq_init_def fun_upd_idem)
  then have "fold cq_init ts ?s = ?s" for ts by (induction ts) simp_all
  then have init: "thread_init n h alloc = ?s" by (simp add: thread_init_def)
  have "lists_ok ?s (\<lambda>_. [])" by (rule lists_okI) (use assms in auto)
  then show "queues_hold (thread_init n h alloc) (\<lambda>_. [])" unfolding init queues_hold_def by (intro exI [of _ "\<lambda>_. []"]) simp
  show "last_thread (thread_init n h alloc) = -1" "notify (thread_init n h alloc) t = 0" by (simp_all add: init)
qed

text \<open>C18: From the start of the server and for every run of dispatches and wake-ups in which \<open>malloc\<close> finds memory, no step
  fails, and the connections are served round-robin and first-come first-served: thread \<open>t\<close> has taken, in order, the connections
  number \<open>t\<close>, \<open>t + num_threads\<close>, \<open>t + 2 * num_threads\<close>, ... of those dispatched, and the rest of these is what its queue holds.
  The pipe of the thread has a byte for each waiting connection but those whose byte could not be written: with no lost byte, a
  thread with a waiting connection will be woken up, and each lost byte leaves one connection waiting. If \<open>exit\<close> ended the
  run, what was taken is an initial part.\<close>

theorem connections_dispatched:
  assumes "\<forall>c. finite (dom c) \<longrightarrow> alloc c \<noteq> NULL \<and> (\<forall>i < ITEMS_PER_ALLOC. c (alloc c + i) = None)" "finite (dom (cells h))" "0 < n"
  shows "\<exists>rs s'. dispatch_run n conn_new es (thread_init (nat n) h alloc) = Some (rs, s') \<and>
    (let mine = (\<lambda>t. nths (dispatched es) {i. i mod nat n = t}) in
      if exits rs then \<forall>t. \<exists>rest. taken t rs @ rest = map fst (mine t)
      else \<exists>Q. queues_hold s' Q \<and> (\<forall>t. taken t rs @ Q t = map fst (mine t) \<and> length (Q t) = notify s' t + lost (mine t)))"
proof -
  note init = thread_init_queues [OF assms(1,2), of "nat n"]
  obtain rs s' where run: "dispatch_run n conn_new es (thread_init (nat n) h alloc) = Some (rs, s')"
    "run_result n (thread_init (nat n) h alloc) (\<lambda>_. []) es rs s'"
    using dispatch_run_result [OF init(1) assms(3), of conn_new es] init(2,3) by auto
  then show ?thesis using init(2,3) by (cases "exits rs") (simp_all add: run_result_def Let_def assigned_def)
qed

text \<open>An allocator that always finds memory.\<close>

lemma block_alloc_ok:
  "\<forall>c. finite (dom c) \<longrightarrow> Suc (Max (insert 0 (dom c))) \<noteq> NULL \<and> (\<forall>i < ITEMS_PER_ALLOC. c (Suc (Max (insert 0 (dom c))) + i) = None)"
proof (intro allI impI conjI)
  fix c :: "addr \<rightharpoonup> 'a" and i
  assume "finite (dom c)"
  then have "a \<le> Max (insert 0 (dom c))" if "c a = Some n" for a n using that by (intro Max_ge) auto
  then show "c (Suc (Max (insert 0 (dom c))) + i) = None" by (cases "c (Suc (Max (insert 0 (dom c))) + i)") fastforce+
qed simp

theorem connections_dispatched_witness:
  "\<exists>rs s'. dispatch_run 2 (\<lambda>_. True) [Dispatch (5, conn_new_cmd, 2, 2048, tcp_transport) True, Dispatch (6, conn_new_cmd, 2, 2048, tcp_transport) False,
      Dispatch (7, conn_new_cmd, 2, 2048, tcp_transport) True, Wake 0]
    (thread_init 2 \<lparr> cells = Map.empty, policy = (\<lambda>_. 0), junk = (\<lambda>_. undefined) \<rparr> (\<lambda>c. Suc (Max (insert 0 (dom c))))) = Some (rs, s') \<and>
    (if exits rs then \<exists>rest. taken 0 rs @ rest = [(5, conn_new_cmd, 2, 2048, tcp_transport), (7, conn_new_cmd, 2, 2048, tcp_transport)]
     else \<exists>Q. queues_hold s' Q \<and> taken 0 rs @ Q 0 = [(5, conn_new_cmd, 2, 2048, tcp_transport), (7, conn_new_cmd, 2, 2048, tcp_transport)] \<and>
       length (Q 0) = notify s' 0 \<and> length (Q 1) = notify s' 1 + 1)"
proof -
  let ?es = "[Dispatch (5, conn_new_cmd, 2, 2048, tcp_transport) True, Dispatch (6, conn_new_cmd, 2, 2048, tcp_transport) False,
      Dispatch (7, conn_new_cmd, 2, 2048, tcp_transport) True, Wake 0]"
  let ?h = "\<lparr> cells = Map.empty, policy = (\<lambda>_. 0), junk = (\<lambda>_. undefined) \<rparr>" and ?alloc = "\<lambda>c :: addr \<rightharpoonup> cq_item. Suc (Max (insert 0 (dom c)))"
  have mine: "nths (dispatched ?es) {i. i mod 2 = 0} = [((5, conn_new_cmd, 2, 2048, tcp_transport), True), ((7, conn_new_cmd, 2, 2048, tcp_transport), True)]"
    "nths (dispatched ?es) {i. i mod 2 = 1} = [((6, conn_new_cmd, 2, 2048, tcp_transport), False)]"
    by (simp_all add: dispatched_def nths_Cons)
  have fin: "finite (dom (cells ?h))" and nat2: "nat 2 = 2" by simp_all
  obtain rs s' where run: "dispatch_run 2 (\<lambda>_. True) ?es (thread_init 2 ?h ?alloc) = Some (rs, s')"
    "if exits rs then \<forall>t. \<exists>rest. taken t rs @ rest = map fst (nths (dispatched ?es) {i. i mod 2 = t})
     else \<exists>Q. queues_hold s' Q \<and> (\<forall>t. taken t rs @ Q t = map fst (nths (dispatched ?es) {i. i mod 2 = t}) \<and>
       length (Q t) = notify s' t + lost (nths (dispatched ?es) {i. i mod 2 = t}))"
    using connections_dispatched [OF block_alloc_ok fin, of 2 "\<lambda>_. True" ?es, unfolded Let_def nat2, OF zero_less_numeral] by blast
  show ?thesis
  proof (cases "exits rs")
    case True
    then show ?thesis using run spec [of "\<lambda>t. \<exists>rest. taken t rs @ rest = map fst (nths (dispatched ?es) {i. i mod 2 = t})" 0] mine by simp
  next
    case False
    then obtain Q where Q: "queues_hold s' Q" "\<And>t. taken t rs @ Q t = map fst (nths (dispatched ?es) {i. i mod 2 = t})"
       "\<And>t. length (Q t) = notify s' t + lost (nths (dispatched ?es) {i. i mod 2 = t})" using run(2) by auto
    show ?thesis using run(1) False Q(1) Q(2) [of 0] Q(3) [of 0] Q(3) [of 1] unfolding mine by (auto simp: lost_def)
  qed
qed

end
